(* ===== verification/Prelude.thy ===== *)
theory Prelude
  imports Main "HOL-Library.Word" "HOL-Library.Monad_Syntax"
begin

text \<open>
  Shared vocabulary of the development: Rust's integer types and their saturating and
  wrapping operations, durations and instants, UTF-8 strings, \<open>Iterator::min_by\<close>, and
  the generic lemmas on lists and maps that several components use. Nothing here models a
  file of the repository; these are the parts of Rust's standard library the modelled
  files rely on.
\<close>

section \<open>Collections of facts\<close>

named_theorems rt_defs \<open>definitions of the route policy operations\<close>
named_theorems rt_frame \<open>which parts of the policy state an operation leaves alone\<close>
named_theorems rpm_defs \<open>definitions of the RPM admission operations\<close>

section \<open>Machine integers\<close>

text \<open>
  Fixed-width integers whose bits matter are words. Counters, clocks and token amounts of
  type \<open>u64\<close>/\<open>u32\<close> are natural numbers with the saturation or the wrap-around of the
  source written out; \<open>i32\<close>/\<open>i64\<close> configuration values are integers.
\<close>

type_synonym u8 = "8 word"
type_synonym u16 = "16 word"
type_synonym u32 = "32 word"
type_synonym u64 = "64 word"

definition u32_max :: nat where
  "u32_max = 2 ^ 32 - 1"

definition u64_max :: nat where
  "u64_max = 2 ^ 64 - 1"

text \<open>\<open>u64::saturating_add\<close>, \<open>u32::saturating_add\<close> and the wrapping \<open>+\<close> of a release build.\<close>

definition sat_add64 :: "nat \<Rightarrow> nat \<Rightarrow> nat" where
  "sat_add64 a b = min u64_max (a + b)"

definition sat_add32 :: "nat \<Rightarrow> nat \<Rightarrow> nat" where
  "sat_add32 a b = min u32_max (a + b)"

definition wrap_add64 :: "nat \<Rightarrow> nat \<Rightarrow> nat" where
  "wrap_add64 a b = (a + b) mod 2 ^ 64"

text \<open>\<open>value.max(0) as u32\<close> and \<open>value.max(0) as u64\<close> for a signed value.\<close>

definition clamp_nonneg :: "int \<Rightarrow> nat" where
  "clamp_nonneg v = nat (max v 0)"

lemma sat_add64_le [simp]: "sat_add64 a b \<le> u64_max"
  by (simp add: sat_add64_def)

lemma sat_add32_le [simp]: "sat_add32 a b \<le> u32_max"
  by (simp add: sat_add32_def)

lemma sat_add64_ge: "a \<le> u64_max \<Longrightarrow> a \<le> sat_add64 a b"
  by (simp add: sat_add64_def)

lemma sat_add64_exact: "a + b \<le> u64_max \<Longrightarrow> sat_add64 a b = a + b"
  by (simp add: sat_add64_def)

lemma sat_add32_exact: "a + b \<le> u32_max \<Longrightarrow> sat_add32 a b = a + b"
  by (simp add: sat_add32_def)

lemma wrap_add64_exact: "a + b \<le> u64_max \<Longrightarrow> wrap_add64 a b = a + b"
  by (simp add: wrap_add64_def u64_max_def)

lemma clamp_nonneg_pos: "0 \<le> v \<Longrightarrow> int (clamp_nonneg v) = v"
  by (simp add: clamp_nonneg_def)

subsection \<open>Bytes of a word\<close>

text \<open>\<open>from_le_bytes\<close> of a slice and the first \<open>k\<close> bytes of \<open>to_le_bytes\<close>.\<close>

unbundle bit_operations_syntax

fun from_le_bytes :: "u8 list \<Rightarrow> u64" where
  "from_le_bytes [] = 0"
| "from_le_bytes (b # bs) = ucast b OR push_bit 8 (from_le_bytes bs)"

fun to_le_bytes :: "nat \<Rightarrow> u64 \<Rightarrow> u8 list" where
  "to_le_bytes 0 w = []"
| "to_le_bytes (Suc k) w = ucast w # to_le_bytes k (drop_bit 8 w)"

lemma length_to_le_bytes [simp]: "length (to_le_bytes k w) = k"
  by (induction k arbitrary: w) simp_all

lemma from_to_le_bytes: "from_le_bytes (to_le_bytes k w) = take_bit (8 * k) w"
proof (induction k arbitrary: w)
  case 0
  show ?case by simp
next
  case (Suc k)
  show ?case unfolding to_le_bytes.simps from_le_bytes.simps Suc.IH
  proof (rule bit_word_eqI)
    fix n assume "n < LENGTH(64)"
    then show "bit ((ucast (ucast w :: u8) :: u64) OR push_bit 8 (take_bit (8 * k) (drop_bit 8 w))) n
        = bit (take_bit (8 * Suc k) w) n"
      by (cases "n < 8") (auto simp: bit_simps)
  qed
qed

lemma from_to_le_bytes_8: "from_le_bytes (to_le_bytes 8 w) = w"
  by (simp add: from_to_le_bytes take_bit_length_eq [where 'a = 64, simplified])

lemma unat_lt256: "unat (x::u8) < 256"
  using unsigned_less [of x, where 'a = nat] by simp

lemma unat_lt65536: "unat (x::u16) < 65536"
  using unsigned_less [of x, where 'a = nat] by simp

section \<open>Durations and instants\<close>

text \<open>
  A \<open>Duration\<close> is its whole number of nanoseconds, an \<open>Instant\<close> the nanoseconds since
  an arbitrary origin; \<open>Duration\<close> subtraction that the source saturates is subtraction on
  natural numbers.
\<close>

type_synonym duration = nat
type_synonym instant = nat

definition from_millis :: "nat \<Rightarrow> duration" where
  "from_millis ms = ms * 1000000"

definition as_millis :: "duration \<Rightarrow> nat" where
  "as_millis d = d div 1000000"

lemma as_millis_from_millis [simp]: "as_millis (from_millis ms) = ms"
  by (simp add: as_millis_def from_millis_def)

lemma as_millis_mono: "a \<le> b \<Longrightarrow> as_millis a \<le> as_millis b"
  by (simp add: as_millis_def div_le_mono)

text \<open>\<open>Duration::as_secs() + u64::from(subsec_nanos() != 0)\<close>.\<close>

definition ceil_secs :: "duration \<Rightarrow> nat" where
  "ceil_secs d = d div 1000000000 + (if d mod 1000000000 \<noteq> 0 then 1 else 0)"

lemma ceil_secs_le: "ceil_secs d \<le> k \<longleftrightarrow> d \<le> k * 1000000000"
proof -
  define q m where "q = d div 1000000000" and "m = d mod 1000000000"
  have d: "d = q * 1000000000 + m" by (simp add: q_def m_def)
  have m: "m < 1000000000" by (simp add: m_def)
  have "q + (if m \<noteq> 0 then 1 else 0) \<le> k \<longleftrightarrow> q * 1000000000 + m \<le> k * 1000000000"
    using m by (cases "m = 0") auto
  then show ?thesis unfolding ceil_secs_def d [symmetric] unfolding q_def m_def .
qed

section \<open>Results\<close>

text \<open>A \<open>Result<A, E>\<close> is \<open>'e + 'a\<close>, \<open>Inl\<close> the error; \<open>?\<close> is the bind.\<close>

definition res_bind :: "'e + 'a \<Rightarrow> ('a \<Rightarrow> 'e + 'b) \<Rightarrow> 'e + 'b" where
  "res_bind r f = (case r of Inl e \<Rightarrow> Inl e | Inr a \<Rightarrow> f a)"

lemma res_bind_simps [simp]:
  "res_bind (Inl e) f = Inl e" "res_bind (Inr a) f = f a"
  by (simp_all add: res_bind_def)

lemma res_bind_Inr_iff:
  "res_bind r f = Inr b \<longleftrightarrow> (\<exists>a. r = Inr a \<and> f a = Inr b)"
  by (cases r) simp_all

text \<open>\<open>Result::map_err\<close> and \<open>Option::ok_or\<close>.\<close>

definition map_err :: "('e \<Rightarrow> 'f) \<Rightarrow> 'e + 'a \<Rightarrow> 'f + 'a" where
  "map_err f r = (case r of Inl e \<Rightarrow> Inl (f e) | Inr a \<Rightarrow> Inr a)"

definition ok_or :: "'e \<Rightarrow> 'a option \<Rightarrow> 'e + 'a" where
  "ok_or e x = (case x of None \<Rightarrow> Inl e | Some a \<Rightarrow> Inr a)"

lemma map_err_simps [simp]: "map_err f (Inl e) = Inl (f e)" "map_err f (Inr a) = Inr a"
  by (simp_all add: map_err_def)

lemma map_err_Inr: "map_err f r = Inr a \<longleftrightarrow> r = Inr a"
  by (simp add: map_err_def split: sum.splits)

lemma ok_or_Inr: "ok_or e x = Inr a \<longleftrightarrow> x = Some a"
  by (simp add: ok_or_def split: option.splits)

section \<open>Iterators\<close>

text \<open>
  \<open>Iterator::min_by\<close> folds from the left and keeps the earlier element unless the
  comparison says it is greater, so among equal minima the first one wins.
\<close>

datatype ordering = Less | Equal | Greater

definition then_with :: "ordering \<Rightarrow> ordering \<Rightarrow> ordering" where
  "then_with a b = (if a = Equal then b else a)"

definition cmp :: "'a::linorder \<Rightarrow> 'a \<Rightarrow> ordering" where
  "cmp a b = (if a < b then Less else if a = b then Equal else Greater)"

fun min_by_from :: "('a \<Rightarrow> 'a \<Rightarrow> ordering) \<Rightarrow> 'a \<Rightarrow> 'a list \<Rightarrow> 'a" where
  "min_by_from c m [] = m"
| "min_by_from c m (x # xs) = min_by_from c (if c m x = Greater then x else m) xs"

fun min_by :: "('a \<Rightarrow> 'a \<Rightarrow> ordering) \<Rightarrow> 'a list \<Rightarrow> 'a option" where
  "min_by c [] = None"
| "min_by c (x # xs) = Some (min_by_from c x xs)"

lemma cmp_simps [simp]: "cmp a b = Equal \<longleftrightarrow> a = b" "cmp a b = Greater \<longleftrightarrow> b < a"
    "cmp a b = Less \<longleftrightarrow> a < b"
  by (auto simp: cmp_def)

lemma then_with_simps [simp]:
  "then_with Equal b = b" "then_with Less b = Less" "then_with Greater b = Greater"
  by (simp_all add: then_with_def)

lemma min_by_from_in: "min_by_from c m xs \<in> insert m (set xs)"
  by (induction xs arbitrary: m) (auto split: if_splits)

lemma min_by_in: "min_by c xs = Some x \<Longrightarrow> x \<in> set xs"
proof (cases xs)
  case (Cons a list)
  assume "min_by c xs = Some x"
  with Cons min_by_from_in [of c a list] show ?thesis by auto
qed simp

lemma min_by_None [simp]: "min_by c xs = None \<longleftrightarrow> xs = []"
  by (cases xs) auto

text \<open>
  If the comparison looks first at a key in a linear order, the chosen element has the
  least key of all, whatever the rest of the comparison does (it need not even be
  transitive, as the \<open>unwrap_or(Equal)\<close> on a partial float order is not).
\<close>

lemma min_by_from_key:
  assumes "\<And>a b. c a b = then_with (cmp (k a) (k b)) (r a b)"
  shows "\<forall>y \<in> insert m (set xs). k (min_by_from c m xs) \<le> (k y :: 'k::linorder)"
proof (induction xs arbitrary: m)
  case Nil
  show ?case by simp
next
  case (Cons x xs)
  let ?m = "if c m x = Greater then x else m"
  have le: "k ?m \<le> k m \<and> k ?m \<le> k x"
    using assms [of m x] by (auto simp: then_with_def cmp_def split: if_splits)
  have IH: "k (min_by_from c ?m xs) \<le> k y" if "y \<in> insert ?m (set xs)" for y
    using Cons [of ?m] that by blast
  have "k (min_by_from c ?m xs) \<le> k ?m" by (rule IH) simp
  with le have "k (min_by_from c ?m xs) \<le> k m" "k (min_by_from c ?m xs) \<le> k x"
    by (blast intro: order_trans)+
  with IH show ?case by (simp del: if_split)
qed

lemma min_by_key:
  assumes "min_by c xs = Some x" and "\<And>a b. c a b = then_with (cmp (k a) (k b)) (r a b)"
    and "y \<in> set xs"
  shows "k x \<le> (k y :: 'k::linorder)"
proof (cases xs)
  case (Cons a list)
  with assms(1,3) min_by_from_key [of c k r a list, OF assms(2)] show ?thesis by auto
qed (use assms(3) in simp)

section \<open>Lists and maps\<close>

text \<open>\<open>HashMap\<close> built by \<open>collect\<close> from a sequence of pairs: the last pair of a key wins.\<close>

definition collect_map :: "('k \<times> 'v) list \<Rightarrow> 'k \<rightharpoonup> 'v" where
  "collect_map ps = map_of (rev ps)"

lemma collect_map_Some: "collect_map ps k = Some v \<Longrightarrow> (k, v) \<in> set ps"
  by (auto simp: collect_map_def dest: map_of_SomeD)

text \<open>\<open>Vec::remove(index)\<close>.\<close>

definition remove_at :: "nat \<Rightarrow> 'a list \<Rightarrow> 'a list" where
  "remove_at i xs = take i xs @ drop (Suc i) xs"

lemma length_remove_at: "i < length xs \<Longrightarrow> length (remove_at i xs) = length xs - 1"
  by (simp add: remove_at_def)

lemma set_remove_at: "set (remove_at i xs) \<subseteq> set xs"
  by (auto simp: remove_at_def dest: in_set_takeD in_set_dropD)

section \<open>Strings\<close>

text \<open>
  A \<open>String\<close> is the list of its UTF-8 bytes. \<open>str::trim\<close> strips the characters of the
  Unicode property \<open>White_Space\<close>, listed here by their encodings.
\<close>

definition whitespace :: "string list" where
  "whitespace =
     [[CHR 0x09], [CHR 0x0A], [CHR 0x0B], [CHR 0x0C], [CHR 0x0D], [CHR 0x20],
      [CHR 0xC2, CHR 0x85], [CHR 0xC2, CHR 0xA0], [CHR 0xE1, CHR 0x9A, CHR 0x80]]
     @ map (\<lambda>b. [CHR 0xE2, CHR 0x80, b])
         [CHR 0x80, CHR 0x81, CHR 0x82, CHR 0x83, CHR 0x84, CHR 0x85, CHR 0x86, CHR 0x87,
          CHR 0x88, CHR 0x89, CHR 0x8A, CHR 0xA8, CHR 0xA9, CHR 0xAF]
     @ [[CHR 0xE2, CHR 0x81, CHR 0x9F], [CHR 0xE3, CHR 0x80, CHR 0x80]]"

definition is_prefix_of :: "'a list \<Rightarrow> 'a list \<Rightarrow> bool" where
  "is_prefix_of p s = (take (length p) s = p)"

definition is_suffix_of :: "'a list \<Rightarrow> 'a list \<Rightarrow> bool" where
  "is_suffix_of p s = is_prefix_of (rev p) (rev s)"

fun strip_fuel :: "nat \<Rightarrow> string list \<Rightarrow> string \<Rightarrow> string" where
  "strip_fuel 0 ws s = s"
| "strip_fuel (Suc n) ws s =
     (case find (\<lambda>w. is_prefix_of w s) ws of
        None \<Rightarrow> s
      | Some w \<Rightarrow> strip_fuel n ws (drop (length w) s))"

definition trim_start :: "string \<Rightarrow> string" where
  "trim_start s = strip_fuel (length s) whitespace s"

definition trim_end :: "string \<Rightarrow> string" where
  "trim_end s = rev (strip_fuel (length s) (map rev whitespace) (rev s))"

definition trim :: "string \<Rightarrow> string" where
  "trim s = trim_end (trim_start s)"

definition ascii_lower :: "char \<Rightarrow> char" where
  "ascii_lower c = (let n = of_char c :: nat in if 65 \<le> n \<and> n \<le> 90 then char_of (n + 32) else c)"

definition to_ascii_lowercase :: "string \<Rightarrow> string" where
  "to_ascii_lowercase s = map ascii_lower s"

fun contains :: "'a list \<Rightarrow> 'a list \<Rightarrow> bool" where
  "contains s pat = (is_prefix_of pat s \<or> (case s of [] \<Rightarrow> False | _ # t \<Rightarrow> contains t pat))"

declare contains.simps [simp del]

subsection \<open>Decimal numbers\<close>

text \<open>\<open>Display\<close> of an unsigned integer.\<close>

definition digit_char :: "nat \<Rightarrow> char" where
  "digit_char d = char_of (48 + d)"

fun show_nat :: "nat \<Rightarrow> string" where
  "show_nat n = (if n < 10 then [digit_char n] else show_nat (n div 10) @ [digit_char (n mod 10)])"

declare show_nat.simps [simp del]

lemma show_nat_small: "n < 10 \<Longrightarrow> show_nat n = [digit_char n]"
  by (subst show_nat.simps) simp

definition digit_val :: "char \<Rightarrow> nat" where
  "digit_val c = of_char c - 48"

lemma digit_val_char [simp]: "d < 10 \<Longrightarrow> digit_val (digit_char d) = d"
  by (simp add: digit_val_def digit_char_def)

definition read_nat :: "string \<Rightarrow> nat" where
  "read_nat s = foldl (\<lambda>a c. 10 * a + digit_val c) 0 s"

lemma read_show_nat [simp]: "read_nat (show_nat n) = n"
proof (induction n rule: show_nat.induct)
  case (1 n)
  then show ?case by (subst show_nat.simps) (auto simp: read_nat_def)
qed

lemma show_nat_inj: "show_nat a = show_nat b \<longleftrightarrow> a = b"
  by (metis read_show_nat)

lemma show_nat_digits: "c \<in> set (show_nat n) \<Longrightarrow> c \<noteq> CHR '':''"
proof (induction n rule: show_nat.induct)
  case (1 n)
  have colon: "d < 10 \<Longrightarrow> digit_char d \<noteq> CHR '':''" for d
  proof
    assume "d < 10" "digit_char d = CHR '':''"
    then have "of_char (digit_char d) = (of_char (CHR '':'') :: nat)" by simp
    with \<open>d < 10\<close> show False by (simp add: digit_char_def)
  qed
  show ?case
  proof (cases "n < 10")
    case True
    with "1.prems" colon [of n] show ?thesis by (simp add: show_nat.simps [of n])
  next
    case False
    with "1.prems" "1.IH" colon [of "n mod 10"] show ?thesis
      by (auto simp: show_nat.simps [of n])
  qed
qed

text \<open>A separator that does not occur in the left parts splits a concatenation uniquely.\<close>

lemma sep_split_eq:
  assumes "x \<notin> set a" "x \<notin> set a'"
  shows "a @ x # b = a' @ x # b' \<longleftrightarrow> a = a' \<and> b = b'"
proof
  assume eq: "a @ x # b = a' @ x # b'"
  have tw: "takeWhile (\<lambda>y. y \<noteq> x) (c @ x # d) = c" if "x \<notin> set c" for c d
    using that by (induction c) auto
  have "takeWhile (\<lambda>y. y \<noteq> x) (a @ x # b) = a" "takeWhile (\<lambda>y. y \<noteq> x) (a' @ x # b') = a'"
    using assms by (simp_all only: tw not_False_eq_True)
  with eq have "a = a'" by simp
  with eq show "a = a' \<and> b = b'" by simp
qed simp

end
