(* ===== verification/Thinking.thy ===== *)
theory Thinking
  imports Prelude "HOL-Library.Char_ord"
begin

text \<open>
  Thinking levels and their mapping onto a target's controls
  (\<open>stravia-runtime-contract/src/thinking.rs\<close>, \<open>stravia-core/src/thinking.rs\<close>): the seven
  levels in their order, reading and printing them, clamping a level to what a model
  supports, choosing a level from a token budget, and generating and refreshing the
  level map of a route target.
\<close>

section \<open>Levels\<close>

datatype thinking_level = Off | Minimal | Low | Medium | High | Xhigh | Max

fun level_rank :: "thinking_level \<Rightarrow> nat" where
  "level_rank Off = 0"
| "level_rank Minimal = 1"
| "level_rank Low = 2"
| "level_rank Medium = 3"
| "level_rank High = 4"
| "level_rank Xhigh = 5"
| "level_rank Max = 6"

lemma level_rank_inj: "level_rank a = level_rank b \<longleftrightarrow> a = b"
  by (cases a; cases b) simp_all

text \<open>The derived \<open>Ord\<close>: declaration order.\<close>

instantiation thinking_level :: linorder
begin

definition less_eq_thinking_level :: "thinking_level \<Rightarrow> thinking_level \<Rightarrow> bool" where
  "a \<le> b \<longleftrightarrow> level_rank a \<le> level_rank b"

definition less_thinking_level :: "thinking_level \<Rightarrow> thinking_level \<Rightarrow> bool" where
  "a < b \<longleftrightarrow> level_rank a < level_rank b"

instance
  by standard
    (auto simp: less_eq_thinking_level_def less_thinking_level_def level_rank_inj)

end

definition all_levels :: "thinking_level list" where
  "all_levels = [Off, Minimal, Low, Medium, High, Xhigh, Max]"

fun as_str :: "thinking_level \<Rightarrow> string" where
  "as_str Off = ''off''"
| "as_str Minimal = ''minimal''"
| "as_str Low = ''low''"
| "as_str Medium = ''medium''"
| "as_str High = ''high''"
| "as_str Xhigh = ''xhigh''"
| "as_str Max = ''max''"

definition from_wire :: "string \<Rightarrow> string + thinking_level" where
  "from_wire value =
     (let s = to_ascii_lowercase (trim value)
      in if s = ''off'' \<or> s = ''none'' then Inr Off
         else if s = ''minimal'' then Inr Minimal
         else if s = ''low'' then Inr Low
         else if s = ''medium'' then Inr Medium
         else if s = ''high'' then Inr High
         else if s = ''xhigh'' then Inr Xhigh
         else if s = ''max'' then Inr Max
         else Inl (''unsupported Thinking Level: '' @ value))"

definition clamp :: "thinking_level \<Rightarrow> thinking_level list \<Rightarrow> thinking_level option" where
  "clamp self supported =
     (if self \<in> set supported then Some self
      else case find (\<lambda>level. level \<in> set supported) (filter (\<lambda>level. self < level) all_levels) of
             Some level \<Rightarrow> Some level
           | None \<Rightarrow>
               find (\<lambda>level. level \<in> set supported) (filter (\<lambda>level. level < self) (rev all_levels)))"

definition rungs :: "(nat \<times> thinking_level) list" where
  "rungs = [(1024, Minimal), (2048, Low), (8192, Medium), (16384, High)]"

text \<open>\<open>u32::abs_diff\<close>; the sort key is the distance, then the larger rung first.\<close>

definition abs_diff :: "nat \<Rightarrow> nat \<Rightarrow> nat" where
  "abs_diff a b = (if a < b then b - a else a - b)"

definition rung_cmp :: "nat \<Rightarrow> nat \<times> thinking_level \<Rightarrow> nat \<times> thinking_level \<Rightarrow> ordering" where
  "rung_cmp budget x y =
     then_with (cmp (abs_diff budget (fst x)) (abs_diff budget (fst y))) (cmp (fst y) (fst x))"

definition from_budget :: "nat \<Rightarrow> thinking_level" where
  "from_budget budget =
     (if budget = 0 then Off
      else case min_by (rung_cmp budget) rungs of
             Some (_, level) \<Rightarrow> level
           | None \<Rightarrow> High)"

section \<open>Controls and level maps\<close>

datatype target_control = Effort string | Budget nat | Enabled | Disabled | Hidden

fun is_hidden :: "target_control \<Rightarrow> bool" where
  "is_hidden Hidden = True"
| "is_hidden _ = False"

fun control_kind :: "target_control \<Rightarrow> string" where
  "control_kind (Effort _) = ''effort''"
| "control_kind (Budget _) = ''budget''"
| "control_kind Enabled = ''enabled''"
| "control_kind Disabled = ''disabled''"
| "control_kind Hidden = ''hidden''"

datatype mapping_source = Generated | Overridden

record level_mapping =
  level :: thinking_level
  control :: target_control
  source :: mapping_source

definition generated :: "thinking_level \<Rightarrow> target_control \<Rightarrow> level_mapping" where
  "generated l c = \<lparr>level = l, control = c, source = Generated\<rparr>"

text \<open>
  The array of flags that \<open>effort_map\<close> fills is a list of seven booleans updated in place.
\<close>

definition effort_index :: "string \<Rightarrow> nat option" where
  "effort_index value =
     (if value = ''none'' then Some 0
      else if value = ''minimal'' then Some 1
      else if value = ''low'' then Some 2
      else if value = ''medium'' then Some 3
      else if value = ''high'' then Some 4
      else if value = ''xhigh'' then Some 5
      else if value = ''max'' then Some 6
      else None)"

fun effort_flags :: "bool list \<Rightarrow> string list \<Rightarrow> bool list" where
  "effort_flags supported [] = supported"
| "effort_flags supported (value # values) =
     (case effort_index value of
        None \<Rightarrow> effort_flags supported values
      | Some index \<Rightarrow> effort_flags (supported[index := True]) values)"

definition effort_control :: "thinking_level \<Rightarrow> bool \<Rightarrow> target_control" where
  "effort_control l supported =
     (if supported then Effort (if l = Off then ''none'' else as_str l) else Hidden)"

definition effort_map :: "string list \<Rightarrow> level_mapping list" where
  "effort_map values =
     map (\<lambda>(l, supported). generated l (effort_control l supported))
       (zip all_levels (effort_flags (replicate (length all_levels) False) values))"

text \<open>The argument is the metadata's \<open>reasoning_efforts\<close>.\<close>

definition generate_level_map :: "string list option \<Rightarrow> level_mapping list" where
  "generate_level_map reasoning_efforts =
     effort_map (case reasoning_efforts of None \<Rightarrow> [] | Some v \<Rightarrow> v)"

text \<open>
  \<open>refresh_generated_thinking_level_map\<close> rewrites the slice in place and stops at the first
  error. The rows before the failing one are already rewritten then, so an error carries
  the slice as it was left.
\<close>

fun refresh_map :: "level_mapping list \<Rightarrow> level_mapping list
    \<Rightarrow> (level_mapping list \<times> string) + (level_mapping list \<times> bool)" where
  "refresh_map [] gen = Inr ([], False)"
| "refresh_map (row # rows) gen =
     (let continue_with = (\<lambda>row' changed.
        case refresh_map rows gen of
          Inl (rows', e) \<Rightarrow> Inl (row' # rows', e)
        | Inr (rows', c) \<Rightarrow> Inr (row' # rows', changed \<or> c))
      in if source row \<noteq> Generated then continue_with row False
         else case find (\<lambda>candidate. level candidate = level row) gen of
                None \<Rightarrow> Inl (row # rows, ''generated Thinking Level Map is incomplete'')
              | Some replacement \<Rightarrow>
                  if source replacement \<noteq> Generated
                  then Inl (row # rows, ''replacement Thinking Level Mapping must be generated'')
                  else if row \<noteq> replacement then continue_with replacement True
                  else continue_with row False)"

fun model_declares_control :: "string list option \<Rightarrow> bool \<Rightarrow> target_control \<Rightarrow> bool" where
  "model_declares_control efforts toggle Hidden = True"
| "model_declares_control efforts toggle Enabled = toggle"
| "model_declares_control efforts toggle Disabled = toggle"
| "model_declares_control efforts toggle (Effort value) =
     (\<exists>candidate \<in> set (case efforts of None \<Rightarrow> [] | Some v \<Rightarrow> v).
        to_ascii_lowercase candidate = to_ascii_lowercase value)"
| "model_declares_control efforts toggle (Budget _) = False"

section \<open>Lemmas\<close>

lemma all_levels_complete [simp]: "l \<in> set all_levels"
  by (cases l) (simp_all add: all_levels_def)

lemma all_levels_strict_sorted: "sorted_wrt (<) all_levels"
  by (simp add: all_levels_def less_thinking_level_def)

lemma find_first_sorted:
  assumes "find P xs = Some x" "sorted_wrt R xs" "y \<in> set xs" "P y"
  shows "x = y \<or> R x y"
  using assms by (induction xs) (auto split: if_splits)

lemma find_filter_above:
  assumes "find (\<lambda>l. l \<in> S) (filter (\<lambda>l. self < l) all_levels) = Some x" "y \<in> S" "self < y"
  shows "x \<le> y"
  using find_first_sorted [OF assms(1) sorted_wrt_filter [OF all_levels_strict_sorted], of y] assms(2,3)
  by auto

lemma find_filter_below:
  assumes "find (\<lambda>l. l \<in> S) (filter (\<lambda>l. l < self) (rev all_levels)) = Some x" "y \<in> S" "y < self"
  shows "y \<le> x"
proof -
  have "sorted_wrt (>) (rev all_levels)"
    using all_levels_strict_sorted by (simp add: sorted_wrt_rev)
  from find_first_sorted [OF assms(1) sorted_wrt_filter [OF this], of y] assms(2,3)
  show ?thesis by auto
qed

lemma rung_nearer: "r < s \<Longrightarrow> rung_cmp b (r, x) (s, y) = Greater \<longleftrightarrow> r + s \<le> 2 * b"
  by (auto simp: rung_cmp_def then_with_def cmp_def abs_diff_def)

lemma from_budget_bands:
  "from_budget b =
     (if b = 0 then Off else if b < 1536 then Minimal else if b < 5120 then Low
      else if b < 12288 then Medium else High)"
  by (simp add: from_budget_def rungs_def rung_nearer)

lemma length_effort_flags [simp]: "length (effort_flags fs vs) = length fs"
  by (induction vs arbitrary: fs) (auto split: option.splits)

lemma effort_index_less: "effort_index v = Some i \<Longrightarrow> i < 7"
  by (auto simp: effort_index_def split: if_splits)

lemma effort_flags_nth:
  assumes "length fs = 7" "i < 7"
  shows "effort_flags fs vs ! i \<longleftrightarrow> fs ! i \<or> (\<exists>v \<in> set vs. effort_index v = Some i)"
  using assms(1)
proof (induction vs arbitrary: fs)
  case Nil
  then show ?case by simp
next
  case (Cons v vs)
  show ?case
  proof (cases "effort_index v")
    case None
    with Cons show ?thesis by auto
  next
    case (Some j)
    with Cons.IH [of "fs[j := True]"] Cons.prems assms(2) effort_index_less [OF Some]
    show ?thesis by (auto simp: nth_list_update)
  qed
qed


lemma effort_index_level: "effort_index v = Some (level_rank l) \<longleftrightarrow> v = (if l = Off then ''none'' else as_str l)"
  by (cases l) (auto simp: effort_index_def split: if_splits)

lemma all_levels_rank: "i < 7 \<Longrightarrow> level_rank (all_levels ! i) = i"
  by (auto simp: all_levels_def numeral_eq_Suc less_Suc_eq)

section \<open>Properties\<close>

text \<open>
  Clamping a level to the supported ones returns the level itself when it is supported,
  otherwise the least supported level above it, otherwise the greatest one below it, and
  nothing exactly when no level is supported.
\<close>

theorem clamp_correct:
  "clamp self supported =
     (let above = {l \<in> set supported. self < l}; below = {l \<in> set supported. l < self}
      in if self \<in> set supported then Some self
         else if above \<noteq> {} then Some (Min above)
         else if below \<noteq> {} then Some (Lattices_Big.linorder_class.Max below)
         else None)"
proof -
  let ?up = "find (\<lambda>l. l \<in> set supported) (filter (\<lambda>l. self < l) all_levels)"
  let ?down = "find (\<lambda>l. l \<in> set supported) (filter (\<lambda>l. l < self) (rev all_levels))"
  have up_None: "?up = None \<longleftrightarrow> {l \<in> set supported. self < l} = {}"
    and down_None: "?down = None \<longleftrightarrow> {l \<in> set supported. l < self} = {}"
    by (auto simp: find_None_iff)
  have up: "x = Min {l \<in> set supported. self < l}" if "?up = Some x" for x
  proof (rule Min_eqI [symmetric])
    show "x \<in> {l \<in> set supported. self < l}"
      using that by (auto simp: find_Some_iff dest: nth_mem)
  qed (use find_filter_above [OF that] in auto)
  have down: "x = Lattices_Big.linorder_class.Max {l \<in> set supported. l < self}"
    if "?down = Some x" for x
  proof (rule Max_eqI [symmetric])
    show "x \<in> {l \<in> set supported. l < self}"
      using that by (auto simp: find_Some_iff dest: nth_mem)
  qed (use find_filter_below [OF that] in auto)
  show ?thesis
    using up down up_None down_None by (auto simp: clamp_def Let_def split: option.splits)
qed

text \<open>
  The level chosen from a token budget never drops when the budget grows, although it
  is chosen by distance to fixed rungs with ties broken upwards.
\<close>

theorem from_budget_mono: "b \<le> b' \<Longrightarrow> from_budget b \<le> from_budget b'"
  by (auto simp: from_budget_bands less_eq_thinking_level_def)

theorem from_budget_mono_witness:
  "(1536::nat) \<le> 5120 \<and> from_budget 1536 \<le> from_budget 5120 \<and> from_budget 1536 = Low"
  using from_budget_mono [of 1536 5120] by (simp add: from_budget_bands)

text \<open>
  The generated level map has one generated row per level, in level order; a row offers
  the level's own effort exactly when the model lists that effort, and is hidden otherwise.
\<close>

theorem effort_map_correct:
  "effort_map values =
     map (\<lambda>l. let effort = (if l = Off then ''none'' else as_str l)
              in generated l (if effort \<in> set values then Effort effort else Hidden)) all_levels"
proof (rule nth_equalityI)
  have len: "length all_levels = 7" by (simp add: all_levels_def)
  then show "length (effort_map values) = length (map (\<lambda>l. let effort = (if l = Off then ''none'' else as_str l)
              in generated l (if effort \<in> set values then Effort effort else Hidden)) all_levels)"
    by (simp add: effort_map_def)
  fix i
  assume "i < length (effort_map values)"
  then have i: "i < 7" by (simp add: effort_map_def len)
  let ?l = "all_levels ! i"
  have "effort_flags (replicate 7 False) values ! i
      \<longleftrightarrow> (if ?l = Off then ''none'' else as_str ?l) \<in> set values"
    using i effort_index_level [of _ ?l] by (simp add: effort_flags_nth all_levels_rank del: effort_flags.simps)
  then show "effort_map values ! i = map (\<lambda>l. let effort = (if l = Off then ''none'' else as_str l)
              in generated l (if effort \<in> set values then Effort effort else Hidden)) all_levels ! i"
    using i by (simp add: effort_map_def len effort_control_def Let_def)
qed

lemma refresh_map_ConsD:
  "refresh_map (row # rows) gen = Inr (rs, ch) \<Longrightarrow>
   \<exists>row' rows' c. rs = row' # rows' \<and> refresh_map rows gen = Inr (rows', c)
     \<and> ch = (row' \<noteq> row \<or> c)
     \<and> (if source row = Generated then find (\<lambda>c. level c = level row) gen = Some row'
        else row' = row)"
  by (cases "refresh_map rows gen"; cases "find (\<lambda>c. level c = level row) gen")
    (auto simp: Let_def split: if_splits)

declare refresh_map.simps(2) [simp del]

text \<open>
  Refreshing a level map that succeeds keeps every level and every overridden row,
  reports a change exactly when some row changed, and leaves each generated row equal to
  the generated map's row for its level.
\<close>

theorem refresh_map_correct:
  "refresh_map rows gen = Inr (rows', changed) \<Longrightarrow>
   list_all2 (\<lambda>row row'. level row' = level row
       \<and> (if source row = Generated then find (\<lambda>c. level c = level row) gen = Some row'
          else row' = row)) rows rows'
   \<and> (changed \<longleftrightarrow> rows' \<noteq> rows)"
proof (induction rows arbitrary: rows' changed)
  case Nil
  then show ?case by simp
next
  case (Cons row rows)
  from refresh_map_ConsD [OF Cons.prems] obtain row' rest c where
    r: "rows' = row' # rest" "refresh_map rows gen = Inr (rest, c)" "changed = (row' \<noteq> row \<or> c)"
      "if source row = Generated then find (\<lambda>c. level c = level row) gen = Some row' else row' = row"
    by blast
  have "level row' = level row"
    using r(4) by (auto simp: find_Some_iff split: if_splits)
  with r Cons.IH [OF r(2)] show ?case by simp
qed

theorem refresh_map_correct_witness:
  "refresh_map [generated Low Hidden, \<lparr>level = High, control = Budget 9, source = Overridden\<rparr>]
      (effort_map [''low'']) =
     Inr ([generated Low (Effort ''low''), \<lparr>level = High, control = Budget 9, source = Overridden\<rparr>], True)
   \<and> [generated Low (Effort ''low''), \<lparr>level = High, control = Budget 9, source = Overridden\<rparr>]
       \<noteq> [generated Low Hidden, \<lparr>level = High, control = Budget 9, source = Overridden\<rparr>]"
proof -
  let ?in = "[generated Low Hidden, \<lparr>level = High, control = Budget 9, source = Overridden\<rparr>]"
  let ?out = "[generated Low (Effort ''low''), \<lparr>level = High, control = Budget 9, source = Overridden\<rparr>]"
  have run: "refresh_map ?in (effort_map [''low'']) = Inr (?out, True)" by code_simp
  with refresh_map_correct [OF run] show ?thesis by simp
qed

end
