(* ===== verification/ProtocolIds.thy ===== *)
theory ProtocolIds
  imports Thinking
begin

text \<open>
  Protocol identities (\<open>stravia-runtime-contract/src/protocol/ids.rs\<close>): the wire-format
  suites, the canonical endpoints and their textual forms, the legacy identifiers that
  still resolve, and which thinking controls a suite can carry; then the runtime
  resolution of a thinking level (\<open>stravia-core/src/thinking.rs\<close>), which consults them.
\<close>

section \<open>Suites\<close>

datatype protocol =
    OpenAICompatible | OpenResponses | AnthropicMessages | GoogleGemini
  | BedrockConverse | CohereChat | WatsonxTextChat | GatewayLanguageModel

fun protocol_as_str :: "protocol \<Rightarrow> string" where
  "protocol_as_str OpenAICompatible = ''openai-compatible''"
| "protocol_as_str OpenResponses = ''open-responses''"
| "protocol_as_str AnthropicMessages = ''anthropic-messages''"
| "protocol_as_str GoogleGemini = ''google-gemini''"
| "protocol_as_str BedrockConverse = ''bedrock-converse''"
| "protocol_as_str CohereChat = ''cohere-chat''"
| "protocol_as_str WatsonxTextChat = ''watsonx-text-chat''"
| "protocol_as_str GatewayLanguageModel = ''gateway-language-model''"

fun protocol_display_name :: "protocol \<Rightarrow> string" where
  "protocol_display_name OpenAICompatible = ''OpenAI Compatible''"
| "protocol_display_name OpenResponses = ''Open Responses''"
| "protocol_display_name AnthropicMessages = ''Anthropic Messages''"
| "protocol_display_name GoogleGemini = ''Google Gemini''"
| "protocol_display_name BedrockConverse = ''Amazon Bedrock Converse''"
| "protocol_display_name CohereChat = ''Cohere Chat''"
| "protocol_display_name WatsonxTextChat = ''watsonx.ai Text Chat''"
| "protocol_display_name GatewayLanguageModel = ''Vercel AI Gateway Language Model''"

definition protocol_from_str :: "string \<Rightarrow> string + protocol" where
  "protocol_from_str s =
     (if s \<in> {''openai-compatible'', ''openai-compat'', ''openai''} then Inr OpenAICompatible
      else if s = ''open-responses'' then Inr OpenResponses
      else if s \<in> {''anthropic-messages'', ''anthropic-msgs'', ''anthropic'', ''claude''}
        then Inr AnthropicMessages
      else if s \<in> {''google-gemini'', ''google-genai'', ''google-generative-ai'', ''gemini'', ''google''}
        then Inr GoogleGemini
      else if s \<in> {''bedrock-converse'', ''bedrock''} then Inr BedrockConverse
      else if s \<in> {''cohere-chat'', ''cohere''} then Inr CohereChat
      else if s \<in> {''watsonx-text-chat'', ''watsonx''} then Inr WatsonxTextChat
      else if s \<in> {''gateway-language-model'', ''gateway''} then Inr GatewayLanguageModel
      else Inl (''unknown protocol: '' @ s))"

section \<open>Endpoints\<close>

record endpoint =
  ep_protocol :: protocol
  ep_name :: string
  ep_version :: string

definition endpoint_display :: "endpoint \<Rightarrow> string" where
  "endpoint_display e = protocol_as_str (ep_protocol e) @ ''/'' @ ep_name e @ ''/'' @ ep_version e"

definition openai_compatible_chat_completions_v1 :: endpoint where
  "openai_compatible_chat_completions_v1 =
     \<lparr>ep_protocol = OpenAICompatible, ep_name = ''chat-completions'', ep_version = ''v1''\<rparr>"
definition openai_compatible_embeddings_v1 :: endpoint where
  "openai_compatible_embeddings_v1 =
     \<lparr>ep_protocol = OpenAICompatible, ep_name = ''embeddings'', ep_version = ''v1''\<rparr>"
definition open_responses_2026_04_24 :: endpoint where
  "open_responses_2026_04_24 =
     \<lparr>ep_protocol = OpenResponses, ep_name = ''responses'', ep_version = ''2026-04-24''\<rparr>"
definition anthropic_messages_2023_06_01 :: endpoint where
  "anthropic_messages_2023_06_01 =
     \<lparr>ep_protocol = AnthropicMessages, ep_name = ''messages'', ep_version = ''2023-06-01''\<rparr>"
definition google_gemini_generate_content_v1beta :: endpoint where
  "google_gemini_generate_content_v1beta =
     \<lparr>ep_protocol = GoogleGemini, ep_name = ''generate-content'', ep_version = ''v1beta''\<rparr>"
definition bedrock_converse_v1 :: endpoint where
  "bedrock_converse_v1 = \<lparr>ep_protocol = BedrockConverse, ep_name = ''converse'', ep_version = ''v1''\<rparr>"
definition cohere_chat_v2 :: endpoint where
  "cohere_chat_v2 = \<lparr>ep_protocol = CohereChat, ep_name = ''chat'', ep_version = ''v2''\<rparr>"
definition watsonx_text_chat_v1 :: endpoint where
  "watsonx_text_chat_v1 = \<lparr>ep_protocol = WatsonxTextChat, ep_name = ''chat'', ep_version = ''v1''\<rparr>"
definition gateway_language_model_v4 :: endpoint where
  "gateway_language_model_v4 =
     \<lparr>ep_protocol = GatewayLanguageModel, ep_name = ''language-model'', ep_version = ''v4''\<rparr>"

lemmas endpoint_consts =
  openai_compatible_chat_completions_v1_def openai_compatible_embeddings_v1_def
  open_responses_2026_04_24_def anthropic_messages_2023_06_01_def
  google_gemini_generate_content_v1beta_def bedrock_converse_v1_def cohere_chat_v2_def
  watsonx_text_chat_v1_def gateway_language_model_v4_def

definition canonical_endpoints :: "endpoint list" where
  "canonical_endpoints =
     [openai_compatible_chat_completions_v1, openai_compatible_embeddings_v1,
      open_responses_2026_04_24, anthropic_messages_2023_06_01,
      google_gemini_generate_content_v1beta, bedrock_converse_v1, cohere_chat_v2,
      watsonx_text_chat_v1, gateway_language_model_v4]"

definition endpoint_from_identifier :: "string \<Rightarrow> endpoint option" where
  "endpoint_from_identifier value =
     (let s = trim value
      in if s \<in> {''openai-compatible/chat-completions/v1'', ''openai/chat/v1'', ''openai-chat'',
                 ''openai-chat-completions''} then Some openai_compatible_chat_completions_v1
         else if s \<in> {''openai-compatible/embeddings/v1'', ''openai/embeddings/v1'',
                 ''openai-embeddings'', ''embeddings''} then Some openai_compatible_embeddings_v1
         else if s \<in> {''open-responses/responses/2026-04-24'', ''open-responses''}
           then Some open_responses_2026_04_24
         else if s \<in> {''anthropic-messages/messages/2023-06-01'', ''anthropic-messages''}
           then Some anthropic_messages_2023_06_01
         else if s \<in> {''google-gemini/generate-content/v1beta'', ''google-generate'',
                 ''google-generate-content''} then Some google_gemini_generate_content_v1beta
         else if s = ''bedrock-converse/converse/v1'' then Some bedrock_converse_v1
         else if s = ''cohere-chat/chat/v2'' then Some cohere_chat_v2
         else if s = ''watsonx-text-chat/chat/v1'' then Some watsonx_text_chat_v1
         else if s = ''gateway-language-model/language-model/v4'' then Some gateway_language_model_v4
         else None)"

text \<open>\<open>Deserialize for ProtocolEndpoint\<close>: canonical strings only, no trimming.\<close>

definition endpoint_deserialize :: "string \<Rightarrow> string + endpoint" where
  "endpoint_deserialize value =
     (if value = ''openai-compatible/chat-completions/v1'' then Inr openai_compatible_chat_completions_v1
      else if value = ''openai-compatible/embeddings/v1'' then Inr openai_compatible_embeddings_v1
      else if value = ''open-responses/responses/2026-04-24'' then Inr open_responses_2026_04_24
      else if value = ''anthropic-messages/messages/2023-06-01'' then Inr anthropic_messages_2023_06_01
      else if value = ''google-gemini/generate-content/v1beta'' then Inr google_gemini_generate_content_v1beta
      else if value = ''bedrock-converse/converse/v1'' then Inr bedrock_converse_v1
      else if value = ''cohere-chat/chat/v2'' then Inr cohere_chat_v2
      else if value = ''watsonx-text-chat/chat/v1'' then Inr watsonx_text_chat_v1
      else if value = ''gateway-language-model/language-model/v4'' then Inr gateway_language_model_v4
      else Inl (''unknown canonical protocol endpoint `'' @ value @ ''`''))"

definition protocol_from_identifier :: "string \<Rightarrow> protocol option" where
  "protocol_from_identifier value =
     (case protocol_from_str (trim value) of
        Inr p \<Rightarrow> Some p
      | Inl _ \<Rightarrow> map_option ep_protocol (endpoint_from_identifier value))"

text \<open>\<open>ProtocolIdentity\<close> keeps the guest's string; only its known suite is resolved.\<close>

definition identity_matches_endpoint :: "string \<Rightarrow> endpoint \<Rightarrow> bool" where
  "identity_matches_endpoint identity e \<longleftrightarrow> protocol_from_identifier identity = Some (ep_protocol e)"

section \<open>Thinking controls of a suite\<close>

fun represents_thinking_control :: "protocol \<Rightarrow> target_control \<Rightarrow> bool" where
  "represents_thinking_control p Hidden = True"
| "represents_thinking_control OpenResponses (Effort _) = True"
| "represents_thinking_control OpenResponses Disabled = True"
| "represents_thinking_control AnthropicMessages _ = True"
| "represents_thinking_control GoogleGemini _ = True"
| "represents_thinking_control OpenAICompatible (Effort _) = True"
| "represents_thinking_control _ _ = False"

definition control_is_writable :: "string \<Rightarrow> string list option \<Rightarrow> bool \<Rightarrow> target_control \<Rightarrow> bool" where
  "control_is_writable protocol efforts toggle c \<longleftrightarrow>
     is_hidden c
     \<or> (case protocol_from_identifier protocol of
           None \<Rightarrow> False | Some p \<Rightarrow> represents_thinking_control p c)
     \<or> model_declares_control efforts toggle c"

definition mapping_control :: "level_mapping list \<Rightarrow> thinking_level \<Rightarrow> target_control option" where
  "mapping_control mappings l = map_option control (find (\<lambda>m. level m = l) mappings)"

definition visible_levels :: "level_mapping list \<Rightarrow> thinking_level list" where
  "visible_levels mappings =
     filter (\<lambda>l. case mapping_control mappings l of None \<Rightarrow> False | Some c \<Rightarrow> \<not> is_hidden c) all_levels"

definition control_available ::
    "string list option \<Rightarrow> bool \<Rightarrow> string option \<Rightarrow> target_control \<Rightarrow> bool" where
  "control_available efforts toggle protocol c =
     (case c of
        Hidden \<Rightarrow> False
      | Effort value \<Rightarrow>
          (case efforts of
             Some es \<Rightarrow> (\<exists>e \<in> set es. to_ascii_lowercase e = to_ascii_lowercase value)
           | None \<Rightarrow>
               (case protocol of
                  None \<Rightarrow> True
                | Some p \<Rightarrow>
                    (case protocol_from_identifier p of
                       None \<Rightarrow> False | Some p \<Rightarrow> represents_thinking_control p c)))
      | _ \<Rightarrow>
          (case protocol of None \<Rightarrow> True | Some p \<Rightarrow> control_is_writable p efforts toggle c))"

definition resolve_runtime_thinking_level ::
    "level_mapping list \<Rightarrow> thinking_level \<Rightarrow> string list option \<Rightarrow> bool \<Rightarrow> string option
      \<Rightarrow> (thinking_level \<times> target_control) option" where
  "resolve_runtime_thinking_level mappings requested efforts toggle protocol =
     (let supported = filter (\<lambda>l. case mapping_control mappings l of
            None \<Rightarrow> False | Some c \<Rightarrow> control_available efforts toggle protocol c) all_levels
      in case clamp requested supported of
           None \<Rightarrow> None
         | Some l \<Rightarrow> map_option (\<lambda>c. (l, c)) (mapping_control mappings l))"

section \<open>Lemmas\<close>

lemma clamp_supported: "clamp self supported = Some l \<Longrightarrow> l \<in> set supported"
  by (auto simp: clamp_def find_Some_iff split: if_splits option.splits dest: nth_mem)

lemma clamp_None: "clamp self supported = None \<longleftrightarrow> supported = []"
proof
  assume none: "clamp self supported = None"
  have "l \<notin> set supported" for l
  proof -
    consider "l = self" | "self < l" | "l < self" by force
    then show ?thesis
      using none all_levels_complete [of l]
      by cases (auto simp: clamp_def find_None_iff split: if_splits option.splits)
  qed
  then show "supported = []" by (cases supported) auto
qed (simp add: clamp_def find_None_iff split: option.splits)

lemma endpoint_displays:
  "endpoint_display openai_compatible_chat_completions_v1 = ''openai-compatible/chat-completions/v1''"
  "endpoint_display openai_compatible_embeddings_v1 = ''openai-compatible/embeddings/v1''"
  "endpoint_display open_responses_2026_04_24 = ''open-responses/responses/2026-04-24''"
  "endpoint_display anthropic_messages_2023_06_01 = ''anthropic-messages/messages/2023-06-01''"
  "endpoint_display google_gemini_generate_content_v1beta = ''google-gemini/generate-content/v1beta''"
  "endpoint_display bedrock_converse_v1 = ''bedrock-converse/converse/v1''"
  "endpoint_display cohere_chat_v2 = ''cohere-chat/chat/v2''"
  "endpoint_display watsonx_text_chat_v1 = ''watsonx-text-chat/chat/v1''"
  "endpoint_display gateway_language_model_v4 = ''gateway-language-model/language-model/v4''"
  by (simp_all add: endpoint_display_def endpoint_consts)

section \<open>Properties\<close>

text \<open>
  The canonical text of an endpoint and its deserialization are inverse: a string
  deserializes to an endpoint exactly when the endpoint is one of the canonical ones and
  the string is its display form.
\<close>

theorem endpoint_roundtrip:
  "endpoint_deserialize s = Inr e \<longleftrightarrow> e \<in> set canonical_endpoints \<and> s = endpoint_display e"
proof
  assume "endpoint_deserialize s = Inr e"
  then show "e \<in> set canonical_endpoints \<and> s = endpoint_display e"
    by (simp add: endpoint_deserialize_def canonical_endpoints_def endpoint_displays split: if_splits)
next
  assume "e \<in> set canonical_endpoints \<and> s = endpoint_display e"
  then show "endpoint_deserialize s = Inr e"
    by (simp only: canonical_endpoints_def list.set insert_iff empty_iff)
      (elim conjE disjE; simp add: endpoint_displays endpoint_deserialize_def)
qed

text \<open>
  a thinking level is resolved only to a level whose mapped control is available for
  the model and protocol, it is the clamp of the requested level among all such levels,
  and nothing is resolved exactly when no level's control is available.
\<close>

theorem resolve_thinking_correct:
  "let available = (\<lambda>l. case mapping_control mappings l of
         None \<Rightarrow> False | Some c \<Rightarrow> control_available efforts toggle protocol c)
   in case resolve_runtime_thinking_level mappings requested efforts toggle protocol of
        None \<Rightarrow> (\<nexists>l. available l)
      | Some (l, c) \<Rightarrow> available l \<and> mapping_control mappings l = Some c
          \<and> clamp requested (filter available all_levels) = Some l"
proof -
  let ?av = "\<lambda>l. case mapping_control mappings l of
         None \<Rightarrow> False | Some c \<Rightarrow> control_available efforts toggle protocol c"
  show ?thesis
  proof (cases "clamp requested (filter ?av all_levels)")
    case None
    then have "\<not> ?av l" for l
      using all_levels_complete [of l] unfolding clamp_None filter_empty_conv by blast
    with None show ?thesis
      by (simp add: resolve_runtime_thinking_level_def Let_def)
  next
    case (Some l)
    then have av: "?av l" using clamp_supported [OF Some] by simp
    then obtain c where "mapping_control mappings l = Some c" by (auto split: option.splits)
    with Some av show ?thesis by (simp add: resolve_runtime_thinking_level_def Let_def)
  qed
qed

end
