(* ===== verification/F64.thy ===== *)
theory F64
  imports Complex_Main Prelude
begin

text \<open>
  IEEE-754 binary64 as far as the modelled code uses it. A value is NaN, an infinity or a
  finite rational; every operation computes the exact rational result and rounds it to the
  nearest representable value, ties to even, with overflow to infinity and gradual
  underflow. The sign of zero is not kept: none of the modelled expressions divides by
  zero or inspects a sign bit, and the two zeros compare equal.
\<close>

datatype f64 = FNaN | FInf bool | Fin rat

section \<open>Rounding\<close>

fun ilog2 :: "nat \<Rightarrow> nat" where
  "ilog2 n = (if n \<le> 1 then 0 else Suc (ilog2 (n div 2)))"

declare ilog2.simps [simp del]

text \<open>\<open>two_pow e\<close> is the rational \<open>2^e\<close>; \<open>floor_log2 q\<close> the largest \<open>e\<close> with \<open>2^e \<le> q\<close> for \<open>q > 0\<close>.\<close>

definition two_pow :: "int \<Rightarrow> rat" where
  "two_pow e = (if 0 \<le> e then 2 ^ nat e else 1 / 2 ^ nat (- e))"

definition floor_log2 :: "rat \<Rightarrow> int" where
  "floor_log2 q =
     (case quotient_of q of (a, b) \<Rightarrow>
        let e = int (ilog2 (nat a)) - int (ilog2 (nat b))
        in if two_pow e \<le> q then e else e - 1)"

definition round_half_even :: "rat \<Rightarrow> int" where
  "round_half_even x =
     (let f = \<lfloor>x\<rfloor>; d = x - of_int f
      in if d < 1 / 2 then f else if 1 / 2 < d then f + 1 else if even f then f else f + 1)"

text \<open>The exponent of the last place: 53 significant bits, never below the subnormal step.\<close>

definition ulp_exp :: "rat \<Rightarrow> int" where
  "ulp_exp q = max (- 1074) (floor_log2 \<bar>q\<bar> - 52)"

definition round_f64 :: "rat \<Rightarrow> f64" where
  "round_f64 q =
     (if q = 0 then Fin 0
      else let e = ulp_exp q; v = of_int (round_half_even (q / two_pow e)) * two_pow e
           in if 1024 \<le> floor_log2 \<bar>v\<bar> then FInf (0 < v) else Fin v)"

section \<open>Operations\<close>

definition f64_of_int :: "int \<Rightarrow> f64" where
  "f64_of_int n = round_f64 (of_int n)"

fun f64_add :: "f64 \<Rightarrow> f64 \<Rightarrow> f64" where
  "f64_add FNaN y = FNaN"
| "f64_add x FNaN = FNaN"
| "f64_add (FInf s) (FInf t) = (if s = t then FInf s else FNaN)"
| "f64_add (FInf s) (Fin b) = FInf s"
| "f64_add (Fin a) (FInf t) = FInf t"
| "f64_add (Fin a) (Fin b) = round_f64 (a + b)"

fun f64_mul :: "f64 \<Rightarrow> f64 \<Rightarrow> f64" where
  "f64_mul FNaN y = FNaN"
| "f64_mul x FNaN = FNaN"
| "f64_mul (FInf s) (FInf t) = FInf (s = t)"
| "f64_mul (FInf s) (Fin b) = (if b = 0 then FNaN else FInf (s = (0 < b)))"
| "f64_mul (Fin a) (FInf t) = (if a = 0 then FNaN else FInf (t = (0 < a)))"
| "f64_mul (Fin a) (Fin b) = round_f64 (a * b)"

fun f64_div :: "f64 \<Rightarrow> f64 \<Rightarrow> f64" where
  "f64_div FNaN y = FNaN"
| "f64_div x FNaN = FNaN"
| "f64_div (FInf s) (FInf t) = FNaN"
| "f64_div (FInf s) (Fin b) = FInf (s = (0 \<le> b))"
| "f64_div (Fin a) (FInf t) = Fin 0"
| "f64_div (Fin a) (Fin b) =
     (if b = 0 then (if a = 0 then FNaN else FInf (0 < a)) else round_f64 (a / b))"

text \<open>\<open>partial_cmp\<close>: \<open>None\<close> when an operand is NaN.\<close>

fun f64_partial_cmp :: "f64 \<Rightarrow> f64 \<Rightarrow> ordering option" where
  "f64_partial_cmp FNaN y = None"
| "f64_partial_cmp x FNaN = None"
| "f64_partial_cmp (FInf s) (FInf t) = Some (if s = t then Equal else if s then Greater else Less)"
| "f64_partial_cmp (FInf s) (Fin b) = Some (if s then Greater else Less)"
| "f64_partial_cmp (Fin a) (FInf t) = Some (if t then Less else Greater)"
| "f64_partial_cmp (Fin a) (Fin b) = Some (cmp a b)"

text \<open>\<open>x > 0.0\<close>.\<close>

definition f64_pos :: "f64 \<Rightarrow> bool" where
  "f64_pos x \<longleftrightarrow> f64_partial_cmp x (Fin 0) = Some Greater"

text \<open>The derived \<open>PartialOrd\<close> of \<open>Option<f64>\<close>: \<open>None\<close> is below every \<open>Some\<close>.\<close>

fun opt_f64_partial_cmp :: "f64 option \<Rightarrow> f64 option \<Rightarrow> ordering option" where
  "opt_f64_partial_cmp None None = Some Equal"
| "opt_f64_partial_cmp None (Some y) = Some Less"
| "opt_f64_partial_cmp (Some x) None = Some Greater"
| "opt_f64_partial_cmp (Some x) (Some y) = f64_partial_cmp x y"

text \<open>\<open>x.clamp(0.0, 1.0)\<close>: NaN stays NaN.\<close>

fun f64_clamp01 :: "f64 \<Rightarrow> f64" where
  "f64_clamp01 FNaN = FNaN"
| "f64_clamp01 (FInf s) = (if s then Fin 1 else Fin 0)"
| "f64_clamp01 (Fin a) = Fin (max 0 (min 1 a))"

text \<open>
  \<open>Duration::from_secs_f64\<close> rounds the exact value to whole nanoseconds, ties to even, and
  panics (\<open>None\<close>) on a negative, non-finite or too large argument.
\<close>

fun duration_from_secs :: "f64 \<Rightarrow> duration option" where
  "duration_from_secs (Fin a) =
     (if a < 0 then None
      else let n = nat (round_half_even (a * 1000000000))
           in if n < 2 ^ 64 * 1000000000 then Some n else None)"
| "duration_from_secs x = None"

section \<open>What rounding keeps\<close>

lemma two_pow_pos [simp]: "0 < two_pow e"
  by (simp add: two_pow_def)

lemma two_pow_nonzero [simp]: "two_pow e \<noteq> 0"
  using two_pow_pos [of e] by linarith

lemma round_half_even_of_int [simp]: "round_half_even (of_int n) = n"
  by (simp add: round_half_even_def)

lemma round_half_even_mono:
  assumes "x \<le> y"
  shows "round_half_even x \<le> round_half_even y"
proof (cases "\<lfloor>x\<rfloor> = \<lfloor>y\<rfloor>")
  case True
  with assms show ?thesis by (auto simp: round_half_even_def Let_def)
next
  case False
  from assms have "\<lfloor>x\<rfloor> \<le> \<lfloor>y\<rfloor>" by (rule floor_mono)
  with False have "\<lfloor>x\<rfloor> + 1 \<le> \<lfloor>y\<rfloor>" by linarith
  moreover have "round_half_even x \<le> \<lfloor>x\<rfloor> + 1" "\<lfloor>y\<rfloor> \<le> round_half_even y"
    by (auto simp: round_half_even_def Let_def)
  ultimately show ?thesis by linarith
qed

lemma round_half_even_nonneg: "0 \<le> x \<Longrightarrow> 0 \<le> round_half_even x"
  using round_half_even_mono [of 0 x] round_half_even_of_int [of 0] by simp

lemma round_half_even_le: "x \<le> of_int n \<Longrightarrow> round_half_even x \<le> n"
  using round_half_even_mono [of x "of_int n"] by simp

text \<open>A non-negative exact result rounds to a non-negative number or to positive infinity.\<close>

fun f64_nonneg :: "f64 \<Rightarrow> bool" where
  "f64_nonneg FNaN = False"
| "f64_nonneg (FInf s) = s"
| "f64_nonneg (Fin a) = (0 \<le> a)"

lemma floor_log2_zero: "floor_log2 0 = - 1"
  by (simp add: floor_log2_def two_pow_def ilog2.simps)

lemma round_f64_nonneg:
  assumes "0 \<le> q"
  shows "f64_nonneg (round_f64 q)"
proof -
  let ?v = "of_int (round_half_even (q / two_pow (ulp_exp q))) * two_pow (ulp_exp q) :: rat"
  have "0 \<le> round_half_even (q / two_pow (ulp_exp q))"
    using assms by (intro round_half_even_nonneg) (simp add: less_imp_le)
  then have v: "0 \<le> ?v" by (simp add: less_imp_le)
  have "0 < ?v" if "1024 \<le> floor_log2 \<bar>?v\<bar>"
  proof -
    have "?v \<noteq> 0" using that by (intro notI) (simp only: abs_zero floor_log2_zero)
    with v show ?thesis by linarith
  qed
  with v show ?thesis by (auto simp: round_f64_def Let_def)
qed

lemma f64_of_int_nonneg: "0 \<le> n \<Longrightarrow> f64_nonneg (f64_of_int n)"
  by (simp add: f64_of_int_def round_f64_nonneg)

lemma f64_add_nonneg: "f64_nonneg x \<Longrightarrow> f64_nonneg y \<Longrightarrow> f64_nonneg (f64_add x y)"
  by (cases x; cases y) (auto intro: round_f64_nonneg)

lemma f64_mul_Fin_nonneg:
  assumes "0 \<le> a" "f64_nonneg y" "y \<noteq> FInf True \<or> a \<noteq> 0"
  shows "f64_nonneg (f64_mul (Fin a) y)"
  using assms by (cases y) (auto intro: round_f64_nonneg)

lemma f64_nonneg_comparable:
  "f64_nonneg x \<Longrightarrow> f64_nonneg y \<Longrightarrow> \<exists>r. f64_partial_cmp x y = Some r"
  by (cases x; cases y) auto

section \<open>Integers below \<open>2^53\<close> are exact\<close>

lemma ilog2_bound: "0 < n \<Longrightarrow> n < 2 ^ k \<Longrightarrow> ilog2 n < k"
proof (induction k arbitrary: n)
  case 0
  then show ?case by simp
next
  case (Suc k)
  then show ?case by (subst ilog2.simps) (auto simp: less_mult_imp_div_less)
qed

lemma floor_log2_int:
  assumes "0 < n" "n < 2 ^ 53"
  shows "floor_log2 (of_int n) \<le> 52"
proof -
  have q: "quotient_of (of_int n) = (n, 1)" by simp
  have "nat n < 2 ^ 53" using assms by (simp add: nat_less_iff)
  then have "ilog2 (nat n) < 53" using assms by (intro ilog2_bound) simp_all
  moreover have "ilog2 1 = 0" by (simp add: ilog2.simps)
  ultimately show ?thesis by (auto simp: floor_log2_def q Let_def)
qed

lemma two_pow_le: "e \<le> 0 \<Longrightarrow> \<exists>k. (1::rat) / two_pow e = of_int (2 ^ k)"
  by (rule exI [of _ "nat (- e)"]) (auto simp: two_pow_def)

lemma f64_of_int_exact:
  assumes "\<bar>n\<bar> < 2 ^ 53"
  shows "f64_of_int n = Fin (of_int n)"
proof (cases "n = 0")
  case True
  then show ?thesis by (simp add: f64_of_int_def round_f64_def)
next
  case False
  let ?e = "ulp_exp (of_int n)"
  have "floor_log2 (of_int \<bar>n\<bar>) \<le> 52" using assms False by (intro floor_log2_int) auto
  then have "?e \<le> 0" by (simp add: ulp_exp_def)
  then obtain k where k: "(1::rat) / two_pow ?e = of_int (2 ^ k)" using two_pow_le by blast
  have "of_int n / two_pow ?e = of_int n * (1 / two_pow ?e)" by simp
  also have "\<dots> = of_int (n * 2 ^ k)" unfolding k by simp
  finally have "of_int n / two_pow ?e = of_int (n * 2 ^ k)" .
  then have "of_int (round_half_even (of_int n / two_pow ?e)) * two_pow ?e
      = of_int (n * 2 ^ k) * two_pow ?e"
    by (simp only: round_half_even_of_int)
  also have "\<dots> = of_int n * (of_int (2 ^ k) * two_pow ?e)" by simp
  also have "of_int (2 ^ k) * two_pow ?e = 1" unfolding k [symmetric] by simp
  also have "of_int n * (1 :: rat) = of_int n" by simp
  finally have v: "of_int (round_half_even (of_int n / two_pow ?e)) * two_pow ?e = of_int n" .
  have "floor_log2 \<bar>of_int n\<bar> \<le> 52"
    using \<open>floor_log2 (of_int \<bar>n\<bar>) \<le> 52\<close> by simp
  then show ?thesis using False v by (simp add: f64_of_int_def round_f64_def Let_def)
qed


section \<open>Rounding does not pass a power of two\<close>

lemma ilog2_le: "0 < n \<Longrightarrow> 2 ^ ilog2 n \<le> n"
proof (induction n rule: ilog2.induct)
  case (1 n)
  show ?case
  proof (cases "n \<le> 1")
    case False
    with 1 have "2 ^ ilog2 (n div 2) \<le> n div 2" by simp
    with False show ?thesis by (subst ilog2.simps) auto
  qed (use 1 in \<open>simp add: ilog2.simps\<close>)
qed

lemma ilog2_gt: "n < 2 ^ Suc (ilog2 n)"
proof (induction n rule: ilog2.induct)
  case (1 n)
  show ?case
  proof (cases "n \<le> 1")
    case False
    with 1 have "n div 2 < 2 ^ Suc (ilog2 (n div 2))" by simp
    with False show ?thesis by (subst ilog2.simps) auto
  qed (simp add: ilog2.simps)
qed

lemma two_pow_add: "two_pow (a + b) = two_pow a * two_pow b"
  by (auto simp: two_pow_def nat_add_distrib power_add [symmetric] nat_diff_distrib field_simps
      intro!: arg_cong [where f = "\<lambda>n. (2::rat) ^ n"])

lemma two_pow_nat: "two_pow (int n) = 2 ^ n"
  by (simp add: two_pow_def)

lemma two_pow_minus: "two_pow (- e) = 1 / two_pow e"
  using two_pow_add [of e "- e"] by (simp add: two_pow_def field_simps)

lemma two_pow_le_iff: "two_pow a \<le> two_pow b \<longleftrightarrow> a \<le> b"
proof -
  have ge1: "1 \<le> two_pow (int n)" for n by (simp add: two_pow_nat)
  have up: "two_pow x \<le> two_pow y" if "x \<le> y" for x y
    using that two_pow_add [of x "y - x"] ge1 [of "nat (y - x)"]
      mult_left_mono [of 1 "two_pow (y - x)" "two_pow x"] by (simp add: less_imp_le)
  have strict: "two_pow x < two_pow y" if "x < y" for x y
  proof -
    have "two_pow x < two_pow x * 2" by simp
    also have "\<dots> = two_pow (x + 1)" by (simp add: two_pow_add) (simp add: two_pow_def)
    also have "\<dots> \<le> two_pow y" using that by (intro up) simp
    finally show ?thesis .
  qed
  show ?thesis using up strict [of b a] by (cases "a \<le> b") auto
qed

lemma floor_log2_le:
  assumes "0 < q"
  shows "two_pow (floor_log2 q) \<le> q"
proof -
  obtain a b where ab: "quotient_of q = (a, b)" by (cases "quotient_of q")
  have b: "0 < b" and q: "q = of_int a / of_int b"
    using quotient_of_denom_pos [OF ab] quotient_of_div [OF ab] by auto
  with assms have a: "0 < a" by (simp add: zero_less_divide_iff)
  let ?e = "int (ilog2 (nat a)) - int (ilog2 (nat b))"
  have "(2::rat) ^ ilog2 (nat a) \<le> of_nat (nat a)"
    using ilog2_le [of "nat a"] a by (metis of_nat_le_iff of_nat_numeral of_nat_power zero_less_nat_eq)
  then have num: "two_pow (int (ilog2 (nat a))) \<le> of_int a" using a by (simp add: two_pow_nat)
  have "of_nat (nat b) \<le> (2::rat) ^ Suc (ilog2 (nat b))"
    using ilog2_gt [of "nat b"] by (metis less_imp_le of_nat_le_iff of_nat_numeral of_nat_power)
  then have den: "of_int b \<le> two_pow (int (ilog2 (nat b)) + 1)"
    using b two_pow_nat [of "Suc (ilog2 (nat b))"] by (simp add: add.commute)
  have "two_pow (?e - 1) = two_pow (int (ilog2 (nat a))) * two_pow (- (int (ilog2 (nat b)) + 1))"
    by (simp only: two_pow_add [symmetric]) (simp add: algebra_simps)
  also have "\<dots> = two_pow (int (ilog2 (nat a))) / two_pow (int (ilog2 (nat b)) + 1)"
    by (simp only: two_pow_minus) simp
  also have "\<dots> \<le> of_int a / of_int b"
    using num den a b by (intro frac_le) simp_all
  finally have "two_pow (?e - 1) \<le> q" using q by simp
  then show ?thesis using ab by (auto simp: floor_log2_def Let_def)
qed

lemma round_f64_le_two_pow:
  assumes "0 \<le> q" "q \<le> two_pow k" "- 1074 \<le> k" "k < 1024"
  shows "\<exists>v. round_f64 q = Fin v \<and> 0 \<le> v \<and> v \<le> two_pow k"
proof (cases "q = 0")
  case True
  then show ?thesis by (simp add: round_f64_def less_imp_le)
next
  case False
  let ?e = "ulp_exp q"
  let ?m = "round_half_even (q / two_pow ?e)"
  let ?v = "of_int ?m * two_pow ?e :: rat"
  have q: "0 < q" using assms(1) False by simp
  from floor_log2_le [OF q] assms(2) have "floor_log2 q \<le> k"
    by (metis order_trans two_pow_le_iff)
  with assms(3) have e: "?e \<le> k" using q by (simp add: ulp_exp_def)
  then have step: "two_pow k / two_pow ?e = of_int (2 ^ nat (k - ?e))"
    using two_pow_add [of ?e "k - ?e"] two_pow_nat [of "nat (k - ?e)"] by simp
  have "q / two_pow ?e \<le> two_pow k / two_pow ?e"
    using assms(2) by (simp add: divide_right_mono less_imp_le)
  then have "?m \<le> 2 ^ nat (k - ?e)" unfolding step by (rule round_half_even_le)
  then have "(of_int ?m :: rat) \<le> two_pow k / two_pow ?e" unfolding step by (rule of_int_le_iff [THEN iffD2])
  then have le: "?v \<le> two_pow k" by (simp add: pos_le_divide_eq)
  have "0 \<le> ?m" using assms(1) by (intro round_half_even_nonneg) (simp add: less_imp_le)
  then have ge: "0 \<le> ?v" by (simp add: less_imp_le)
  have "floor_log2 ?v < 1024" if "0 < ?v"
    using floor_log2_le [OF that] le assms(4) two_pow_le_iff by (meson le_less_trans order_trans)
  moreover have "floor_log2 ?v < 1024" if "?v = 0" unfolding that by (simp add: floor_log2_zero)
  ultimately have "\<not> 1024 \<le> floor_log2 \<bar>?v\<bar>" using ge by (cases "?v = 0") auto
  with False ge le show ?thesis by (simp add: round_f64_def Let_def)
qed

end
