(* ===== verification/RouteTypes.thy ===== *)
theory RouteTypes
  imports F64 Thinking
begin

text \<open>
  The data the router works on: target destinations and the configured targets of a route
  (\<open>stravia-core/src/db/identity.rs\<close>, \<open>db/models.rs\<close>), the selected target, the failure
  signals and the scheduling evidence of \<open>stravia-core/src/router/selector.rs\<close>, and the
  string keys under which targets and prices are recorded.

  Prices (\<open>ModelCost\<close>) are carried through unread here, so their type is a parameter
  \<open>'c\<close> of the records that hold one.
\<close>

section \<open>Destinations and configured targets\<close>

datatype target_destination = Model (provider_id: string) (model_id: string)

datatype output_modality = Text | Image

record target_config =
  tc_id :: string
  tc_model_id :: string
  tc_destination :: target_destination
  tc_enabled :: bool
  tc_priority :: int
  tc_first_token_timeout_ms :: int
  tc_retry_budget :: int
  tc_cooldown_ms :: int
  tc_created_at :: string
  tc_thinking_level_map :: "level_mapping list"
  tc_model_name :: "string option"
  tc_output_modality_mismatch :: bool
  tc_route_output_modalities :: "output_modality list"

record 'c selected_target =
  st_destination :: target_destination
  st_priority :: int
  st_first_token_timeout_ms :: int
  st_retry_budget :: int
  st_cooldown_ms :: int
  st_thinking_level_map :: "level_mapping list"
  st_pricing :: "'c option"

datatype strategy = TrafficEqualization | LatencyPreference

fun strategy_as_str :: "strategy \<Rightarrow> string" where
  "strategy_as_str TrafficEqualization = ''traffic_equalization''"
| "strategy_as_str LatencyPreference = ''latency_preference''"

definition parse_strategy :: "string \<Rightarrow> string + strategy" where
  "parse_strategy s =
     (let t = to_ascii_lowercase (trim s)
      in if t = ''traffic_equalization'' then Inr TrafficEqualization
         else if t = ''latency_preference'' then Inr LatencyPreference
         else Inl (''unsupported Route Scheduling Strategy: '' @ t))"

section \<open>Failures\<close>

datatype error_kind =
    AuthenticationError | AuthorizationError | NotFoundError | RateLimitError | QuotaExceeded
  | InvalidRequest | ServerError | ServiceUnavailable | Timeout | ContentFiltered
  | ContextLengthExceeded | ModelNotAvailable | StreamMidError | UnexpectedEof | Unknown

definition is_retryable :: "error_kind \<Rightarrow> bool" where
  "is_retryable k \<longleftrightarrow> k \<in> {RateLimitError, ServerError, ServiceUnavailable, Timeout,
     ModelNotAvailable, UnexpectedEof, StreamMidError}"

datatype disposition = RetrySame duration | TryNextTarget | Stop

record failure_signal =
  fs_kind :: error_kind
  fs_client_output_committed :: bool
  fs_retry_after :: "duration option"
  fs_now_ms :: nat
  fs_jitter_sample :: f64

datatype retry_after = Wait duration | Cooldown duration

section \<open>Scheduling evidence\<close>

datatype conversation_identity = GenerationParent string | PromptCacheKey string

record 'c target_snapshot =
  ss_target_key :: string
  ss_input_tokens :: "int option"
  ss_uncached_input_tokens :: "int option"
  ss_output_tokens :: "int option"
  ss_cache_read_tokens :: "int option"
  ss_cache_write_tokens :: "int option"
  ss_attempts :: int
  ss_successes :: int
  ss_successful_output_tokens :: "int option"
  ss_successful_upstream_ms :: "int option"
  ss_cost_input :: "f64 option"
  ss_cost_output :: "f64 option"
  ss_cost_cache_read :: "f64 option"
  ss_cost_cache_write :: "f64 option"
  ss_pricing :: "'c option"

record 'c route_snapshot =
  rs_targets :: "'c target_snapshot list"
  rs_credential_invalid :: "string set"
  rs_allowance_suspended :: "string set"

text \<open>\<open>..Default::default()\<close>: every count unknown or zero, no price.\<close>

definition default_snapshot :: "string \<Rightarrow> 'c target_snapshot" where
  "default_snapshot key =
     \<lparr>ss_target_key = key, ss_input_tokens = None, ss_uncached_input_tokens = None,
      ss_output_tokens = None, ss_cache_read_tokens = None, ss_cache_write_tokens = None,
      ss_attempts = 0, ss_successes = 0, ss_successful_output_tokens = None,
      ss_successful_upstream_ms = None, ss_cost_input = None, ss_cost_output = None,
      ss_cost_cache_read = None, ss_cost_cache_write = None, ss_pricing = None\<rparr>"

section \<open>Keys\<close>

definition target_key :: "string \<Rightarrow> string \<Rightarrow> string" where
  "target_key provider model = provider @ '':'' @ model"

definition selected_target_key :: "'c selected_target \<Rightarrow> string" where
  "selected_target_key t =
     target_key (provider_id (st_destination t)) (model_id (st_destination t))"

definition persisted_target_key :: "target_config \<Rightarrow> string" where
  "persisted_target_key t =
     target_key (provider_id (tc_destination t)) (model_id (tc_destination t))"

definition to_selected :: "target_config \<Rightarrow> 'c option \<Rightarrow> 'c selected_target" where
  "to_selected t pricing =
     \<lparr>st_destination = tc_destination t, st_priority = tc_priority t,
      st_first_token_timeout_ms = tc_first_token_timeout_ms t,
      st_retry_budget = tc_retry_budget t, st_cooldown_ms = tc_cooldown_ms t,
      st_thinking_level_map = tc_thinking_level_map t, st_pricing = pricing\<rparr>"

text \<open>\<open>format!("{ns}:{generation}:{len}:{provider_id}{model}")\<close>; \<open>len\<close> counts bytes.\<close>

definition pricing_key :: "string \<Rightarrow> nat \<Rightarrow> string \<Rightarrow> string \<Rightarrow> string" where
  "pricing_key namespace generation provider model =
     namespace @ '':'' @ show_nat generation @ '':'' @ show_nat (length provider) @ '':''
       @ provider @ model"

lemma to_selected_sel [simp]:
  "st_destination (to_selected t p) = tc_destination t"
  "st_priority (to_selected t p) = tc_priority t"
  "st_pricing (to_selected t p) = p"
  by (simp_all add: to_selected_def)

lemma selected_key_to_selected [simp]:
  "selected_target_key (to_selected t p) = persisted_target_key t"
  by (simp add: selected_target_key_def persisted_target_key_def)

lemma colon_notin_show_nat: "CHR '':'' \<notin> set (show_nat n)"
  using show_nat_digits by blast

lemma pricing_key_eq:
  "pricing_key ns g p m = pricing_key ns g' p' m' \<longleftrightarrow> g = g' \<and> p = p' \<and> m = m'"
proof
  assume "pricing_key ns g p m = pricing_key ns g' p' m'"
  then have "show_nat g @ CHR '':'' # (show_nat (length p) @ CHR '':'' # (p @ m))
      = show_nat g' @ CHR '':'' # (show_nat (length p') @ CHR '':'' # (p' @ m'))"
    by (simp add: pricing_key_def)
  then have "g = g'" and "length p = length p'" and "p @ m = p' @ m'"
    by (simp_all add: sep_split_eq [OF colon_notin_show_nat colon_notin_show_nat] show_nat_inj)
  then show "g = g' \<and> p = p' \<and> m = m'" by simp
qed simp

section \<open>Properties\<close>

text \<open>
  Within one state's namespace the pricing cache key identifies the generation, the
  provider and the model: two lookups share a cache entry only if they ask for the same
  price of the same generation, whatever characters the identifiers contain.
\<close>

theorem pricing_key_injective:
  "pricing_key namespace g p m = pricing_key namespace g' p' m' \<longleftrightarrow> g = g' \<and> p = p' \<and> m = m'"
  by (rule pricing_key_eq)

text \<open>
  The target key identifies a destination among providers whose identifiers contain no
  colon; the model part may contain any.
\<close>

theorem target_key_injective:
  assumes "CHR '':'' \<notin> set p" "CHR '':'' \<notin> set p'"
  shows "target_key p m = target_key p' m' \<longleftrightarrow> p = p' \<and> m = m'"
  using sep_split_eq [OF assms] by (simp add: target_key_def)

theorem target_key_injective_witness:
  "target_key ''p1'' ''m:x'' \<noteq> target_key ''p2'' ''m:x''"
proof -
  have "CHR '':'' \<notin> set ''p1''" "CHR '':'' \<notin> set ''p2''" by simp_all
  from target_key_injective [OF this, of "''m:x''" "''m:x''"] show ?thesis by simp
qed

text \<open>Without that restriction two destinations can share a key.\<close>

lemma target_key_collision: "target_key ''a'' ''b:c'' = target_key ''a:b'' ''c''"
  by (simp add: target_key_def)

end
