(* ===== verification/RoutePolicy.thy ===== *)
theory RoutePolicy
  imports RouteTypes
begin

text \<open>
  The shared failure and cooldown state of the router
  (\<open>RoutePolicyStateInner\<close> and \<open>RoutePolicyState\<close> of
  \<open>stravia-core/src/router/selector.rs\<close>): one runtime record per target key, the epoch
  counter, the selection sequence and the conversation affinities. Every operation is a
  function on the state; the clock reading is an argument.

  The u64 and u32 counters are natural numbers: \<open>saturating_add\<close> is \<open>sat_add64\<close>, and the
  epoch counter wraps at \<open>2^64\<close> as it does in a release build.
\<close>

section \<open>State\<close>

record target_load =
  tl_attempts :: nat
  tl_input_tokens :: nat
  tl_last_selected :: nat

definition default_load :: target_load where
  "default_load = \<lparr>tl_attempts = 0, tl_input_tokens = 0, tl_last_selected = 0\<rparr>"

record target_runtime =
  consecutive_failures :: nat
  cooldown_until :: nat
  retry_after_until :: nat
  epoch :: nat
  probe_epoch :: "nat option"
  load :: target_load

definition default_runtime :: target_runtime where
  "default_runtime =
     \<lparr>consecutive_failures = 0, cooldown_until = 0, retry_after_until = 0, epoch = 0,
      probe_epoch = None, load = default_load\<rparr>"

record conversation_key =
  ck_principal :: string
  ck_route_id :: string
  ck_identity :: conversation_identity

record policy_state =
  targets :: "string \<rightharpoonup> target_runtime"
  next_epoch :: nat
  selection_sequence :: nat
  conversation_targets :: "conversation_key \<rightharpoonup> string"
  pricing_generation :: nat

definition initial_state :: policy_state where
  "initial_state =
     \<lparr>targets = Map.empty, next_epoch = 0, selection_sequence = 0,
      conversation_targets = Map.empty, pricing_generation = 0\<rparr>"

datatype runtime_state = Available | CoolingDown | HalfOpen | Probing

record runtime_status =
  rs_state :: runtime_state
  cooldown_remaining_ms :: "nat option"

section \<open>Operations\<close>

definition advance_epoch :: "policy_state \<Rightarrow> nat \<times> policy_state" where
  "advance_epoch s = (let e = wrap_add64 (next_epoch s) 1 in (e, s\<lparr>next_epoch := e\<rparr>))"

definition retry_after_policy :: "'c selected_target \<Rightarrow> duration option \<Rightarrow> retry_after option" where
  "retry_after_policy t delay =
     map_option (\<lambda>d.
       if 0 < st_first_token_timeout_ms t \<and> from_millis (nat (st_first_token_timeout_ms t)) < d
       then Cooldown (min d (from_millis (clamp_nonneg (st_cooldown_ms t))))
       else Wait d) delay"

definition runtime_epoch :: "policy_state \<Rightarrow> string \<Rightarrow> nat" where
  "runtime_epoch s key = (case targets s key of None \<Rightarrow> 0 | Some r \<Rightarrow> epoch r)"

text \<open>
  \<open>RoutePolicyStateInner::record_failure\<close>. \<open>cooldown_for\<close>, \<open>should_cool\<close> and \<open>next_retry_after\<close>
  are its local bindings.
\<close>

definition cooldown_for :: "int \<Rightarrow> retry_after option \<Rightarrow> nat" where
  "cooldown_for cooldown_ms ra =
     (case ra of
        Some (Cooldown delay) \<Rightarrow> as_millis delay mod 2 ^ 64
      | _ \<Rightarrow> clamp_nonneg cooldown_ms)"

definition should_cool :: "target_runtime option \<Rightarrow> nat \<Rightarrow> nat \<Rightarrow> int \<Rightarrow> nat \<Rightarrow> retry_after option \<Rightarrow> bool" where
  "should_cool current ep failures retry_budget cooldown ra \<longleftrightarrow>
     0 < cooldown \<and>
     ((\<exists>delay. ra = Some (Cooldown delay))
      \<or> clamp_nonneg retry_budget < failures
      \<or> (case current of None \<Rightarrow> False | Some r \<Rightarrow> probe_epoch r = Some ep))"

definition next_retry_after :: "target_runtime option \<Rightarrow> nat \<Rightarrow> nat \<Rightarrow> retry_after option \<Rightarrow> nat" where
  "next_retry_after current cooldown now_ms ra =
     (let before = (case current of None \<Rightarrow> 0 | Some r \<Rightarrow> retry_after_until r)
      in case ra of
           Some (Wait delay) \<Rightarrow> max before (sat_add64 now_ms (min u64_max (as_millis delay)))
         | Some (Cooldown delay) \<Rightarrow> sat_add64 now_ms cooldown
         | None \<Rightarrow> before)"

definition record_failure ::
    "string \<Rightarrow> nat \<Rightarrow> int \<Rightarrow> int \<Rightarrow> nat \<Rightarrow> retry_after option \<Rightarrow> policy_state
      \<Rightarrow> nat option \<times> policy_state" where
  "record_failure key ep retry_budget cooldown_ms now_ms ra s =
     (let current = targets s key
      in if runtime_epoch s key \<noteq> ep then (None, s)
         else let failures = sat_add32 (case current of None \<Rightarrow> 0 | Some r \<Rightarrow> consecutive_failures r) 1;
                  cooldown = cooldown_for cooldown_ms ra;
                  cool = should_cool current ep failures retry_budget cooldown ra;
                  (new_epoch, s') = (if cool then advance_epoch s else (ep, s));
                  runtime =
                    \<lparr>consecutive_failures = failures,
                     cooldown_until = (if cool then sat_add64 now_ms cooldown else 0),
                     retry_after_until = next_retry_after current cooldown now_ms ra,
                     epoch = new_epoch,
                     probe_epoch = None,
                     load = (case current of None \<Rightarrow> default_load | Some r \<Rightarrow> load r)\<rparr>
              in (Some failures, s'\<lparr>targets := (targets s')(key \<mapsto> runtime)\<rparr>))"

definition release_probe :: "string \<Rightarrow> nat \<Rightarrow> policy_state \<Rightarrow> policy_state" where
  "release_probe key ep s =
     (case targets s key of
        None \<Rightarrow> s
      | Some r \<Rightarrow> if probe_epoch r = Some ep
                 then s\<lparr>targets := (targets s)(key \<mapsto> r\<lparr>probe_epoch := None\<rparr>)\<rparr> else s)"

definition release_reservation :: "string \<Rightarrow> nat \<Rightarrow> policy_state \<Rightarrow> policy_state" where
  "release_reservation key amount s =
     (case targets s key of
        None \<Rightarrow> s
      | Some r \<Rightarrow>
          s\<lparr>targets := (targets s)(key \<mapsto> r\<lparr>load := (load r)
             \<lparr>tl_attempts := tl_attempts (load r) - 1,
              tl_input_tokens := tl_input_tokens (load r) - amount\<rparr>\<rparr>)\<rparr>)"

definition permits_send :: "nat \<Rightarrow> string \<Rightarrow> nat \<Rightarrow> bool \<Rightarrow> policy_state \<Rightarrow> bool" where
  "permits_send now_ms key ep single_attempt s =
     (case targets s key of
        None \<Rightarrow> ep = 0
      | Some r \<Rightarrow> epoch r = ep \<and> retry_after_until r \<le> now_ms
                 \<and> (cooldown_until r = 0 \<or> single_attempt))"

definition target_status_at :: "string \<Rightarrow> nat \<Rightarrow> policy_state \<Rightarrow> runtime_status" where
  "target_status_at key now_ms s =
     (case targets s key of
        None \<Rightarrow> \<lparr>rs_state = Available, cooldown_remaining_ms = None\<rparr>
      | Some r \<Rightarrow>
          if cooldown_until r = 0 then \<lparr>rs_state = Available, cooldown_remaining_ms = None\<rparr>
          else if now_ms < cooldown_until r
               then \<lparr>rs_state = CoolingDown, cooldown_remaining_ms = Some (cooldown_until r - now_ms)\<rparr>
          else \<lparr>rs_state = (if probe_epoch r \<noteq> None then Probing else HalfOpen),
                cooldown_remaining_ms = None\<rparr>)"

section \<open>The evidence of one attempt\<close>

text \<open>
  \<open>RouteAttemptContext\<close>. Its \<open>cooldown\<close> field is a handle to the cooldown exceptions shared
  by all policies of one root request; the model passes that shared value separately.
\<close>

record attempt_context =
  ac_principal :: string
  ac_route_id :: string
  ac_conversation :: "conversation_identity option"
  ac_conversation_affinity :: "string option"
  ac_cache_affinity :: "string option"
  ac_uncached_input_tokens :: nat
  ac_now_ms :: nat

definition conversation_key_of :: "attempt_context \<Rightarrow> conversation_identity \<Rightarrow> conversation_key" where
  "conversation_key_of ctx identity =
     \<lparr>ck_principal = ac_principal ctx, ck_route_id = ac_route_id ctx, ck_identity = identity\<rparr>"

definition record_success :: "attempt_context \<Rightarrow> string \<Rightarrow> nat \<Rightarrow> policy_state \<Rightarrow> policy_state" where
  "record_success ctx key ep s =
     (let s1 = (case targets s key of
                  None \<Rightarrow> s
                | Some r \<Rightarrow>
                    if epoch r = ep
                    then s\<lparr>targets := (targets s)(key \<mapsto>
                           r\<lparr>consecutive_failures := 0, cooldown_until := 0, probe_epoch := None\<rparr>)\<rparr>
                    else s);
          s2 = release_reservation key (ac_uncached_input_tokens ctx) s1
      in case ac_conversation ctx of
           None \<Rightarrow> s2
         | Some identity \<Rightarrow>
             s2\<lparr>conversation_targets :=
                  (conversation_targets s2)(conversation_key_of ctx identity \<mapsto> key)\<rparr>)"

definition record_failure_with_retry_after ::
    "'c selected_target \<Rightarrow> nat \<Rightarrow> duration option \<Rightarrow> nat \<Rightarrow> policy_state \<Rightarrow> policy_state" where
  "record_failure_with_retry_after t ep delay now_ms s =
     snd (record_failure (selected_target_key t) ep (st_retry_budget t) (st_cooldown_ms t)
            now_ms (retry_after_policy t delay) s)"

definition try_record_recovery_failure ::
    "string \<Rightarrow> nat \<Rightarrow> int \<Rightarrow> int \<Rightarrow> nat \<Rightarrow> policy_state \<Rightarrow> bool \<times> policy_state" where
  "try_record_recovery_failure key ep retry_budget cooldown_ms now_ms s =
     (let current = targets s key
      in if runtime_epoch s key \<noteq> ep
            \<or> (case current of None \<Rightarrow> False | Some r \<Rightarrow> cooldown_until r \<noteq> 0)
            \<or> clamp_nonneg retry_budget
                \<le> (case current of None \<Rightarrow> 0 | Some r \<Rightarrow> consecutive_failures r)
         then (False, s)
         else (True, snd (record_failure key ep retry_budget cooldown_ms now_ms None s)))"

text \<open>\<open>RoutePolicyState::release\<close>, what dropping an active reservation runs.\<close>

definition release :: "attempt_context \<Rightarrow> string \<Rightarrow> nat \<Rightarrow> bool \<Rightarrow> policy_state \<Rightarrow> policy_state" where
  "release ctx key ep probe s =
     (let s' = release_reservation key (ac_uncached_input_tokens ctx) s
      in if probe then release_probe key ep s' else s')"

definition clear_pricing :: "policy_state \<Rightarrow> policy_state" where
  "clear_pricing s = s\<lparr>pricing_generation := wrap_add64 (pricing_generation s) 1\<rparr>"

record reservation =
  rv_context :: attempt_context
  rv_target_key :: string
  rv_epoch :: nat
  rv_probe :: bool
  rv_active :: bool

definition reserve :: "attempt_context \<Rightarrow> string \<Rightarrow> nat \<Rightarrow> bool \<Rightarrow> reservation" where
  "reserve ctx key ep probe =
     \<lparr>rv_context = ctx, rv_target_key = key, rv_epoch = ep, rv_probe = probe, rv_active = True\<rparr>"

definition complete_reservation :: "reservation \<Rightarrow> reservation" where
  "complete_reservation rv = rv\<lparr>rv_active := False\<rparr>"

definition drop_reservation :: "reservation \<Rightarrow> policy_state \<Rightarrow> policy_state" where
  "drop_reservation rv s =
     (if rv_active rv
      then release (rv_context rv) (rv_target_key rv) (rv_epoch rv) (rv_probe rv) s else s)"

lemmas [rt_defs] =
  runtime_epoch_def advance_epoch_def release_probe_def release_reservation_def release_def
  record_success_def record_failure_def try_record_recovery_failure_def clear_pricing_def
  record_failure_with_retry_after_def drop_reservation_def Let_def

end
