(* ===== verification/RouteSelector.thy ===== *)
theory RouteSelector
  imports RoutePolicy
begin

text \<open>
  One request's drive through the targets of a route (\<open>RouteAttemptPolicy\<close> and the scoring
  functions of \<open>stravia-core/src/router/selector.rs\<close>).

  A policy's own fields are the record \<open>attempt_policy\<close>. What it shares with other policies
  is passed and returned explicitly: the cooldown exceptions of its root request
  (\<open>cooldown_attempts\<close>) and the router's \<open>policy_state\<close>. Each operation takes the reading
  of the state's clock; the policy's own evidence time floors it.
\<close>

section \<open>Cooldown exceptions of one root request\<close>

record cooldown_attempts =
  ca_selected :: "string set"
  ca_consumed :: "string set"
  ca_last_selected :: "string option"

definition no_attempts :: cooldown_attempts where
  "no_attempts = \<lparr>ca_selected = {}, ca_consumed = {}, ca_last_selected = None\<rparr>"

definition claim :: "string \<Rightarrow> cooldown_attempts \<Rightarrow> bool \<times> cooldown_attempts" where
  "claim key ca = (key \<notin> ca_consumed ca, ca\<lparr>ca_consumed := insert key (ca_consumed ca)\<rparr>)"

definition mark_selected :: "string \<Rightarrow> cooldown_attempts \<Rightarrow> cooldown_attempts" where
  "mark_selected key ca =
     ca\<lparr>ca_selected := insert key (ca_selected ca), ca_last_selected := Some key\<rparr>"

definition exception_available :: "string \<Rightarrow> string option \<Rightarrow> cooldown_attempts \<Rightarrow> bool" where
  "exception_available key preferred ca \<longleftrightarrow>
     (preferred = Some key \<or> key \<in> ca_selected ca) \<and> key \<notin> ca_consumed ca"

section \<open>Scores\<close>

record weights =
  tw_cache_read :: f64
  tw_output :: f64
  tw_cache_write :: f64

text \<open>\<open>0.1\<close>, \<open>5.0\<close> and \<open>6.0\<close>; the first is the double nearest to one tenth.\<close>

definition default_weights :: weights where
  "default_weights = \<lparr>tw_cache_read = round_f64 (1 / 10), tw_output = Fin 5, tw_cache_write = Fin 6\<rparr>"

fun price_ratio_from :: "f64 \<Rightarrow> nat \<Rightarrow> ('c target_snapshot \<Rightarrow> f64 option) \<Rightarrow> 'c target_snapshot list
    \<Rightarrow> f64 \<times> nat" where
  "price_ratio_from acc count select [] = (acc, count)"
| "price_ratio_from acc count select (snap # rest) =
     (case (ss_cost_input snap, select snap) of
        (Some input, Some value) \<Rightarrow>
          price_ratio_from (f64_add acc (f64_div value input)) (Suc count) select rest
      | _ \<Rightarrow> price_ratio_from acc count select rest)"

definition average_price_ratio ::
    "'c target_snapshot list \<Rightarrow> ('c target_snapshot \<Rightarrow> f64 option) \<Rightarrow> f64 option" where
  "average_price_ratio priced select =
     (case price_ratio_from (Fin 0) 0 select priced of
        (acc, count) \<Rightarrow> if 0 < count then Some (f64_div acc (f64_of_int (int count))) else None)"

definition or_default :: "'a option \<Rightarrow> 'a \<Rightarrow> 'a" where
  "or_default v d = (case v of None \<Rightarrow> d | Some x \<Rightarrow> x)"

definition traffic_weights ::
    "target_config list \<Rightarrow> (string \<rightharpoonup> 'c target_snapshot) \<Rightarrow> weights" where
  "traffic_weights grp snapshots =
     (let priced = filter (\<lambda>snap. (case ss_cost_input snap of None \<Rightarrow> False | Some v \<Rightarrow> f64_pos v)
                                \<and> ss_cost_output snap \<noteq> None)
                     (List.map_filter (\<lambda>t. snapshots (persisted_target_key t)) grp)
      in if priced = [] then default_weights
         else \<lparr>tw_cache_read = or_default (average_price_ratio priced ss_cost_cache_read) (round_f64 (1 / 10)),
               tw_output = or_default (average_price_ratio priced ss_cost_output) (Fin 5),
               tw_cache_write = or_default (average_price_ratio priced ss_cost_cache_write) (Fin 6)\<rparr>)"

text \<open>\<open>value.max(0) as f64\<close>.\<close>

definition tokens_f64 :: "int \<Rightarrow> f64" where
  "tokens_f64 v = f64_of_int (max v 0)"

definition traffic_score :: "'c target_snapshot option \<Rightarrow> weights \<Rightarrow> f64" where
  "traffic_score snapshot weights =
     (let (uncached_input, output, cache_read, cache_write) =
            (case snapshot of
               None \<Rightarrow> (0, 0, 0, 0)
             | Some snap \<Rightarrow>
                 (or_default (case ss_uncached_input_tokens snap of
                                Some v \<Rightarrow> Some v | None \<Rightarrow> ss_input_tokens snap) 0,
                  or_default (ss_output_tokens snap) 0,
                  or_default (ss_cache_read_tokens snap) 0,
                  or_default (ss_cache_write_tokens snap) 0))
      in f64_add
           (f64_add
              (f64_add (f64_mul (tw_cache_read weights) (tokens_f64 cache_read))
                       (tokens_f64 uncached_input))
              (f64_mul (tw_output weights) (tokens_f64 output)))
           (f64_mul (tw_cache_write weights) (tokens_f64 cache_write)))"

definition latency_score :: "'c target_snapshot \<Rightarrow> f64 option" where
  "latency_score snap =
     (case (ss_successful_output_tokens snap, ss_successful_upstream_ms snap) of
        (Some tokens, Some upstream_ms) \<Rightarrow>
          if ss_successes snap < 20 \<or> ss_attempts snap = 0 \<or> upstream_ms = 0 then None
          else let success_rate = f64_div (f64_of_int (ss_successes snap)) (f64_of_int (ss_attempts snap));
                   tokens_per_second =
                     f64_div (f64_of_int tokens) (f64_div (f64_of_int upstream_ms) (Fin 1000))
               in Some (f64_mul success_rate tokens_per_second)
      | _ \<Rightarrow> None)"

definition transient_failure :: "error_kind \<Rightarrow> bool" where
  "transient_failure k \<longleftrightarrow> k \<in> {Timeout, ServerError, ServiceUnavailable, RateLimitError,
     ModelNotAvailable, StreamMidError, UnexpectedEof}"

text \<open>\<open>None\<close> is the panic of \<open>Duration::from_secs_f64\<close> on a NaN sample.\<close>

definition jitter :: "nat \<Rightarrow> f64 \<Rightarrow> duration option" where
  "jitter cap_ms sample =
     duration_from_secs (f64_mul (f64_div (f64_of_int (int cap_ms)) (Fin 1000)) (f64_clamp01 sample))"

text \<open>\<open>500_u64.saturating_mul(1_u64 << (failures - 1).min(4)).min(8_000)\<close>.\<close>

definition retry_cap_ms :: "nat \<Rightarrow> nat" where
  "retry_cap_ms failures = min (min u64_max (500 * 2 ^ min (failures - 1) 4)) 8000"

section \<open>Building a policy\<close>

record 'c candidate =
  cd_target :: "'c selected_target"
  cd_key :: string
  cd_traffic :: f64
  cd_latency :: "f64 option"

record 'c attempt_policy =
  ap_context :: attempt_context
  ap_ordered :: "'c candidate list"
  ap_strategy :: strategy
  ap_current_key :: "string option"
  ap_current_epoch :: nat
  ap_current_probe :: bool
  ap_current_exception :: bool
  ap_preferred :: "string option"

definition or_else :: "'a option \<Rightarrow> 'a option \<Rightarrow> 'a option" where
  "or_else a b = (case a of Some x \<Rightarrow> Some x | None \<Rightarrow> b)"

definition preferred_target :: "attempt_context \<Rightarrow> cooldown_attempts \<Rightarrow> policy_state \<Rightarrow> string option" where
  "preferred_target ctx ca s =
     or_else
       (or_else
          (case ac_conversation ctx of
             None \<Rightarrow> None
           | Some identity \<Rightarrow>
               or_else (conversation_targets s (conversation_key_of ctx identity))
                       (ac_conversation_affinity ctx))
          (if ac_conversation ctx = None then ac_cache_affinity ctx else None))
       (ca_last_selected ca)"

definition initially_eligible ::
    "'c route_snapshot \<Rightarrow> nat \<Rightarrow> string option \<Rightarrow> cooldown_attempts \<Rightarrow> policy_state \<Rightarrow> target_config \<Rightarrow> bool" where
  "initially_eligible snapshot now_ms preferred ca s t \<longleftrightarrow>
     tc_enabled t
     \<and> provider_id (tc_destination t) \<notin> rs_credential_invalid snapshot
     \<and> provider_id (tc_destination t) \<notin> rs_allowance_suspended snapshot
     \<and> \<not> ((case targets s (persisted_target_key t) of
              None \<Rightarrow> False | Some r \<Rightarrow> now_ms < cooldown_until r)
           \<and> \<not> exception_available (persisted_target_key t) preferred ca)"

text \<open>
  \<open>BTreeMap<Reverse<i32>, Vec<_>>\<close>: the groups by descending priority, each in the order of
  the targets.
\<close>

definition priority_groups :: "target_config list \<Rightarrow> target_config list list" where
  "priority_groups ts =
     map (\<lambda>p. filter (\<lambda>t. tc_priority t = p) ts) (rev (sort (remdups (map tc_priority ts))))"

definition make_candidate ::
    "(string \<rightharpoonup> 'c target_snapshot) \<Rightarrow> weights \<Rightarrow> target_config \<Rightarrow> 'c candidate" where
  "make_candidate snapshots weights t =
     (let key = persisted_target_key t; snap = snapshots key
      in \<lparr>cd_target = to_selected t (Option.bind snap ss_pricing),
          cd_key = key,
          cd_traffic = traffic_score snap weights,
          cd_latency = Option.bind snap latency_score\<rparr>)"

definition new_policy ::
    "string \<Rightarrow> target_config list \<Rightarrow> attempt_context \<Rightarrow> 'c route_snapshot \<Rightarrow> nat
      \<Rightarrow> cooldown_attempts \<Rightarrow> policy_state \<Rightarrow> 'c attempt_policy" where
  "new_policy strategy_name ts ctx snapshot clock ca s =
     (let now_ms = max (ac_now_ms ctx) clock;
          preferred = preferred_target ctx ca s;
          snapshots = collect_map (map (\<lambda>i. (ss_target_key i, i)) (rs_targets snapshot));
          eligible = filter (initially_eligible snapshot now_ms preferred ca s) ts
      in \<lparr>ap_context = ctx,
          ap_ordered = concat (map (\<lambda>grp. map (make_candidate snapshots (traffic_weights grp snapshots)) grp)
                         (priority_groups eligible)),
          ap_strategy = (case parse_strategy strategy_name of Inl _ \<Rightarrow> TrafficEqualization | Inr st \<Rightarrow> st),
          ap_current_key = None, ap_current_epoch = 0, ap_current_probe = False,
          ap_current_exception = False, ap_preferred = preferred\<rparr>)"

section \<open>Driving a policy\<close>

text \<open>\<open>release_current\<close>, then \<open>skip_current\<close> which takes the current key.\<close>

definition release_current :: "string \<Rightarrow> 'c attempt_policy \<Rightarrow> policy_state \<Rightarrow> policy_state" where
  "release_current key p s =
     release (ap_context p) key (ap_current_epoch p) (ap_current_probe p) s"

definition skip_current :: "'c attempt_policy \<times> policy_state \<Rightarrow> 'c attempt_policy \<times> policy_state" where
  "skip_current = (\<lambda>(p, s).
     (p\<lparr>ap_current_key := None, ap_current_probe := False, ap_current_exception := False\<rparr>,
      case ap_current_key p of None \<Rightarrow> s | Some key \<Rightarrow> release_current key p s))"

definition accept_current :: "'c attempt_policy \<Rightarrow> 'c attempt_policy" where
  "accept_current p =
     p\<lparr>ap_current_key := None, ap_current_probe := False, ap_current_exception := False\<rparr>"

definition current_is_probe :: "'c attempt_policy \<Rightarrow> bool" where
  "current_is_probe p \<longleftrightarrow> ap_current_probe p \<or> ap_current_exception p"

text \<open>\<open>Drop for RouteAttemptPolicy\<close>.\<close>

definition drop_policy :: "'c attempt_policy \<Rightarrow> policy_state \<Rightarrow> policy_state" where
  "drop_policy p s =
     (case ap_current_key p of None \<Rightarrow> s | Some key \<Rightarrow> release_current key p s)"

definition release_unsent_exception ::
    "'c attempt_policy \<Rightarrow> cooldown_attempts \<Rightarrow> 'c attempt_policy \<times> cooldown_attempts" where
  "release_unsent_exception p ca =
     (if ap_current_exception p
      then (case ap_current_key p of
              None \<Rightarrow> (p, ca)
            | Some key \<Rightarrow> (p\<lparr>ap_current_exception := False\<rparr>, ca\<lparr>ca_consumed := ca_consumed ca - {key}\<rparr>))
      else (p, ca))"

definition selectable ::
    "nat \<Rightarrow> string option \<Rightarrow> cooldown_attempts \<Rightarrow> policy_state \<Rightarrow> string \<Rightarrow> bool" where
  "selectable now_ms preferred ca s key \<longleftrightarrow>
     (case targets s key of
        None \<Rightarrow> True
      | Some r \<Rightarrow>
          retry_after_until r \<le> now_ms
          \<and> (cooldown_until r = 0
             \<or> (if now_ms < cooldown_until r then exception_available key preferred ca
                else probe_epoch r = None)))"

definition retain_eligible ::
    "string set \<Rightarrow> nat \<Rightarrow> cooldown_attempts \<Rightarrow> policy_state \<Rightarrow> 'c attempt_policy \<Rightarrow> 'c attempt_policy" where
  "retain_eligible excluded clock ca s p =
     (let now_ms = max (ac_now_ms (ap_context p)) clock
      in p\<lparr>ap_ordered := filter (\<lambda>c.
            cd_key c \<notin> excluded \<and>
            (case targets s (cd_key c) of
               None \<Rightarrow> True
             | Some r \<Rightarrow>
                 if now_ms < retry_after_until r then False
                 else if cooldown_until r = 0 then True
                 else if now_ms < cooldown_until r
                      then exception_available (cd_key c) (ap_preferred p) ca
                 else probe_epoch r = None)) (ap_ordered p)\<rparr>)"

definition retain :: "('c selected_target \<Rightarrow> bool) \<Rightarrow> 'c attempt_policy \<Rightarrow> 'c attempt_policy" where
  "retain keep p = p\<lparr>ap_ordered := filter (\<lambda>c. keep (cd_target c)) (ap_ordered p)\<rparr>"

definition load_of :: "policy_state \<Rightarrow> string \<Rightarrow> target_load" where
  "load_of s key = (case targets s key of None \<Rightarrow> default_load | Some r \<Rightarrow> load r)"

text \<open>\<open>partial_cmp(..).unwrap_or(Ordering::Equal)\<close>.\<close>

definition or_equal :: "ordering option \<Rightarrow> ordering" where
  "or_equal v = (case v of None \<Rightarrow> Equal | Some r \<Rightarrow> r)"

definition compare_candidates ::
    "bool \<Rightarrow> string option \<Rightarrow> policy_state \<Rightarrow> 'c candidate \<Rightarrow> 'c candidate \<Rightarrow> ordering" where
  "compare_candidates latency preferred s left right =
     (let left_load = load_of s (cd_key left); right_load = load_of s (cd_key right)
      in then_with (cmp (preferred = Some (cd_key right)) (preferred = Some (cd_key left)))
        (then_with (cmp (st_priority (cd_target right)) (st_priority (cd_target left)))
        (then_with
           (if latency then or_equal (opt_f64_partial_cmp (cd_latency right) (cd_latency left))
            else then_with (cmp (tl_attempts left_load) (tl_attempts right_load))
                   (or_equal (f64_partial_cmp
                      (f64_add (cd_traffic left) (f64_of_int (int (tl_input_tokens left_load))))
                      (f64_add (cd_traffic right) (f64_of_int (int (tl_input_tokens right_load)))))))
           (cmp (tl_last_selected left_load) (tl_last_selected right_load)))))"

text \<open>The latency strategy needs two candidates of the highest priority with a latency.\<close>

definition use_latency :: "'c attempt_policy \<Rightarrow> int \<Rightarrow> bool" where
  "use_latency p priority \<longleftrightarrow>
     ap_strategy p = LatencyPreference
     \<and> 2 \<le> length (filter (\<lambda>c. st_priority (cd_target c) = priority \<and> cd_latency c \<noteq> None) (ap_ordered p))"

text \<open>\<open>enumerate().min_by(..)\<close>: the index of the chosen candidate.\<close>

definition choose_index :: "'c attempt_policy \<Rightarrow> policy_state \<Rightarrow> nat option" where
  "choose_index p s =
     (case ap_ordered p of
        [] \<Rightarrow> None
      | c # cs \<Rightarrow>
          let priority = fold max (map (\<lambda>c. st_priority (cd_target c)) cs) (st_priority (cd_target c))
          in map_option fst
               (min_by (\<lambda>x y. compare_candidates (use_latency p priority) (ap_preferred p) s (snd x) (snd y))
                  (enumerate 0 (ap_ordered p))))"

text \<open>The reservation written for a selected key.\<close>

definition reserve_load :: "string \<Rightarrow> nat \<Rightarrow> policy_state \<Rightarrow> policy_state" where
  "reserve_load key amount s =
     (let sequence = sat_add64 (selection_sequence s) 1;
          r = (case targets s key of None \<Rightarrow> default_runtime | Some r \<Rightarrow> r)
      in s\<lparr>selection_sequence := sequence,
           targets := (targets s)(key \<mapsto> r\<lparr>load :=
             \<lparr>tl_attempts = sat_add64 (tl_attempts (load r)) 1,
              tl_input_tokens = sat_add64 (tl_input_tokens (load r)) amount,
              tl_last_selected = sequence\<rparr>\<rparr>)\<rparr>)"

definition claim_probe :: "string \<Rightarrow> policy_state \<Rightarrow> policy_state" where
  "claim_probe key s =
     (let (e, s') = advance_epoch s
      in case targets s' key of
           None \<Rightarrow> s'
         | Some r \<Rightarrow> s'\<lparr>targets := (targets s')(key \<mapsto> r\<lparr>epoch := e, probe_epoch := Some e\<rparr>)\<rparr>)"

definition finish_selection ::
    "'c candidate \<Rightarrow> bool \<Rightarrow> bool \<Rightarrow> 'c attempt_policy \<Rightarrow> cooldown_attempts \<Rightarrow> policy_state
      \<Rightarrow> 'c selected_target option \<times> 'c attempt_policy \<times> cooldown_attempts \<times> policy_state" where
  "finish_selection c probe exception p ca s =
     (let s' = reserve_load (cd_key c) (ac_uncached_input_tokens (ap_context p)) s
      in (Some (cd_target c),
          p\<lparr>ap_current_epoch := runtime_epoch s' (cd_key c), ap_current_probe := probe,
            ap_current_exception := exception, ap_current_key := Some (cd_key c)\<rparr>,
          mark_selected (cd_key c) ca, s'))"

lemma choose_index_less: "choose_index p s = Some i \<Longrightarrow> i < length (ap_ordered p)"
  by (cases "ap_ordered p")
    (auto simp: choose_index_def Let_def in_set_enumerate_eq simp del: min_by.simps dest!: min_by_in)

lemma skip_current_ordered [simp]:
  "ap_ordered (fst (skip_current (p, s))) = ap_ordered p"
  "ap_context (fst (skip_current (p, s))) = ap_context p"
  "ap_preferred (fst (skip_current (p, s))) = ap_preferred p"
  "ap_strategy (fst (skip_current (p, s))) = ap_strategy p"
  by (simp_all add: skip_current_def)

function next_healthy ::
    "nat \<Rightarrow> 'c attempt_policy \<Rightarrow> cooldown_attempts \<Rightarrow> policy_state
      \<Rightarrow> 'c selected_target option \<times> 'c attempt_policy \<times> cooldown_attempts \<times> policy_state" where
  "next_healthy clock p0 ca s0 =
     (let (p1, s) = skip_current (p0, s0);
          now_ms = max (ac_now_ms (ap_context p1)) clock;
          p = p1\<lparr>ap_ordered := filter (\<lambda>c. selectable now_ms (ap_preferred p1) ca s (cd_key c)) (ap_ordered p1)\<rparr>
      in case choose_index p s of
           None \<Rightarrow> (None, p, ca, s)
         | Some index \<Rightarrow>
             let c = ap_ordered p ! index; key = cd_key c;
                 p' = p\<lparr>ap_ordered := remove_at index (ap_ordered p)\<rparr>
             in case targets s key of
                  Some r \<Rightarrow>
                    if 0 < cooldown_until r
                    then if now_ms < cooldown_until r
                         then let (claimed, ca') = claim key ca
                              in if claimed then finish_selection c False True p' ca' s
                                 else next_healthy clock p' ca' s
                         else finish_selection c True False p' ca (claim_probe key s)
                    else finish_selection c False False p' ca s
                | None \<Rightarrow> finish_selection c False False p' ca s)"
  by pat_completeness auto

termination
proof (relation "measure (\<lambda>(_, p, _, _). length (ap_ordered p))", goal_cases)
  case 1
  then show ?case by simp
next
  case (2 clock p0 ca s0 x p1 s now p index c key p' r claimed ca')
  then have "index < length (ap_ordered p)" by (auto dest: choose_index_less)
  moreover have "ap_ordered p1 = ap_ordered p0"
    using 2(1,2) skip_current_ordered(1) [of p0 s0] by (metis fst_conv)
  with 2 have "length (ap_ordered p) \<le> length (ap_ordered p0)"
    by (simp add: length_filter_le)
  ultimately show ?case using 2 by (simp add: length_remove_at)
qed

declare next_healthy.simps [simp del]


section \<open>Retrying and failing\<close>

text \<open>
  \<open>retry_current\<close>. The claim of the one-time exception runs only when the conditions before
  it in the chain hold.
\<close>

definition still_current :: "nat \<Rightarrow> 'c attempt_policy \<Rightarrow> policy_state \<Rightarrow> string \<Rightarrow> bool" where
  "still_current now_ms p s key \<longleftrightarrow>
     (case targets s key of
        None \<Rightarrow> ap_current_epoch p = 0 \<and> \<not> ap_current_probe p
      | Some r \<Rightarrow>
          retry_after_until r \<le> now_ms
          \<and> epoch r = ap_current_epoch p
          \<and> (cooldown_until r = 0 \<or> ap_current_exception p
             \<or> (ap_current_probe p \<and> probe_epoch r = Some (ap_current_epoch p))))"

definition retry_current ::
    "nat \<Rightarrow> 'c attempt_policy \<Rightarrow> cooldown_attempts \<Rightarrow> policy_state
      \<Rightarrow> bool \<times> 'c attempt_policy \<times> cooldown_attempts \<times> policy_state" where
  "retry_current clock p ca s =
     (case ap_current_key p of
        None \<Rightarrow> (False, p, ca, s)
      | Some key \<Rightarrow>
          let now_ms = max (ac_now_ms (ap_context p)) clock;
              allowed = still_current now_ms p s key
          in if allowed then (True, p, ca, s)
             else let (taken, p', ca') =
                    (if \<not> ap_current_exception p
                     then (case targets s key of
                             None \<Rightarrow> (False, p, ca)
                           | Some r \<Rightarrow>
                               if now_ms < cooldown_until r \<and> retry_after_until r \<le> now_ms
                               then let (claimed, ca') = claim key ca
                                    in if claimed
                                       then (True, p\<lparr>ap_current_epoch := epoch r, ap_current_exception := True\<rparr>, ca')
                                       else (False, p, ca')
                               else (False, p, ca))
                     else (False, p, ca))
                  in if taken then (True, p', ca', s)
                     else let (p'', s'') = skip_current (p', s) in (False, p'', ca', s''))"

definition is_wait :: "retry_after option \<Rightarrow> duration option" where
  "is_wait ra = (case ra of Some (Wait delay) \<Rightarrow> Some delay | _ \<Rightarrow> None)"

definition is_cooldown :: "retry_after option \<Rightarrow> bool" where
  "is_cooldown ra \<longleftrightarrow> (case ra of Some (Cooldown _) \<Rightarrow> True | _ \<Rightarrow> False)"

text \<open>
  \<open>RouteAttemptPolicy::record_failure\<close>. The disposition is \<open>None\<close> when \<open>jitter\<close> panics.
\<close>

definition policy_record_failure ::
    "nat \<Rightarrow> 'c selected_target \<Rightarrow> failure_signal \<Rightarrow> 'c attempt_policy \<Rightarrow> cooldown_attempts \<Rightarrow> policy_state
      \<Rightarrow> disposition option \<times> 'c attempt_policy \<times> cooldown_attempts \<times> policy_state" where
  "policy_record_failure clock t failure p ca s =
     (if fs_kind failure \<in> {ContextLengthExceeded, ContentFiltered}
      then let (p', s') = skip_current (p, s) in (Some Stop, p', ca, s')
      else
        let ra = retry_after_policy t (fs_retry_after failure);
            wait = is_wait ra;
            key = selected_target_key t;
            now_ms = max (max (fs_now_ms failure) (ac_now_ms (ap_context p))) clock;
            (failures, s1) = record_failure key (ap_current_epoch p) (st_retry_budget t)
                               (st_cooldown_ms t) now_ms ra s
        in if fs_client_output_committed failure
           then let (p', s') = skip_current (p, s1) in (Some Stop, p', ca, s')
           else
             let may_retry =
                   \<not> ap_current_probe p \<and> \<not> ap_current_exception p \<and> \<not> is_cooldown ra
                   \<and> (transient_failure (fs_kind failure)
                      \<or> (fs_kind failure = QuotaExceeded \<and> wait \<noteq> None))
                   \<and> (case failures of None \<Rightarrow> False | Some n \<Rightarrow> n \<le> clamp_nonneg (st_retry_budget t));
                 (retry, p2, ca2, s2) =
                   (if may_retry
                    then (if wait \<noteq> None then (True, p, ca, s1) else retry_current clock p ca s1)
                    else (False, p, ca, s1))
             in if retry
                then (map_option RetrySame
                        (case wait of
                           Some delay \<Rightarrow> Some delay
                         | None \<Rightarrow> jitter (retry_cap_ms (case failures of None \<Rightarrow> 0 | Some n \<Rightarrow> n))
                                     (fs_jitter_sample failure)),
                      p2, ca2, s2)
                else let (p3, s3) = skip_current (p2, s2) in (Some TryNextTarget, p3, ca2, s3))"

text \<open>\<open>conversation_identity\<close>, on the request's previous-response id and prompt-cache key.\<close>

definition conversation_identity_of :: "string option \<Rightarrow> string option \<Rightarrow> conversation_identity option" where
  "conversation_identity_of previous_response cache_key =
     or_else (map_option GenerationParent previous_response) (map_option PromptCacheKey cache_key)"

end
