(* ===== verification/RoutePolicyLaws.thy ===== *)
theory RoutePolicyLaws
  imports RoutePolicy
begin

text \<open>
  What the operations of \<open>RoutePolicy\<close> keep: the well-formedness invariant of the shared
  state, the frame of each operation on the record of one target, the circuit-breaker
  behaviour of repeated failures and the harmlessness of late results.
\<close>

section \<open>The runtime record an operation leaves\<close>

lemma record_failure_stale: "runtime_epoch s key \<noteq> ep \<Longrightarrow> record_failure key ep b c now ra s = (None, s)"
  by (simp add: record_failure_def)

text \<open>The record written by a current failure, and its epoch.\<close>

definition failed_runtime ::
    "target_runtime option \<Rightarrow> nat \<Rightarrow> nat \<Rightarrow> int \<Rightarrow> int \<Rightarrow> nat \<Rightarrow> retry_after option \<Rightarrow> target_runtime" where
  "failed_runtime current ep fresh b c now ra =
     (let failures = sat_add32 (case current of None \<Rightarrow> 0 | Some r \<Rightarrow> consecutive_failures r) 1;
          cooldown = cooldown_for c ra;
          cool = should_cool current ep failures b cooldown ra
      in \<lparr>consecutive_failures = failures,
          cooldown_until = (if cool then sat_add64 now cooldown else 0),
          retry_after_until = next_retry_after current cooldown now ra,
          epoch = (if cool then fresh else ep),
          probe_epoch = None,
          load = (case current of None \<Rightarrow> default_load | Some r \<Rightarrow> load r)\<rparr>)"

definition failure_cools ::
    "policy_state \<Rightarrow> string \<Rightarrow> nat \<Rightarrow> int \<Rightarrow> int \<Rightarrow> retry_after option \<Rightarrow> bool" where
  "failure_cools s key ep b c ra =
     should_cool (targets s key) ep
       (sat_add32 (case targets s key of None \<Rightarrow> 0 | Some r \<Rightarrow> consecutive_failures r) 1) b
       (cooldown_for c ra) ra"

lemma record_failure_current:
  assumes "runtime_epoch s key = ep"
  shows "record_failure key ep b c now ra s =
     (Some (sat_add32 (case targets s key of None \<Rightarrow> 0 | Some r \<Rightarrow> consecutive_failures r) 1),
      s\<lparr>next_epoch := (if failure_cools s key ep b c ra then wrap_add64 (next_epoch s) 1 else next_epoch s),
        targets := (targets s)(key \<mapsto>
          failed_runtime (targets s key) ep (wrap_add64 (next_epoch s) 1) b c now ra)\<rparr>)"
  using assms
  by (simp add: record_failure_def failed_runtime_def failure_cools_def advance_epoch_def Let_def)

lemma record_failure_other:
  "k \<noteq> key \<Longrightarrow> targets (snd (record_failure key ep b c now ra s)) k = targets s k"
  by (cases "runtime_epoch s key = ep") (simp_all add: record_failure_current record_failure_stale)

lemma release_reservation_targets:
  "targets (release_reservation key n s) k =
     (if k = key then map_option (\<lambda>r. r\<lparr>load := (load r)\<lparr>tl_attempts := tl_attempts (load r) - 1,
          tl_input_tokens := tl_input_tokens (load r) - n\<rparr>\<rparr>) (targets s k)
      else targets s k)"
  by (auto simp: release_reservation_def split: option.splits)

lemma release_reservation_frame [rt_frame, simp]:
  "next_epoch (release_reservation key n s) = next_epoch s"
  "selection_sequence (release_reservation key n s) = selection_sequence s"
  "conversation_targets (release_reservation key n s) = conversation_targets s"
  "pricing_generation (release_reservation key n s) = pricing_generation s"
  by (simp_all add: release_reservation_def split: option.splits)

lemma release_probe_targets:
  "targets (release_probe key ep s) k =
     (if k = key then map_option (\<lambda>r. if probe_epoch r = Some ep then r\<lparr>probe_epoch := None\<rparr> else r)
          (targets s k)
      else targets s k)"
  by (auto simp: release_probe_def split: option.splits)

lemma release_probe_frame [rt_frame, simp]:
  "next_epoch (release_probe key ep s) = next_epoch s"
  "selection_sequence (release_probe key ep s) = selection_sequence s"
  "conversation_targets (release_probe key ep s) = conversation_targets s"
  "pricing_generation (release_probe key ep s) = pricing_generation s"
  by (simp_all add: release_probe_def split: option.splits)

lemma release_targets:
  "targets (release ctx key ep probe s) k =
     (if k = key then map_option (\<lambda>r. r\<lparr>load := (load r)\<lparr>tl_attempts := tl_attempts (load r) - 1,
            tl_input_tokens := tl_input_tokens (load r) - ac_uncached_input_tokens ctx\<rparr>,
          probe_epoch := (if probe \<and> probe_epoch r = Some ep then None else probe_epoch r)\<rparr>) (targets s k)
      else targets s k)"
  by (cases "targets s k") (auto simp: release_def Let_def release_probe_targets release_reservation_targets)

lemma release_next_epoch [rt_frame, simp]: "next_epoch (release ctx key ep probe s) = next_epoch s"
  by (simp add: release_def Let_def)

lemma record_success_targets:
  "targets (record_success ctx key ep s) k =
     (if k = key then map_option (\<lambda>r. (if epoch r = ep
            then r\<lparr>consecutive_failures := 0, cooldown_until := 0, probe_epoch := None\<rparr> else r)
          \<lparr>load := (load r)\<lparr>tl_attempts := tl_attempts (load r) - 1,
            tl_input_tokens := tl_input_tokens (load r) - ac_uncached_input_tokens ctx\<rparr>\<rparr>) (targets s k)
      else targets s k)"
  by (cases "targets s k")
    (auto simp: record_success_def Let_def release_reservation_targets split: option.splits)

lemma record_success_next_epoch [rt_frame, simp]: "next_epoch (record_success ctx key ep s) = next_epoch s"
  by (simp add: record_success_def Let_def split: option.splits)

section \<open>Well-formed states\<close>

text \<open>
  No record is ahead of the epoch counter; a probe slot carries its record's own epoch and
  is only taken while the target is cooling or half-open; a record that never cooled has
  epoch 0.
\<close>

definition wf_runtime :: "nat \<Rightarrow> target_runtime \<Rightarrow> bool" where
  "wf_runtime limit r \<longleftrightarrow>
     epoch r \<le> limit
     \<and> (\<forall>e. probe_epoch r = Some e \<longrightarrow> e = epoch r \<and> 0 < cooldown_until r)
     \<and> (epoch r = 0 \<longrightarrow> cooldown_until r = 0)
     \<and> consecutive_failures r \<le> u32_max \<and> cooldown_until r \<le> u64_max"

definition wf_state :: "policy_state \<Rightarrow> bool" where
  "wf_state s \<longleftrightarrow> (\<forall>key r. targets s key = Some r \<longrightarrow> wf_runtime (next_epoch s) r)"

lemma wf_stateD: "wf_state s \<Longrightarrow> targets s key = Some r \<Longrightarrow> wf_runtime (next_epoch s) r"
  by (simp add: wf_state_def)

lemma wf_runtime_mono: "wf_runtime n r \<Longrightarrow> n \<le> m \<Longrightarrow> wf_runtime m r"
  by (auto simp: wf_runtime_def)

lemma wf_initial [simp]: "wf_state initial_state"
  by (simp add: wf_state_def initial_state_def)

lemma next_epoch_record_failure:
  "next_epoch s < u64_max \<Longrightarrow>
   next_epoch (snd (record_failure key ep b c now ra s)) \<in> {next_epoch s, Suc (next_epoch s)}"
  by (cases "runtime_epoch s key = ep")
    (auto simp: record_failure_current record_failure_stale wrap_add64_exact)

lemma runtime_epoch_le: "wf_state s \<Longrightarrow> runtime_epoch s key \<le> next_epoch s"
  by (auto simp: runtime_epoch_def wf_state_def wf_runtime_def split: option.splits)

lemma wf_failed_runtime:
  assumes "wf_state s" "next_epoch s < u64_max" "runtime_epoch s key = ep"
  shows "wf_runtime (if failure_cools s key ep b c ra then Suc (next_epoch s) else next_epoch s)
           (failed_runtime (targets s key) ep (Suc (next_epoch s)) b c now ra)"
  using assms runtime_epoch_le [OF assms(1), of key]
  by (auto simp: wf_runtime_def failed_runtime_def failure_cools_def Let_def)

lemma wf_record_failure:
  assumes "wf_state s" "next_epoch s < u64_max"
  shows "wf_state (snd (record_failure key ep b c now ra s))"
proof (cases "runtime_epoch s key = ep")
  case True
  have "wf_runtime m (the (targets s k))" if "targets s k \<noteq> None" "next_epoch s \<le> m" for k m
    using that wf_runtime_mono [OF wf_stateD [OF assms(1)]] by auto
  with wf_failed_runtime [OF assms True, of b c ra now] show ?thesis
    using assms(2)
    by (auto simp: wf_state_def record_failure_current [OF True] wrap_add64_exact
        intro: wf_runtime_mono dest: wf_stateD [OF assms(1)] split: if_splits)
next
  case False
  with assms(1) show ?thesis by (simp add: record_failure_stale)
qed

lemma wf_release: "wf_state s \<Longrightarrow> wf_state (release ctx key ep probe s)"
  by (fastforce simp: wf_state_def release_targets wf_runtime_def split: if_splits)

lemma wf_record_success: "wf_state s \<Longrightarrow> wf_state (record_success ctx key ep s)"
  by (auto simp: wf_state_def record_success_targets wf_runtime_def split: if_splits)

lemma wf_clear_pricing: "wf_state s \<Longrightarrow> wf_state (clear_pricing s)"
  by (simp add: clear_pricing_def wf_state_def)

lemma wf_try_recovery:
  assumes "wf_state s" "next_epoch s < u64_max"
  shows "wf_state (snd (try_record_recovery_failure key ep b c now s))"
  using assms wf_record_failure [OF assms]
  by (auto simp: try_record_recovery_failure_def Let_def simp del: not_le)

section \<open>Late results\<close>

text \<open>Everything an attempt may report after the fact, with the epoch it was started under.\<close>

datatype report =
    ReportSuccess attempt_context nat
  | ReportFailure nat int int nat "retry_after option"
  | ReportRecovery nat int int nat
  | ReportRelease attempt_context nat bool

fun report_epoch :: "report \<Rightarrow> nat" where
  "report_epoch (ReportSuccess _ e) = e"
| "report_epoch (ReportFailure e _ _ _ _) = e"
| "report_epoch (ReportRecovery e _ _ _) = e"
| "report_epoch (ReportRelease _ e _) = e"

fun apply_report :: "string \<Rightarrow> report \<Rightarrow> policy_state \<Rightarrow> policy_state" where
  "apply_report key (ReportSuccess ctx e) s = record_success ctx key e s"
| "apply_report key (ReportFailure e b c now ra) s = snd (record_failure key e b c now ra s)"
| "apply_report key (ReportRecovery e b c now) s = snd (try_record_recovery_failure key e b c now s)"
| "apply_report key (ReportRelease ctx e probe) s = release ctx key e probe s"

text \<open>The health part of a record: everything but its load.\<close>

definition health :: "policy_state \<Rightarrow> string \<Rightarrow> (nat \<times> nat \<times> nat \<times> nat \<times> nat option) option" where
  "health s key = map_option (\<lambda>r. (consecutive_failures r, cooldown_until r, retry_after_until r,
     epoch r, probe_epoch r)) (targets s key)"

lemma health_epoch: "health s key = health s' key \<Longrightarrow> runtime_epoch s key = runtime_epoch s' key"
  by (auto simp: health_def runtime_epoch_def split: option.splits)

definition probe_epoch_consistent :: "policy_state \<Rightarrow> string \<Rightarrow> bool" where
  "probe_epoch_consistent s key \<longleftrightarrow>
     (\<forall>r e. targets s key = Some r \<longrightarrow> probe_epoch r = Some e \<longrightarrow> e = epoch r)"

lemma late_report_keeps_health:
  assumes "report_epoch rep \<noteq> runtime_epoch s key" "probe_epoch_consistent s key"
  shows "health (apply_report key rep s) key = health s key"
proof (cases rep)
  case (ReportFailure e b c now ra)
  with assms show ?thesis by (simp add: record_failure_stale)
next
  case (ReportRecovery e b c now)
  with assms show ?thesis by (simp add: try_record_recovery_failure_def Let_def)
next
  case (ReportSuccess ctx e)
  with assms show ?thesis
    by (auto simp: health_def record_success_targets runtime_epoch_def split: option.splits)
next
  case (ReportRelease ctx e probe)
  with assms show ?thesis
    by (cases "targets s key")
      (auto simp: health_def release_targets runtime_epoch_def probe_epoch_consistent_def)
qed

lemma health_consistent:
  "health s' key = health s key \<Longrightarrow> probe_epoch_consistent s key \<Longrightarrow> probe_epoch_consistent s' key"
  by (cases "targets s key"; cases "targets s' key")
    (auto simp: health_def probe_epoch_consistent_def)

lemma late_reports_keep_health:
  assumes "\<forall>rep \<in> set reps. report_epoch rep \<noteq> runtime_epoch s key" "probe_epoch_consistent s key"
  shows "health (fold (apply_report key) reps s) key = health s key"
  using assms
proof (induction reps arbitrary: s)
  case Nil
  then show ?case by simp
next
  case (Cons rep reps)
  let ?s = "apply_report key rep s"
  have h: "health ?s key = health s key"
    using Cons.prems by (intro late_report_keeps_health) simp_all
  have "health (fold (apply_report key) reps ?s) key = health ?s key"
    using Cons.prems health_epoch [OF h] health_consistent [OF h] by (intro Cons.IH) simp_all
  with h show ?case by simp
qed

lemma wf_probe_consistent: "wf_state s \<Longrightarrow> probe_epoch_consistent s key"
  by (auto simp: wf_state_def wf_runtime_def probe_epoch_consistent_def)


section \<open>Repeated failures\<close>

text \<open>Successive failures of one generation, each with the clock reading it was recorded at.\<close>

definition failures_at :: "string \<Rightarrow> nat \<Rightarrow> int \<Rightarrow> int \<Rightarrow> nat list \<Rightarrow> policy_state \<Rightarrow> policy_state" where
  "failures_at key ep b c nows s = fold (\<lambda>now s. snd (record_failure key ep b c now None s)) nows s"

text \<open>A closed circuit with \<open>n\<close> failures counted in the generation \<open>ep\<close>.\<close>

definition closed_with :: "nat \<Rightarrow> nat \<Rightarrow> policy_state \<Rightarrow> string \<Rightarrow> bool" where
  "closed_with n ep s key \<longleftrightarrow>
     (case targets s key of
        None \<Rightarrow> ep = 0 \<and> n = 0
      | Some r \<Rightarrow> epoch r = ep \<and> consecutive_failures r = n \<and> cooldown_until r = 0 \<and> probe_epoch r = None)"

lemma closed_with_epoch: "closed_with n ep s key \<Longrightarrow> runtime_epoch s key = ep"
  by (auto simp: closed_with_def runtime_epoch_def split: option.splits)

lemma closed_with_status:
  "closed_with n ep s key \<Longrightarrow> target_status_at key now s = \<lparr>rs_state = Available, cooldown_remaining_ms = None\<rparr>"
  by (auto simp: closed_with_def target_status_at_def split: option.splits)

lemma closed_with_count:
  "closed_with n ep s key \<Longrightarrow> (case targets s key of None \<Rightarrow> 0 | Some r \<Rightarrow> consecutive_failures r) = n"
  by (auto simp: closed_with_def split: option.splits)

lemma closed_below_budget:
  assumes "closed_with n ep s key" "n < clamp_nonneg b"
  shows "\<not> should_cool (targets s key) ep (Suc n) b cd None"
  using assms by (auto simp: should_cool_def closed_with_def split: option.splits)

lemma failure_below_budget:
  assumes "closed_with n ep s key" "n < clamp_nonneg b" "clamp_nonneg b < u32_max"
  shows "closed_with (Suc n) ep (snd (record_failure key ep b c now None s)) key"
proof -
  note cnt = closed_with_count [OF assms(1)]
  have "sat_add32 n 1 = Suc n" using assms by (simp add: sat_add32_exact)
  moreover have "\<not> should_cool (targets s key) ep (Suc n) b (cooldown_for c None) None"
    using assms(1,2) by (rule closed_below_budget)
  ultimately show ?thesis
    by (simp add: record_failure_current [OF closed_with_epoch [OF assms(1)]] closed_with_def
        failed_runtime_def cnt Let_def)
qed

lemma failures_below_budget:
  assumes "closed_with n ep s key" "n + length nows \<le> clamp_nonneg b" "clamp_nonneg b < u32_max"
  shows "closed_with (n + length nows) ep (failures_at key ep b c nows s) key"
  using assms
proof (induction nows arbitrary: n s)
  case Nil
  then show ?case by (simp add: failures_at_def)
next
  case (Cons now nows)
  have "closed_with (Suc n) ep (snd (record_failure key ep b c now None s)) key"
    using Cons.prems by (intro failure_below_budget) simp_all
  from Cons.IH [OF this] Cons.prems show ?case by (simp add: failures_at_def)
qed

lemma failure_at_budget:
  assumes "closed_with (clamp_nonneg b) ep s key" "clamp_nonneg b < u32_max" "0 < c"
    "next_epoch s < u64_max"
  shows "\<exists>r. targets (snd (record_failure key ep b c now None s)) key = Some r
    \<and> cooldown_until r = sat_add64 now (nat c) \<and> epoch r = Suc (next_epoch s) \<and> probe_epoch r = None"
proof -
  note cnt = closed_with_count [OF assms(1)]
  have "sat_add32 (clamp_nonneg b) 1 = Suc (clamp_nonneg b)" using assms by (simp add: sat_add32_exact)
  moreover have "cooldown_for c None = nat c" using assms by (simp add: cooldown_for_def clamp_nonneg_def)
  ultimately show ?thesis
    using assms
    by (simp add: record_failure_current [OF closed_with_epoch [OF assms(1)]] failed_runtime_def cnt
        should_cool_def wrap_add64_exact Let_def)
qed

section \<open>Properties\<close>

text \<open>
  C18: results that arrive late are harmless. Once a failure has started a new cooldown of a
  target, no sequence of successes, failures, recovery failures or releases that carry
  epochs handed out before it (no larger than the counter was) changes the target's
  failure count, cooldown, retry-after, epoch or probe slot.
\<close>

theorem late_results_harmless:
  assumes "wf_state s" "next_epoch s < u64_max"
    and "record_failure key ep b c now ra s = (Some n, s')" "runtime_epoch s' key \<noteq> ep"
    and "\<forall>rep \<in> set reps. report_epoch rep \<le> next_epoch s"
  shows "health (fold (apply_report key) reps s') key = health s' key"
proof (rule late_reports_keep_health)
  have cur: "runtime_epoch s key = ep"
    using assms(3) record_failure_stale by (cases "runtime_epoch s key = ep") force+
  have s': "s' = snd (record_failure key ep b c now ra s)" using assms(3) by simp
  have "wf_state s'" unfolding s' using assms(1,2) by (rule wf_record_failure)
  then show "probe_epoch_consistent s' key" by (rule wf_probe_consistent)
  have "runtime_epoch s' key = Suc (next_epoch s)"
    using assms(2,4) unfolding s'
    by (auto simp: record_failure_current [OF cur] runtime_epoch_def failed_runtime_def Let_def
        wrap_add64_exact split: if_splits)
  with assms(5) show "\<forall>rep \<in> set reps. report_epoch rep \<noteq> runtime_epoch s' key" by auto
qed

theorem late_results_harmless_witness:
  "\<exists>s'. record_failure ''p:m'' 0 0 1000 5 None initial_state = (Some 1, s')
     \<and> health (fold (apply_report ''p:m'') [ReportFailure 0 0 1000 900 None, ReportRelease
          \<lparr>ac_principal = ''u'', ac_route_id = ''r'', ac_conversation = None,
           ac_conversation_affinity = None, ac_cache_affinity = None,
           ac_uncached_input_tokens = 3, ac_now_ms = 0\<rparr> 0 True] s') ''p:m''
        = Some (1, 1005, 0, 1, None)"
proof -
  let ?s' = "snd (record_failure ''p:m'' 0 0 1000 5 None initial_state)"
  have run: "record_failure ''p:m'' 0 0 1000 5 None initial_state = (Some 1, ?s')"
    by (simp add: record_failure_def initial_state_def runtime_epoch_def sat_add32_def u32_max_def Let_def
        split: prod.splits)
  have ep: "runtime_epoch ?s' ''p:m'' = 1" and h: "health ?s' ''p:m'' = Some (1, 1005, 0, 1, None)"
    by (simp_all add: record_failure_def initial_state_def runtime_epoch_def sat_add32_def u32_max_def
        Let_def should_cool_def cooldown_for_def clamp_nonneg_def advance_epoch_def wrap_add64_def
        health_def next_retry_after_def sat_add64_def u64_max_def)
  have "next_epoch initial_state < u64_max" by (simp add: initial_state_def u64_max_def)
  from late_results_harmless [OF wf_initial this run, of "[ReportFailure 0 0 1000 900 None, ReportRelease
      \<lparr>ac_principal = ''u'', ac_route_id = ''r'', ac_conversation = None,
       ac_conversation_affinity = None, ac_cache_affinity = None,
       ac_uncached_input_tokens = 3, ac_now_ms = 0\<rparr> 0 True]"] ep h run
  show ?thesis by (intro exI [of _ ?s']) simp
qed



text \<open>
  a failure absorbed by a provider's internal recovery never opens the circuit. When it
  is counted, the target stays available in the same generation with exactly one more
  failure; when the budget is used up or the target is not in that closed generation,
  nothing changes.
\<close>

theorem recovery_failure_never_cools:
  assumes "wf_state s" "try_record_recovery_failure key ep b c now s = (counted, s')"
    and "clamp_nonneg b \<le> u32_max"
  shows "if counted
         then runtime_epoch s key = ep
              \<and> (\<exists>n < clamp_nonneg b. closed_with n ep s key \<and> closed_with (Suc n) ep s' key)
              \<and> next_epoch s' = next_epoch s
         else s' = s"
proof (cases counted)
  case True
  let ?n = "case targets s key of None \<Rightarrow> 0 | Some r \<Rightarrow> consecutive_failures r"
  from True assms(2) have ep: "runtime_epoch s key = ep"
    and cd: "\<forall>r. targets s key = Some r \<longrightarrow> cooldown_until r = 0"
    and n: "?n < clamp_nonneg b"
    and s': "s' = snd (record_failure key ep b c now None s)"
    by (auto simp: try_record_recovery_failure_def Let_def split: if_splits option.splits)
  have closed: "closed_with ?n ep s key"
    using ep cd assms(1)
    by (fastforce simp: closed_with_def runtime_epoch_def wf_state_def wf_runtime_def split: option.splits)
  have "sat_add32 ?n 1 = Suc ?n" using n assms(3) by (simp add: sat_add32_exact)
  moreover have "\<not> should_cool (targets s key) ep (Suc ?n) b (cooldown_for c None) None"
    using closed n by (rule closed_below_budget)
  ultimately have "closed_with (Suc ?n) ep s' key" "next_epoch s' = next_epoch s"
    unfolding s'
    by (simp_all add: record_failure_current [OF ep] closed_with_def failed_runtime_def
        failure_cools_def Let_def)
  with True ep closed n show ?thesis by auto
next
  case False
  with assms(2) show ?thesis
    by (auto simp: try_record_recovery_failure_def Let_def split: if_splits)
qed

theorem recovery_failure_never_cools_witness:
  "\<exists>s'. try_record_recovery_failure ''p:m'' 0 2 100 10 initial_state = (True, s')
     \<and> closed_with 1 0 s' ''p:m''"
proof -
  let ?s' = "snd (try_record_recovery_failure ''p:m'' 0 2 100 10 initial_state)"
  have run: "try_record_recovery_failure ''p:m'' 0 2 100 10 initial_state = (True, ?s')"
    by (simp add: try_record_recovery_failure_def runtime_epoch_def initial_state_def clamp_nonneg_def)
  have "clamp_nonneg 2 \<le> u32_max" by (simp add: clamp_nonneg_def u32_max_def)
  from recovery_failure_never_cools [OF wf_initial run this] run show ?thesis
    by (auto simp: closed_with_def initial_state_def)
qed

end
