(* ===== verification/RouteSelectorLaws.thy ===== *)
theory RouteSelectorLaws
  imports RouteSelector RoutePolicyLaws
begin

text \<open>
  What driving a policy guarantees: the retry inside \<open>next_healthy\<close> is never taken, the
  selection order of ADR-0034 (preferred target, then priority), the completeness of the
  candidate list, the reservations taken and returned, the at-most-once cooldown
  exception, and the dispositions of failures with their bounded delays.
\<close>

section \<open>Selection without the retry\<close>

definition cooling :: "nat \<Rightarrow> policy_state \<Rightarrow> string \<Rightarrow> bool" where
  "cooling now_ms s key \<longleftrightarrow>
     (case targets s key of None \<Rightarrow> False | Some r \<Rightarrow> now_ms < cooldown_until r)"

definition half_open :: "nat \<Rightarrow> policy_state \<Rightarrow> string \<Rightarrow> bool" where
  "half_open now_ms s key \<longleftrightarrow>
     (case targets s key of None \<Rightarrow> False | Some r \<Rightarrow> 0 < cooldown_until r \<and> cooldown_until r \<le> now_ms)"

definition narrowed :: "nat \<Rightarrow> 'c attempt_policy \<Rightarrow> cooldown_attempts \<Rightarrow> policy_state
    \<Rightarrow> 'c attempt_policy \<times> policy_state" where
  "narrowed clock p ca s =
     (let (p1, s1) = skip_current (p, s)
      in (p1\<lparr>ap_ordered := filter (\<lambda>c. selectable (max (ac_now_ms (ap_context p)) clock) (ap_preferred p) ca s1 (cd_key c))
            (ap_ordered p)\<rparr>, s1))"

definition take_candidate :: "nat \<Rightarrow> nat \<Rightarrow> 'c attempt_policy \<Rightarrow> cooldown_attempts \<Rightarrow> policy_state
    \<Rightarrow> 'c selected_target option \<times> 'c attempt_policy \<times> cooldown_attempts \<times> policy_state" where
  "take_candidate now_ms i p ca s =
     (let c = ap_ordered p ! i; key = cd_key c; p' = p\<lparr>ap_ordered := remove_at i (ap_ordered p)\<rparr>
      in finish_selection c (half_open now_ms s key) (cooling now_ms s key) p'
           (if cooling now_ms s key then snd (claim key ca) else ca)
           (if half_open now_ms s key then claim_probe key s else s))"

lemma selectable_cooling:
  "selectable now_ms preferred ca s key \<Longrightarrow> cooling now_ms s key \<Longrightarrow> exception_available key preferred ca"
  by (auto simp: selectable_def cooling_def split: option.splits if_splits)

lemma next_healthy_eq:
  "next_healthy clock p0 ca s0 =
     (let (p, s) = narrowed clock p0 ca s0
      in case choose_index p s of
           None \<Rightarrow> (None, p, ca, s)
         | Some i \<Rightarrow> take_candidate (max (ac_now_ms (ap_context p0)) clock) i p ca s)"
proof -
  obtain p1 s where sk: "skip_current (p0, s0) = (p1, s)" by (cases "skip_current (p0, s0)")
  have same: "ap_context p1 = ap_context p0" "ap_preferred p1 = ap_preferred p0"
    "ap_ordered p1 = ap_ordered p0"
    using skip_current_ordered [of p0 s0] unfolding sk by simp_all
  let ?now = "max (ac_now_ms (ap_context p0)) clock"
  let ?p = "p1\<lparr>ap_ordered := filter (\<lambda>c. selectable ?now (ap_preferred p0) ca s (cd_key c)) (ap_ordered p0)\<rparr>"
  have nar: "narrowed clock p0 ca s0 = (?p, s)" by (simp add: narrowed_def sk)
  show ?thesis
  proof (cases "choose_index ?p s")
    case None
    then show ?thesis by (subst next_healthy.simps) (simp add: sk same nar)
  next
    case (Some i)
    let ?c = "ap_ordered ?p ! i"
    have "i < length (ap_ordered ?p)" using Some by (rule choose_index_less)
    then have "?c \<in> set (ap_ordered ?p)" by (rule nth_mem)
    then have sel: "selectable ?now (ap_preferred p0) ca s (cd_key ?c)" by simp
    have claimed: "fst (claim (cd_key ?c) ca)" if "cooling ?now s (cd_key ?c)"
      using selectable_cooling [OF sel that] by (simp add: claim_def exception_available_def)
    show ?thesis
      using claimed Some
      by (subst next_healthy.simps)
        (auto simp: sk same nar take_candidate_def Let_def cooling_def half_open_def claim_def
          split: option.splits)
  qed
qed

lemma narrowed_fields [simp]:
  "ap_preferred (fst (narrowed clock p ca s)) = ap_preferred p"
  "ap_context (fst (narrowed clock p ca s)) = ap_context p"
  "ap_strategy (fst (narrowed clock p ca s)) = ap_strategy p"
  "snd (narrowed clock p ca s) = snd (skip_current (p, s))"
  "ap_ordered (fst (narrowed clock p ca s)) = filter (\<lambda>c. selectable (max (ac_now_ms (ap_context p)) clock)
     (ap_preferred p) ca (snd (skip_current (p, s))) (cd_key c)) (ap_ordered p)"
  by (simp_all add: narrowed_def skip_current_def)

lemma choose_index_None: "choose_index p s = None \<longleftrightarrow> ap_ordered p = []"
  by (cases "ap_ordered p") (simp_all add: choose_index_def Let_def del: min_by.simps)

lemma finish_selection_result:
  "finish_selection c pr ex p ca s = (r, p', ca', s') \<Longrightarrow>
   r = Some (cd_target c) \<and> ap_current_key p' = Some (cd_key c) \<and> ap_current_probe p' = pr
   \<and> ap_current_exception p' = ex \<and> ap_context p' = ap_context p \<and> ap_preferred p' = ap_preferred p
   \<and> ap_ordered p' = ap_ordered p
   \<and> ca' = mark_selected (cd_key c) ca
   \<and> s' = reserve_load (cd_key c) (ac_uncached_input_tokens (ap_context p)) s
   \<and> ap_current_epoch p' = runtime_epoch s' (cd_key c)"
  by (auto simp: finish_selection_def Let_def)

text \<open>The cases of a call, as one elimination rule.\<close>

lemma next_healthy_cases:
  assumes "next_healthy clock p ca s = (r, p', ca', s')"
  obtains (none) "r = None" "ap_ordered (fst (narrowed clock p ca s)) = []"
      "p' = fst (narrowed clock p ca s)" "ca' = ca" "s' = snd (skip_current (p, s))"
  | (some) c i where "r = Some (cd_target c)" "i < length (ap_ordered (fst (narrowed clock p ca s)))"
      "choose_index (fst (narrowed clock p ca s)) (snd (skip_current (p, s))) = Some i"
      "c = ap_ordered (fst (narrowed clock p ca s)) ! i" "c \<in> set (ap_ordered p)"
      "selectable (max (ac_now_ms (ap_context p)) clock) (ap_preferred p) ca (snd (skip_current (p, s))) (cd_key c)"
      "take_candidate (max (ac_now_ms (ap_context p)) clock) i (fst (narrowed clock p ca s)) ca
         (snd (skip_current (p, s))) = (r, p', ca', s')"
proof (cases "choose_index (fst (narrowed clock p ca s)) (snd (skip_current (p, s)))")
  case None
  then have empty: "ap_ordered (fst (narrowed clock p ca s)) = []" by (simp only: choose_index_None)
  have "(r, p', ca', s') = (None, fst (narrowed clock p ca s), ca, snd (skip_current (p, s)))"
    using assms [symmetric] None by (simp only: next_healthy_eq Let_def case_prod_beta narrowed_fields(4) option.case)
  with empty none show thesis by blast
next
  case (Some i)
  let ?c = "ap_ordered (fst (narrowed clock p ca s)) ! i"
  have i: "i < length (ap_ordered (fst (narrowed clock p ca s)))" using Some by (rule choose_index_less)
  then have mem: "?c \<in> set (ap_ordered (fst (narrowed clock p ca s)))" by (rule nth_mem)
  have run: "take_candidate (max (ac_now_ms (ap_context p)) clock) i (fst (narrowed clock p ca s)) ca
         (snd (skip_current (p, s))) = (r, p', ca', s')"
    using assms Some by (simp only: next_healthy_eq Let_def case_prod_beta narrowed_fields(4) option.case)
  then have "r = Some (cd_target ?c)"
    unfolding take_candidate_def Let_def by (auto dest!: finish_selection_result)
  from mem have inp: "?c \<in> set (ap_ordered p)"
    and sel: "selectable (max (ac_now_ms (ap_context p)) clock) (ap_preferred p) ca
      (snd (skip_current (p, s))) (cd_key ?c)"
    by simp_all
  show thesis by (rule some [OF \<open>r = Some (cd_target ?c)\<close> i Some refl inp sel run])
qed

section \<open>Which candidate is chosen\<close>

lemma compare_affinity:
  "compare_candidates latency preferred s x y =
     then_with (cmp (\<not> preferred = Some (cd_key x)) (\<not> preferred = Some (cd_key y)))
       (compare_candidates latency None s x y)"
  by (auto simp: compare_candidates_def Let_def then_with_def cmp_def)

lemma compare_priority:
  "compare_candidates latency None s x y =
     then_with (cmp (- st_priority (cd_target x)) (- st_priority (cd_target y)))
       (then_with
           (if latency then or_equal (opt_f64_partial_cmp (cd_latency y) (cd_latency x))
            else then_with (cmp (tl_attempts (load_of s (cd_key x))) (tl_attempts (load_of s (cd_key y))))
                   (or_equal (f64_partial_cmp
                      (f64_add (cd_traffic x) (f64_of_int (int (tl_input_tokens (load_of s (cd_key x))))))
                      (f64_add (cd_traffic y) (f64_of_int (int (tl_input_tokens (load_of s (cd_key y)))))))))
           (cmp (tl_last_selected (load_of s (cd_key x))) (tl_last_selected (load_of s (cd_key y)))))"
  by (simp add: compare_candidates_def Let_def then_with_def cmp_def)

text \<open>First the affinity.\<close>

lemma chosen_affinity:
  assumes "choose_index p s = Some i" "c \<in> set (ap_ordered p)" "ap_preferred p = Some (cd_key c)"
  shows "ap_preferred p = Some (cd_key (ap_ordered p ! i))"
proof -
  obtain x xs where os: "ap_ordered p = x # xs" using assms(1) by (cases "ap_ordered p") (auto simp: choose_index_def)
  let ?lat = "use_latency p (fold max (map (\<lambda>c. st_priority (cd_target c)) xs) (st_priority (cd_target x)))"
  let ?cmp = "\<lambda>x y. compare_candidates ?lat (ap_preferred p) s (snd x) (snd y)"
  obtain e where e: "min_by ?cmp (enumerate 0 (ap_ordered p)) = Some e" "fst e = i"
    using assms(1) unfolding choose_index_def os by (auto simp: Let_def simp del: min_by.simps enumerate_simps)
  from assms(2) obtain j where j: "j < length (ap_ordered p)" "ap_ordered p ! j = c"
    by (auto simp: in_set_conv_nth)
  then have "(j, c) \<in> set (enumerate 0 (ap_ordered p))" by (auto simp: in_set_enumerate_eq)
  from min_by_key [OF e(1), of "\<lambda>x. \<not> ap_preferred p = Some (cd_key (snd x))", OF compare_affinity this]
  have "ap_preferred p = Some (cd_key (snd e))" using assms(3) by auto
  moreover have "snd e = ap_ordered p ! i"
    using min_by_in [OF e(1)] e(2) by (auto simp: in_set_enumerate_eq)
  ultimately show ?thesis by simp
qed

text \<open>Then, when the choice is not the preferred target, the priority.\<close>

lemma min_by_cong_on:
  assumes "\<And>a b. a \<in> set xs \<Longrightarrow> b \<in> set xs \<Longrightarrow> c a b = d a b"
  shows "min_by c xs = min_by d xs"
proof -
  have "min_by_from c m ys = min_by_from d m ys" if "insert m (set ys) \<subseteq> set xs" for m ys
    using that
  proof (induction ys arbitrary: m)
    case (Cons y ys)
    have "c m y = d m y" using Cons.prems by (intro assms) auto
    then show ?case using Cons by simp
  qed simp
  then show ?thesis by (cases xs) auto
qed

lemma chosen_priority:
  assumes "choose_index p s = Some i" "c \<in> set (ap_ordered p)"
    "ap_preferred p \<noteq> Some (cd_key (ap_ordered p ! i))"
  shows "st_priority (cd_target c) \<le> st_priority (cd_target (ap_ordered p ! i))"
proof -
  obtain x xs where os: "ap_ordered p = x # xs" using assms(1) by (cases "ap_ordered p") (auto simp: choose_index_def)
  let ?lat = "use_latency p (fold max (map (\<lambda>c. st_priority (cd_target c)) xs) (st_priority (cd_target x)))"
  let ?cmp = "\<lambda>pr x y. compare_candidates ?lat pr s (snd x) (snd y)"
  obtain e where e: "min_by (?cmp (ap_preferred p)) (enumerate 0 (ap_ordered p)) = Some e" "fst e = i"
    using assms(1) unfolding choose_index_def os by (auto simp: Let_def simp del: min_by.simps enumerate_simps)
  have no_pref: "ap_preferred p \<noteq> Some (cd_key d)" if "d \<in> set (ap_ordered p)" for d
    using chosen_affinity [OF assms(1) that] assms(3) by auto
  have "min_by (?cmp (ap_preferred p)) (enumerate 0 (ap_ordered p)) = min_by (?cmp None) (enumerate 0 (ap_ordered p))"
  proof (rule min_by_cong_on)
    fix a b
    assume "a \<in> set (enumerate 0 (ap_ordered p))" "b \<in> set (enumerate 0 (ap_ordered p))"
    then have "snd a \<in> set (ap_ordered p)" "snd b \<in> set (ap_ordered p)"
      by (metis in_set_enumerate_eq add.right_neutral add_0 diff_zero nth_mem)+
    then have "ap_preferred p \<noteq> Some (cd_key (snd a))" "ap_preferred p \<noteq> Some (cd_key (snd b))"
      using no_pref by blast+
    then show "?cmp (ap_preferred p) a b = ?cmp None a b"
      by (subst compare_affinity) (simp add: cmp_def)
  qed
  with e(1) have e': "min_by (?cmp None) (enumerate 0 (ap_ordered p)) = Some e" by simp
  from assms(2) obtain j where j: "j < length (ap_ordered p)" "ap_ordered p ! j = c"
    by (auto simp: in_set_conv_nth)
  then have "(j, c) \<in> set (enumerate 0 (ap_ordered p))" by (auto simp: in_set_enumerate_eq)
  from min_by_key [OF e', of "\<lambda>x. - st_priority (cd_target (snd x))", OF compare_priority this]
  have "st_priority (cd_target c) \<le> st_priority (cd_target (snd e))" by simp
  moreover have "snd e = ap_ordered p ! i"
    using min_by_in [OF e'] e(2) by (auto simp: in_set_enumerate_eq)
  ultimately show ?thesis by simp
qed


section \<open>The state a selection leaves\<close>

lemma reserve_load_targets:
  "targets (reserve_load key n s) k =
     (if k = key then Some ((case targets s key of None \<Rightarrow> default_runtime | Some r \<Rightarrow> r)
        \<lparr>load := \<lparr>tl_attempts = sat_add64 (tl_attempts (load_of s key)) 1,
           tl_input_tokens = sat_add64 (tl_input_tokens (load_of s key)) n,
           tl_last_selected = sat_add64 (selection_sequence s) 1\<rparr>\<rparr>)
      else targets s k)"
  by (auto simp: reserve_load_def load_of_def Let_def default_runtime_def split: option.splits)

lemma reserve_load_next_epoch [rt_frame, simp]: "next_epoch (reserve_load key n s) = next_epoch s"
  by (simp add: reserve_load_def Let_def)

lemma claim_probe_targets:
  "targets (claim_probe key s) k =
     (if k = key then map_option (\<lambda>r. r\<lparr>epoch := wrap_add64 (next_epoch s) 1,
          probe_epoch := Some (wrap_add64 (next_epoch s) 1)\<rparr>) (targets s key)
      else targets s k)"
  by (auto simp: claim_probe_def advance_epoch_def Let_def split: option.splits)

lemma claim_probe_next_epoch [rt_frame, simp]: "next_epoch (claim_probe key s) = wrap_add64 (next_epoch s) 1"
  by (auto simp: claim_probe_def advance_epoch_def Let_def split: option.splits)

lemma claim_probe_load: "load_of (claim_probe key s) k = load_of s k"
  by (auto simp: load_of_def claim_probe_targets split: option.splits)

lemma take_candidate_result:
  assumes "take_candidate now i p ca s = (r, p', ca', s')"
  shows "r = Some (cd_target (ap_ordered p ! i))"
    "ap_current_key p' = Some (cd_key (ap_ordered p ! i))"
    "ap_current_probe p' = half_open now s (cd_key (ap_ordered p ! i))"
    "ap_current_exception p' = cooling now s (cd_key (ap_ordered p ! i))"
    "ap_context p' = ap_context p" "ap_preferred p' = ap_preferred p"
    "ap_ordered p' = remove_at i (ap_ordered p)"
    "s' = reserve_load (cd_key (ap_ordered p ! i)) (ac_uncached_input_tokens (ap_context p))
       (if half_open now s (cd_key (ap_ordered p ! i)) then claim_probe (cd_key (ap_ordered p ! i)) s else s)"
    "ca' = mark_selected (cd_key (ap_ordered p ! i))
       (if cooling now s (cd_key (ap_ordered p ! i)) then snd (claim (cd_key (ap_ordered p ! i)) ca) else ca)"
    "ap_current_epoch p' = runtime_epoch s' (cd_key (ap_ordered p ! i))"
  using finish_selection_result [OF assms [unfolded take_candidate_def Let_def]] by simp_all

lemma skip_without_current:
  "ap_current_key p = None \<Longrightarrow> snd (skip_current (p, s)) = s"
  by (simp add: skip_current_def)

text \<open>
  Taking and giving back: for any key, the status and the load counters are those of before.
\<close>

lemma reserve_then_release:
  assumes "half_open now s key \<longrightarrow> probe_epoch (the (targets s key)) = None"
    and "tl_attempts (load_of s key) < u64_max" "tl_input_tokens (load_of s key) + n \<le> u64_max"
    and "ac_uncached_input_tokens ctx = n"
    and "s' = reserve_load key n (if half_open now s key then claim_probe key s else s)"
  shows "target_status_at k t (release ctx key (runtime_epoch s' key) (half_open now s key) s') = target_status_at k t s"
    "tl_attempts (load_of (release ctx key (runtime_epoch s' key) (half_open now s key) s') k) = tl_attempts (load_of s k)"
    "tl_input_tokens (load_of (release ctx key (runtime_epoch s' key) (half_open now s key) s') k) = tl_input_tokens (load_of s k)"
proof -
  let ?s1 = "if half_open now s key then claim_probe key s else s"
  have l: "load_of ?s1 key = load_of s key" by (simp add: claim_probe_load)
  have sat: "sat_add64 (tl_attempts (load_of s key)) 1 = Suc (tl_attempts (load_of s key))"
    "sat_add64 (tl_input_tokens (load_of s key)) n = tl_input_tokens (load_of s key) + n"
    using assms(2,3) by (simp_all add: sat_add64_exact)
  show "target_status_at k t (release ctx key (runtime_epoch s' key) (half_open now s key) s') = target_status_at k t s"
  proof (cases "targets s key")
    case None
    then show ?thesis
      using assms(5) by (simp add: target_status_at_def release_targets reserve_load_targets half_open_def
          default_runtime_def split: option.splits)
  next
    case (Some r)
    then show ?thesis
      using assms(1,5)
      by (cases "half_open now s key")
        (auto simp: target_status_at_def release_targets reserve_load_targets claim_probe_targets
          runtime_epoch_def split: option.splits)
  qed
  let ?fin = "release ctx key (runtime_epoch s' key) (half_open now s key) s'"
  have other: "load_of ?fin k = load_of s k" if "k \<noteq> key"
    using assms(5) that by (simp add: load_of_def release_targets reserve_load_targets claim_probe_targets)
  have "map_option load (targets s' key) = Some \<lparr>tl_attempts = Suc (tl_attempts (load_of s key)),
       tl_input_tokens = tl_input_tokens (load_of s key) + n,
       tl_last_selected = sat_add64 (selection_sequence ?s1) 1\<rparr>"
    unfolding assms(5) by (simp add: reserve_load_targets l sat del: One_nat_def)
  then obtain r where r: "targets s' key = Some r"
    "load r = \<lparr>tl_attempts = Suc (tl_attempts (load_of s key)),
       tl_input_tokens = tl_input_tokens (load_of s key) + n,
       tl_last_selected = sat_add64 (selection_sequence ?s1) 1\<rparr>"
    by auto
  have own: "tl_attempts (load_of ?fin key) = tl_attempts (load_of s key)"
    "tl_input_tokens (load_of ?fin key) = tl_input_tokens (load_of s key)"
    using r assms(4) by (simp_all add: load_of_def [of ?fin] release_targets)
  show "tl_attempts (load_of ?fin k) = tl_attempts (load_of s k)"
    "tl_input_tokens (load_of ?fin k) = tl_input_tokens (load_of s k)"
    using own other by (cases "k = key"; simp)+
qed

section \<open>Properties\<close>

text \<open>
  C21: selection follows ADR-0034. When \<open>next_healthy\<close> selects a target, no other
  candidate that is selectable at that moment comes before it: if the preferred target is
  selectable it is the one selected, and otherwise the selected target has the highest
  priority of all selectable candidates, whatever the floating-point scores are.
\<close>

theorem selection_order:
  assumes "next_healthy clock p ca s = (Some t, p', ca', s')"
    and "c \<in> set (ap_ordered p)"
    and "selectable (max (ac_now_ms (ap_context p)) clock) (ap_preferred p) ca
           (snd (skip_current (p, s))) (cd_key c)"
  shows "if ap_preferred p = Some (cd_key c) then ap_current_key p' = ap_preferred p
         else ap_current_key p' = ap_preferred p \<or> st_priority (cd_target c) \<le> st_priority t"
  using assms(1)
proof (cases rule: next_healthy_cases)
  case (some d i)
  have c: "c \<in> set (ap_ordered (fst (narrowed clock p ca s)))" using assms(2,3) by simp
  have key: "ap_current_key p' = Some (cd_key d)" and t: "t = cd_target d"
    using take_candidate_result [OF some(7)] some(4) by simp_all
  show ?thesis
    using chosen_affinity [OF some(3) c] chosen_priority [OF some(3) c]
    unfolding some(4) [symmetric] narrowed_fields(1) key t by (cases "ap_preferred p = Some (cd_key d)") simp_all
qed simp

definition sample_context :: attempt_context where
  "sample_context = \<lparr>ac_principal = ''u'', ac_route_id = ''r'', ac_conversation = None,
     ac_conversation_affinity = None, ac_cache_affinity = None,
     ac_uncached_input_tokens = 7, ac_now_ms = 5\<rparr>"

definition sample_target :: "string \<Rightarrow> int \<Rightarrow> unit selected_target" where
  "sample_target m pr = \<lparr>st_destination = Model ''p'' m, st_priority = pr, st_first_token_timeout_ms = 60000,
     st_retry_budget = 5, st_cooldown_ms = 120000, st_thinking_level_map = [], st_pricing = None\<rparr>"

definition sample_policy :: "unit attempt_policy" where
  "sample_policy = \<lparr>ap_context = sample_context,
     ap_ordered = [\<lparr>cd_target = sample_target ''a'' 1, cd_key = ''p:a'', cd_traffic = Fin 0, cd_latency = None\<rparr>,
                   \<lparr>cd_target = sample_target ''b'' 9, cd_key = ''p:b'', cd_traffic = Fin 0, cd_latency = None\<rparr>],
     ap_strategy = TrafficEqualization, ap_current_key = None, ap_current_epoch = 0,
     ap_current_probe = False, ap_current_exception = False, ap_preferred = None\<rparr>"

lemma sample_selection:
  "\<exists>p' ca' s'. next_healthy 5 sample_policy no_attempts initial_state = (Some (sample_target ''b'' 9), p', ca', s')
     \<and> ap_current_key p' = Some ''p:b''"
  by (simp add: next_healthy_eq narrowed_def skip_current_def sample_policy_def initial_state_def selectable_def
      choose_index_def compare_candidates_def load_of_def cmp_def take_candidate_def finish_selection_def
      half_open_def cooling_def sample_target_def Let_def)

theorem selection_order_witness:
  "\<exists>p' ca' s'. next_healthy 5 sample_policy no_attempts initial_state = (Some (sample_target ''b'' 9), p', ca', s')
     \<and> (ap_current_key p' = ap_preferred sample_policy \<or> (1::int) \<le> 9)"
proof -
  from sample_selection obtain p' ca' s' where
    run: "next_healthy 5 sample_policy no_attempts initial_state = (Some (sample_target ''b'' 9), p', ca', s')"
    by blast
  let ?c = "hd (ap_ordered sample_policy)"
  have "?c \<in> set (ap_ordered sample_policy)"
    "selectable (max (ac_now_ms (ap_context sample_policy)) 5) (ap_preferred sample_policy) no_attempts
       (snd (skip_current (sample_policy, initial_state))) (cd_key ?c)"
    by (simp_all add: sample_policy_def skip_current_def selectable_def initial_state_def)
  from selection_order [OF run this] run show ?thesis
    by (auto simp: sample_policy_def sample_target_def split: if_splits)
qed


text \<open>
  cancelling a selected attempt undoes it. If a fresh selection is dropped before
  anything is reported, every target has the status it had before (a probed target is
  half-open again, never stuck probing nor marked available) and the in-flight attempts
  and reserved input tokens of every target are back to their old values.
\<close>

theorem dropped_selection_restores:
  assumes "next_healthy clock p ca s = (Some t, p', ca', s')" "ap_current_key p = None"
    and "\<And>key. tl_attempts (load_of s key) < u64_max"
    and "\<And>key. tl_input_tokens (load_of s key) + ac_uncached_input_tokens (ap_context p) \<le> u64_max"
  shows "target_status_at k time (drop_policy p' s') = target_status_at k time s
    \<and> tl_attempts (load_of (drop_policy p' s') k) = tl_attempts (load_of s k)
    \<and> tl_input_tokens (load_of (drop_policy p' s') k) = tl_input_tokens (load_of s k)"
  using assms(1)
proof (cases rule: next_healthy_cases)
  case (some c i)
  let ?now = "max (ac_now_ms (ap_context p)) clock"
  note sk = skip_without_current [OF assms(2), of s]
  note res = take_candidate_result [OF some(7)]
  have probe: "half_open ?now s (cd_key c) \<longrightarrow> probe_epoch (the (targets s (cd_key c))) = None"
    using some(6) unfolding sk by (auto simp: selectable_def half_open_def split: option.splits if_splits)
  have s': "s' = reserve_load (cd_key c) (ac_uncached_input_tokens (ap_context p))
      (if half_open ?now s (cd_key c) then claim_probe (cd_key c) s else s)"
    using res(8) some(4) by (simp add: sk)
  have drop: "drop_policy p' s' = release (ap_context p) (cd_key c) (runtime_epoch s' (cd_key c))
      (half_open ?now s (cd_key c)) s'"
    using res some(4) by (simp add: drop_policy_def release_current_def sk)
  show ?thesis
    using reserve_then_release [OF probe assms(3) assms(4) refl s'] by (simp add: drop)
qed simp

theorem dropped_selection_restores_witness:
  "\<exists>p' ca' s'. next_healthy 5 sample_policy no_attempts initial_state = (Some (sample_target ''b'' 9), p', ca', s')
     \<and> tl_attempts (load_of (drop_policy p' s') ''p:b'') = 0
     \<and> target_status_at ''p:b'' 5 (drop_policy p' s') = \<lparr>rs_state = Available, cooldown_remaining_ms = None\<rparr>"
proof -
  from sample_selection obtain p' ca' s' where
    run: "next_healthy 5 sample_policy no_attempts initial_state = (Some (sample_target ''b'' 9), p', ca', s')"
    by blast
  have "ap_current_key sample_policy = None" by (simp add: sample_policy_def)
  from dropped_selection_restores [OF run this, of "''p:b''" 5] run show ?thesis
    by (auto simp: load_of_def initial_state_def default_load_def u64_max_def sample_policy_def
        sample_context_def target_status_at_def)
qed

text \<open>
  Waiting for RPM and selecting use the same eligibility: \<open>retain_eligible\<close> keeps
  exactly the candidates that are not excluded and that \<open>next_healthy\<close> would accept at the
  same moment, without touching any shared state.
\<close>

theorem retain_eligible_agrees:
  "ap_ordered (retain_eligible excluded clock ca s p) =
     filter (\<lambda>c. cd_key c \<notin> excluded
        \<and> selectable (max (ac_now_ms (ap_context p)) clock) (ap_preferred p) ca s (cd_key c)) (ap_ordered p)"
  by (auto simp: retain_eligible_def selectable_def Let_def intro!: filter_cong split: option.splits)

end
