(* ===== verification/RouteDispositions.thy ===== *)
theory RouteDispositions
  imports RouteSelectorLaws "HOL-Library.Multiset"
begin

text \<open>
  The two ends of a policy's life: which candidates it starts with, in which order, and
  what it tells its driver to do after a failed attempt.
\<close>

section \<open>The candidates of a new policy\<close>

lemma sum_list_indicator:
  "distinct ps \<Longrightarrow> sum_list (map (\<lambda>p. if q = p then M else {#}) ps) = (if q \<in> set ps then M else ({#} :: 'a multiset))"
  by (induction ps) auto

lemma mset_groups:
  assumes "distinct ps" "f ` set xs \<subseteq> set ps"
  shows "mset (concat (map (\<lambda>p. filter (\<lambda>x. f x = p) xs) ps)) = mset xs"
  using assms(2)
proof (induction xs)
  case Nil
  show ?case by (induction ps) simp_all
next
  case (Cons x xs)
  let ?g = "\<lambda>ys p. mset (filter (\<lambda>x. f x = p) ys)"
  have flat: "mset (concat (map (\<lambda>p. filter (\<lambda>x. f x = p) ys) ps)) = sum_list (map (?g ys) ps)" for ys
    by (simp add: mset_concat comp_def)
  have "sum_list (map (?g (x # xs)) ps)
      = sum_list (map (\<lambda>p. (if f x = p then {#x#} else {#}) + ?g xs p) ps)"
    by (intro arg_cong [where f = sum_list] map_cong) auto
  also have "\<dots> = sum_list (map (\<lambda>p. if f x = p then {#x#} else {#}) ps) + sum_list (map (?g xs) ps)"
    by (rule sum_list_addf)
  also have "sum_list (map (?g xs) ps) = mset xs"
    using Cons by (simp only: flat [symmetric]) simp
  also have "sum_list (map (\<lambda>p. if f x = p then {#x#} else {#}) ps) = {#x#}"
    using Cons.prems assms(1) by (simp add: sum_list_indicator)
  finally show ?case by (simp add: flat del: filter.simps)
qed

lemma mset_priority_groups: "mset (concat (priority_groups ts)) = mset ts"
  unfolding priority_groups_def by (rule mset_groups) (auto simp: distinct_sort)

lemma make_candidate_sel [simp]:
  "cd_key (make_candidate snaps w t) = persisted_target_key t"
  "cd_target (make_candidate snaps w t) = to_selected t (Option.bind (snaps (persisted_target_key t)) ss_pricing)"
  by (simp_all add: make_candidate_def Let_def)

lemma sorted_wrt_groups:
  assumes "sorted_wrt (\<lambda>p q. q < p) ps" "\<And>p x. p \<in> set ps \<Longrightarrow> x \<in> set (g p) \<Longrightarrow> k x = (p :: int)"
  shows "sorted_wrt (\<lambda>x y. k y \<le> k x) (concat (map g ps))"
  using assms
proof (induction ps)
  case Nil
  show ?case by simp
next
  case (Cons p ps)
  have "sorted_wrt (\<lambda>x y. k y \<le> k x) (g p)"
    using Cons.prems(2) [of p] by (auto simp: sorted_wrt_iff_nth_less)
  with Cons show ?case by (fastforce simp: sorted_wrt_append)
qed

section \<open>The back-off delay\<close>

lemma retry_cap_cases: "\<exists>j \<le> 4. retry_cap_ms n = 500 * 2 ^ j"
proof (rule exI [of _ "min (n - 1) 4"], intro conjI)
  have "(2::nat) ^ min (n - 1) 4 \<le> 2 ^ 4" by (rule power_increasing) simp_all
  then show "retry_cap_ms n = 500 * 2 ^ min (n - 1) 4"
    by (simp add: retry_cap_ms_def u64_max_def)
qed simp

lemma f64_clamp01_bounds:
  "x \<noteq> FNaN \<Longrightarrow> \<exists>c. f64_clamp01 x = Fin c \<and> 0 \<le> c \<and> c \<le> 1"
  by (cases x) auto

lemma jitter_bound:
  assumes "sample \<noteq> FNaN" "j \<le> 4"
  shows "\<exists>d. jitter (500 * 2 ^ j) sample = Some d \<and> d \<le> from_millis (500 * 2 ^ j)"
proof -
  let ?k = "int j - 1"
  have secs: "of_int (int (500 * 2 ^ j)) / 1000 = two_pow ?k"
    using two_pow_add [of "int j" "-1"] two_pow_nat [of j] by (simp add: two_pow_def)
  have "(2::int) ^ j \<le> 2 ^ 4" using assms(2) by (intro power_increasing) simp_all
  then have exact: "f64_of_int (int (500 * 2 ^ j)) = Fin (of_int (int (500 * 2 ^ j)))"
    by (intro f64_of_int_exact) simp
  have kb: "- 1074 \<le> ?k" "?k < 1024" using assms(2) by simp_all
  obtain v where v: "round_f64 (two_pow ?k) = Fin v" "0 \<le> v" "v \<le> two_pow ?k"
    using round_f64_le_two_pow [OF _ order_refl kb] by (auto simp: less_imp_le)
  obtain c where c: "f64_clamp01 sample = Fin c" "0 \<le> c" "c \<le> 1"
    using f64_clamp01_bounds [OF assms(1)] by blast
  have "v * c \<le> two_pow ?k" using v c mult_mono [of v "two_pow ?k" c 1] by (simp add: less_imp_le)
  then obtain w where w: "round_f64 (v * c) = Fin w" "0 \<le> w" "w \<le> two_pow ?k"
    using round_f64_le_two_pow [OF _ _ kb] v c by (meson mult_nonneg_nonneg)
  have "w * 1000000000 \<le> two_pow ?k * 1000000000" using w by simp
  also have "\<dots> = of_int (int (from_millis (500 * 2 ^ j)))"
    unfolding secs [symmetric] by (simp add: from_millis_def)
  finally have "round_half_even (w * 1000000000) \<le> int (from_millis (500 * 2 ^ j))"
    by (rule round_half_even_le)
  moreover have "from_millis (500 * 2 ^ j) < 2 ^ 64 * 1000000000"
    using \<open>(2::int) ^ j \<le> 2 ^ 4\<close> power_increasing [OF assms(2), of "2::nat"] by (simp add: from_millis_def)
  ultimately show ?thesis
    using w(2) exact secs v(1) c(1) w(1) by (auto simp: jitter_def Let_def)
qed

lemma jitter_retry_cap:
  "sample \<noteq> FNaN \<Longrightarrow> \<exists>d. jitter (retry_cap_ms n) sample = Some d \<and> d \<le> from_millis 8000"
proof -
  assume "sample \<noteq> FNaN"
  moreover obtain j where j: "j \<le> 4" "retry_cap_ms n = 500 * 2 ^ j" using retry_cap_cases by blast
  moreover have "(2::nat) ^ j \<le> 2 ^ 4" using j(1) by (rule power_increasing) simp
  then have "from_millis (500 * 2 ^ j) \<le> from_millis 8000" by (simp add: from_millis_def)
  ultimately show ?thesis using jitter_bound [of sample j] by (auto intro: order_trans)
qed

lemma is_wait_policy: "is_wait (retry_after_policy t delay) = Some d \<Longrightarrow> delay = Some d"
  by (cases delay) (auto simp: retry_after_policy_def is_wait_def split: if_splits)

lemma skip_current_key: "ap_current_key (fst (skip_current (p, s))) = None"
  by (simp add: skip_current_def)

lemma retry_current_False:
  "retry_current clock p ca s = (False, p', ca', s') \<Longrightarrow> ap_current_key p' = None"
  by (auto simp: retry_current_def Let_def skip_current_def claim_def split: option.splits if_splits)

section \<open>Properties\<close>

text \<open>
  a new policy offers exactly the initially eligible targets, each once per
  configuration entry and under its own key, in descending priority.
\<close>

theorem new_policy_candidates:
  "let p = new_policy strategy ts ctx snapshot clock ca s;
       eligible = filter (initially_eligible snapshot (max (ac_now_ms ctx) clock) (preferred_target ctx ca s) ca s) ts
   in mset (map cd_key (ap_ordered p)) = mset (map persisted_target_key eligible)
      \<and> map cd_key (ap_ordered p) = map (\<lambda>c. selected_target_key (cd_target c)) (ap_ordered p)
      \<and> sorted_wrt (\<lambda>c d. st_priority (cd_target d) \<le> st_priority (cd_target c)) (ap_ordered p)"
proof -
  let ?el = "filter (initially_eligible snapshot (max (ac_now_ms ctx) clock) (preferred_target ctx ca s) ca s) ts"
  let ?snaps = "collect_map (map (\<lambda>i. (ss_target_key i, i)) (rs_targets snapshot))"
  let ?mk = "\<lambda>grp. map (make_candidate ?snaps (traffic_weights grp ?snaps)) grp"
  have ordered: "ap_ordered (new_policy strategy ts ctx snapshot clock ca s) = concat (map ?mk (priority_groups ?el))"
    by (simp add: new_policy_def Let_def)
  have keys: "map cd_key (concat (map ?mk gs)) = map persisted_target_key (concat gs)" for gs
    by (induction gs) simp_all
  have targets: "map (\<lambda>c. selected_target_key (cd_target c)) (concat (map ?mk gs))
      = map persisted_target_key (concat gs)" for gs
    by (induction gs) simp_all
  have "sorted_wrt (\<lambda>c d. st_priority (cd_target d) \<le> st_priority (cd_target c))
      (concat (map (\<lambda>p. ?mk (filter (\<lambda>t. tc_priority t = p) ?el)) (rev (sort (remdups (map tc_priority ?el))))))"
  proof (rule sorted_wrt_groups)
    show "sorted_wrt (\<lambda>p q. q < p) (rev (sort (remdups (map tc_priority ?el))))"
      by (simp add: sorted_wrt_rev strict_sorted_iff)
  qed auto
  then have sorted: "sorted_wrt (\<lambda>c d. st_priority (cd_target d) \<le> st_priority (cd_target c))
      (concat (map ?mk (priority_groups ?el)))"
    by (simp add: priority_groups_def comp_def)
  show ?thesis
    unfolding Let_def ordered keys targets
    using sorted by (simp only: mset_map mset_priority_groups simp_thms)
qed

text \<open>
  what a failure leads to. With a jitter sample that is a number, recording a failure
  always yields a disposition; it is to stop exactly for request-level errors and when
  output was already committed; a retry of the same target happens only for a transient
  error (or a quota error with a retry-after hint) outside probes and cooldown exceptions,
  after the upstream's own delay or a back-off of at most eight seconds; and in every other
  case the policy no longer holds the target.
\<close>

theorem failure_disposition:
  assumes "policy_record_failure clock t f p ca s = (d, p', ca', s')" "fs_jitter_sample f \<noteq> FNaN"
  shows "\<exists>disp. d = Some disp
    \<and> (disp = Stop \<longleftrightarrow> fs_kind f \<in> {ContextLengthExceeded, ContentFiltered} \<or> fs_client_output_committed f)
    \<and> (case disp of
         RetrySame delay \<Rightarrow>
           (is_retryable (fs_kind f) \<or> fs_kind f = QuotaExceeded \<and> fs_retry_after f \<noteq> None)
           \<and> \<not> current_is_probe p \<and> (fs_retry_after f = Some delay \<or> delay \<le> from_millis 8000)
       | _ \<Rightarrow> ap_current_key p' = None)"
proof (cases "fs_kind f \<in> {ContextLengthExceeded, ContentFiltered}")
  case True
  with assms(1) skip_current_key [of p s] show ?thesis
    by (auto simp: policy_record_failure_def case_prod_beta)
next
  case False
  let ?ra = "retry_after_policy t (fs_retry_after f)"
  let ?now = "max (max (fs_now_ms f) (ac_now_ms (ap_context p))) clock"
  obtain n s1 where rf: "record_failure (selected_target_key t) (ap_current_epoch p) (st_retry_budget t)
      (st_cooldown_ms t) ?now ?ra s = (n, s1)" by (cases "record_failure (selected_target_key t)
      (ap_current_epoch p) (st_retry_budget t) (st_cooldown_ms t) ?now ?ra s")
  show ?thesis
  proof (cases "fs_client_output_committed f")
    case True
    with False rf assms(1) skip_current_key [of p s1] show ?thesis
      by (auto simp: policy_record_failure_def case_prod_beta)
  next
    case uncommitted: False
    let ?may = "\<not> ap_current_probe p \<and> \<not> ap_current_exception p \<and> \<not> is_cooldown ?ra
       \<and> (transient_failure (fs_kind f) \<or> (fs_kind f = QuotaExceeded \<and> is_wait ?ra \<noteq> None))
       \<and> (case n of None \<Rightarrow> False | Some n \<Rightarrow> n \<le> clamp_nonneg (st_retry_budget t))"
    let ?step = "if ?may then (if is_wait ?ra \<noteq> None then (True, p, ca, s1) else retry_current clock p ca s1)
                 else (False, p, ca, s1)"
    obtain again p2 ca2 s2 where st: "?step = (again, p2, ca2, s2)" by (cases ?step)
    let ?delay = "case is_wait ?ra of Some delay \<Rightarrow> Some delay
       | None \<Rightarrow> jitter (retry_cap_ms (case n of None \<Rightarrow> 0 | Some n \<Rightarrow> n)) (fs_jitter_sample f)"
    have res: "(d, p', ca', s') = (if again then (map_option RetrySame ?delay, p2, ca2, s2)
        else (Some TryNextTarget, fst (skip_current (p2, s2)), ca2, snd (skip_current (p2, s2))))"
      using assms(1) False uncommitted
      unfolding policy_record_failure_def Let_def rf prod.case st
      by (cases again) (auto simp: case_prod_beta)
    show ?thesis
    proof (cases again)
      case again: True
      then have may: ?may using st by (cases ?may) auto
      have delay: "\<exists>v. ?delay = Some v \<and> (fs_retry_after f = Some v \<or> v \<le> from_millis 8000)"
      proof (cases "is_wait ?ra")
        case None
        with jitter_retry_cap [OF assms(2), of "case n of None \<Rightarrow> 0 | Some n \<Rightarrow> n"] show ?thesis by auto
      next
        case (Some v)
        with is_wait_policy [OF Some] show ?thesis by simp
      qed
      have kind: "is_retryable (fs_kind f) \<or> fs_kind f = QuotaExceeded \<and> fs_retry_after f \<noteq> None"
        using may is_wait_policy by (auto simp: transient_failure_def is_retryable_def)
      from res again delay kind may False uncommitted show ?thesis
        by (auto simp: current_is_probe_def)
    next
      case stop: False
      with res False uncommitted skip_current_key [of p2 s2] show ?thesis by auto
    qed
  qed
qed

theorem failure_disposition_witness:
  "\<exists>d p' ca' s'. policy_record_failure 5 (sample_target ''b'' 9)
      \<lparr>fs_kind = AuthenticationError, fs_client_output_committed = False, fs_retry_after = None,
       fs_now_ms = 6, fs_jitter_sample = Fin 0\<rparr> sample_policy no_attempts initial_state = (Some d, p', ca', s')
    \<and> d \<noteq> Stop"
proof -
  let ?f = "\<lparr>fs_kind = AuthenticationError, fs_client_output_committed = False, fs_retry_after = None,
       fs_now_ms = 6, fs_jitter_sample = Fin 0\<rparr>"
  obtain d p' ca' s' where run: "policy_record_failure 5 (sample_target ''b'' 9) ?f sample_policy no_attempts
      initial_state = (d, p', ca', s')"
    by (cases "policy_record_failure 5 (sample_target ''b'' 9) ?f sample_policy no_attempts initial_state")
  have "fs_jitter_sample ?f \<noteq> FNaN" by simp
  from failure_disposition [OF run this] obtain disp where
    "d = Some disp" "disp = Stop \<longleftrightarrow> fs_kind ?f \<in> {ContextLengthExceeded, ContentFiltered} \<or> fs_client_output_committed ?f"
    by blast
  with run show ?thesis by simp
qed

end
