(* ===== verification/RouteMachine.thy ===== *)
theory RouteMachine
  imports RouteSelectorLaws
begin

text \<open>
  All policies of all requests over one shared state, interleaved in any order. A step is
  one operation of one policy (each runs under the state's lock), the creation or the drop
  of a policy, or a report from an attempt in flight (a success, a failure, a recovery
  failure, the release of a reservation), at a clock reading that never goes back.

  Reports are over-approximated: any report carrying an epoch that was handed out may
  arrive at any time, any number of times. A policy that is dropped is removed from the
  map, its \<open>Drop\<close> run.
\<close>

section \<open>Steps\<close>

record 'c router =
  ro_state :: policy_state
  ro_clock :: nat
  ro_cooldowns :: "nat \<Rightarrow> cooldown_attempts"
  ro_policies :: "nat \<rightharpoonup> nat \<times> 'c attempt_policy"

definition initial_router :: "'c router" where
  "initial_router =
     \<lparr>ro_state = initial_state, ro_clock = 0, ro_cooldowns = (\<lambda>_. no_attempts), ro_policies = Map.empty\<rparr>"

text \<open>One operation of the policy \<open>i\<close> of the rq request \<open>rq\<close>.\<close>

inductive policy_op ::
    "nat \<Rightarrow> 'c attempt_policy \<Rightarrow> cooldown_attempts \<Rightarrow> policy_state
      \<Rightarrow> 'c attempt_policy \<Rightarrow> cooldown_attempts \<Rightarrow> policy_state \<Rightarrow> bool" where
  op_next: "next_healthy clock p ca s = (r, p', ca', s') \<Longrightarrow> policy_op clock p ca s p' ca' s'"
| op_retry: "retry_current clock p ca s = (b, p', ca', s') \<Longrightarrow> policy_op clock p ca s p' ca' s'"
| op_fail: "policy_record_failure clock t f p ca s = (d, p', ca', s') \<Longrightarrow> policy_op clock p ca s p' ca' s'"
| op_skip: "skip_current (p, s) = (p', s') \<Longrightarrow> policy_op clock p ca s p' ca s'"
| op_accept: "policy_op clock p ca s (accept_current p) ca s"
| op_unsent: "release_unsent_exception p ca = (p', ca') \<Longrightarrow> policy_op clock p ca s p' ca' s"
| op_retain_eligible: "policy_op clock p ca s (retain_eligible excluded clock ca s p) ca s"
| op_retain: "policy_op clock p ca s (retain keep p) ca s"

inductive router_step :: "'c router \<Rightarrow> 'c router \<Rightarrow> bool" where
  create: "ro_policies w i = None \<Longrightarrow> ro_clock w \<le> clock \<Longrightarrow> ac_now_ms ctx \<le> clock \<Longrightarrow>
     router_step w (w\<lparr>ro_clock := clock, ro_policies := (ro_policies w)(i \<mapsto>
       (rq, new_policy strategy ts ctx snapshot clock (ro_cooldowns w rq) (ro_state w)))\<rparr>)"
| operate: "ro_policies w i = Some (rq, p) \<Longrightarrow> ro_clock w \<le> clock \<Longrightarrow>
     policy_op clock p (ro_cooldowns w rq) (ro_state w) p' ca' s' \<Longrightarrow>
     router_step w (w\<lparr>ro_clock := clock, ro_state := s', ro_cooldowns := (ro_cooldowns w)(rq := ca'),
       ro_policies := (ro_policies w)(i \<mapsto> (rq, p'))\<rparr>)"
| drop: "ro_policies w i = Some (rq, p) \<Longrightarrow>
     router_step w (w\<lparr>ro_state := drop_policy p (ro_state w), ro_policies := (ro_policies w)(i := None)\<rparr>)"
| report: "report_epoch rep \<le> next_epoch (ro_state w) \<Longrightarrow>
     router_step w (w\<lparr>ro_state := apply_report key rep (ro_state w)\<rparr>)"
| invalidate: "router_step w (w\<lparr>ro_state := clear_pricing (ro_state w)\<rparr>)"

inductive reachable_in :: "nat \<Rightarrow> 'c router \<Rightarrow> bool" where
  reach_init: "reachable_in 0 initial_router"
| reach_step: "reachable_in n w \<Longrightarrow> router_step w w' \<Longrightarrow> reachable_in (Suc n) w'"

inductive_cases router_stepE: "router_step w w'"
inductive_cases policy_opE: "policy_op clock p ca s p' ca' s'"

section \<open>Probe slots and their owners\<close>

definition slot :: "policy_state \<Rightarrow> string \<Rightarrow> nat option" where
  "slot s key = Option.bind (targets s key) probe_epoch"

definition owns :: "'c attempt_policy \<Rightarrow> policy_state \<Rightarrow> string \<Rightarrow> bool" where
  "owns p s key \<longleftrightarrow> ap_current_key p = Some key \<and> ap_current_probe p \<and> slot s key = Some (ap_current_epoch p)"

text \<open>A taken slot belongs to a cooldown that has expired at the clock.\<close>

definition slots_expired :: "nat \<Rightarrow> policy_state \<Rightarrow> bool" where
  "slots_expired clock s \<longleftrightarrow>
     (\<forall>key r. targets s key = Some r \<longrightarrow> probe_epoch r \<noteq> None \<longrightarrow> cooldown_until r \<le> clock)"

text \<open>
  \<open>calm k s s'\<close>: no new slot is taken, at most \<open>k\<close> epochs are handed out, and a slot that
  stays taken keeps its cooldown.
\<close>

definition calm :: "nat \<Rightarrow> policy_state \<Rightarrow> policy_state \<Rightarrow> bool" where
  "calm k s s' \<longleftrightarrow>
     next_epoch s \<le> next_epoch s' \<and> next_epoch s' \<le> next_epoch s + k
     \<and> (\<forall>key r' e. targets s' key = Some r' \<longrightarrow> probe_epoch r' = Some e \<longrightarrow>
          (\<exists>r. targets s key = Some r \<and> probe_epoch r = Some e \<and> cooldown_until r' = cooldown_until r))"

lemma calm_refl [simp]: "calm k s s"
  by (auto simp: calm_def)

lemma calm_trans: "calm k s t \<Longrightarrow> calm l t u \<Longrightarrow> calm (k + l) s u"
  unfolding calm_def by (intro conjI; fastforce)

lemma calm_slot: "calm k s s' \<Longrightarrow> slot s' key = Some e \<Longrightarrow> slot s key = Some e"
  by (fastforce simp: calm_def slot_def split: option.splits dest: bind_eq_Some_conv [THEN iffD1])

lemma calm_expired: "calm k s s' \<Longrightarrow> slots_expired clock s \<Longrightarrow> slots_expired clock s'"
  unfolding calm_def slots_expired_def by (metis not_None_eq)

lemma calm_owns: "calm k s s' \<Longrightarrow> owns p s' key \<Longrightarrow> owns p s key"
  by (auto simp: owns_def dest: calm_slot)

lemma calm_release: "calm 0 s (release ctx key ep probe s)"
  by (auto simp: calm_def release_targets split: if_splits)

lemma calm_success: "calm 0 s (record_success ctx key ep s)"
  by (auto simp: calm_def record_success_targets split: if_splits)

lemma calm_failure:
  assumes "next_epoch s < u64_max"
  shows "calm 1 s (snd (record_failure key ep b c now ra s))"
proof (cases "runtime_epoch s key = ep")
  case True
  then show ?thesis using assms
    by (auto simp: calm_def record_failure_current wrap_add64_exact failed_runtime_def Let_def split: if_splits)
qed (simp add: record_failure_stale)

lemma calm_recovery:
  "next_epoch s < u64_max \<Longrightarrow> calm 1 s (snd (try_record_recovery_failure key ep b c now s))"
  using calm_failure [of s key ep b c now None]
  by (auto simp: try_record_recovery_failure_def Let_def simp del: not_le)

lemma calm_skip: "calm 0 s (snd (skip_current (p, s)))"
  by (auto simp: skip_current_def release_current_def calm_release split: option.splits)

lemma calm_drop: "calm 0 s (drop_policy p s)"
  by (auto simp: drop_policy_def release_current_def calm_release split: option.splits)

lemma calm_reserve: "calm 0 s (reserve_load key n s)"
  by (auto simp: calm_def reserve_load_targets default_runtime_def split: if_splits option.splits)

lemma wf_skip: "wf_state s \<Longrightarrow> wf_state (snd (skip_current (p, s)))"
  by (auto simp: skip_current_def release_current_def wf_release split: option.splits)

lemma wf_drop: "wf_state s \<Longrightarrow> wf_state (drop_policy p s)"
  by (auto simp: drop_policy_def release_current_def wf_release split: option.splits)

lemma wf_reserve:
  assumes "wf_state s"
  shows "wf_state (reserve_load key n s)"
proof (cases "targets s key")
  case None
  with assms show ?thesis
    by (auto simp: wf_state_def reserve_load_targets wf_runtime_def default_runtime_def)
next
  case (Some r)
  with assms show ?thesis
    by (auto simp: wf_state_def reserve_load_targets wf_runtime_def)
qed

lemma wf_claim:
  assumes "wf_state s" "next_epoch s < u64_max" "half_open now s key"
  shows "wf_state (claim_probe key s)"
  using assms
  by (fastforce simp: wf_state_def claim_probe_targets wf_runtime_def wrap_add64_exact half_open_def
      split: if_splits option.splits)

lemma reserve_slot: "slot (reserve_load key n s) k = slot s k"
  by (auto simp: slot_def reserve_load_targets default_runtime_def split: option.splits)

lemma reserve_epoch: "runtime_epoch (reserve_load key n s) k = runtime_epoch s k"
  by (auto simp: runtime_epoch_def reserve_load_targets default_runtime_def split: option.splits)

lemma claim_slot:
  "next_epoch s < u64_max \<Longrightarrow> targets s key \<noteq> None \<Longrightarrow>
   slot (claim_probe key s) k = (if k = key then Some (Suc (next_epoch s)) else slot s k)"
  by (auto simp: slot_def claim_probe_targets wrap_add64_exact)

section \<open>What one operation may do to its policy\<close>

text \<open>
  \<open>sound_op\<close> collects, for one operation at a clock reading, everything the invariants need:
  well-formedness, expired slots, the epochs handed out, and that a slot or an ownership
  after the operation was there before or carries a fresh epoch.
\<close>

definition sound_op :: "nat \<Rightarrow> nat \<Rightarrow> 'c attempt_policy \<Rightarrow> policy_state \<Rightarrow> 'c attempt_policy \<Rightarrow> policy_state \<Rightarrow> bool" where
  "sound_op k clock p s p' s' \<longleftrightarrow>
     wf_state s' \<and> slots_expired clock s'
     \<and> next_epoch s \<le> next_epoch s' \<and> next_epoch s' \<le> next_epoch s + k
     \<and> ap_current_epoch p' \<le> next_epoch s'
     \<and> ap_context p' = ap_context p
     \<and> (\<forall>key e. slot s' key = Some e \<longrightarrow> slot s key = Some e \<or> next_epoch s < e)
     \<and> (\<forall>key. owns p' s' key \<longrightarrow> owns p s key \<or> next_epoch s < ap_current_epoch p')"

text \<open>A calm operation that leaves the policy's claim alone or gives it up is sound.\<close>

lemma sound_calm:
  assumes "calm k s s'" "wf_state s'" "slots_expired clock s" "ap_context p' = ap_context p"
    "ap_current_epoch p' \<le> next_epoch s'"
    "\<And>key. owns p' s key \<Longrightarrow> owns p s key"
  shows "sound_op k clock p s p' s'"
  using assms calm_expired [OF assms(1,3)] calm_slot [OF assms(1)] calm_owns [OF assms(1)]
  by (fastforce simp: sound_op_def calm_def)

lemma skip_fields:
  "ap_current_key (fst (skip_current (p, s))) = None"
  "ap_current_epoch (fst (skip_current (p, s))) = ap_current_epoch p"
  by (simp_all add: skip_current_def)

lemma not_owns_None: "ap_current_key p = None \<Longrightarrow> \<not> owns p s key"
  by (simp add: owns_def)

lemma sound_skip:
  assumes "wf_state s" "slots_expired clock s" "ap_current_epoch p \<le> next_epoch s"
  shows "sound_op 0 clock p s (fst (skip_current (p, s))) (snd (skip_current (p, s)))"
  using assms calm_skip [of s p]
  by (intro sound_calm [OF calm_skip]) (auto simp: wf_skip skip_fields not_owns_None calm_def)


text \<open>Selecting a target: a probe is claimed only from an empty slot and under a fresh epoch.\<close>

lemma reserve_expired: "slots_expired clock s \<Longrightarrow> slots_expired clock (reserve_load key n s)"
  by (rule calm_expired [OF calm_reserve])

lemma claim_expired:
  "slots_expired clock s \<Longrightarrow> half_open clock s key \<Longrightarrow> slots_expired clock (claim_probe key s)"
  by (auto simp: slots_expired_def claim_probe_targets half_open_def split: option.splits if_splits)

lemma half_open_known: "half_open now s key \<Longrightarrow> targets s key \<noteq> None"
  by (auto simp: half_open_def split: option.splits)

lemma wf_expired_skip:
  assumes "wf_state s" "slots_expired clock s"
  shows "wf_state (snd (skip_current (p, s)))" "slots_expired clock (snd (skip_current (p, s)))"
    "next_epoch (snd (skip_current (p, s))) = next_epoch s"
    "slot (snd (skip_current (p, s))) key = Some e \<Longrightarrow> slot s key = Some e"
  using assms calm_skip [of s p]
  by (auto simp: wf_skip calm_def [of 0] intro: calm_slot [OF calm_skip] calm_expired [OF calm_skip])

lemma sound_next:
  assumes run: "next_healthy clock p ca s = (r, p', ca', s')"
    and "wf_state s" "slots_expired clock s" "ap_current_epoch p \<le> next_epoch s"
    and now: "ac_now_ms (ap_context p) \<le> clock" and room: "next_epoch s < u64_max"
  shows "sound_op 1 clock p s p' s'"
  using run
proof (cases rule: next_healthy_cases)
  case none
  then have "p' = (fst (skip_current (p, s)))\<lparr>ap_ordered := ap_ordered p'\<rparr>"
    by (simp add: narrowed_def case_prod_beta)
  with none sound_skip [OF assms(2-4)] show ?thesis
    by (auto simp: sound_op_def owns_def skip_fields)
next
  case (some c i)
  let ?s1 = "snd (skip_current (p, s))" and ?key = "cd_key c"
  let ?s2 = "if half_open clock ?s1 ?key then claim_probe ?key ?s1 else ?s1"
  have mx: "max (ac_now_ms (ap_context p)) clock = clock" using now by simp
  note res = take_candidate_result [OF some(7)] and skip = wf_expired_skip [OF assms(2,3), of p]
  have s': "s' = reserve_load ?key (ac_uncached_input_tokens (ap_context p)) ?s2"
    using res(8) unfolding mx some(4) [symmetric] by simp
  have room1: "next_epoch ?s1 < u64_max" using skip(3) room by simp
  have wf2: "wf_state ?s2" using skip(1) room1 by (simp add: wf_claim)
  have ne: "next_epoch s' = (if half_open clock ?s1 ?key then Suc (next_epoch s) else next_epoch s)"
    using skip(3) room by (simp add: s' wrap_add64_exact)
  have slot': "slot s' k = (if half_open clock ?s1 ?key \<and> k = ?key then Some (Suc (next_epoch s)) else slot ?s1 k)" for k
    using room1 skip(3) half_open_known [of clock ?s1 ?key] by (simp add: s' reserve_slot claim_slot)
  have wf': "wf_state s'" using wf2 by (simp add: s' wf_reserve)
  have p': "ap_current_key p' = Some ?key" "ap_current_probe p' = half_open clock ?s1 ?key"
    "ap_current_epoch p' = runtime_epoch s' ?key" "ap_context p' = ap_context p"
    using res(2,3,5,10) unfolding mx some(4) [symmetric] by simp_all
  have "slots_expired clock s'" using skip(2) by (simp add: s' reserve_expired claim_expired)
  moreover have "ap_current_epoch p' \<le> next_epoch s'" using runtime_epoch_le [OF wf'] by (simp add: p')
  moreover have "next_epoch s < ap_current_epoch p'" if "owns p' s' k" for k
    using that by (auto simp: owns_def p' slot')
  moreover have "slot s k = Some e \<or> next_epoch s < e" if "slot s' k = Some e" for k e
    using that skip(4) by (auto simp: slot' split: if_splits)
  ultimately show ?thesis using wf' ne p'(4) by (auto simp: sound_op_def)
qed


lemma sound_trans:
  assumes "sound_op k clock p s q t" "sound_op l clock q t r u"
  shows "sound_op (k + l) clock p s r u"
proof -
  have old: "slot s key = Some e \<or> next_epoch s < e" if "slot u key = Some e" for key e
    using assms that unfolding sound_op_def by (meson le_less_trans)
  have "owns p s key \<or> next_epoch s < ap_current_epoch r" if "owns r u key" for key
  proof (cases "owns q t key")
    case True
    then have "slot u key = Some (ap_current_epoch r)" "slot t key = Some (ap_current_epoch q)"
      using that by (auto simp: owns_def)
    then have "ap_current_epoch r = ap_current_epoch q \<or> next_epoch t < ap_current_epoch r"
      using assms(2) unfolding sound_op_def by fastforce
    then show ?thesis using assms True unfolding sound_op_def by fastforce
  next
    case False
    then show ?thesis using assms that unfolding sound_op_def by (meson le_less_trans)
  qed
  with old show ?thesis using assms unfolding sound_op_def by fastforce
qed

lemma sound_same:
  assumes "wf_state s" "slots_expired clock s" "ap_current_epoch p \<le> next_epoch s"
    and "ap_context p' = ap_context p" "ap_current_epoch p' = ap_current_epoch p"
    and "\<And>key. owns p' s key \<Longrightarrow> owns p s key"
  shows "sound_op 0 clock p s p' s"
  using assms by (intro sound_calm [OF calm_refl]) auto

text \<open>The one-time exception copies the epoch of a target that cools, whose slot is empty.\<close>

lemma cooling_no_slot:
  "slots_expired clock s \<Longrightarrow> targets s key = Some r \<Longrightarrow> clock < cooldown_until r \<Longrightarrow> slot s key = None"
  by (cases "probe_epoch r") (fastforce simp: slots_expired_def slot_def)+

lemma retry_current_claim:
  assumes "ap_current_key p = Some key" "\<not> still_current clock p s key" "\<not> ap_current_exception p"
    "targets s key = Some r" "clock < cooldown_until r" "retry_after_until r \<le> clock"
    "skip_current (p, s) = (q, t)" "max (ac_now_ms (ap_context p)) clock = clock"
  shows "retry_current clock p ca s =
    (if key \<in> ca_consumed ca then (False, q, ca, t)
     else (True, p\<lparr>ap_current_epoch := epoch r, ap_current_exception := True\<rparr>,
       ca\<lparr>ca_consumed := insert key (ca_consumed ca)\<rparr>, s))"
  using assms unfolding retry_current_def claim_def
  by (simp only: Let_def option.case if_True if_False) (simp add: insert_absorb)

lemma retry_current_cases:
  assumes "retry_current clock p ca s = (b, p', ca', s')" and "ac_now_ms (ap_context p) \<le> clock"
  obtains (keep) "p' = p" "ca' = ca" "s' = s"
    | (claim) key r where "b" "ap_current_key p = Some key" "targets s key = Some r" "clock < cooldown_until r"
        "\<not> ap_current_exception p" "key \<notin> ca_consumed ca"
        "p' = p\<lparr>ap_current_epoch := epoch r, ap_current_exception := True\<rparr>"
        "ca' = ca\<lparr>ca_consumed := insert key (ca_consumed ca)\<rparr>" "s' = s"
    | (refused) key where "ap_current_key p = Some key" "key \<in> ca_consumed ca" "\<not> ap_current_exception p"
        "(p', s') = skip_current (p, s)" "ca' = ca"
    | (skipped) "(p', s') = skip_current (p, s)" "ca' = ca"
proof (cases "ap_current_key p")
  case None
  with assms(1) keep show thesis by (simp add: retry_current_def)
next
  case (Some key)
  note key = this
  have mx: "max (ac_now_ms (ap_context p)) clock = clock" using assms(2) by simp
  obtain q t where sk: "skip_current (p, s) = (q, t)" by (cases "skip_current (p, s)")
  show thesis
  proof (cases "still_current clock p s key")
    case True
    with assms(1) key keep show thesis by (simp add: retry_current_def Let_def mx)
  next
    case stale: False
    show thesis
    proof (cases "\<exists>r. \<not> ap_current_exception p \<and> targets s key = Some r \<and> clock < cooldown_until r
        \<and> retry_after_until r \<le> clock")
      case False
      with assms(1) key stale have "(p', s') = skip_current (p, s)" "ca' = ca"
        by (auto simp: retry_current_def Let_def mx sk split: option.splits if_splits)
      then show thesis by (rule skipped)
    next
      case True
      then obtain r where r: "\<not> ap_current_exception p" "targets s key = Some r" "clock < cooldown_until r"
        "retry_after_until r \<le> clock" by blast
      note run = retry_current_claim [OF key stale r sk mx, of ca]
      show thesis
      proof (cases "key \<in> ca_consumed ca")
        case True
        with assms(1) run sk have "(p', s') = skip_current (p, s)" "ca' = ca" by simp_all
        with key True r show thesis by (intro refused [of key]) simp_all
      next
        case False
        with assms(1) run have "b \<and> p' = p\<lparr>ap_current_epoch := epoch r, ap_current_exception := True\<rparr>
            \<and> ca' = ca\<lparr>ca_consumed := insert key (ca_consumed ca)\<rparr> \<and> s' = s" by simp
        with key False r show thesis by (intro claim [of key r]) simp_all
      qed
    qed
  qed
qed

lemma sound_retry:
  assumes run: "retry_current clock p ca s = (b, p', ca', s')" and now: "ac_now_ms (ap_context p) \<le> clock"
    and pre: "wf_state s" "slots_expired clock s" "ap_current_epoch p \<le> next_epoch s"
  shows "sound_op 0 clock p s p' s'"
  using run now
proof (cases rule: retry_current_cases)
  case keep
  with pre show ?thesis by (auto intro: sound_same)
next
  case (claim key r)
  have "slot s key = None" using cooling_no_slot [OF pre(2) claim(3,4)] .
  moreover have "epoch r \<le> next_epoch s"
    using runtime_epoch_le [OF pre(1), of key] claim(3) by (simp add: runtime_epoch_def)
  ultimately show ?thesis
    using pre claim by (intro sound_calm [of 0]) (auto simp: owns_def)
next
  case refused
  with sound_skip [OF pre] show ?thesis by (metis fst_conv snd_conv)
next
  case skipped
  with sound_skip [OF pre] show ?thesis by (metis fst_conv snd_conv)
qed


lemma sound_record:
  assumes "wf_state s" "slots_expired clock s" "ap_current_epoch p \<le> next_epoch s" "next_epoch s < u64_max"
  shows "sound_op 1 clock p s p (snd (record_failure key ep b c now ra s))"
  using assms calm_failure [OF assms(4), of key ep b c now ra] wf_record_failure [OF assms(1,4)]
  by (intro sound_calm [OF calm_failure]) (auto simp: calm_def dest: calm_owns)

lemma sound_then_skip:
  assumes "sound_op k clock p s q t" "wf_state s"
  shows "sound_op k clock p s (fst (skip_current (q, t))) (snd (skip_current (q, t)))"
  using sound_trans [OF assms(1) sound_skip [of t clock q]] assms by (simp add: sound_op_def)

lemma sound_then_retry:
  assumes "sound_op k clock p s q t" "retry_current clock q ca t = (b, q', ca', t')" "ac_now_ms (ap_context q) \<le> clock"
  shows "sound_op k clock p s q' t'"
  using sound_trans [OF assms(1) sound_retry [OF assms(2,3)]] assms(1) by (simp add: sound_op_def)

lemma sound_fail:
  assumes run: "policy_record_failure clock t f p ca s = (d, p', ca', s')"
    and now: "ac_now_ms (ap_context p) \<le> clock" and room: "next_epoch s < u64_max"
    and pre: "wf_state s" "slots_expired clock s" "ap_current_epoch p \<le> next_epoch s"
  shows "sound_op 1 clock p s p' s'"
proof (cases "fs_kind f \<in> {ContextLengthExceeded, ContentFiltered}")
  case True
  with run have "p' = fst (skip_current (p, s))" "s' = snd (skip_current (p, s))"
    by (auto simp: policy_record_failure_def case_prod_beta)
  with sound_skip [OF pre] show ?thesis by (auto simp: sound_op_def)
next
  case other: False
  let ?ra = "retry_after_policy t (fs_retry_after f)"
  obtain failures s1 where rf: "record_failure (selected_target_key t) (ap_current_epoch p) (st_retry_budget t)
      (st_cooldown_ms t) (max (max (fs_now_ms f) (ac_now_ms (ap_context p))) clock) ?ra s = (failures, s1)"
    by (metis surj_pair)
  have one: "sound_op 1 clock p s p s1" using sound_record [OF pre room] rf by (metis snd_conv)
  obtain q u where sk: "skip_current (p, s1) = (q, u)" by (cases "skip_current (p, s1)")
  have skipped: "sound_op 1 clock p s q u" using sound_then_skip [OF one pre(1)] by (simp add: sk)
  obtain b p2 ca2 s2 where rc: "retry_current clock p ca s1 = (b, p2, ca2, s2)"
    by (cases "retry_current clock p ca s1")
  have retried: "sound_op 1 clock p s p2 s2" using sound_then_retry [OF one rc now] .
  obtain q2 u2 where sk2: "skip_current (p2, s2) = (q2, u2)" by (cases "skip_current (p2, s2)")
  have retried_skipped: "sound_op 1 clock p s q2 u2" using sound_then_skip [OF retried pre(1)] by (simp add: sk2)
  show ?thesis
    using run other one skipped retried retried_skipped
    unfolding policy_record_failure_def Let_def rf
    by (auto simp: rc sk sk2 split: if_splits)
qed

lemma policy_op_sound:
  assumes "policy_op clock p ca s p' ca' s'"
    and "ac_now_ms (ap_context p) \<le> clock" "next_epoch s < u64_max"
    and "wf_state s" "slots_expired clock s" "ap_current_epoch p \<le> next_epoch s"
  shows "sound_op 1 clock p s p' s'"
  using assms(1)
proof cases
  case op_next
  then show ?thesis using sound_next assms(2-6) by blast
next
  case op_retry
  then have "sound_op 0 clock p s p' s'" using sound_retry assms(2-6) by blast
  then show ?thesis by (auto simp: sound_op_def)
next
  case op_fail
  then show ?thesis using sound_fail assms(2-6) by blast
next
  case op_skip
  then have "sound_op 0 clock p s p' s'" using sound_skip [OF assms(4-6)] by simp
  then show ?thesis by (auto simp: sound_op_def)
next
  case op_accept
  have "sound_op 0 clock p s (accept_current p) s"
    using assms by (intro sound_same) (auto simp: accept_current_def owns_def)
  with op_accept show ?thesis by (auto simp: sound_op_def)
next
  case op_unsent
  then have "sound_op 0 clock p s p' s"
    using assms by (intro sound_same) (auto simp: release_unsent_exception_def owns_def split: if_splits option.splits)
  with op_unsent show ?thesis by (auto simp: sound_op_def)
next
  case (op_retain_eligible excluded)
  have "sound_op 0 clock p s (retain_eligible excluded clock ca s p) s"
    using assms by (intro sound_same) (auto simp: retain_eligible_def owns_def Let_def)
  with op_retain_eligible show ?thesis by (auto simp: sound_op_def)
next
  case (op_retain keep)
  have "sound_op 0 clock p s (retain keep p) s"
    using assms by (intro sound_same) (auto simp: retain_def owns_def)
  with op_retain show ?thesis by (auto simp: sound_op_def)
qed


section \<open>The cooldown exception one operation may take or return\<close>

definition holds_exception :: "'c attempt_policy \<Rightarrow> string \<Rightarrow> bool" where
  "holds_exception p key \<longleftrightarrow> ap_current_exception p \<and> ap_current_key p = Some key"

definition exception_op :: "'c attempt_policy \<Rightarrow> cooldown_attempts \<Rightarrow> 'c attempt_policy \<Rightarrow> cooldown_attempts \<Rightarrow> bool" where
  "exception_op p ca p' ca' \<longleftrightarrow>
     (\<forall>key. holds_exception p' key \<longrightarrow> key \<in> ca_consumed ca' \<and> (holds_exception p key \<or> key \<notin> ca_consumed ca))
     \<and> (\<forall>key. key \<in> ca_consumed ca \<longrightarrow> key \<notin> ca_consumed ca' \<longrightarrow> holds_exception p key)"

definition exceptions_consumed :: "'c attempt_policy \<Rightarrow> cooldown_attempts \<Rightarrow> bool" where
  "exceptions_consumed p ca \<longleftrightarrow> (\<forall>key. holds_exception p key \<longrightarrow> key \<in> ca_consumed ca)"

lemma exception_op_refl: "exceptions_consumed p ca \<Longrightarrow> exception_op p ca p ca"
  by (auto simp: exception_op_def exceptions_consumed_def)

lemma exception_op_none: "(\<And>key. \<not> holds_exception p' key) \<Longrightarrow> exception_op p ca p' ca"
  by (auto simp: exception_op_def)

lemma skip_holds: "\<not> holds_exception (fst (skip_current (p, s))) key"
  by (simp add: holds_exception_def skip_fields)

lemma exception_skip: "exception_op p ca (fst (skip_current (p, s))) ca"
  by (intro exception_op_none skip_holds)

lemma exception_unsent:
  "release_unsent_exception p ca = (p', ca') \<Longrightarrow> exceptions_consumed p ca \<Longrightarrow> exception_op p ca p' ca'"
  by (auto simp: release_unsent_exception_def exception_op_def holds_exception_def exceptions_consumed_def
      split: if_splits option.splits)

lemma exception_next:
  assumes "next_healthy clock p ca s = (r, p', ca', s')"
  shows "exception_op p ca p' ca'"
  using assms
proof (cases rule: next_healthy_cases)
  case none
  then have "ap_current_key p' = None" by (simp add: narrowed_def case_prod_beta skip_fields)
  with none(4) show ?thesis by (simp add: exception_op_none holds_exception_def)
next
  case (some c i)
  note res = take_candidate_result [OF some(7), folded some(4)]
  show ?thesis
    using selectable_cooling [OF some(6)]
    by (auto simp: exception_op_def holds_exception_def res(2,4,9) claim_def mark_selected_def exception_available_def)
qed

lemma exception_retry:
  assumes "retry_current clock p ca s = (b, p', ca', s')" "ac_now_ms (ap_context p) \<le> clock"
    and "exceptions_consumed p ca"
  shows "exception_op p ca p' ca'"
  using assms(1,2)
proof (cases rule: retry_current_cases)
  case keep
  with assms(3) show ?thesis by (simp add: exception_op_refl)
next
  case claim
  then show ?thesis by (auto simp: exception_op_def holds_exception_def)
next
  case refused
  with exception_skip show ?thesis by (metis fst_conv)
next
  case skipped
  with exception_skip show ?thesis by (metis fst_conv)
qed

lemma exception_then_skip:
  "exception_op p ca q ca' \<Longrightarrow> exception_op p ca (fst (skip_current (q, t))) ca'"
  by (simp add: exception_op_def skip_holds)

lemma exception_fail:
  assumes run: "policy_record_failure clock t f p ca s = (d, p', ca', s')"
    and now: "ac_now_ms (ap_context p) \<le> clock" and pre: "exceptions_consumed p ca"
  shows "exception_op p ca p' ca'"
proof (cases "fs_kind f \<in> {ContextLengthExceeded, ContentFiltered}")
  case True
  with run have "p' = fst (skip_current (p, s))" "ca' = ca"
    by (auto simp: policy_record_failure_def case_prod_beta)
  with exception_skip show ?thesis by metis
next
  case other: False
  let ?ra = "retry_after_policy t (fs_retry_after f)"
  obtain failures s1 where rf: "record_failure (selected_target_key t) (ap_current_epoch p) (st_retry_budget t)
      (st_cooldown_ms t) (max (max (fs_now_ms f) (ac_now_ms (ap_context p))) clock) ?ra s = (failures, s1)"
    by (metis surj_pair)
  obtain q u where sk: "skip_current (p, s1) = (q, u)" by (cases "skip_current (p, s1)")
  have skipped: "exception_op p ca q ca" using exception_skip [of p ca s1] by (simp add: sk)
  obtain b p2 ca2 s2 where rc: "retry_current clock p ca s1 = (b, p2, ca2, s2)"
    by (cases "retry_current clock p ca s1")
  have retried: "exception_op p ca p2 ca2" using exception_retry [OF rc now pre] .
  obtain q2 u2 where sk2: "skip_current (p2, s2) = (q2, u2)" by (cases "skip_current (p2, s2)")
  have retried_skipped: "exception_op p ca q2 ca2" using exception_then_skip [OF retried, of s2] by (simp add: sk2)
  show ?thesis
    using run other exception_op_refl [OF pre] skipped retried retried_skipped
    unfolding policy_record_failure_def Let_def rf
    by (auto simp: rc sk sk2 split: if_splits)
qed

lemma policy_op_exception:
  assumes "policy_op clock p ca s p' ca' s'" "ac_now_ms (ap_context p) \<le> clock" "exceptions_consumed p ca"
  shows "exception_op p ca p' ca'"
  using assms(1)
proof cases
  case op_skip
  then show ?thesis using exception_skip [of p ca s] by simp
next
  case op_accept
  then show ?thesis by (simp add: exception_op_none accept_current_def holds_exception_def)
next
  case (op_retain_eligible excluded)
  with exception_op_refl [OF assms(3)] show ?thesis
    by (simp add: exception_op_def holds_exception_def retain_eligible_def Let_def)
next
  case (op_retain keep)
  with exception_op_refl [OF assms(3)] show ?thesis by (simp add: exception_op_def holds_exception_def retain_def)
qed (use assms(2,3) in \<open>blast intro: exception_next exception_retry exception_fail exception_unsent\<close>)+


section \<open>The invariant of the router\<close>

definition policies_bounded :: "'c router \<Rightarrow> bool" where
  "policies_bounded w \<longleftrightarrow>
     (\<forall>i rq p. ro_policies w i = Some (rq, p) \<longrightarrow>
        ap_current_epoch p \<le> next_epoch (ro_state w) \<and> ac_now_ms (ap_context p) \<le> ro_clock w)"

definition unique_owner :: "'c router \<Rightarrow> bool" where
  "unique_owner w \<longleftrightarrow>
     (\<forall>i j rq rq' p q key. ro_policies w i = Some (rq, p) \<longrightarrow> ro_policies w j = Some (rq', q) \<longrightarrow>
        owns p (ro_state w) key \<longrightarrow> owns q (ro_state w) key \<longrightarrow> i = j)"

definition unique_exception :: "'c router \<Rightarrow> bool" where
  "unique_exception w \<longleftrightarrow>
     (\<forall>i rq p. ro_policies w i = Some (rq, p) \<longrightarrow> exceptions_consumed p (ro_cooldowns w rq))
     \<and> (\<forall>i j rq p q key. ro_policies w i = Some (rq, p) \<longrightarrow> ro_policies w j = Some (rq, q) \<longrightarrow>
          holds_exception p key \<longrightarrow> holds_exception q key \<longrightarrow> i = j)"

definition router_inv :: "nat \<Rightarrow> 'c router \<Rightarrow> bool" where
  "router_inv n w \<longleftrightarrow>
     wf_state (ro_state w) \<and> slots_expired (ro_clock w) (ro_state w) \<and> next_epoch (ro_state w) \<le> n
     \<and> policies_bounded w \<and> unique_owner w \<and> unique_exception w"

lemma slots_expired_mono: "slots_expired c s \<Longrightarrow> c \<le> d \<Longrightarrow> slots_expired d s"
  unfolding slots_expired_def by (meson le_trans)

lemma new_policy_fields:
  "ap_current_key (new_policy strategy ts ctx snapshot clock ca s) = None"
  "ap_current_epoch (new_policy strategy ts ctx snapshot clock ca s) = 0"
  "ap_context (new_policy strategy ts ctx snapshot clock ca s) = ctx"
  by (simp_all add: new_policy_def Let_def)

lemma router_inv_create:
  assumes "router_inv n w" "ro_policies w i = None" "ro_clock w \<le> clock" "ac_now_ms ctx \<le> clock"
  shows "router_inv n (w\<lparr>ro_clock := clock, ro_policies := (ro_policies w)(i \<mapsto>
       (rq, new_policy strategy ts ctx snapshot clock (ro_cooldowns w rq) (ro_state w)))\<rparr>)"
proof -
  let ?p = "new_policy strategy ts ctx snapshot clock (ro_cooldowns w rq) (ro_state w)"
  have none: "\<not> owns ?p s key" "\<not> holds_exception ?p key" for s key
    by (simp_all add: owns_def holds_exception_def new_policy_fields)
  have "policies_bounded (w\<lparr>ro_clock := clock, ro_policies := (ro_policies w)(i \<mapsto> (rq, ?p))\<rparr>)"
    using assms by (fastforce simp: router_inv_def policies_bounded_def new_policy_fields)
  moreover have "unique_owner (w\<lparr>ro_clock := clock, ro_policies := (ro_policies w)(i \<mapsto> (rq, ?p))\<rparr>)"
    using assms none by (auto simp: router_inv_def unique_owner_def)
  moreover have "unique_exception (w\<lparr>ro_clock := clock, ro_policies := (ro_policies w)(i \<mapsto> (rq, ?p))\<rparr>)"
    using assms none by (auto simp: router_inv_def unique_exception_def exceptions_consumed_def)
  ultimately show ?thesis using assms slots_expired_mono by (auto simp: router_inv_def)
qed

text \<open>An operation of the policy \<open>i\<close>, from what \<open>sound_op\<close> and \<open>exception_op\<close> say of it.\<close>

lemma owner_after:
  assumes "sound_op k clock p s p' s'" "owns q s' key" "ap_current_epoch q \<le> next_epoch s"
  shows "owns q s key"
  using assms unfolding sound_op_def owns_def by fastforce

lemma unique_owner_op:
  assumes inv: "unique_owner w" "policies_bounded w" and i: "ro_policies w i = Some (rq, p)"
    and op: "sound_op k clock p (ro_state w) p' s'"
    and j: "ro_policies w j = Some (rq', q)" "i \<noteq> j"
  shows "\<not> (owns p' s' key \<and> owns q s' key)"
proof
  assume both: "owns p' s' key \<and> owns q s' key"
  have bound: "ap_current_epoch q \<le> next_epoch (ro_state w)" using inv(2) j by (auto simp: policies_bounded_def)
  then have q: "owns q (ro_state w) key" using owner_after [OF op] both by blast
  have same: "ap_current_epoch p' = ap_current_epoch q" using both by (auto simp: owns_def)
  then have "owns p (ro_state w) key" using op both bound unfolding sound_op_def by fastforce
  with inv(1) i j q show False unfolding unique_owner_def by blast
qed

lemma router_inv_operate:
  assumes inv: "router_inv n w" and i: "ro_policies w i = Some (rq, p)" and clk: "ro_clock w \<le> clock"
    and op: "policy_op clock p (ro_cooldowns w rq) (ro_state w) p' ca' s'" and n: "n < u64_max"
  shows "router_inv (Suc n) (w\<lparr>ro_clock := clock, ro_state := s', ro_cooldowns := (ro_cooldowns w)(rq := ca'),
       ro_policies := (ro_policies w)(i \<mapsto> (rq, p'))\<rparr>)" (is "router_inv _ ?w")
proof -
  note parts = inv [unfolded router_inv_def]
  have b: "ap_current_epoch p \<le> next_epoch (ro_state w)" "ac_now_ms (ap_context p) \<le> clock"
    using parts i clk unfolding policies_bounded_def by fastforce+
  have so: "sound_op 1 clock p (ro_state w) p' s'"
    using policy_op_sound [OF op] b parts n clk slots_expired_mono by (auto simp: le_less_trans)
  have con: "exceptions_consumed p (ro_cooldowns w rq)"
    and exi: "\<And>j q key. ro_policies w j = Some (rq, q) \<Longrightarrow> holds_exception p key \<Longrightarrow> holds_exception q key \<Longrightarrow> i = j"
    using parts i unfolding unique_exception_def by blast+
  have eo: "exception_op p (ro_cooldowns w rq) p' ca'" using policy_op_exception [OF op b(2) con] .
  have "policies_bounded ?w"
    using parts so clk b unfolding policies_bounded_def sound_op_def
    by (auto split: if_splits) (fastforce dest: le_trans)+
  moreover have "unique_owner ?w"
  proof -
    have "owns q (ro_state w) key" if "owns q s' key" "ro_policies w j = Some (rq', q)" for j rq' q key
      using owner_after [OF so that(1)] parts that(2) by (auto simp: policies_bounded_def)
    then show ?thesis
      using parts unique_owner_op [OF _ _ i so] unfolding unique_owner_def by (auto split: if_splits) blast+
  qed
  moreover have "unique_exception ?w"
  proof -
    have kept: "key \<in> ca_consumed ca'"
      if "ro_policies w j = Some (rq, q)" "holds_exception q key" "i \<noteq> j" for j q key
      using eo that exi [OF that(1) _ that(2)] parts
      unfolding unique_exception_def exceptions_consumed_def exception_op_def by blast
    have new: "\<not> (holds_exception p' key \<and> holds_exception q key)"
      if "ro_policies w j = Some (rq, q)" "i \<noteq> j" for j q key
      using eo that exi [OF that(1)] parts
      unfolding unique_exception_def exceptions_consumed_def exception_op_def by blast
    show ?thesis
      using parts eo kept new unfolding unique_exception_def exceptions_consumed_def exception_op_def
      by (auto split: if_splits)
  qed
  ultimately show ?thesis using so parts by (auto simp: router_inv_def sound_op_def)
qed


text \<open>A step that is calm on the state and keeps or removes the policies.\<close>

lemma router_inv_calm:
  assumes inv: "router_inv n w" and calm: "calm 1 (ro_state w) s'" and wf: "wf_state s'"
    and pol: "\<And>i v. pol i = Some v \<Longrightarrow> ro_policies w i = Some v"
  shows "router_inv (Suc n) (w\<lparr>ro_state := s', ro_policies := pol\<rparr>)"
proof -
  note parts = inv [unfolded router_inv_def]
  have "policies_bounded (w\<lparr>ro_state := s', ro_policies := pol\<rparr>)"
    using parts pol calm unfolding policies_bounded_def calm_def by fastforce
  moreover have "unique_owner (w\<lparr>ro_state := s', ro_policies := pol\<rparr>)"
    using parts pol calm_owns [OF calm] unfolding unique_owner_def by simp blast
  moreover have "unique_exception (w\<lparr>ro_state := s', ro_policies := pol\<rparr>)"
    using parts pol unfolding unique_exception_def by simp blast
  ultimately show ?thesis
    using parts wf calm_expired [OF calm] calm by (auto simp: router_inv_def calm_def)
qed

lemma calm_weaken: "calm 0 s s' \<Longrightarrow> calm 1 s s'"
  by (auto simp: calm_def)

lemma calm_report: "next_epoch s < u64_max \<Longrightarrow> calm 1 s (apply_report key rep s)"
  by (cases rep) (simp_all del: One_nat_def add: calm_failure calm_recovery calm_weaken calm_success calm_release)

lemma wf_report: "wf_state s \<Longrightarrow> next_epoch s < u64_max \<Longrightarrow> wf_state (apply_report key rep s)"
  by (cases rep) (simp_all add: wf_record_failure wf_try_recovery wf_record_success wf_release)

lemma calm_clear: "calm 0 s (clear_pricing s)"
  by (simp add: calm_def clear_pricing_def)

lemma router_inv_step:
  assumes "router_step w w'" "router_inv n w" "n < u64_max"
  shows "router_inv (Suc n) w'"
proof -
  have room: "next_epoch (ro_state w) < u64_max" and wf: "wf_state (ro_state w)"
    using assms(2,3) by (auto simp: router_inv_def)
  have mono: "router_inv n v \<Longrightarrow> router_inv (Suc n) v" for v :: "'a router"
    by (auto simp: router_inv_def)
  show ?thesis
    using assms(1)
  proof (cases rule: router_step.cases)
    case create
    then show ?thesis using router_inv_create [OF assms(2)] mono by blast
  next
    case operate
    then show ?thesis using router_inv_operate [OF assms(2)] assms(3) by blast
  next
    case (drop i rq p)
    have "ro_policies w k = Some v" if "((ro_policies w)(i := None)) k = Some v" for k v
      using that by (auto split: if_splits)
    then show ?thesis
      unfolding drop(1) by (intro router_inv_calm [OF assms(2) calm_weaken [OF calm_drop] wf_drop [OF wf]])
  next
    case (report rep key)
    then show ?thesis
      using router_inv_calm [OF assms(2) calm_report [OF room] wf_report [OF wf room], of "ro_policies w" key rep]
      by simp
  next
    case invalidate
    then show ?thesis
      using router_inv_calm [OF assms(2) calm_weaken [OF calm_clear] wf_clear_pricing [OF wf], of "ro_policies w"]
      by simp
  qed
qed

lemma router_inv_initial: "router_inv 0 initial_router"
  by (simp add: router_inv_def initial_router_def slots_expired_def initial_state_def policies_bounded_def
      unique_owner_def unique_exception_def wf_state_def)

lemma reachable_inv: "reachable_in n w \<Longrightarrow> n < u64_max \<Longrightarrow> router_inv n w"
proof (induction rule: reachable_in.induct)
  case reach_init
  show ?case by (rule router_inv_initial)
next
  case (reach_step n w w')
  then show ?case by (intro router_inv_step) simp_all
qed

section \<open>A run\<close>

text \<open>
  A failure at time 5 cools the target until 15; a policy created at the time \<open>clock\<close> with
  the target as its cache affinity then selects it: as the exception before 15, as the
  half-open probe from then on.
\<close>

definition run_context :: attempt_context where
  "run_context = \<lparr>ac_principal = ''u'', ac_route_id = ''r'', ac_conversation = None,
     ac_conversation_affinity = None, ac_cache_affinity = Some ''p:b'',
     ac_uncached_input_tokens = 7, ac_now_ms = 5\<rparr>"

definition run_target :: target_config where
  "run_target = \<lparr>tc_id = ''t'', tc_model_id = ''m'', tc_destination = Model ''p'' ''b'', tc_enabled = True,
     tc_priority = 1, tc_first_token_timeout_ms = 60000, tc_retry_budget = 0, tc_cooldown_ms = 10,
     tc_created_at = ''0'', tc_thinking_level_map = [], tc_model_name = None,
     tc_output_modality_mismatch = False, tc_route_output_modalities = []\<rparr>"

definition cooled_state :: policy_state where
  "cooled_state = apply_report ''p:b'' (ReportFailure 0 0 10 5 None) initial_state"

definition run_policy :: "nat \<Rightarrow> unit attempt_policy" where
  "run_policy clock = new_policy ''traffic_equalization'' [run_target] run_context
     \<lparr>rs_targets = [], rs_credential_invalid = {}, rs_allowance_suspended = {}\<rparr> clock no_attempts cooled_state"

lemma cooled_state_targets:
  "targets cooled_state = [''p:b'' \<mapsto> \<lparr>consecutive_failures = 1, cooldown_until = 15, retry_after_until = 0,
     epoch = 1, probe_epoch = None, load = default_load\<rparr>]"
  "next_epoch cooled_state = 1"
  by (simp_all add: cooled_state_def record_failure_def initial_state_def runtime_epoch_def Let_def sat_add32_def
      should_cool_def cooldown_for_def clamp_nonneg_def advance_epoch_def wrap_add64_exact u64_max_def
      next_retry_after_def sat_add64_exact u32_max_def)

lemma run_target_key: "persisted_target_key run_target = ''p:b''"
  by (simp add: run_target_def persisted_target_key_def target_key_def)

lemma run_policy_fields:
  "\<exists>c. ap_ordered (run_policy clock) = [c] \<and> cd_key c = ''p:b''"
  "ap_preferred (run_policy clock) = Some ''p:b''" "ap_context (run_policy clock) = run_context"
  "ap_current_key (run_policy clock) = None"
proof -
  have pref: "preferred_target run_context no_attempts cooled_state = Some ''p:b''"
    by (simp add: preferred_target_def run_context_def or_else_def)
  have "initially_eligible \<lparr>rs_targets = [], rs_credential_invalid = {}, rs_allowance_suspended = {}\<rparr>
      (max (ac_now_ms run_context) clock) (Some ''p:b'') no_attempts cooled_state run_target"
    by (simp add: initially_eligible_def run_target_key exception_available_def no_attempts_def)
      (simp add: run_target_def)
  then show "\<exists>c. ap_ordered (run_policy clock) = [c] \<and> cd_key c = ''p:b''"
    by (simp add: run_policy_def new_policy_def Let_def pref priority_groups_def make_candidate_def run_target_key)
qed (simp_all add: run_policy_def new_policy_def Let_def preferred_target_def run_context_def or_else_def)

lemma run_reaches:
  assumes "5 \<le> (clock::nat)"
  shows "\<exists>(w :: unit router) p. reachable_in 3 w \<and> ro_policies w 0 = Some (0, p)
    \<and> (if clock < 15 then holds_exception p ''p:b'' else owns p (ro_state w) ''p:b'')"
proof -
  let ?p = "run_policy clock"
  obtain r p' ca' s' where run: "next_healthy clock ?p no_attempts cooled_state = (r, p', ca', s')"
    by (cases "next_healthy clock ?p no_attempts cooled_state")
  have mx: "max (ac_now_ms (ap_context ?p)) clock = clock"
    using assms by (simp add: run_policy_fields run_context_def)
  have st: "snd (skip_current (?p, cooled_state)) = cooled_state"
    by (rule skip_without_current [OF run_policy_fields(4)])
  have sel: "selectable clock (Some ''p:b'') no_attempts cooled_state ''p:b''"
    by (simp add: selectable_def cooled_state_targets exception_available_def no_attempts_def)
  obtain c where c: "ap_ordered ?p = [c]" "cd_key c = ''p:b''" using run_policy_fields(1) by blast
  have owner: "ap_current_key p' = Some ''p:b'' \<and>
      (if clock < 15 then ap_current_exception p' else ap_current_probe p' \<and> slot s' ''p:b'' = Some (ap_current_epoch p'))"
    using run
  proof (cases rule: next_healthy_cases)
    case none
    then have "filter (\<lambda>c. selectable clock (Some ''p:b'') no_attempts cooled_state (cd_key c)) [c] = []"
      by (simp only: narrowed_fields mx run_policy_fields(2) c st)
    with sel c(2) show ?thesis by simp
  next
    case (some d i)
    then have "d = c" by (simp add: c)
    with c(2) have d: "cd_key d = ''p:b''" by simp
    note res = take_candidate_result [OF some(7), folded some(4), unfolded mx d]
    have ho: "half_open clock cooled_state ''p:b'' = (15 \<le> clock)" "cooling clock cooled_state ''p:b'' = (clock < 15)"
      by (simp_all add: half_open_def cooling_def cooled_state_targets)
    have "slot s' ''p:b'' = Some (runtime_epoch s' ''p:b'')" if "15 \<le> clock"
      using that unfolding res(8) st ho
      by (simp add: slot_def runtime_epoch_def reserve_load_targets claim_probe_targets cooled_state_targets)
    then show ?thesis using res(2,3,4,10) by (auto simp: st ho)
  qed
  let ?w1 = "(initial_router :: unit router)\<lparr>ro_state := cooled_state\<rparr>"
  have "router_step initial_router ?w1"
    using router_step.report [of "ReportFailure 0 0 10 5 None" "initial_router :: unit router" "''p:b''"]
    by (simp add: cooled_state_def initial_router_def)
  then have one: "reachable_in (Suc 0) ?w1" using reach_init reach_step by blast
  let ?w2 = "?w1\<lparr>ro_clock := clock, ro_policies := (ro_policies ?w1)(0 \<mapsto> (0, ?p))\<rparr>"
  have "router_step ?w1 ?w2"
    using router_step.create [of ?w1 0 clock run_context] assms
    by (simp add: initial_router_def run_policy_def run_context_def)
  then have two: "reachable_in (Suc (Suc 0)) ?w2" using one reach_step by blast
  let ?w3 = "?w2\<lparr>ro_clock := clock, ro_state := s', ro_cooldowns := (ro_cooldowns ?w2)(0 := ca'),
     ro_policies := (ro_policies ?w2)(0 \<mapsto> (0, p'))\<rparr>"
  have step: "router_step ?w2 ?w3"
    using router_step.operate [of ?w2 0 0 ?p clock p' ca' s'] op_next [OF run]
    by (simp add: initial_router_def)
  have "reachable_in 3 ?w3" unfolding numeral_3_eq_3 by (rule reach_step [OF two step])
  moreover have "ro_policies ?w3 0 = Some (0, p')" by simp
  moreover have "if clock < 15 then holds_exception p' ''p:b'' else owns p' (ro_state ?w3) ''p:b''"
    using owner by (auto simp: holds_exception_def owns_def)
  ultimately show ?thesis by blast
qed

section \<open>Properties\<close>



text \<open>
  C3: a cooling target is tried at most once per root request. In every reachable state,
  the policies of one root request never hold the cooldown exception of the same target
  twice, and a held exception is marked consumed, so no other policy of that request can
  select the target or retry it while it cools.
\<close>

theorem exception_once:
  assumes "reachable_in n w" "n < u64_max" "ro_policies w i = Some (rq, p)" "holds_exception p key"
  shows "key \<in> ca_consumed (ro_cooldowns w rq)
    \<and> (\<forall>j q. ro_policies w j = Some (rq, q) \<longrightarrow> holds_exception q key \<longrightarrow> j = i)
    \<and> (\<forall>now preferred s. cooling now s key \<longrightarrow>
         \<not> selectable now preferred (ro_cooldowns w rq) s key)"
proof -
  have inv: "unique_exception w" using reachable_inv [OF assms(1,2)] by (simp add: router_inv_def)
  have con: "key \<in> ca_consumed (ro_cooldowns w rq)"
    using inv assms(3,4) unfolding unique_exception_def exceptions_consumed_def by blast
  moreover have "\<forall>j q. ro_policies w j = Some (rq, q) \<longrightarrow> holds_exception q key \<longrightarrow> j = i"
    using inv assms(3,4) unfolding unique_exception_def by blast
  moreover have "\<not> selectable now preferred (ro_cooldowns w rq) s key" if "cooling now s key" for now preferred s
    using selectable_cooling [OF _ that] con by (auto simp: exception_available_def)
  ultimately show ?thesis by blast
qed

theorem exception_once_witness:
  "\<exists>(w :: unit router) p. reachable_in 3 w \<and> ro_policies w 0 = Some (0, p) \<and> holds_exception p ''p:b''
     \<and> ''p:b'' \<in> ca_consumed (ro_cooldowns w 0)"
proof -
  obtain w :: "unit router" and p where w: "reachable_in 3 w" "ro_policies w 0 = Some (0, p)" "holds_exception p ''p:b''"
    using run_reaches [of 10] by auto
  have "(3::nat) < u64_max" by (simp add: u64_max_def)
  with w show ?thesis using exception_once [OF w(1) _ w(2,3)] by blast
qed

end
