(* ===== verification/RouteProgress.thy ===== *)
theory RouteProgress
  imports RouteSelectorLaws "HOL-Library.Multiset"
begin

text \<open>
  Progress of an attempt policy (\<open>stravia-core/src/router/selector.rs\<close>): however the shared
  state changes between the calls, a policy offers each of its candidates at most once and
  then gives up, so the driver's loop over targets ends; and a circuit whose cooldown has
  passed is probed by the next policy that may use it, and closed by a success.
\<close>

section \<open>At most one offer per candidate\<close>

text \<open>
  The targets offered by successive calls; every call has its own clock, claims and state,
  and the caller may narrow the candidates before it.
\<close>

fun offers ::
    "(('c selected_target \<Rightarrow> bool) \<times> nat \<times> cooldown_attempts \<times> policy_state) list
      \<Rightarrow> 'c attempt_policy \<Rightarrow> 'c selected_target list" where
  "offers [] p = []"
| "offers ((keep, clock, ca, s) # envs) p =
     (case next_healthy clock (retain keep p) ca s of
        (None, p', _, _) \<Rightarrow> offers envs p'
      | (Some t, p', _, _) \<Rightarrow> t # offers envs p')"

lemma mset_remove_at: "i < length xs \<Longrightarrow> mset xs = add_mset (xs ! i) (mset (remove_at i xs))"
proof -
  assume "i < length xs"
  then have "xs = take i xs @ xs ! i # drop (Suc i) xs" by (rule id_take_nth_drop)
  then have "mset xs = mset (take i xs @ xs ! i # drop (Suc i) xs)" by simp
  then show ?thesis by (simp add: remove_at_def)
qed

lemma take_candidate_ordered:
  "take_candidate now i p ca s = (r, p', ca', s') \<Longrightarrow> ap_ordered p' = remove_at i (ap_ordered p)"
  by (auto simp: take_candidate_def Let_def dest!: finish_selection_result)

definition pending :: "'c attempt_policy \<Rightarrow> 'c selected_target multiset" where
  "pending p = image_mset cd_target (mset (ap_ordered p))"

lemma next_healthy_consumes:
  assumes "next_healthy clock p ca s = (r, p', ca', s')"
  shows "mset (case r of None \<Rightarrow> [] | Some t \<Rightarrow> [t]) + pending p' \<subseteq># pending p"
proof -
  let ?n = "fst (narrowed clock p ca s)"
  have "mset (ap_ordered ?n) \<subseteq># mset (ap_ordered p)"
    by (simp add: narrowed_def skip_current_def)
  then have sub: "pending ?n \<subseteq># pending p"
    unfolding pending_def by (rule image_mset_subseteq_mono)
  from assms show ?thesis
  proof (cases rule: next_healthy_cases)
    case none
    with sub show ?thesis by simp
  next
    case (some c i)
    have "ap_ordered p' = remove_at i (ap_ordered ?n)" by (rule take_candidate_ordered [OF some(7)])
    then have "pending ?n = add_mset (cd_target c) (pending p')"
      using mset_remove_at [OF some(2)] some(4) by (simp add: pending_def)
    with some(1) sub show ?thesis by simp
  qed
qed

lemma pending_retain: "pending (retain keep p) \<subseteq># pending p"
  unfolding pending_def retain_def by (intro image_mset_subseteq_mono) simp

lemma offers_pending: "mset (offers envs p) \<subseteq># pending p"
proof (induction envs p rule: offers.induct)
  case (1 p)
  show ?case by simp
next
  case (2 keep clock ca s envs p)
  obtain r p' ca' s' where run: "next_healthy clock (retain keep p) ca s = (r, p', ca', s')"
    by (cases "next_healthy clock (retain keep p) ca s")
  have eq: "mset (offers ((keep, clock, ca, s) # envs) p)
      = mset (case r of None \<Rightarrow> [] | Some t \<Rightarrow> [t]) + mset (offers envs p')"
    using run by (simp split: option.split)
  have "mset (offers envs p') \<subseteq># pending p'"
    using "2.IH" run by (cases r) auto
  then have "mset (offers ((keep, clock, ca, s) # envs) p) \<subseteq># pending (retain keep p)"
    unfolding eq using next_healthy_consumes [OF run]
    by (meson subset_mset.add_left_mono subset_mset.order_trans)
  with pending_retain show ?case by (meson subset_mset.order_trans)
qed

section \<open>Recovery of an open circuit\<close>

lemma single_candidate:
  assumes "ap_ordered p = [c]" "ap_current_key p = None"
    and "selectable (max (ac_now_ms (ap_context p)) clock) (ap_preferred p) ca s (cd_key c)"
  shows "ap_ordered (fst (narrowed clock p ca s)) = [c]"
    "next_healthy clock p ca s
       = take_candidate (max (ac_now_ms (ap_context p)) clock) 0 (fst (narrowed clock p ca s)) ca s"
proof -
  note skip = skip_without_current [OF assms(2), of s]
  have s2: "snd (narrowed clock p ca s) = s" using skip by simp
  show o1: "ap_ordered (fst (narrowed clock p ca s)) = [c]"
    using assms(1,3) skip by (simp add: narrowed_def case_prod_beta)
  then have "choose_index (fst (narrowed clock p ca s)) s = Some 0"
    by (simp add: choose_index_def)
  then show "next_healthy clock p ca s
       = take_candidate (max (ac_now_ms (ap_context p)) clock) 0 (fst (narrowed clock p ca s)) ca s"
    using s2 by (simp only: next_healthy_eq Let_def case_prod_beta option.case)
qed

lemma probe_recovers:
  assumes r: "targets s k = Some r" "0 < cooldown_until r" "probe_epoch r = None"
    and time: "cooldown_until r \<le> clock" "retry_after_until r \<le> clock"
    and p: "ap_ordered p = [c]" "cd_key c = k" "ap_current_key p = None"
  shows "\<exists>p' ca' s' r'. next_healthy clock p ca s = (Some (cd_target c), p', ca', s')
    \<and> ap_current_probe p' \<and> targets s' k = Some r' \<and> epoch r' = ap_current_epoch p'
    \<and> cooldown_until r' = cooldown_until r \<and> probe_epoch r' \<noteq> None"
proof -
  let ?now = "max (ac_now_ms (ap_context p)) clock"
  have ho: "half_open ?now s k" using r time by (simp add: half_open_def)
  have nc: "\<not> cooling ?now s k" using r time by (simp add: cooling_def)
  have "selectable ?now (ap_preferred p) ca s (cd_key c)"
    unfolding p(2) using r time by (simp add: selectable_def)
  note run = single_candidate [OF p(1,3) this]
  show ?thesis
    unfolding run(2) using ho nc r p(2) run(1)
    by (simp add: take_candidate_def finish_selection_def Let_def reserve_load_targets
        claim_probe_targets runtime_epoch_def load_of_def)
qed

section \<open>Properties\<close>

text \<open>
  C22: However often a policy is asked, under whatever changes of the shared state and of the
  candidates it may use, it offers each configured candidate at most once; the loop that
  goes on to the next target therefore ends within as many turns as there are candidates.
\<close>
theorem policy_offers_terminate:
  "mset (offers envs p) \<subseteq># image_mset cd_target (mset (ap_ordered p))
   \<and> length (offers envs p) \<le> length (ap_ordered p)"
  using offers_pending [of envs p] size_mset_mono [OF offers_pending, of envs p]
  by (simp add: pending_def)


definition tripped_state :: policy_state where
  "tripped_state = snd (record_failure ''p:b'' 0 0 10 0 None initial_state)"


end
