(* ===== verification/RuntimeCache.thy ===== *)
theory RuntimeCache
  imports Prelude
begin

text \<open>
  The runtime cache of derived values (\<open>stravia-core/src/runtime_cache.rs\<close>), its local
  backend, and the contract its clients rely on.

  The entry table is the third-party TinyUFO, which keeps what it likes of its entries:
  the hashes that survive a put are an argument of the operation. The hash function
  (\<open>DefaultHasher\<close>) is an argument too; nothing below assumes it free of collisions. The
  value type is a parameter; a domain always stores one type, so the downcast of \<open>get\<close>
  succeeds. The Redis backend runs Lua on the server and is represented by the
  weight and the field it sends.
\<close>

section \<open>The contract\<close>

text \<open>
  A lossy cache may forget anything at any time but never invents: a value it returns for
  a key was put under that very key. \<open>'e\<close> is what the environment decides in a put.
\<close>

locale lossy_cache =
  fixes get :: "nat \<Rightarrow> 's \<Rightarrow> 'k \<Rightarrow> 'v option"
    and put :: "'e \<Rightarrow> 'k \<Rightarrow> 'v \<Rightarrow> 's \<Rightarrow> 's"
  assumes put_sound: "get now (put e k v s) k' = Some v' \<Longrightarrow> (k' = k \<and> v' = v) \<or> (\<exists>t. get t s k' = Some v')"
begin

text \<open>Every value in the cache satisfies \<open>P\<close> for its key.\<close>

definition holds_only :: "('k \<Rightarrow> 'v \<Rightarrow> bool) \<Rightarrow> 's \<Rightarrow> bool" where
  "holds_only P s \<longleftrightarrow> (\<forall>now k v. get now s k = Some v \<longrightarrow> P k v)"

lemma holds_onlyD: "holds_only P s \<Longrightarrow> get now s k = Some v \<Longrightarrow> P k v"
  by (simp add: holds_only_def)

lemma holds_only_put: "holds_only P s \<Longrightarrow> P k v \<Longrightarrow> holds_only P (put e k v s)"
  unfolding holds_only_def using put_sound by metis

lemma holds_only_mono: "holds_only P s \<Longrightarrow> (\<And>k v. P k v \<Longrightarrow> Q k v) \<Longrightarrow> holds_only Q s"
  by (simp add: holds_only_def)

lemma holds_only_puts:
  "holds_only P s \<Longrightarrow> (\<And>e k v. (e, k, v) \<in> set ops \<Longrightarrow> P k v) \<Longrightarrow>
   holds_only P (fold (\<lambda>(e, k, v). put e k v) ops s)"
proof (induction ops arbitrary: s)
  case (Cons op ops)
  obtain e k v where op: "op = (e, k, v)" by (cases op)
  have "holds_only P (put e k v s)" using Cons.prems op by (intro holds_only_put) auto
  then show ?case using Cons op by auto
qed simp

end

section \<open>The local backend\<close>

record 'v local_entry =
  le_domain :: string
  le_key :: string
  le_value :: 'v
  le_expires_at :: instant

record 'v local_cache =
  lc_entries :: "nat \<rightharpoonup> 'v local_entry"
  lc_capacity_bytes :: nat

definition kib :: nat where "kib = 1024"
definition entry_overhead :: nat where "entry_overhead = 256"
definition redis_entry_overhead :: nat where "redis_entry_overhead = 256"
definition redis_base_overhead :: nat where "redis_base_overhead = 2048"

definition new_local_cache :: "nat \<Rightarrow> 'v local_cache" where
  "new_local_cache capacity = \<lparr>lc_entries = Map.empty, lc_capacity_bytes = capacity\<rparr>"

text \<open>\<open>usize::checked_add\<close> and \<open>checked_mul\<close> on a 64-bit host.\<close>

definition checked_add :: "nat \<Rightarrow> nat \<Rightarrow> nat option" where
  "checked_add a b = (if a + b \<le> u64_max then Some (a + b) else None)"

definition checked_mul :: "nat \<Rightarrow> nat \<Rightarrow> nat option" where
  "checked_mul a b = (if a * b \<le> u64_max then Some (a * b) else None)"

definition div_ceil :: "nat \<Rightarrow> nat \<Rightarrow> nat" where
  "div_ceil a b = (a + b - 1) div b"

text \<open>\<open>admission_weight\<close> of each backend; \<open>sz\<close> is \<open>size_of::<T>()\<close>.\<close>

definition local_weight :: "nat \<Rightarrow> nat \<Rightarrow> string \<Rightarrow> string \<Rightarrow> nat \<Rightarrow> nat option" where
  "local_weight capacity sz domain key value_bytes =
     do { a \<leftarrow> checked_add (max value_bytes sz) (length key);
          b \<leftarrow> checked_add a (length domain);
          bytes \<leftarrow> checked_add b entry_overhead;
          let units = div_ceil bytes kib;
          if capacity < bytes \<or> capacity div kib < units then None
          else if units < 2 ^ 16 then Some units else None }"

definition decimal_length :: "nat \<Rightarrow> nat" where
  "decimal_length n = length (show_nat n)"

definition redis_weight :: "nat \<Rightarrow> string \<Rightarrow> string \<Rightarrow> nat \<Rightarrow> nat option" where
  "redis_weight capacity domain key value_bytes =
     do { a \<leftarrow> checked_add (decimal_length (length domain)) 1;
          b \<leftarrow> checked_add a (length domain);
          field_bytes \<leftarrow> checked_add b (length key);
          fourfold \<leftarrow> checked_mul field_bytes 4;
          c \<leftarrow> checked_add value_bytes fourfold;
          weight \<leftarrow> checked_add c redis_entry_overhead;
          if weight \<le> capacity - redis_base_overhead \<and> capacity < 2 ^ 53 then Some weight else None }"

definition local_get :: "(string \<Rightarrow> string \<Rightarrow> nat) \<Rightarrow> string \<Rightarrow> nat \<Rightarrow> 'v local_cache \<Rightarrow> string \<Rightarrow> 'v option" where
  "local_get hash domain now c key =
     (case lc_entries c (hash domain key) of
        None \<Rightarrow> None
      | Some entry \<Rightarrow>
          if le_domain entry \<noteq> domain \<or> le_key entry \<noteq> key \<or> le_expires_at entry \<le> now then None
          else Some (le_value entry))"

text \<open>What the environment decides: the surviving hashes, the clock, the size estimate and the lifetime.\<close>

record put_env =
  pe_survivors :: "nat set"
  pe_now :: instant
  pe_size :: nat
  pe_estimated_bytes :: nat
  pe_ttl :: duration

definition local_put :: "(string \<Rightarrow> string \<Rightarrow> nat) \<Rightarrow> string \<Rightarrow> put_env \<Rightarrow> string \<Rightarrow> 'v \<Rightarrow> 'v local_cache \<Rightarrow> 'v local_cache" where
  "local_put hash domain e key value c =
     (if pe_ttl e = 0 then c
      else case local_weight (lc_capacity_bytes c) (pe_size e) domain key (pe_estimated_bytes e) of
             None \<Rightarrow> c
           | Some _ \<Rightarrow>
               c\<lparr>lc_entries := (\<lambda>h. if h \<in> pe_survivors e
                   then ((lc_entries c)(hash domain key \<mapsto>
                     \<lparr>le_domain = domain, le_key = key, le_value = value,
                      le_expires_at = pe_now e + pe_ttl e\<rparr>)) h
                   else None)\<rparr>)"

definition local_remove :: "(string \<Rightarrow> string \<Rightarrow> nat) \<Rightarrow> string \<Rightarrow> string \<Rightarrow> 'v local_cache \<Rightarrow> 'v local_cache" where
  "local_remove hash domain key c =
     (case lc_entries c (hash domain key) of
        None \<Rightarrow> c
      | Some entry \<Rightarrow>
          if le_domain entry = domain \<and> le_key entry = key
          then c\<lparr>lc_entries := (lc_entries c)(hash domain key := None)\<rparr> else c)"

definition redis_field :: "string \<Rightarrow> string \<Rightarrow> string" where
  "redis_field domain key = show_nat (length domain) @ '':'' @ domain @ key"

section \<open>The local backend meets the contract\<close>

lemma local_get_Some:
  "local_get hash domain now c key = Some v \<longleftrightarrow>
     (\<exists>entry. lc_entries c (hash domain key) = Some entry \<and> le_domain entry = domain \<and> le_key entry = key
        \<and> now < le_expires_at entry \<and> le_value entry = v)"
  by (auto simp: local_get_def split: option.splits)

lemma local_put_entry:
  "lc_entries (local_put hash domain e key value c) h = Some entry \<Longrightarrow>
   (h = hash domain key \<and> le_domain entry = domain \<and> le_key entry = key \<and> le_value entry = value)
   \<or> lc_entries c h = Some entry"
  by (auto simp: local_put_def split: if_splits option.splits)

text \<open>A put in one domain never shows in another, nor under another key.\<close>

lemma local_put_sound:
  assumes "local_get hash d now (local_put hash domain e key value c) k = Some v"
  shows "(d = domain \<and> k = key \<and> v = value) \<or> local_get hash d now c k = Some v"
  using assms by (auto simp: local_get_Some dest!: local_put_entry)

interpretation domain: lossy_cache "local_get hash domain" "local_put hash domain" for hash domain
  by unfold_locales (drule local_put_sound, blast)

interpretation domains: lossy_cache "\<lambda>now c (d, k). local_get hash d now c k"
    "\<lambda>e (d, k). local_put hash d e k" for hash
  by unfold_locales (use local_put_sound in fastforce)

lemma get_after_put:
  assumes "hash domain key \<in> pe_survivors e" "0 < pe_ttl e" "now < pe_now e + pe_ttl e"
    and "local_weight (lc_capacity_bytes c) (pe_size e) domain key (pe_estimated_bytes e) \<noteq> None"
  shows "local_get hash domain now (local_put hash domain e key value c) key = Some value"
  using assms by (auto simp: local_get_Some local_put_def)

lemma get_after_remove: "local_get hash domain now (local_remove hash domain key c) key = None"
  by (auto simp: local_get_def local_remove_def split: option.splits)

section \<open>Properties\<close>

text \<open>
  The cache never answers with another key's value. Whatever has been put into it, in
  any order, in any domains, with any collisions of the hash and any evictions, a value
  read for a domain and key was put for exactly that domain and key.
\<close>

theorem cache_returns_only_puts:
  assumes "local_get hash domain now (fold (\<lambda>(e, (d, k), v). local_put hash d e k v) puts (new_local_cache capacity)) key
     = Some value"
  shows "\<exists>e. (e, (domain, key), value) \<in> set puts"
proof -
  let ?P = "\<lambda>k v. \<exists>e. (e, k, v) \<in> set puts"
  have "domains.holds_only hash ?P (new_local_cache capacity)"
    unfolding domains.holds_only_def by (simp add: local_get_def new_local_cache_def split_beta)
  then have "domains.holds_only hash ?P
      (fold (\<lambda>(e, k, v). (\<lambda>e (d, k). local_put hash d e k) e k v) puts (new_local_cache capacity))"
    by (rule domains.holds_only_puts) blast
  then show ?thesis
    using assms domains.holds_onlyD [where hash = hash and now = now and k = "(domain, key)" and v = "value"]
    by simp
qed

definition sample_env :: put_env where
  "sample_env = \<lparr>pe_survivors = {0}, pe_now = 0, pe_size = 8, pe_estimated_bytes = 8, pe_ttl = 10\<rparr>"

text \<open>With a hash that always collides: the second put replaces the first, and neither is mistaken.\<close>

theorem cache_returns_only_puts_witness:
  "local_get (\<lambda>_ _. 0) ''pricing'' 5 (fold (\<lambda>(e, (d, k), v). local_put (\<lambda>_ _. 0) d e k v)
       [(sample_env, (''pricing'', ''a''), 1 :: nat), (sample_env, (''pricing'', ''b''), 2)] (new_local_cache 4096)) ''b'' = Some 2
   \<and> (\<exists>e. (e, (''pricing'', ''b''), 2) \<in> set [(sample_env, (''pricing'', ''a''), 1 :: nat), (sample_env, (''pricing'', ''b''), 2)])"
proof -
  have "local_get (\<lambda>_ _. 0) ''pricing'' 5 (fold (\<lambda>(e, (d, k), v). local_put (\<lambda>_ _. 0) d e k v)
       [(sample_env, (''pricing'', ''a''), 1 :: nat), (sample_env, (''pricing'', ''b''), 2)] (new_local_cache 4096)) ''b'' = Some 2"
    by (simp add: local_get_Some local_put_def sample_env_def new_local_cache_def local_weight_def checked_add_def
        u64_max_def entry_overhead_def kib_def div_ceil_def)
  with cache_returns_only_puts [OF this] show ?thesis by blast
qed

text \<open>The Redis field identifies the domain and the key.\<close>

theorem redis_field_injective:
  "redis_field domain key = redis_field domain' key' \<longleftrightarrow> domain = domain' \<and> key = key'"
proof
  assume "redis_field domain key = redis_field domain' key'"
  then have "show_nat (length domain) @ CHR '':'' # (domain @ key)
      = show_nat (length domain') @ CHR '':'' # (domain' @ key')"
    by (simp add: redis_field_def)
  moreover have "CHR '':'' \<notin> set (show_nat n)" for n using show_nat_digits by blast
  ultimately have "length domain = length domain'" "domain @ key = domain' @ key'"
    by (simp_all add: sep_split_eq show_nat_inj)
  then show "domain = domain' \<and> key = key'" by simp
qed simp

end
