(* ===== verification/PricingCache.thy ===== *)
theory PricingCache
  imports RuntimeCache RoutePolicy
begin

text \<open>
  The cache of target prices (\<open>pricing\<close>, \<open>store_pricing\<close> and \<open>clear_pricing\<close> of
  \<open>stravia-core/src/router/selector.rs\<close>) over the runtime cache. A lookup takes the
  state's lock twice with the cache read between, and a miss loads from the database
  outside any lock; other requests and invalidations run in between.

  The cached value is \<open>Option<TargetPricing>\<close>, here of an arbitrary type \<open>'v\<close>.
\<close>

section \<open>The operations\<close>

datatype 'v pricing_probe = Miss nat | Hit 'v

text \<open>\<open>pricing\<close>, from the generation read first, the value found and the generation read last.\<close>

definition pricing_result :: "nat \<Rightarrow> 'v option \<Rightarrow> nat \<Rightarrow> 'v pricing_probe" where
  "pricing_result generation cached current_generation =
     (if current_generation \<noteq> generation then Miss current_generation
      else case cached of Some pricing \<Rightarrow> Hit pricing | None \<Rightarrow> Miss generation)"

definition cached_pricing ::
    "(string \<Rightarrow> string \<Rightarrow> nat) \<Rightarrow> string \<Rightarrow> nat \<Rightarrow> instant \<Rightarrow> string \<Rightarrow> string \<Rightarrow> 'v local_cache \<Rightarrow> 'v option" where
  "cached_pricing hash ns generation now provider model c =
     local_get hash ''pricing'' now c (pricing_key ns generation provider model)"

definition store_pricing ::
    "(string \<Rightarrow> string \<Rightarrow> nat) \<Rightarrow> string \<Rightarrow> put_env \<Rightarrow> nat \<Rightarrow> string \<Rightarrow> string \<Rightarrow> 'v \<Rightarrow> policy_state \<Rightarrow> 'v local_cache
      \<Rightarrow> 'v local_cache" where
  "store_pricing hash ns e generation provider model pricing s c =
     (if pricing_generation s \<noteq> generation then c
      else local_put hash ''pricing'' e (pricing_key ns generation provider model) pricing c)"

section \<open>Interleaved lookups\<close>

text \<open>How far a lookup has come; \<open>Loaded\<close> carries the value read from the database.\<close>

datatype 'v lookup =
    Probing nat string string
  | Fetched nat string string "'v option"
  | Loading nat string string
  | Loaded nat string string 'v

text \<open>
  \<open>pw_lookups\<close> collects every stage any lookup has reached (a stage is never taken back, so
  the next step of a lookup may come at any later time), \<open>pw_fresh\<close> the values read from
  the database since the last invalidation.
\<close>

record 'v pricing_world =
  pw_state :: policy_state
  pw_cache :: "'v local_cache"
  pw_lookups :: "'v lookup set"
  pw_fresh :: "(string \<times> string \<times> 'v) set"

inductive pricing_run :: "(string \<Rightarrow> string \<Rightarrow> nat) \<Rightarrow> string \<Rightarrow> nat \<Rightarrow> 'v pricing_world \<Rightarrow> bool" for hash ns where
  initial: "pricing_run hash ns 0 \<lparr>pw_state = initial_state, pw_cache = new_local_cache capacity,
     pw_lookups = {}, pw_fresh = {}\<rparr>"
| probe: "pricing_run hash ns n w \<Longrightarrow> pricing_run hash ns n
     (w\<lparr>pw_lookups := insert (Probing (pricing_generation (pw_state w)) p m) (pw_lookups w)\<rparr>)"
| fetch: "pricing_run hash ns n w \<Longrightarrow> Probing g p m \<in> pw_lookups w \<Longrightarrow> pricing_run hash ns n
     (w\<lparr>pw_lookups := insert (Fetched g p m (cached_pricing hash ns g now p m (pw_cache w))) (pw_lookups w)\<rparr>)"
| miss: "pricing_run hash ns n w \<Longrightarrow> Fetched g p m cached \<in> pw_lookups w \<Longrightarrow>
     pricing_result g cached (pricing_generation (pw_state w)) = Miss g' \<Longrightarrow> pricing_run hash ns n
     (w\<lparr>pw_lookups := insert (Loading g' p m) (pw_lookups w)\<rparr>)"
| loaded: "pricing_run hash ns n w \<Longrightarrow> Loading g p m \<in> pw_lookups w \<Longrightarrow> pricing_run hash ns n
     (w\<lparr>pw_lookups := insert (Loaded g p m v) (pw_lookups w), pw_fresh := insert (p, m, v) (pw_fresh w)\<rparr>)"
| stored: "pricing_run hash ns n w \<Longrightarrow> Loaded g p m v \<in> pw_lookups w \<Longrightarrow> pricing_run hash ns n
     (w\<lparr>pw_cache := store_pricing hash ns e g p m v (pw_state w) (pw_cache w)\<rparr>)"
| other_put: "pricing_run hash ns n w \<Longrightarrow> domain \<noteq> ''pricing'' \<Longrightarrow> pricing_run hash ns n
     (w\<lparr>pw_cache := local_put hash domain e k v (pw_cache w)\<rparr>)"
| cleared: "pricing_run hash ns n w \<Longrightarrow> pricing_run hash ns (Suc n)
     (w\<lparr>pw_state := clear_pricing (pw_state w), pw_fresh := {}\<rparr>)"

text \<open>What the cache and the stages may hold while the generation is \<open>g\<close>.\<close>

definition fresh_value :: "nat \<Rightarrow> (string \<times> string \<times> 'v) set \<Rightarrow> string \<Rightarrow> string \<Rightarrow> 'v \<Rightarrow> bool" where
  "fresh_value g fresh ns k v \<longleftrightarrow>
     (\<exists>g' p m. k = pricing_key ns g' p m \<and> g' \<le> g \<and> (g' = g \<longrightarrow> (p, m, v) \<in> fresh))"

fun fresh_lookup :: "nat \<Rightarrow> (string \<times> string \<times> 'v) set \<Rightarrow> 'v lookup \<Rightarrow> bool" where
  "fresh_lookup g fresh (Probing g' p m) \<longleftrightarrow> g' \<le> g"
| "fresh_lookup g fresh (Fetched g' p m cached) \<longleftrightarrow>
     g' \<le> g \<and> (case cached of None \<Rightarrow> True | Some v \<Rightarrow> g' = g \<longrightarrow> (p, m, v) \<in> fresh)"
| "fresh_lookup g fresh (Loading g' p m) \<longleftrightarrow> g' \<le> g"
| "fresh_lookup g fresh (Loaded g' p m v) \<longleftrightarrow> g' \<le> g \<and> (g' = g \<longrightarrow> (p, m, v) \<in> fresh)"

definition pricing_inv :: "(string \<Rightarrow> string \<Rightarrow> nat) \<Rightarrow> string \<Rightarrow> nat \<Rightarrow> 'v pricing_world \<Rightarrow> bool" where
  "pricing_inv hash ns n w \<longleftrightarrow>
     pricing_generation (pw_state w) = n
     \<and> domain.holds_only hash ''pricing'' (fresh_value n (pw_fresh w) ns) (pw_cache w)
     \<and> (\<forall>l \<in> pw_lookups w. fresh_lookup n (pw_fresh w) l)"

lemma fresh_lookup_mono: "fresh_lookup g fresh l \<Longrightarrow> fresh \<subseteq> fresh' \<Longrightarrow> fresh_lookup g fresh' l"
  by (cases l) (auto split: option.splits)

lemma fresh_lookup_next: "fresh_lookup g fresh l \<Longrightarrow> fresh_lookup (Suc g) {} l"
  by (cases l) (auto split: option.splits)

lemma fresh_value_mono: "fresh_value g fresh ns k v \<Longrightarrow> fresh \<subseteq> fresh' \<Longrightarrow> fresh_value g fresh' ns k v"
  unfolding fresh_value_def by blast

lemma fresh_value_next: "fresh_value g fresh ns k v \<Longrightarrow> fresh_value (Suc g) {} ns k v"
  by (fastforce simp: fresh_value_def)

lemma cached_is_fresh:
  assumes "pricing_inv hash ns n w" "cached_pricing hash ns g now p m (pw_cache w) = Some v" "g \<le> n"
  shows "g = n \<longrightarrow> (p, m, v) \<in> pw_fresh w"
proof -
  have "fresh_value n (pw_fresh w) ns (pricing_key ns g p m) v"
    using assms(1,2) unfolding pricing_inv_def cached_pricing_def
    by (elim conjE) (rule domain.holds_onlyD)
  then obtain g' p' m' where "pricing_key ns g p m = pricing_key ns g' p' m'" "g' = n \<longrightarrow> (p', m', v) \<in> pw_fresh w"
    unfolding fresh_value_def by blast
  then show ?thesis by (simp add: pricing_key_eq)
qed

lemma pricing_run_inv: "pricing_run hash ns n w \<Longrightarrow> n < u64_max \<Longrightarrow> pricing_inv hash ns n w"
proof (induction rule: pricing_run.induct)
  case (initial capacity)
  show ?case
    unfolding pricing_inv_def domain.holds_only_def
    by (simp add: local_get_def new_local_cache_def initial_state_def)
next
  case (probe n w p m)
  then show ?case by (simp add: pricing_inv_def)
next
  case (fetch n w g p m now)
  then have inv: "pricing_inv hash ns n w" by simp
  then have "g \<le> n" using fetch(2) by (auto simp: pricing_inv_def)
  with inv cached_is_fresh [OF inv, of g now p m] show ?case
    by (auto simp: pricing_inv_def split: option.splits)
next
  case (miss n w g p m cached g')
  then have "g' \<le> n" by (auto simp: pricing_inv_def pricing_result_def split: if_splits option.splits)
  with miss show ?case by (simp add: pricing_inv_def)
next
  case (loaded n w g p m v)
  then have "g \<le> n" by (auto simp: pricing_inv_def)
  with loaded show ?case
    by (auto simp: pricing_inv_def intro: fresh_lookup_mono domain.holds_only_mono fresh_value_mono)
next
  case (stored n w g p m v e)
  then have inv: "pricing_inv hash ns n w" by simp
  have "fresh_lookup n (pw_fresh w) (Loaded g p m v)" using inv stored(2) unfolding pricing_inv_def by blast
  then have "fresh_value n (pw_fresh w) ns (pricing_key ns g p m) v" by (auto simp: fresh_value_def)
  with inv show ?case
    by (auto simp: pricing_inv_def store_pricing_def intro: domain.holds_only_put)
next
  case (other_put n w dom e k v)
  have "domain.holds_only hash ''pricing'' P (local_put hash dom e k v (pw_cache w))"
    if "domain.holds_only hash ''pricing'' P (pw_cache w)" for P
    using that other_put(2) unfolding domain.holds_only_def by (metis local_put_sound)
  with other_put show ?case by (simp add: pricing_inv_def)
next
  case (cleared n w)
  then have "pricing_inv hash ns n w" by simp
  then show ?case
    using cleared.prems
    by (auto simp: pricing_inv_def clear_pricing_def wrap_add64_exact
        intro: fresh_lookup_next domain.holds_only_mono fresh_value_next)
qed

section \<open>Properties\<close>

text \<open>
  C25: no stale price survives an invalidation. Whatever lookups, loads, stores, evictions
  and writes of other domains interleave, a lookup that ends in a hit returns a value that
  was read from the database for that very provider and model after the last invalidation.
\<close>

theorem pricing_never_stale:
  assumes "pricing_run hash ns n w" "n < u64_max" "Fetched g p m cached \<in> pw_lookups w"
    and "pricing_result g cached (pricing_generation (pw_state w)) = Hit v"
  shows "(p, m, v) \<in> pw_fresh w"
  using pricing_run_inv [OF assms(1,2)] assms(3,4)
  by (fastforce simp: pricing_inv_def pricing_result_def split: if_splits option.splits)


lemma cached_after_store:
  assumes "hash ''pricing'' (pricing_key ns g p m) \<in> pe_survivors e" "0 < pe_ttl e" "now < pe_now e + pe_ttl e"
    and "local_weight (lc_capacity_bytes c) (pe_size e) ''pricing'' (pricing_key ns g p m) (pe_estimated_bytes e) \<noteq> None"
    and "pricing_generation s = g"
  shows "cached_pricing hash ns g now p m (store_pricing hash ns e g p m v s c) = Some v"
  using assms unfolding cached_pricing_def store_pricing_def
  by (simp add: get_after_put [where hash = hash and domain = "''pricing''"])

theorem pricing_never_stale_witness:
  "\<exists>w. pricing_run (\<lambda>_ _. 0) ''n'' 0 w \<and> Fetched 0 ''p'' ''m'' (Some (7 :: nat)) \<in> pw_lookups w
     \<and> (''p'', ''m'', 7) \<in> pw_fresh w"
proof -
  let ?h = "\<lambda>_ _. 0 :: nat"
  let ?c = "new_local_cache 4096 :: nat local_cache"
  let ?w = "\<lparr>pw_state = initial_state, pw_cache = ?c, pw_lookups = {}, pw_fresh = {}\<rparr>"
  have g: "pricing_generation initial_state = 0" by (simp add: initial_state_def)
  have r0: "pricing_run ?h ''n'' 0 ?w" by (rule pricing_run.initial)
  have none: "cached_pricing ?h ''n'' 0 2 ''p'' ''m'' ?c = None"
    by (simp add: cached_pricing_def local_get_def new_local_cache_def)
  have "local_weight 4096 8 ''pricing'' (pricing_key ''n'' 0 ''p'' ''m'') 8 \<noteq> None"
    by (simp add: local_weight_def checked_add_def u64_max_def entry_overhead_def kib_def div_ceil_def
        pricing_key_def show_nat.simps [of 0] show_nat.simps [of "Suc 0"] Let_def)
  then have hit: "cached_pricing ?h ''n'' 0 2 ''p'' ''m''
      (store_pricing ?h ''n'' sample_env 0 ''p'' ''m'' 7 initial_state ?c) = Some 7"
    by (intro cached_after_store) (simp_all add: sample_env_def new_local_cache_def g)
  let ?w3 = "?w\<lparr>pw_lookups := {Loading 0 ''p'' ''m'', Fetched 0 ''p'' ''m'' None, Probing 0 ''p'' ''m''}\<rparr>"
  have "pricing_run ?h ''n'' 0 (?w\<lparr>pw_lookups := {Probing 0 ''p'' ''m''}\<rparr>)"
    using pricing_run.probe [OF r0, of "''p''" "''m''"] by (simp add: g)
  from pricing_run.fetch [OF this, of 0 "''p''" "''m''" 2]
  have "pricing_run ?h ''n'' 0 (?w\<lparr>pw_lookups := {Fetched 0 ''p'' ''m'' None, Probing 0 ''p'' ''m''}\<rparr>)"
    by (simp add: none)
  from pricing_run.miss [OF this, of 0 "''p''" "''m''" None 0]
  have r3: "pricing_run ?h ''n'' 0 ?w3" by (simp add: g pricing_result_def)
  let ?w4 = "?w3\<lparr>pw_lookups := insert (Loaded 0 ''p'' ''m'' 7) (pw_lookups ?w3), pw_fresh := {(''p'', ''m'', 7)}\<rparr>"
  from pricing_run.loaded [OF r3, of 0 "''p''" "''m''" 7]
  have r4: "pricing_run ?h ''n'' 0 ?w4" by simp
  let ?w5 = "?w4\<lparr>pw_cache := store_pricing ?h ''n'' sample_env 0 ''p'' ''m'' 7 initial_state ?c\<rparr>"
  from pricing_run.stored [OF r4, of 0 "''p''" "''m''" 7 sample_env]
  have r5: "pricing_run ?h ''n'' 0 ?w5" by simp
  let ?w6 = "?w5\<lparr>pw_lookups := insert (Fetched 0 ''p'' ''m'' (Some 7)) (pw_lookups ?w5)\<rparr>"
  from pricing_run.fetch [OF r5, of 0 "''p''" "''m''" 2]
  have r6: "pricing_run ?h ''n'' 0 ?w6" by (simp add: hit)
  have in6: "Fetched 0 ''p'' ''m'' (Some 7) \<in> pw_lookups ?w6" by simp
  have "(0 :: nat) < u64_max" by (simp add: u64_max_def)
  from pricing_never_stale [OF r6 this in6, of 7] have "(''p'', ''m'', 7) \<in> pw_fresh ?w6"
    by (simp add: pricing_result_def g)
  with r6 in6 show ?thesis by blast
qed

end
