(* ===== verification/CacheAffinity.thy ===== *)
theory CacheAffinity
  imports RuntimeCache
begin

text \<open>
  Cache affinity (\<open>stravia-core/src/router/cache_affinity.rs\<close>): which target served the
  longest prefix of a request before. The records of one principal, route and set of
  request controls are one value of the runtime cache.

  A request is its items and the hash of its controls. The hashes of one item's history
  units (SHA-256 of canonical JSON) are the argument \<open>units\<close>, the JSON text of a namespace
  the argument \<open>encode\<close>; hashes are of an arbitrary type \<open>'h\<close>.
\<close>

section \<open>Data\<close>

record 'h affinity_record =
  ar_item_hashes :: "'h list"
  ar_target_key :: string

record 'h affinity_namespace =
  an_principal :: string
  an_route_id :: string
  an_controls :: 'h

record ('i, 'h) affinity_request =
  aq_items :: "'i list"
  aq_controls_hash :: 'h

text \<open>The two fields of \<open>Usage\<close> that decide whether a success is recorded.\<close>

record prompt_usage =
  us_required_components_known :: bool
  us_prompt_tokens :: nat

definition affinity_min_prompt_tokens :: nat where
  "affinity_min_prompt_tokens = 20000"

text \<open>\<open>Principal::continuation_key\<close> (\<open>stravia-runtime-contract/src/identity.rs\<close>).\<close>

definition continuation_key_for :: "string \<Rightarrow> string" where
  "continuation_key_for api_key_id = ''api-key:'' @ api_key_id"

definition item_hashes :: "('i \<Rightarrow> 'h list) \<Rightarrow> 'i list \<Rightarrow> 'h list" where
  "item_hashes units items = concat (map units items)"

definition request_namespace :: "string \<Rightarrow> string \<Rightarrow> ('i, 'h) affinity_request \<Rightarrow> 'h affinity_namespace" where
  "request_namespace api_key_id route_id request =
     \<lparr>an_principal = continuation_key_for api_key_id, an_route_id = route_id,
      an_controls = aq_controls_hash request\<rparr>"

definition namespace_key :: "('h affinity_namespace \<Rightarrow> string) \<Rightarrow> string \<Rightarrow> string \<Rightarrow> string
    \<Rightarrow> ('i, 'h) affinity_request \<Rightarrow> string" where
  "namespace_key encode cache_namespace api_key_id route_id request =
     cache_namespace @ '':'' @ encode (request_namespace api_key_id route_id request)"

section \<open>Looking up\<close>

definition matched_items :: "'h list \<Rightarrow> 'h list \<Rightarrow> nat" where
  "matched_items recorded requested = length (takeWhile (\<lambda>(a, b). a = b) (zip recorded requested))"

fun best_match :: "'h list \<Rightarrow> 'h affinity_record list \<Rightarrow> (nat \<times> string) option \<Rightarrow> (nat \<times> string) option" where
  "best_match hashes [] best = best"
| "best_match hashes (r # rs) best =
     (let matched = matched_items (ar_item_hashes r) hashes
      in best_match hashes rs
           (if 0 < matched \<and> (case best of None \<Rightarrow> True | Some (best_items, _) \<Rightarrow> best_items < matched)
            then Some (matched, ar_target_key r) else best))"

definition preferred_in :: "'h list \<Rightarrow> 'h affinity_record list \<Rightarrow> string option" where
  "preferred_in hashes records = map_option snd (best_match hashes (rev records) None)"

definition preferred_target_affinity ::
    "(string \<Rightarrow> string \<Rightarrow> nat) \<Rightarrow> ('h affinity_namespace \<Rightarrow> string) \<Rightarrow> string \<Rightarrow> ('i \<Rightarrow> 'h list) \<Rightarrow> instant
      \<Rightarrow> string \<Rightarrow> string \<Rightarrow> ('i, 'h) affinity_request \<Rightarrow> 'h affinity_record list local_cache \<Rightarrow> string option" where
  "preferred_target_affinity hash encode ns units now api_key_id route_id request c =
     (if aq_items request = [] then None
      else case local_get hash ''affinity'' now c (namespace_key encode ns api_key_id route_id request) of
             None \<Rightarrow> None
           | Some records \<Rightarrow>
               if records = [] then None
               else preferred_in (item_hashes units (aq_items request)) records)"

section \<open>Recording a success\<close>

text \<open>\<open>while records.len() >= capacity { records.pop_front() }\<close>.\<close>

fun make_room :: "nat \<Rightarrow> 'a list \<Rightarrow> 'a list" where
  "make_room capacity [] = []"
| "make_room capacity (x # xs) = (if capacity \<le> length (x # xs) then make_room capacity xs else x # xs)"

definition add_record :: "nat \<Rightarrow> 'h affinity_record \<Rightarrow> 'h affinity_record list \<Rightarrow> 'h affinity_record list" where
  "add_record capacity r records =
     make_room capacity
       (filter (\<lambda>existing. ar_item_hashes existing \<noteq> ar_item_hashes r \<or> ar_target_key existing \<noteq> ar_target_key r)
         records) @ [r]"

text \<open>
  \<open>record_success\<close>. The mutation lock makes the read and the write one step; \<open>reached\<close> is
  false when the publication times out.
\<close>

definition record_affinity ::
    "(string \<Rightarrow> string \<Rightarrow> nat) \<Rightarrow> ('h affinity_namespace \<Rightarrow> string) \<Rightarrow> string \<Rightarrow> nat \<Rightarrow> ('i \<Rightarrow> 'h list)
      \<Rightarrow> put_env \<Rightarrow> bool \<Rightarrow> string \<Rightarrow> string \<Rightarrow> ('i, 'h) affinity_request \<Rightarrow> string \<Rightarrow> prompt_usage
      \<Rightarrow> 'h affinity_record list local_cache \<Rightarrow> 'h affinity_record list local_cache" where
  "record_affinity hash encode ns capacity units e reached api_key_id route_id request target usage c =
     (let hashes = item_hashes units (aq_items request)
      in if \<not> us_required_components_known usage \<or> us_prompt_tokens usage < affinity_min_prompt_tokens then c
         else if hashes = [] then c
         else if capacity = 0 then c
         else if \<not> reached then c
         else let key = namespace_key encode ns api_key_id route_id request;
                  records = (case local_get hash ''affinity'' (pe_now e) c key of None \<Rightarrow> [] | Some rs \<Rightarrow> rs)
              in local_put hash ''affinity'' e key
                   (add_record capacity \<lparr>ar_item_hashes = hashes, ar_target_key = target\<rparr> records) c)"

section \<open>The longest prefix, the newest record\<close>

definition better :: "(nat \<times> string) option \<Rightarrow> nat \<Rightarrow> bool" where
  "better best n \<longleftrightarrow> (case best of None \<Rightarrow> 0 < n | Some (m, _) \<Rightarrow> m < n)"

text \<open>What a scan leaves: its start, or the first record of maximal match.\<close>

lemma best_match_result:
  assumes "case best of None \<Rightarrow> True | Some b \<Rightarrow> 0 < fst b"
  shows "(best_match hashes rs best = best \<and> (\<forall>r \<in> set rs. \<not> better best (matched_items (ar_item_hashes r) hashes)))
    \<or> (\<exists>xs r ys. rs = xs @ r # ys \<and> best_match hashes rs best = Some (matched_items (ar_item_hashes r) hashes, ar_target_key r)
        \<and> better best (matched_items (ar_item_hashes r) hashes)
        \<and> (\<forall>x \<in> set xs. matched_items (ar_item_hashes x) hashes < matched_items (ar_item_hashes r) hashes)
        \<and> (\<forall>y \<in> set ys. matched_items (ar_item_hashes y) hashes \<le> matched_items (ar_item_hashes r) hashes))"
  using assms
proof (induction rs arbitrary: best)
  case Nil
  then show ?case by simp
next
  case (Cons r rs)
  let ?n = "\<lambda>r. matched_items (ar_item_hashes r) hashes"
  have cond: "(0 < ?n r \<and> (case best of None \<Rightarrow> True | Some (b, _) \<Rightarrow> b < ?n r)) \<longleftrightarrow> better best (?n r)"
    using Cons.prems by (auto simp: better_def split: option.splits)
  show ?case
  proof (cases "better best (?n r)")
    case False
    then have step: "best_match hashes (r # rs) best = best_match hashes rs best" using cond by (auto simp: Let_def)
    show ?thesis
      using Cons.IH [OF Cons.prems]
    proof (elim disjE exE conjE)
      assume "best_match hashes rs best = best" "\<forall>r \<in> set rs. \<not> better best (?n r)"
      with False step show ?thesis by simp
    next
      fix xs q ys
      assume q: "rs = xs @ q # ys" "best_match hashes rs best = Some (?n q, ar_target_key q)" "better best (?n q)"
        "\<forall>x \<in> set xs. ?n x < ?n q" "\<forall>y \<in> set ys. ?n y \<le> ?n q"
      have "?n r < ?n q" using False q(3) by (auto simp: better_def split: option.splits)
      with q step show ?thesis by (intro disjI2 exI [of _ "r # xs"] exI [of _ q] exI [of _ ys]) simp
    qed
  next
    case True
    then have step: "best_match hashes (r # rs) best = best_match hashes rs (Some (?n r, ar_target_key r))"
      using cond by (simp add: Let_def)
    have pos: "0 < ?n r" using True by (auto simp: better_def split: option.splits)
    then have "case Some (?n r, ar_target_key r) of None \<Rightarrow> True | Some b \<Rightarrow> 0 < fst b" by simp
    from Cons.IH [OF this] show ?thesis
    proof (elim disjE exE conjE)
      assume "best_match hashes rs (Some (?n r, ar_target_key r)) = Some (?n r, ar_target_key r)"
        "\<forall>q \<in> set rs. \<not> better (Some (?n r, ar_target_key r)) (?n q)"
      with True step show ?thesis
        by (intro disjI2 exI [of _ "[]"] exI [of _ r] exI [of _ rs]) (auto simp: better_def)
    next
      fix xs q ys
      assume q: "rs = xs @ q # ys" "best_match hashes rs (Some (?n r, ar_target_key r)) = Some (?n q, ar_target_key q)"
        "better (Some (?n r, ar_target_key r)) (?n q)" "\<forall>x \<in> set xs. ?n x < ?n q" "\<forall>y \<in> set ys. ?n y \<le> ?n q"
      have "better best (?n q)" using True q(3) by (auto simp: better_def split: option.splits)
      with q step show ?thesis
        by (intro disjI2 exI [of _ "r # xs"] exI [of _ q] exI [of _ ys]) (simp add: better_def)
    qed
  qed
qed


section \<open>Bounded records\<close>

lemma make_room_eq: "0 < capacity \<Longrightarrow> make_room capacity xs = drop (length xs - (capacity - 1)) xs"
  by (induction xs) (auto simp: Suc_diff_le)

lemma add_record_fields:
  assumes "0 < capacity"
  shows "length (add_record capacity r records) \<le> capacity" "last (add_record capacity r records) = r"
    "add_record capacity r records \<noteq> []" "set (add_record capacity r records) \<subseteq> insert r (set records)"
    "distinct records \<Longrightarrow> distinct (add_record capacity r records)"
proof -
  show "length (add_record capacity r records) \<le> capacity"
    using assms by (simp add: add_record_def make_room_eq)
  show "set (add_record capacity r records) \<subseteq> insert r (set records)"
    using assms by (auto simp: add_record_def make_room_eq dest: in_set_dropD)
  show "distinct records \<Longrightarrow> distinct (add_record capacity r records)"
    using assms by (auto simp: add_record_def make_room_eq dest: in_set_dropD)
qed (simp_all add: add_record_def)

lemma matched_le: "matched_items a b \<le> length b"
  unfolding matched_items_def by (rule le_trans [OF length_takeWhile_le]) simp

lemma matched_self [simp]: "matched_items a a = length a"
  by (induction a) (auto simp: matched_items_def)

text \<open>The newest record of the whole request wins.\<close>

lemma preferred_newest:
  assumes "records \<noteq> []" "ar_item_hashes (last records) = hashes" "hashes \<noteq> []"
  shows "preferred_in hashes records = Some (ar_target_key (last records))"
proof -
  obtain rs where rs: "rev records = last records # rs"
    using assms(1) by (metis append_butlast_last_id rev.simps(2) rev_append rev_rev_ident append_Nil append_Cons rev_singleton_conv)
  have stay: "best_match hashes xs (Some (length hashes, t)) = Some (length hashes, t)" for xs t
  proof (induction xs)
    case (Cons x xs)
    have "\<not> length hashes < matched_items (ar_item_hashes x) hashes" using matched_le [of "ar_item_hashes x" hashes] by simp
    with Cons show ?case by (simp add: Let_def)
  qed simp
  show ?thesis
    using assms by (simp add: preferred_in_def rs stay Let_def)
qed

lemma recorded_found:
  assumes "us_required_components_known usage" "20000 \<le> us_prompt_tokens usage"
    and "item_hashes units (aq_items request) \<noteq> []" "0 < capacity" "reached"
    and "key = namespace_key encode ns api_key_id route_id request"
    and "hash ''affinity'' key \<in> pe_survivors e" "0 < pe_ttl e" "now < pe_now e + pe_ttl e"
    and "local_weight (lc_capacity_bytes c) (pe_size e) ''affinity'' key (pe_estimated_bytes e) \<noteq> None"
  shows "preferred_target_affinity hash encode ns units now api_key_id route_id request
     (record_affinity hash encode ns capacity units e reached api_key_id route_id request target usage c) = Some target"
proof -
  let ?r = "\<lparr>ar_item_hashes = item_hashes units (aq_items request), ar_target_key = target\<rparr>"
  obtain records where records: "records = (case local_get hash ''affinity'' (pe_now e) c key of None \<Rightarrow> [] | Some rs \<Rightarrow> rs)"
    by blast
  have "aq_items request \<noteq> []" using assms(3) by (auto simp: item_hashes_def)
  moreover have "record_affinity hash encode ns capacity units e reached api_key_id route_id request target usage c
      = local_put hash ''affinity'' e key (add_record capacity ?r records) c"
    using assms(1-6) by (simp add: record_affinity_def Let_def affinity_min_prompt_tokens_def records)
  moreover have "local_get hash ''affinity'' now (local_put hash ''affinity'' e key (add_record capacity ?r records) c) key
      = Some (add_record capacity ?r records)"
    using assms(7-10) by (rule get_after_put)
  moreover have "preferred_in (item_hashes units (aq_items request)) (add_record capacity ?r records) = Some target"
    using preferred_newest [OF add_record_fields(3) [OF assms(4)], of ?r records] assms(3)
    by (simp add: add_record_fields(2) [OF assms(4)])
  ultimately show ?thesis
    using assms(6) add_record_fields(3) [OF assms(4)] by (simp add: preferred_target_affinity_def)
qed


section \<open>Properties\<close>

text \<open>
  cache affinity prefers the longest recorded prefix and, among equally long ones, the
  most recent. If no record shares a first item with the request there is no preference.
\<close>

theorem preferred_longest_newest:
  "case preferred_in hashes records of
     None \<Rightarrow> list_all (\<lambda>r. matched_items (ar_item_hashes r) hashes = 0) records
   | Some t \<Rightarrow> (\<exists>older r newer. records = older @ r # newer \<and> ar_target_key r = t
       \<and> 0 < matched_items (ar_item_hashes r) hashes
       \<and> list_all (\<lambda>x. matched_items (ar_item_hashes x) hashes < matched_items (ar_item_hashes r) hashes) newer
       \<and> list_all (\<lambda>x. matched_items (ar_item_hashes x) hashes \<le> matched_items (ar_item_hashes r) hashes) older)"
proof -
  let ?n = "\<lambda>r. matched_items (ar_item_hashes r) hashes"
  have "case None of None \<Rightarrow> True | Some (b :: nat \<times> string) \<Rightarrow> 0 < fst b" by simp
  from best_match_result [OF this, of hashes "rev records"] show ?thesis
  proof (elim disjE exE conjE)
    assume "best_match hashes (rev records) None = None" "\<forall>r \<in> set (rev records). \<not> better None (?n r)"
    then show ?thesis by (simp add: preferred_in_def better_def list_all_iff)
  next
    fix xs r ys
    assume r: "rev records = xs @ r # ys" "best_match hashes (rev records) None = Some (?n r, ar_target_key r)"
      "better None (?n r)" "\<forall>x \<in> set xs. ?n x < ?n r" "\<forall>y \<in> set ys. ?n y \<le> ?n r"
    have "records = rev ys @ r # rev xs" using r(1) by (metis append.assoc append_Cons append_Nil rev.simps(2) rev_append rev_rev_ident)
    then have "records = rev ys @ r # rev xs \<and> ar_target_key r = ar_target_key r \<and> 0 < ?n r
        \<and> list_all (\<lambda>x. ?n x < ?n r) (rev xs) \<and> list_all (\<lambda>x. ?n x \<le> ?n r) (rev ys)"
      using r by (simp add: better_def list_all_iff)
    moreover have "preferred_in hashes records = Some (ar_target_key r)" using r(2) by (simp add: preferred_in_def)
    ultimately show ?thesis by (simp only: option.case) blast
  qed
qed

text \<open>
  a recorded success is found again. After a success with known usage of at least
  20000 prompt tokens has been published for a request, the same request of the same
  principal on the same route prefers exactly the target that served it, for as long as
  the cache keeps the entry.
\<close>

theorem recorded_target_preferred:
  assumes "us_required_components_known usage" "20000 \<le> us_prompt_tokens usage"
    and "item_hashes units (aq_items request) \<noteq> []" "0 < capacity" "reached"
    and "key = namespace_key encode ns api_key_id route_id request"
    and "hash ''affinity'' key \<in> pe_survivors e" "0 < pe_ttl e" "now < pe_now e + pe_ttl e"
    and "local_weight (lc_capacity_bytes c) (pe_size e) ''affinity'' key (pe_estimated_bytes e) \<noteq> None"
  shows "preferred_target_affinity hash encode ns units now api_key_id route_id request
     (record_affinity hash encode ns capacity units e reached api_key_id route_id request target usage c) = Some target"
  using assms by (rule recorded_found)

definition sample_request :: "(nat, nat) affinity_request" where
  "sample_request = \<lparr>aq_items = [1, 2], aq_controls_hash = 0\<rparr>"

lemma sample_key_length: "length (namespace_key (\<lambda>_. ''{}'') ''n'' ''k'' ''r'' sample_request) = 4"
  by (simp add: namespace_key_def)

theorem recorded_target_preferred_witness:
  "preferred_target_affinity (\<lambda>_ _. 0) (\<lambda>_. ''{}'') ''n'' (\<lambda>i. [i]) 5 ''k'' ''r'' sample_request
     (record_affinity (\<lambda>_ _. 0) (\<lambda>_. ''{}'') ''n'' 1024 (\<lambda>i. [i]) sample_env True ''k'' ''r'' sample_request ''p:a''
       \<lparr>us_required_components_known = True, us_prompt_tokens = 25000\<rparr> (new_local_cache 4096)) = Some ''p:a''"
proof (rule recorded_target_preferred)
  show "local_weight (lc_capacity_bytes (new_local_cache 4096)) (pe_size sample_env) ''affinity''
      (namespace_key (\<lambda>_. ''{}'') ''n'' ''k'' ''r'' sample_request) (pe_estimated_bytes sample_env) \<noteq> None"
    by (simp add: local_weight_def sample_key_length sample_env_def new_local_cache_def checked_add_def
        u64_max_def entry_overhead_def kib_def div_ceil_def Let_def)
qed (simp_all add: sample_request_def item_hashes_def sample_env_def)

text \<open>
  One recorded success: the environment of its write, whether it reached the cache, and
  what was recorded for whom.
\<close>

record ('i, 'h) success =
  su_env :: put_env
  su_reached :: bool
  su_api_key_id :: string
  su_route_id :: string
  su_request :: "('i, 'h) affinity_request"
  su_target :: string
  su_usage :: prompt_usage

definition record_all ::
    "(string \<Rightarrow> string \<Rightarrow> nat) \<Rightarrow> ('h affinity_namespace \<Rightarrow> string) \<Rightarrow> string \<Rightarrow> nat \<Rightarrow> ('i \<Rightarrow> 'h list)
      \<Rightarrow> ('i, 'h) success list \<Rightarrow> 'h affinity_record list local_cache \<Rightarrow> 'h affinity_record list local_cache" where
  "record_all hash encode ns capacity units =
     fold (\<lambda>u. record_affinity hash encode ns capacity units (su_env u) (su_reached u) (su_api_key_id u)
       (su_route_id u) (su_request u) (su_target u) (su_usage u))"

text \<open>Every record of a value was made for the namespace of its key.\<close>

definition made_for :: "('h affinity_namespace \<Rightarrow> string) \<Rightarrow> string \<Rightarrow> ('i, 'h) success set
    \<Rightarrow> string \<Rightarrow> 'h affinity_record list \<Rightarrow> bool" where
  "made_for encode ns successes key records \<longleftrightarrow>
     (\<forall>r \<in> set records. \<exists>u \<in> successes.
        key = namespace_key encode ns (su_api_key_id u) (su_route_id u) (su_request u) \<and> ar_target_key r = su_target u)"

lemma made_for_record:
  assumes "domain.holds_only hash ''affinity'' (made_for encode ns us) c" "u \<in> us"
  shows "domain.holds_only hash ''affinity'' (made_for encode ns us)
    (record_affinity hash encode ns capacity units (su_env u) (su_reached u) (su_api_key_id u)
       (su_route_id u) (su_request u) (su_target u) (su_usage u) c)"
proof -
  let ?key = "namespace_key encode ns (su_api_key_id u) (su_route_id u) (su_request u)"
  let ?old = "case local_get hash ''affinity'' (pe_now (su_env u)) c ?key of None \<Rightarrow> [] | Some rs \<Rightarrow> rs"
  let ?r = "\<lparr>ar_item_hashes = item_hashes units (aq_items (su_request u)), ar_target_key = su_target u\<rparr>"
  have old: "made_for encode ns us ?key ?old"
  proof (cases "local_get hash ''affinity'' (pe_now (su_env u)) c ?key")
    case None
    then show ?thesis by (simp add: made_for_def)
  next
    case (Some rs)
    with domain.holds_onlyD [OF assms(1) Some] show ?thesis by simp
  qed
  have "made_for encode ns us ?key (add_record capacity ?r ?old)" if "0 < capacity"
    using old assms(2) add_record_fields(4) [OF that, of ?r ?old] unfolding made_for_def by fastforce
  then show ?thesis
    using assms(1) by (auto simp: record_affinity_def Let_def intro!: domain.holds_only_put)
qed

lemma made_for_all:
  "domain.holds_only hash ''affinity'' (made_for encode ns us) c \<Longrightarrow> set successes \<subseteq> us \<Longrightarrow>
   domain.holds_only hash ''affinity'' (made_for encode ns us) (record_all hash encode ns capacity units successes c)"
  unfolding record_all_def
proof (induction successes arbitrary: c)
  case (Cons u successes)
  then show ?case using made_for_record [of hash encode ns us c u] by simp
qed simp

lemma best_match_in:
  "best_match hashes rs best = Some (n, t) \<Longrightarrow> best = Some (n, t) \<or> (\<exists>r \<in> set rs. ar_target_key r = t)"
  by (induction rs arbitrary: best) (auto simp: Let_def split: if_splits)

text \<open>
  C26: affinity is isolated. If the encoding of namespaces is injective, a preference is
  only ever derived from a success recorded for the same principal, the same route and the
  same request controls, whatever hash collisions and evictions happen in the cache.
\<close>

theorem affinity_isolated:
  assumes "inj encode"
    and "preferred_target_affinity hash encode ns units now api_key_id route_id request
      (record_all hash encode ns capacity units successes (new_local_cache bytes)) = Some t"
  shows "\<exists>u. u \<in> set successes \<and> su_target u = t \<and> su_api_key_id u = api_key_id \<and> su_route_id u = route_id
    \<and> aq_controls_hash (su_request u) = aq_controls_hash request"
proof -
  let ?c = "record_all hash encode ns capacity units successes (new_local_cache bytes)"
  let ?key = "namespace_key encode ns api_key_id route_id request"
  have "domain.holds_only hash ''affinity'' (made_for encode ns (set successes)) (new_local_cache bytes)"
    unfolding domain.holds_only_def by (simp add: local_get_def new_local_cache_def)
  then have all: "domain.holds_only hash ''affinity'' (made_for encode ns (set successes)) ?c"
    by (rule made_for_all) simp
  obtain records where records: "local_get hash ''affinity'' now ?c ?key = Some records"
      "preferred_in (item_hashes units (aq_items request)) records = Some t"
    using assms(2) by (auto simp: preferred_target_affinity_def split: if_splits option.splits)
  from records(2) obtain r where r: "r \<in> set records" "ar_target_key r = t"
    by (auto simp: preferred_in_def dest!: best_match_in)
  obtain u where u: "u \<in> set successes" "?key = namespace_key encode ns (su_api_key_id u) (su_route_id u) (su_request u)"
      "t = su_target u"
    using domain.holds_onlyD [OF all records(1)] r unfolding made_for_def by blast
  have "request_namespace api_key_id route_id request
      = request_namespace (su_api_key_id u) (su_route_id u) (su_request u)"
    using u(2) assms(1) by (simp add: namespace_key_def inj_eq)
  then have "su_api_key_id u = api_key_id" "su_route_id u = route_id"
    "aq_controls_hash (su_request u) = aq_controls_hash request"
    by (simp_all add: request_namespace_def continuation_key_for_def)
  with u show ?thesis by blast
qed


definition plain_encode :: "unit affinity_namespace \<Rightarrow> string" where
  "plain_encode n = show_nat (length (an_principal n)) @ '':'' @ an_principal n @ an_route_id n"

lemma plain_encode_inj: "inj plain_encode"
proof (rule injI)
  fix a b :: "unit affinity_namespace"
  assume "plain_encode a = plain_encode b"
  then have "show_nat (length (an_principal a)) @ CHR '':'' # (an_principal a @ an_route_id a)
      = show_nat (length (an_principal b)) @ CHR '':'' # (an_principal b @ an_route_id b)"
    by (simp add: plain_encode_def)
  moreover have "CHR '':'' \<notin> set (show_nat n)" for n using show_nat_digits by blast
  ultimately have "length (an_principal a) = length (an_principal b)"
    "an_principal a @ an_route_id a = an_principal b @ an_route_id b"
    by (simp_all add: sep_split_eq show_nat_inj)
  then show "a = b" by simp
qed

definition plain_success :: "(nat, unit) success" where
  "plain_success = \<lparr>su_env = sample_env, su_reached = True, su_api_key_id = ''k'', su_route_id = ''r'',
     su_request = \<lparr>aq_items = [1], aq_controls_hash = ()\<rparr>, su_target = ''p:a'',
     su_usage = \<lparr>us_required_components_known = True, us_prompt_tokens = 25000\<rparr>\<rparr>"

theorem affinity_isolated_witness:
  "preferred_target_affinity (\<lambda>_ _. 0) plain_encode ''n'' (\<lambda>_. [()]) 5 ''k'' ''r'' (su_request plain_success)
     (record_all (\<lambda>_ _. 0) plain_encode ''n'' 1024 (\<lambda>_. [()]) [plain_success] (new_local_cache 4096)) = Some ''p:a''
   \<and> (\<exists>u. u \<in> set [plain_success] \<and> su_target u = ''p:a'' \<and> su_api_key_id u = ''k'')"
proof -
  have len: "length (namespace_key plain_encode ''n'' ''k'' ''r'' (su_request plain_success)) = 14"
    by (simp add: namespace_key_def request_namespace_def plain_encode_def plain_success_def
        continuation_key_for_def show_nat_small)
  have "preferred_target_affinity (\<lambda>_ _. 0) plain_encode ''n'' (\<lambda>_. [()]) 5 ''k'' ''r'' (su_request plain_success)
     (record_affinity (\<lambda>_ _. 0) plain_encode ''n'' 1024 (\<lambda>_. [()]) (su_env plain_success) (su_reached plain_success)
       (su_api_key_id plain_success) (su_route_id plain_success) (su_request plain_success) (su_target plain_success)
       (su_usage plain_success) (new_local_cache 4096)) = Some ''p:a''"
  proof -
    have "local_weight (lc_capacity_bytes (new_local_cache 4096)) (pe_size sample_env) ''affinity''
      (namespace_key plain_encode ''n'' ''k'' ''r'' (su_request plain_success)) (pe_estimated_bytes sample_env) \<noteq> None"
      by (simp add: local_weight_def len sample_env_def new_local_cache_def checked_add_def
        u64_max_def entry_overhead_def kib_def div_ceil_def Let_def)
    from recorded_found [OF _ _ _ _ _ refl _ _ _ this] show ?thesis
      by (simp add: plain_success_def item_hashes_def sample_env_def)
  qed
  then have found: "preferred_target_affinity (\<lambda>_ _. 0) plain_encode ''n'' (\<lambda>_. [()]) 5 ''k'' ''r'' (su_request plain_success)
     (record_all (\<lambda>_ _. 0) plain_encode ''n'' 1024 (\<lambda>_. [()]) [plain_success] (new_local_cache 4096)) = Some ''p:a''"
    by (simp add: record_all_def)
  from affinity_isolated [OF plain_encode_inj this] found show ?thesis by blast
qed

end
