(* ===== verification/RouteSelection.thy ===== *)
theory RouteSelection
  imports RouteDispositions PricingCache CacheAffinity ProtocolIds
begin

text \<open>
  The assembly of a route selection (\<open>stravia-core/src/router/selection.rs\<close>): which targets
  of a route support the requested modality, the scheduling snapshot with its prices, the
  attempt policy narrowed to the eligible targets and the media plan, and the error that
  tells why nothing is left. With it the route configuration of \<open>db/models.rs\<close>, the route
  lookup of \<open>router/mod.rs\<close>, the parent evidence of \<open>generation_chain/continuation.rs\<close> and
  the conversion of a price to dollars.

  The storage, the decimal arithmetic and the replayed continuation lookup (a trait object)
  are read through a record of functions; a storage error is a value of type \<open>'e\<close>.
\<close>

section \<open>Routes\<close>

record 'b route_config =
  rc_id :: string
  rc_model_id :: string
  rc_display_name :: "string option"
  rc_output_modality :: "output_modality option"
  rc_image_generation_bound :: bool
  rc_default_thinking_level :: "string option"
  rc_billing :: "'b option"
  rc_balance :: string
  rc_is_enabled :: bool
  rc_created_at :: string
  rc_supported_thinking_levels :: "thinking_level list"
  rc_context_window :: "nat option"
  rc_supports_image_input :: bool
  rc_targets :: "target_config list"

definition highest_priority :: "target_config list \<Rightarrow> target_config option" where
  "highest_priority ts =
     foldl (\<lambda>highest t.
       if (case highest of None \<Rightarrow> True | Some current \<Rightarrow> tc_priority t > tc_priority current)
       then Some t else highest) None ts"

definition primary_target :: "'b route_config \<Rightarrow> target_config option" where
  "primary_target r =
     or_else (highest_priority (filter tc_enabled (rc_targets r))) (highest_priority (rc_targets r))"

definition effective_display_name :: "'b route_config \<Rightarrow> string" where
  "effective_display_name r =
     (case map_option trim (rc_display_name r) of
        Some v \<Rightarrow> if v \<noteq> [] then v else rc_model_id r
      | None \<Rightarrow> rc_model_id r)"

definition refresh_supported_thinking_levels :: "'b route_config \<Rightarrow> 'b route_config" where
  "refresh_supported_thinking_levels r =
     r\<lparr>rc_supported_thinking_levels :=
       filter (\<lambda>l. list_ex (\<lambda>t. case mapping_control (tc_thinking_level_map t) l of
                              None \<Rightarrow> False | Some c \<Rightarrow> \<not> is_hidden c)
                     (filter tc_enabled (rc_targets r)))
         all_levels\<rparr>"

definition load_routes :: "'e + 'b route_config list \<Rightarrow> 'e + 'b route_config list" where
  "load_routes active = res_bind active (\<lambda>models. Inr (map refresh_supported_thinking_levels models))"

definition match_model :: "'b route_config list \<Rightarrow> string \<Rightarrow> 'b route_config option" where
  "match_model models model = find (\<lambda>m. rc_model_id m = model) models"

definition resolve_route :: "'b route_config list \<Rightarrow> string \<Rightarrow> 'b route_config option" where
  "resolve_route models model =
     or_else (match_model models model) (find (\<lambda>r. rc_id r = model) models)"

section \<open>Prices\<close>

text \<open>
  Of a model's cost the base prices and the fields entered in the custom currency; the tiers,
  the long-context prices and the peak rule are not read by a selection.
\<close>

datatype price_field = PfInput | PfOutput | PfCacheRead | PfCacheWrite | PfTiers

record 'd model_cost =
  mc_input :: "'d option"
  mc_output :: "'d option"
  mc_cache_read :: "'d option"
  mc_cache_write :: "'d option"
  mc_custom_currency_fields :: "price_field list"

text \<open>\<open>rust_decimal\<close>: positivity, checked division and the conversion to a float.\<close>

record 'd decimal_ops =
  do_positive :: "'d \<Rightarrow> bool"
  do_checked_div :: "'d \<Rightarrow> 'd \<Rightarrow> 'd option"
  do_to_f64 :: "'d \<Rightarrow> f64 option"

definition usd_price :: "'d decimal_ops \<Rightarrow> 'd \<Rightarrow> bool \<Rightarrow> 'd option \<Rightarrow> 'd option" where
  "usd_price ops v custom usd_rate =
     (if \<not> custom then Some v
      else case usd_rate of
             None \<Rightarrow> None
           | Some rate \<Rightarrow> if \<not> do_positive ops rate then None else do_checked_div ops v rate)"

definition base_price_in_usd :: "'d decimal_ops \<Rightarrow> 'd model_cost \<Rightarrow> price_field \<Rightarrow> 'd option \<Rightarrow> 'd option" where
  "base_price_in_usd ops cost field usd_rate =
     Option.bind
       (case field of
          PfInput \<Rightarrow> mc_input cost
        | PfOutput \<Rightarrow> mc_output cost
        | PfCacheRead \<Rightarrow> mc_cache_read cost
        | PfCacheWrite \<Rightarrow> mc_cache_write cost
        | PfTiers \<Rightarrow> None)
       (\<lambda>v. usd_price ops v (field \<in> set (mc_custom_currency_fields cost)) usd_rate)"

section \<open>Models and their modalities\<close>

text \<open>The two parts of \<open>ProviderModelMetadata\<close> that are read: the input and output modalities, and the cost.\<close>

record 'd model_metadata =
  mm_modalities :: "(string list \<times> string list) option"
  mm_cost :: "'d model_cost option"

fun modality_as_str :: "output_modality \<Rightarrow> string" where
  "modality_as_str output_modality.Text = ''text''"
| "modality_as_str Image = ''image''"

definition supports_route_output_modality :: "'d model_metadata \<Rightarrow> output_modality \<Rightarrow> bool" where
  "supports_route_output_modality m modality =
     (case mm_modalities m of
        None \<Rightarrow> False | Some (_, outputs) \<Rightarrow> list_ex (\<lambda>v. v = modality_as_str modality) outputs)"

definition supports_modality :: "string list \<Rightarrow> string \<Rightarrow> bool" where
  "supports_modality declared modality =
     list_ex (\<lambda>d. to_ascii_lowercase d = to_ascii_lowercase modality) declared"

definition supports_image :: "string list \<Rightarrow> bool" where
  "supports_image inputs = supports_modality inputs ''image''"

section \<open>The storage\<close>

record ('d, 'e) selection_env =
  se_find_model :: "string \<Rightarrow> string \<Rightarrow> 'e + 'd model_metadata option"
  se_provider_enabled :: "string \<Rightarrow> 'e + bool option"
  se_credential_invalid :: "'e + string set"
  se_allowance_suspended :: "'e + string set"
  se_usage :: "'d model_cost target_snapshot list"
  se_usd_rate :: "'d option"
  se_decimal :: "'d decimal_ops"

datatype 'e selection_error =
    UnconfiguredRoute
  | SchedulingEvidence 'e
  | NoEligibleTarget
  | MixedAllowanceExclusions
  | AllowanceSuspended
  | MediaPlanExhausted

section \<open>Eligible targets\<close>

definition model_fits :: "output_modality \<Rightarrow> bool \<Rightarrow> 'd model_metadata option \<Rightarrow> bool" where
  "model_fits modality requires_image found =
     (case found of
        None \<Rightarrow> False
      | Some m \<Rightarrow>
          supports_route_output_modality m modality
          \<and> (\<not> requires_image
             \<or> (case mm_modalities m of None \<Rightarrow> False | Some (inputs, _) \<Rightarrow> supports_image inputs)))"

fun eligible_from ::
    "('d, 'e) selection_env \<Rightarrow> output_modality \<Rightarrow> bool \<Rightarrow> target_config list \<Rightarrow> string set
      \<Rightarrow> 'e selection_error + string set" where
  "eligible_from env modality requires_image [] eligible = Inr eligible"
| "eligible_from env modality requires_image (t # ts) eligible =
     res_bind (map_err SchedulingEvidence
         (se_find_model env (provider_id (tc_destination t)) (model_id (tc_destination t))))
       (\<lambda>found. eligible_from env modality requires_image ts
          (if model_fits modality requires_image found
           then insert (persisted_target_key t) eligible else eligible))"

definition modality_eligible_targets ::
    "('d, 'e) selection_env \<Rightarrow> 'b route_config \<Rightarrow> bool \<Rightarrow> 'e selection_error + string set" where
  "modality_eligible_targets env route requires_image =
     (case rc_output_modality route of
        None \<Rightarrow> Inl UnconfiguredRoute
      | Some modality \<Rightarrow>
          eligible_from env modality requires_image (filter tc_enabled (rc_targets route)) {})"

section \<open>Why nothing is left\<close>

fun empty_error_from ::
    "('d, 'e) selection_env \<Rightarrow> 'c route_snapshot \<Rightarrow> nat \<Rightarrow> policy_state \<Rightarrow> bool \<Rightarrow> bool \<Rightarrow> target_config list
      \<Rightarrow> 'e + 'e selection_error" where
  "empty_error_from env snapshot now_ms s any_paused any_unpaused [] =
     Inr (if any_paused then AllowanceSuspended else NoEligibleTarget)"
| "empty_error_from env snapshot now_ms s any_paused any_unpaused (t # ts) =
     (let provider = provider_id (tc_destination t) in
      if provider \<notin> rs_allowance_suspended snapshot then
        (if any_paused then Inr MixedAllowanceExclusions
         else empty_error_from env snapshot now_ms s any_paused True ts)
      else if any_unpaused
           \<or> provider \<in> rs_credential_invalid snapshot
           \<or> cooldown_remaining_ms (target_status_at (persisted_target_key t) now_ms s) \<noteq> None
      then Inr MixedAllowanceExclusions
      else res_bind (se_provider_enabled env provider)
        (\<lambda>enabled. if enabled \<noteq> Some True then Inr MixedAllowanceExclusions
                   else empty_error_from env snapshot now_ms s True any_unpaused ts))"

definition empty_selection_error ::
    "('d, 'e) selection_env \<Rightarrow> 'b route_config \<Rightarrow> 'c route_snapshot \<Rightarrow> nat \<Rightarrow> policy_state
      \<Rightarrow> 'e + 'e selection_error" where
  "empty_selection_error env route snapshot now_ms s =
     empty_error_from env snapshot now_ms s False False (filter tc_enabled (rc_targets route))"


section \<open>The scheduling snapshot\<close>

type_synonym 'd pricing_value = "'d model_cost option option"

text \<open>What the price cache depends on: its hash function, its namespace and a put's environment.\<close>

record price_env =
  pr_hash :: "string \<Rightarrow> string \<Rightarrow> nat"
  pr_namespace :: string
  pr_put :: put_env

definition price_of_target ::
    "('d, 'e) selection_env \<Rightarrow> price_env \<Rightarrow> policy_state \<Rightarrow> string \<Rightarrow> string
      \<Rightarrow> 'd pricing_value local_cache \<Rightarrow> 'e + 'd pricing_value \<times> 'd pricing_value local_cache" where
  "price_of_target env pr s provider model c =
     (case pricing_result (pricing_generation s)
             (cached_pricing (pr_hash pr) (pr_namespace pr) (pricing_generation s) (pe_now (pr_put pr))
                provider model c)
             (pricing_generation s) of
        Hit pricing \<Rightarrow> Inr (pricing, c)
      | Miss generation \<Rightarrow>
          res_bind (se_find_model env provider model) (\<lambda>found.
            let loaded = map_option Some (Option.bind found mm_cost)
            in Inr (loaded, store_pricing (pr_hash pr) (pr_namespace pr) (pr_put pr) generation
                              provider model loaded s c)))"

fun snapshot_index :: "string \<Rightarrow> nat \<Rightarrow> 'c target_snapshot list \<Rightarrow> nat option" where
  "snapshot_index key i [] = None"
| "snapshot_index key i (x # xs) =
     (if ss_target_key x = key then Some i else snapshot_index key (Suc i) xs)"

definition usd_field :: "('d, 'e) selection_env \<Rightarrow> 'd model_cost \<Rightarrow> price_field \<Rightarrow> f64 option" where
  "usd_field env cost field =
     Option.bind (base_price_in_usd (se_decimal env) cost field (se_usd_rate env))
       (do_to_f64 (se_decimal env))"

definition with_cost :: "('d, 'e) selection_env \<Rightarrow> 'd model_cost \<Rightarrow> 'd model_cost target_snapshot
    \<Rightarrow> 'd model_cost target_snapshot" where
  "with_cost env cost x =
     x\<lparr>ss_cost_input := usd_field env cost PfInput,
       ss_cost_output := usd_field env cost PfOutput,
       ss_cost_cache_read := usd_field env cost PfCacheRead,
       ss_cost_cache_write := usd_field env cost PfCacheWrite,
       ss_pricing := Some cost\<rparr>"

fun snapshot_targets ::
    "('d, 'e) selection_env \<Rightarrow> price_env \<Rightarrow> policy_state \<Rightarrow> target_config list
      \<Rightarrow> 'd model_cost target_snapshot list \<Rightarrow> 'd pricing_value local_cache
      \<Rightarrow> 'e + 'd model_cost target_snapshot list \<times> 'd pricing_value local_cache" where
  "snapshot_targets env pr s [] snaps c = Inr (snaps, c)"
| "snapshot_targets env pr s (t # ts) snaps c =
     (let key = persisted_target_key t;
          (index, snaps) =
            (case snapshot_index key 0 snaps of
               Some i \<Rightarrow> (i, snaps)
             | None \<Rightarrow> (length snaps, snaps @ [default_snapshot key]))
      in res_bind (price_of_target env pr s (provider_id (tc_destination t)) (model_id (tc_destination t)) c)
           (\<lambda>(pricing, c).
             case pricing of
               None \<Rightarrow> snapshot_targets env pr s ts snaps c
             | Some None \<Rightarrow> snapshot_targets env pr s ts snaps c
             | Some (Some cost) \<Rightarrow>
                 snapshot_targets env pr s ts (snaps[index := with_cost env cost (snaps ! index)]) c))"

definition scheduling_snapshot ::
    "('d, 'e) selection_env \<Rightarrow> price_env \<Rightarrow> policy_state \<Rightarrow> target_config list
      \<Rightarrow> 'd pricing_value local_cache
      \<Rightarrow> 'e + 'd model_cost route_snapshot \<times> 'd pricing_value local_cache" where
  "scheduling_snapshot env pr s ts c =
     res_bind (se_credential_invalid env) (\<lambda>invalid.
     res_bind (se_allowance_suspended env) (\<lambda>suspended.
     res_bind (snapshot_targets env pr s ts (se_usage env) c) (\<lambda>(snaps, c).
       Inr (\<lparr>rs_targets = snaps, rs_credential_invalid = invalid, rs_allowance_suspended = suspended\<rparr>,
            c))))"

section \<open>Parent evidence\<close>

text \<open>
  The upstream response id and the chain state of a proof are for the replay, which is not
  modelled; they are left out.
\<close>

record parent_proof =
  pp_principal :: string
  pp_parent_id :: "string option"
  pp_target :: "string option"
  pp_expires_at :: "instant option"

datatype parent_target = Unresolved | Resolved parent_proof

definition proof_matches :: "instant \<Rightarrow> parent_proof \<Rightarrow> string \<Rightarrow> string \<Rightarrow> bool" where
  "proof_matches now p caller parent_id \<longleftrightarrow>
     pp_principal p = caller \<and> pp_parent_id p = Some parent_id
     \<and> (case pp_expires_at p of None \<Rightarrow> False | Some expiry \<Rightarrow> now < expiry)"

definition parent_preferred_target :: "instant \<Rightarrow> parent_target \<Rightarrow> string \<Rightarrow> string \<Rightarrow> string option" where
  "parent_preferred_target now parent caller parent_id =
     (case parent of
        Resolved p \<Rightarrow> if proof_matches now p caller parent_id then pp_target p else None
      | Unresolved \<Rightarrow> None)"

definition absent_parent :: "string \<Rightarrow> parent_target" where
  "absent_parent caller =
     Resolved \<lparr>pp_principal = caller, pp_parent_id = None, pp_target = None, pp_expires_at = None\<rparr>"

section \<open>Selecting\<close>

text \<open>
  What a request brings: the caller, its conversation, the parent evidence, the targets the
  continuation lookup and the cache affinity prefer, the token estimate, and the two clocks.
\<close>

record selection_input =
  si_api_key_id :: string
  si_conversation :: "conversation_identity option"
  si_parent :: parent_target
  si_continuation_lookup :: "string option"
  si_cache_affinity :: "string option"
  si_estimated_tokens :: nat
  si_now :: instant
  si_now_ms :: nat

definition conversation_affinity_target :: "selection_input \<Rightarrow> string option" where
  "conversation_affinity_target i =
     (case si_conversation i of
        Some (GenerationParent parent_id) \<Rightarrow>
          (case si_parent i of
             Unresolved \<Rightarrow> si_continuation_lookup i
           | Resolved p \<Rightarrow> parent_preferred_target (si_now i) (Resolved p) (si_api_key_id i) parent_id)
      | _ \<Rightarrow> None)"

definition selection_context :: "'b route_config \<Rightarrow> selection_input \<Rightarrow> attempt_context" where
  "selection_context route i =
     \<lparr>ac_principal = continuation_key_for (si_api_key_id i), ac_route_id = rc_id route,
      ac_conversation = si_conversation i,
      ac_conversation_affinity = conversation_affinity_target i,
      ac_cache_affinity = si_cache_affinity i,
      ac_uncached_input_tokens = si_estimated_tokens i, ac_now_ms = si_now_ms i\<rparr>"

definition plan_overlaps_route :: "string list option \<Rightarrow> 'b route_config \<Rightarrow> string set \<Rightarrow> bool" where
  "plan_overlaps_route plan route eligible =
     (case plan of
        None \<Rightarrow> True
      | Some keys \<Rightarrow>
          list_ex (\<lambda>t. let key = persisted_target_key t
                      in tc_enabled t \<and> key \<in> eligible \<and> key \<in> set keys) (rc_targets route))"

definition retain_plan :: "string list option \<Rightarrow> 'c attempt_policy \<Rightarrow> 'c attempt_policy" where
  "retain_plan plan p =
     (case plan of
        None \<Rightarrow> p | Some keys \<Rightarrow> retain (\<lambda>t. selected_target_key t \<in> set keys) p)"

definition select ::
    "('d, 'e) selection_env \<Rightarrow> price_env \<Rightarrow> 'b route_config \<Rightarrow> selection_input \<Rightarrow> string list option
      \<Rightarrow> cooldown_attempts \<Rightarrow> policy_state \<Rightarrow> 'd pricing_value local_cache
      \<Rightarrow> 'e selection_error + 'd model_cost attempt_policy \<times> 'd pricing_value local_cache" where
  "select env pr route i plan ca s c =
     res_bind (modality_eligible_targets env route False) (\<lambda>eligible.
     res_bind (map_err SchedulingEvidence (scheduling_snapshot env pr s (rc_targets route) c))
       (\<lambda>(snapshot, c).
         let policy = new_policy (rc_balance route) (rc_targets route) (selection_context route i)
                        snapshot (si_now_ms i) ca s;
             policy = retain (\<lambda>t. selected_target_key t \<in> eligible) policy;
             overlaps = plan_overlaps_route plan route eligible;
             policy = retain_plan plan policy
         in if ap_ordered policy = [] then
              res_bind (map_err SchedulingEvidence
                  (empty_selection_error env route snapshot (si_now_ms i) s))
                (\<lambda>e. Inl (if e = NoEligibleTarget \<and> \<not> overlaps then MediaPlanExhausted else e))
            else Inr (policy, c)))"

definition independent_context :: "'b route_config \<Rightarrow> selection_input \<Rightarrow> attempt_context" where
  "independent_context route i =
     \<lparr>ac_principal = continuation_key_for (si_api_key_id i), ac_route_id = rc_id route,
      ac_conversation = None, ac_conversation_affinity = None, ac_cache_affinity = None,
      ac_uncached_input_tokens = si_estimated_tokens i, ac_now_ms = si_now_ms i\<rparr>"

definition select_independent ::
    "('d, 'e) selection_env \<Rightarrow> price_env \<Rightarrow> 'b route_config \<Rightarrow> selection_input \<Rightarrow> bool
      \<Rightarrow> cooldown_attempts \<Rightarrow> policy_state \<Rightarrow> 'd pricing_value local_cache
      \<Rightarrow> 'e selection_error + 'd model_cost attempt_policy \<times> 'd pricing_value local_cache" where
  "select_independent env pr route i requires_image ca s c =
     res_bind (modality_eligible_targets env route requires_image) (\<lambda>eligible.
     res_bind (map_err SchedulingEvidence (scheduling_snapshot env pr s (rc_targets route) c))
       (\<lambda>(snapshot, c).
         let policy = new_policy (rc_balance route) (rc_targets route) (independent_context route i)
                        snapshot (si_now_ms i) ca s;
             policy = retain (\<lambda>t. selected_target_key t \<in> eligible) policy
         in if ap_ordered policy = [] then
              res_bind (map_err SchedulingEvidence
                  (empty_selection_error env route snapshot (si_now_ms i) s))
                (\<lambda>e. Inl e)
            else Inr (policy, c)))"

text \<open>\<open>estimate_uncached_input_tokens\<close>, from the lengths of the chunks the serializer writes.\<close>

definition estimate_uncached_input_tokens :: "nat list \<Rightarrow> nat" where
  "estimate_uncached_input_tokens chunks = div_ceil (foldl sat_add64 0 chunks) 4"


section \<open>Lemmas\<close>

text \<open>A target whose model can be found and fits.\<close>

definition target_fits :: "('d, 'e) selection_env \<Rightarrow> output_modality \<Rightarrow> bool \<Rightarrow> target_config \<Rightarrow> bool" where
  "target_fits env modality requires_image t \<longleftrightarrow>
     tc_enabled t
     \<and> (case se_find_model env (provider_id (tc_destination t)) (model_id (tc_destination t)) of
          Inl e \<Rightarrow> False | Inr found \<Rightarrow> model_fits modality requires_image found)"

lemma eligible_from_set:
  assumes "eligible_from env modality requires_image ts acc = Inr eligible" "list_all tc_enabled ts"
  shows "eligible = acc \<union> persisted_target_key ` {t \<in> set ts. target_fits env modality requires_image t}"
  using assms
proof (induction ts arbitrary: acc)
  case (Cons t ts)
  then obtain found where
    found: "se_find_model env (provider_id (tc_destination t)) (model_id (tc_destination t)) = Inr found"
    by (cases "se_find_model env (provider_id (tc_destination t)) (model_id (tc_destination t))") auto
  with Cons.prems have rest: "eligible_from env modality requires_image ts
      (if model_fits modality requires_image found then insert (persisted_target_key t) acc else acc) = Inr eligible"
    and en: "tc_enabled t" "list_all tc_enabled ts"
    by simp_all
  have fits: "target_fits env modality requires_image t \<longleftrightarrow> model_fits modality requires_image found"
    by (simp add: target_fits_def en found)
  show ?case
    using Cons.IH [OF rest en(2)] fits by auto
qed simp

lemma modality_eligible_set:
  assumes "modality_eligible_targets env route requires_image = Inr eligible"
  shows "\<exists>modality. rc_output_modality route = Some modality
    \<and> eligible = persisted_target_key ` {t \<in> set (rc_targets route). target_fits env modality requires_image t}"
proof -
  obtain modality where m: "rc_output_modality route = Some modality"
    using assms by (auto simp: modality_eligible_targets_def split: option.splits)
  have "eligible = {} \<union> persisted_target_key `
      {t \<in> set (filter tc_enabled (rc_targets route)). target_fits env modality requires_image t}"
    by (rule eligible_from_set) (use assms m in \<open>auto simp: modality_eligible_targets_def list_all_iff\<close>)
  also have "\<dots> = persisted_target_key ` {t \<in> set (rc_targets route). target_fits env modality requires_image t}"
    by (auto simp: target_fits_def)
  finally show ?thesis using m by blast
qed

lemma candidate_of_target:
  assumes "cd \<in> set (ap_ordered (new_policy strategy ts ctx snapshot clock ca s))"
  shows "\<exists>t \<in> set ts. tc_enabled t \<and> selected_target_key (cd_target cd) = persisted_target_key t"
proof -
  let ?el = "filter (initially_eligible snapshot (max (ac_now_ms ctx) clock) (preferred_target ctx ca s) ca s) ts"
  obtain grp where g: "grp \<in> set (priority_groups ?el)"
    and c: "cd \<in> make_candidate (collect_map (map (\<lambda>i. (ss_target_key i, i)) (rs_targets snapshot)))
        (traffic_weights grp (collect_map (map (\<lambda>i. (ss_target_key i, i)) (rs_targets snapshot)))) ` set grp"
    using assms by (auto simp: new_policy_def Let_def)
  then obtain t where t: "t \<in> set grp" "selected_target_key (cd_target cd) = persisted_target_key t"
    by auto
  have "t \<in> set ?el" using g t(1) by (auto simp: priority_groups_def)
  with t(2) show ?thesis by (auto simp: initially_eligible_def)
qed

text \<open>What a successful selection or an exhausted media plan says about the targets.\<close>

definition in_plan :: "string list option \<Rightarrow> string \<Rightarrow> bool" where
  "in_plan plan key \<longleftrightarrow> (case plan of None \<Rightarrow> True | Some keys \<Rightarrow> key \<in> set keys)"

definition usable_key :: "('d, 'e) selection_env \<Rightarrow> 'b route_config \<Rightarrow> string list option \<Rightarrow> string \<Rightarrow> bool" where
  "usable_key env route plan key \<longleftrightarrow>
     in_plan plan key
     \<and> (case rc_output_modality route of
          None \<Rightarrow> False
        | Some modality \<Rightarrow>
            list_ex (\<lambda>t. persisted_target_key t = key \<and> target_fits env modality False t) (rc_targets route))"

lemma ordered_retain [simp]: "ap_ordered (retain keep p) = filter (\<lambda>c. keep (cd_target c)) (ap_ordered p)"
  by (simp add: retain_def)

lemma ordered_retain_plan:
  "ap_ordered (retain_plan plan p) = filter (\<lambda>c. in_plan plan (selected_target_key (cd_target c))) (ap_ordered p)"
  by (simp add: retain_plan_def in_plan_def split: option.split)

lemma empty_error_not_exhausted:
  "empty_error_from env snapshot now_ms s a u ts = Inr e \<Longrightarrow> e \<noteq> MediaPlanExhausted \<and> e \<noteq> UnconfiguredRoute"
proof (induction ts arbitrary: a u)
  case (Cons t ts)
  then show ?case
    by (cases "se_provider_enabled env (provider_id (tc_destination t))")
      (auto simp: Let_def split: if_splits)
qed (auto split: if_splits)

lemma plan_overlaps_usable:
  assumes "modality_eligible_targets env route False = Inr eligible"
    and "\<not> plan_overlaps_route plan route eligible"
  shows "plan \<noteq> None \<and> list_all (\<lambda>t. \<not> usable_key env route plan (persisted_target_key t)) (rc_targets route)"
proof -
  obtain keys where plan: "plan = Some keys"
    using assms(2) by (auto simp: plan_overlaps_route_def split: option.splits)
  obtain modality where m: "rc_output_modality route = Some modality"
    and el: "eligible = persisted_target_key ` {t \<in> set (rc_targets route). target_fits env modality False t}"
    using modality_eligible_set [OF assms(1)] by blast
  have "\<not> (tc_enabled t \<and> persisted_target_key t \<in> eligible \<and> persisted_target_key t \<in> set keys)"
    if "t \<in> set (rc_targets route)" for t
    using assms(2) that by (auto simp: plan_overlaps_route_def plan list_ex_iff Let_def)
  then have "\<not> usable_key env route plan (persisted_target_key t)" if "t \<in> set (rc_targets route)" for t
    using that unfolding usable_key_def in_plan_def plan m el
    by (fastforce simp: list_ex_iff target_fits_def)
  with plan show ?thesis by (simp add: list_all_iff)
qed

section \<open>The exclusion error\<close>

definition suspended_only ::
    "(string \<Rightarrow> bool option) \<Rightarrow> 'c route_snapshot \<Rightarrow> nat \<Rightarrow> policy_state \<Rightarrow> target_config \<Rightarrow> bool" where
  "suspended_only enabled snapshot now_ms s t \<longleftrightarrow>
     provider_id (tc_destination t) \<in> rs_allowance_suspended snapshot
     \<and> provider_id (tc_destination t) \<notin> rs_credential_invalid snapshot
     \<and> cooldown_remaining_ms (target_status_at (persisted_target_key t) now_ms s) = None
     \<and> enabled (provider_id (tc_destination t)) = Some True"

lemma empty_error_from_exact:
  assumes "\<And>p. se_provider_enabled env p = Inr (enabled p)" "\<not> (a \<and> u)"
  shows "empty_error_from env snapshot now_ms s a u ts = Inr
    (if \<not> a \<and> \<not> list_ex (\<lambda>t. provider_id (tc_destination t) \<in> rs_allowance_suspended snapshot) ts
     then NoEligibleTarget
     else if \<not> u \<and> list_all (suspended_only enabled snapshot now_ms s) ts then AllowanceSuspended
     else MixedAllowanceExclusions)"
  using assms(2)
proof (induction ts arbitrary: a u)
  case Nil
  then show ?case by simp
next
  case (Cons t ts)
  show ?case
  proof (cases "provider_id (tc_destination t) \<in> rs_allowance_suspended snapshot")
    case False
    then show ?thesis using Cons.prems Cons.IH [of False True]
      by (simp add: Let_def suspended_only_def)
  next
    case True
    then show ?thesis using Cons.prems Cons.IH [of True u] assms(1)
      by (auto simp: Let_def suspended_only_def)
  qed
qed


section \<open>Properties\<close>


text \<open>
  C35: When the provider lookups succeed, the reason given for an empty selection does not
  depend on the order of the targets: an allowance suspension is reported only when it is
  the sole reason for every enabled target, and a mixture whenever a suspended provider is
  not the only reason.
\<close>
theorem empty_selection_error_exact:
  assumes "\<And>p. se_provider_enabled env p = Inr (enabled p)"
  shows "empty_selection_error env route snapshot now_ms s = Inr
    (let ts = filter tc_enabled (rc_targets route) in
     if \<not> list_ex (\<lambda>t. provider_id (tc_destination t) \<in> rs_allowance_suspended snapshot) ts
     then NoEligibleTarget
     else if list_all (suspended_only enabled snapshot now_ms s) ts then AllowanceSuspended
     else MixedAllowanceExclusions)"
  unfolding empty_selection_error_def
  by (subst empty_error_from_exact [where enabled = enabled]) (use assms in \<open>simp_all add: Let_def\<close>)

text \<open>A route with one target, whose provider is suspended and otherwise fine.\<close>

definition suspended_env :: "(nat, unit) selection_env" where
  "suspended_env =
     \<lparr>se_find_model = (\<lambda>p m. Inr None), se_provider_enabled = (\<lambda>p. Inr (Some True)),
      se_credential_invalid = Inr {}, se_allowance_suspended = Inr {''a''}, se_usage = [],
      se_usd_rate = None,
      se_decimal = \<lparr>do_positive = (\<lambda>d. 0 < d), do_checked_div = (\<lambda>a b. Some (a div b)), do_to_f64 = (\<lambda>d. None)\<rparr>\<rparr>"

definition suspended_target :: target_config where
  "suspended_target =
     \<lparr>tc_id = ''t'', tc_model_id = ''m'', tc_destination = Model ''a'' ''x'', tc_enabled = True,
      tc_priority = 0, tc_first_token_timeout_ms = 60000, tc_retry_budget = 5,
      tc_cooldown_ms = 120000, tc_created_at = [], tc_thinking_level_map = [], tc_model_name = None,
      tc_output_modality_mismatch = False, tc_route_output_modalities = []\<rparr>"

definition suspended_route :: "unit route_config" where
  "suspended_route =
     \<lparr>rc_id = ''r'', rc_model_id = ''m'', rc_display_name = None, rc_output_modality = None,
      rc_image_generation_bound = False, rc_default_thinking_level = None, rc_billing = None,
      rc_balance = ''traffic_equalization'', rc_is_enabled = True, rc_created_at = [],
      rc_supported_thinking_levels = [], rc_context_window = None, rc_supports_image_input = False,
      rc_targets = [suspended_target]\<rparr>"

definition suspended_snapshot :: "unit route_snapshot" where
  "suspended_snapshot = \<lparr>rs_targets = [], rs_credential_invalid = {}, rs_allowance_suspended = {''a''}\<rparr>"

theorem empty_selection_error_exact_witness:
  "empty_selection_error suspended_env suspended_route suspended_snapshot 0 initial_state = Inr AllowanceSuspended"
proof -
  have "se_provider_enabled suspended_env p = Inr ((\<lambda>_. Some True) p)" for p
    by (simp add: suspended_env_def)
  from empty_selection_error_exact [OF this, of suspended_route suspended_snapshot 0 initial_state] show ?thesis
    by (simp add: suspended_route_def suspended_snapshot_def suspended_target_def suspended_only_def
        target_status_at_def initial_state_def)
qed

end
