(* ===== verification/RpmConfig.thy ===== *)
theory RpmConfig
  imports Prelude
begin

text \<open>
  The RPM admission settings (\<open>stravia-core/src/rpm/config.rs\<close>) and their validation.
  JSON parsing belongs to serde; \<open>from_setting\<close> takes the parser as an argument.
\<close>

section \<open>Settings\<close>

record destination_limit =
  dl_provider_id :: string
  dl_model :: string
  dl_rpm_limit :: "int option"

record rpm_config =
  preferred_wait_ms :: nat
  total_wait_ms :: nat
  queue_capacity :: nat
  destinations :: "destination_limit list"

definition default_rpm_config :: rpm_config where
  "default_rpm_config =
     \<lparr>preferred_wait_ms = 5000, total_wait_ms = 30000, queue_capacity = 128, destinations = []\<rparr>"

definition i64_max :: nat where
  "i64_max = 2 ^ 63 - 1"

text \<open>\<open>anyhow::ensure!\<close>.\<close>

definition ensure :: "bool \<Rightarrow> string \<Rightarrow> string + unit" where
  "ensure c msg = (if c then Inr () else Inl msg)"

lemma ensure_Inr [simp]: "ensure c msg = Inr u \<longleftrightarrow> c"
  by (simp add: ensure_def)

definition nonempty_trimmed :: "string \<Rightarrow> bool" where
  "nonempty_trimmed s \<longleftrightarrow> trim s \<noteq> '''' \<and> trim s = s"

fun check_destinations :: "(string \<times> string) set \<Rightarrow> destination_limit list \<Rightarrow> string + unit" where
  "check_destinations seen [] = Inr ()"
| "check_destinations seen (d # ds) =
     res_bind (ensure (nonempty_trimmed (dl_provider_id d)) ''provider_id must be nonempty and trimmed'') (\<lambda>_.
     res_bind (ensure (nonempty_trimmed (dl_model d)) ''model must be nonempty and trimmed'') (\<lambda>_.
     res_bind (ensure (case dl_rpm_limit d of None \<Rightarrow> True | Some limit \<Rightarrow> 0 < limit)
                 ''rpm_limit must be positive or null'') (\<lambda>_.
     res_bind (ensure ((dl_provider_id d, dl_model d) \<notin> seen) ''duplicate destination RPM configuration'') (\<lambda>_.
     check_destinations (insert (dl_provider_id d, dl_model d) seen) ds))))"

definition validate :: "rpm_config \<Rightarrow> string + unit" where
  "validate c =
     res_bind (ensure (preferred_wait_ms c \<le> total_wait_ms c)
                 ''preferred_wait_ms must not exceed total_wait_ms'') (\<lambda>_.
     res_bind (ensure (total_wait_ms c \<le> i64_max) ''total_wait_ms exceeds the supported duration'') (\<lambda>_.
     res_bind (ensure (0 < queue_capacity c) ''queue_capacity must be positive'') (\<lambda>_.
     check_destinations {} (destinations c))))"

definition from_setting :: "(string \<Rightarrow> string + rpm_config) \<Rightarrow> string option \<Rightarrow> string + rpm_config" where
  "from_setting parse value =
     res_bind (case value of None \<Rightarrow> Inr default_rpm_config | Some text \<Rightarrow> parse text) (\<lambda>config.
     res_bind (validate config) (\<lambda>_. Inr config))"

section \<open>What a valid configuration satisfies\<close>

definition destination_key :: "destination_limit \<Rightarrow> string \<times> string" where
  "destination_key d = (dl_provider_id d, dl_model d)"

definition valid_destination :: "destination_limit \<Rightarrow> bool" where
  "valid_destination d \<longleftrightarrow> nonempty_trimmed (dl_provider_id d) \<and> nonempty_trimmed (dl_model d)
     \<and> (\<forall>l. dl_rpm_limit d = Some l \<longrightarrow> 0 < l)"

lemma check_destinations_iff:
  "check_destinations seen ds = Inr () \<longleftrightarrow>
     (\<forall>d \<in> set ds. valid_destination d) \<and> distinct (map destination_key ds)
     \<and> destination_key ` set ds \<inter> seen = {}"
proof (induction ds arbitrary: seen)
  case Nil
  show ?case by simp
next
  case (Cons d ds)
  show ?case
    by (cases "dl_rpm_limit d") (auto simp: res_bind_Inr_iff Cons.IH valid_destination_def destination_key_def)
qed

section \<open>Properties\<close>

text \<open>
  Validation accepts exactly the coherent settings: the preferred wait within the
  total wait, a total wait the timers support, room for at least one waiting request,
  trimmed nonempty identifiers, positive limits, and at most one entry per destination.
\<close>

theorem validate_correct:
  "validate c = Inr () \<longleftrightarrow>
     preferred_wait_ms c \<le> total_wait_ms c \<and> total_wait_ms c \<le> i64_max \<and> 0 < queue_capacity c
     \<and> list_all valid_destination (destinations c)
     \<and> distinct (map destination_key (destinations c))"
  by (auto simp: list_all_iff validate_def res_bind_Inr_iff check_destinations_iff)

end
