(* ===== verification/RpmAdmission.thy ===== *)
theory RpmAdmission
  imports RpmConfig RouteSelector
begin

text \<open>
  RPM admission (\<open>stravia-core/src/rpm/runtime.rs\<close>): the sliding window of sends of each
  limited destination, the filter of a policy's candidates, the decision at the moment of
  a send, and the waiting of root requests.

  The shared \<open>State\<close> is the record \<open>rpm_state\<close>; every function runs under its lock and
  takes the clock reading it makes there. \<open>None\<close> is the panic of an index out of range.
\<close>

section \<open>State\<close>

type_synonym dest_key = "string \<times> string"

definition for_target :: "'c selected_target \<Rightarrow> dest_key" where
  "for_target t = (provider_id (st_destination t), model_id (st_destination t))"

record rpm_state =
  rp_config :: rpm_config
  rp_limits :: "dest_key \<rightharpoonup> int"
  rp_windows :: "dest_key \<rightharpoonup> instant list"
  rp_waiting_roots :: nat
  rp_version :: nat

definition default_rpm_state :: rpm_state where
  "default_rpm_state =
     \<lparr>rp_config = default_rpm_config, rp_limits = Map.empty, rp_windows = Map.empty,
      rp_waiting_roots = 0, rp_version = 0\<rparr>"

definition window_length :: duration where
  "window_length = 60 * 1000000000"

text \<open>\<open>limit as usize\<close> of an \<open>i32\<close> on a 64-bit host.\<close>

definition as_usize :: "int \<Rightarrow> nat" where
  "as_usize v = nat (v mod 2 ^ 64)"

definition nth_opt :: "'a list \<Rightarrow> nat \<Rightarrow> 'a option" where
  "nth_opt xs i = (if i < length xs then Some (xs ! i) else None)"

section \<open>The window of a destination\<close>

definition configured_limits :: "rpm_config \<Rightarrow> dest_key \<rightharpoonup> int" where
  "configured_limits c =
     collect_map (List.map_filter (\<lambda>d. map_option (\<lambda>l. ((dl_provider_id d, dl_model d), l)) (dl_rpm_limit d))
       (destinations c))"

definition configure :: "rpm_config \<Rightarrow> rpm_state \<Rightarrow> rpm_state" where
  "configure c s =
     (let limits = configured_limits c
      in s\<lparr>rp_windows := (\<lambda>k. if limits k = None then None else rp_windows s k),
           rp_limits := limits, rp_config := c, rp_version := wrap_add64 (rp_version s) 1\<rparr>)"

definition targets_changed :: "rpm_state \<Rightarrow> rpm_state" where
  "targets_changed s = s\<lparr>rp_version := wrap_add64 (rp_version s) 1\<rparr>"

definition next_at :: "dest_key \<Rightarrow> instant \<Rightarrow> rpm_state \<Rightarrow> (instant option \<times> rpm_state) option" where
  "next_at key now s =
     (case rp_limits s key of
        None \<Rightarrow> Some (None, s)
      | Some limit \<Rightarrow>
          (case rp_windows s key of
             None \<Rightarrow> Some (None, s)
           | Some window \<Rightarrow>
               let w = dropWhile (\<lambda>sent. window_length \<le> now - sent) window;
                   s' = s\<lparr>rp_windows := (rp_windows s)(key \<mapsto> w)\<rparr>
               in if length w < as_usize limit then Some (None, s')
                  else map_option (\<lambda>sent. (Some (sent + window_length), s')) (nth_opt w (length w - as_usize limit))))"

text \<open>\<open>record_send\<close>: \<open>Inl\<close> is the instant to wait for.\<close>

definition record_send :: "dest_key \<Rightarrow> instant \<Rightarrow> rpm_state \<Rightarrow> ((instant + unit) \<times> rpm_state) option" where
  "record_send key now s =
     (case next_at key now s of
        None \<Rightarrow> None
      | Some (Some due, s') \<Rightarrow> Some (Inl due, s')
      | Some (None, s') \<Rightarrow>
          Some (Inr (),
            if rp_limits s' key = None then s'
            else (case rp_windows s' key of
                    Some window \<Rightarrow> s'\<lparr>rp_windows := (rp_windows s')(key \<mapsto> window @ [now])\<rparr>
                  | None \<Rightarrow> s'\<lparr>rp_windows := (rp_windows s')(key \<mapsto> [now])\<rparr>)))"

section \<open>Waiting of a root request\<close>

record root_wait =
  rw_total :: duration
  rw_preferred :: duration
  rw_waiters :: nat
  rw_started :: "instant option"
  rw_preferred_waiters :: nat
  rw_preferred_started :: "instant option"

definition no_wait :: root_wait where
  "no_wait = \<lparr>rw_total = 0, rw_preferred = 0, rw_waiters = 0, rw_started = None,
     rw_preferred_waiters = 0, rw_preferred_started = None\<rparr>"

definition running :: "instant option \<Rightarrow> instant \<Rightarrow> duration" where
  "running started now = (case started of None \<Rightarrow> 0 | Some since \<Rightarrow> now - since)"

definition total_used :: "root_wait \<Rightarrow> instant \<Rightarrow> duration" where
  "total_used w now = rw_total w + running (rw_started w) now"

definition preferred_used :: "root_wait \<Rightarrow> instant \<Rightarrow> duration" where
  "preferred_used w now = rw_preferred w + running (rw_preferred_started w) now"

text \<open>
  \<open>ModelTurnError\<close> (\<open>stravia-runtime-contract/src/model_turn.rs\<close>); the upstream body is
  an opaque value of type \<open>'j\<close>.
\<close>

record 'j model_turn_error =
  me_code :: string
  me_message :: string
  me_upstream_status :: "nat option"
  me_upstream_error_kind :: "error_kind option"
  me_upstream_body :: "'j option"
  me_retry_after_secs :: "nat option"

definition new_error :: "string \<Rightarrow> string \<Rightarrow> 'j model_turn_error" where
  "new_error code message =
     \<lparr>me_code = code, me_message = message, me_upstream_status = None, me_upstream_error_kind = None,
      me_upstream_body = None, me_retry_after_secs = None\<rparr>"

datatype 'j admission_error =
    Busy
  | Rejected "'j model_turn_error"
  | Exhausted "duration option"
  | QueueFull
  | Cancelled
  | DeadlineExceeded

fun model_error :: "'j admission_error \<Rightarrow> 'j model_turn_error" where
  "model_error (Rejected error) = error"
| "model_error Busy = new_error ''target_rpm_busy'' ''Target RPM allowance changed before sending''"
| "model_error (Exhausted retry) =
     (new_error ''target_rpm_exceeded'' ''Target RPM admission wait budget exhausted'')
       \<lparr>me_retry_after_secs := map_option ceil_secs retry\<rparr>"
| "model_error QueueFull = new_error ''target_rpm_queue_full'' ''Target RPM waiting queue is full''"
| "model_error Cancelled = new_error ''cancelled'' ''Target RPM admission cancelled''"
| "model_error DeadlineExceeded =
     new_error ''deadline_exceeded'' ''Target RPM admission deadline exceeded''"

text \<open>
  The part of \<open>wait\<close> before it sleeps, under both locks. \<open>WaitOk\<close> is \<open>Ok(())\<close> without
  waiting; \<open>Waiting\<close> carries the instant until which the guard lets it sleep.
\<close>

datatype 'j wait_entry =
    WaitErr "'j admission_error"
  | WaitOk
  | Waiting instant

definition wait_enter ::
    "instant \<Rightarrow> instant \<Rightarrow> bool \<Rightarrow> nat \<Rightarrow> rpm_state \<Rightarrow> root_wait
      \<Rightarrow> 'j wait_entry \<times> rpm_state \<times> root_wait" where
  "wait_enter now next preferred observed_version s w =
     (let total_left = from_millis (total_wait_ms (rp_config s)) - total_used w now
      in if total_left = 0 then (WaitErr (Exhausted (Some (next - now))), s, w)
         else if rp_version s \<noteq> observed_version then (WaitOk, s, w)
         else let preferred_left = from_millis (preferred_wait_ms (rp_config s)) - preferred_used w now
              in if preferred \<and> preferred_left = 0 then (WaitOk, s, w)
                 else if rw_waiters w = 0 \<and> queue_capacity (rp_config s) \<le> rp_waiting_roots s
                   then (WaitErr QueueFull, s, w)
                 else let (s1, w1) = (if rw_waiters w = 0
                                      then (s\<lparr>rp_waiting_roots := rp_waiting_roots s + 1\<rparr>, w\<lparr>rw_started := Some now\<rparr>)
                                      else (s, w));
                          w2 = w1\<lparr>rw_waiters := rw_waiters w1 + 1\<rparr>;
                          w3 = (if preferred
                                then (if rw_preferred_waiters w2 = 0
                                      then w2\<lparr>rw_preferred_started := Some now\<rparr> else w2)
                                     \<lparr>rw_preferred_waiters := rw_preferred_waiters w2 + 1\<rparr>
                                else w2)
                      in (Waiting (now + (if preferred then min total_left preferred_left else total_left)),
                          s1, w3))"

text \<open>
  \<open>Drop for WaitGuard\<close>. The counters are at least one here (theorem \<open>wait_accounting\<close>), so
  the truncated subtraction is the source's.
\<close>

definition wait_leave :: "instant \<Rightarrow> bool \<Rightarrow> rpm_state \<Rightarrow> root_wait \<Rightarrow> rpm_state \<times> root_wait" where
  "wait_leave now preferred s w =
     (let w1 = (if preferred
                then let v = w\<lparr>rw_preferred_waiters := rw_preferred_waiters w - 1\<rparr>
                     in if rw_preferred_waiters v = 0
                        then v\<lparr>rw_preferred := rw_preferred v + running (rw_preferred_started v) now,
                               rw_preferred_started := None\<rparr>
                        else v
                else w);
          w2 = w1\<lparr>rw_waiters := rw_waiters w1 - 1\<rparr>
      in if rw_waiters w2 = 0
         then (s\<lparr>rp_waiting_roots := rp_waiting_roots s - 1\<rparr>,
               w2\<lparr>rw_total := rw_total w2 + running (rw_started w2) now, rw_started := None\<rparr>)
         else (s, w2))"

text \<open>What ended the sleep, in the order the biased \<open>select!\<close> polls.\<close>

datatype wake = WokenCancelled | WokenDeadline | Notified | SleptUntil

text \<open>The rest of \<open>wait\<close>, after the guard is dropped; \<open>checked\<close> is the reading of the error branch.\<close>

definition wait_result ::
    "wake \<Rightarrow> instant \<Rightarrow> instant \<Rightarrow> instant \<Rightarrow> rpm_state \<Rightarrow> root_wait \<Rightarrow> 'j admission_error + unit" where
  "wait_result woken now checked next s w =
     (case woken of
        WokenCancelled \<Rightarrow> Inl Cancelled
      | WokenDeadline \<Rightarrow> Inl DeadlineExceeded
      | _ \<Rightarrow> if from_millis (total_wait_ms (rp_config s)) \<le> total_used w now
             then Inl (Exhausted (Some (next - checked)))
             else Inr ())"

section \<open>Filtering a policy's candidates\<close>

fun retain_ready ::
    "instant \<Rightarrow> instant option \<Rightarrow> 'c candidate list \<Rightarrow> rpm_state
      \<Rightarrow> ('c candidate list \<times> instant option \<times> rpm_state) option" where
  "retain_ready now next [] s = Some ([], next, s)"
| "retain_ready now next (c # cs) s =
     (case next_at (for_target (cd_target c)) now s of
        None \<Rightarrow> None
      | Some (Some due, s') \<Rightarrow>
          retain_ready now (Some (case next of None \<Rightarrow> due | Some previous \<Rightarrow> min previous due)) cs s'
      | Some (None, s') \<Rightarrow>
          map_option (\<lambda>(kept, next', s''). (c # kept, next', s'')) (retain_ready now next cs s'))"

definition preferred_candidate :: "'c attempt_policy \<Rightarrow> 'c candidate option" where
  "preferred_candidate p =
     (case ap_preferred p of
        None \<Rightarrow> None
      | Some key \<Rightarrow> find (\<lambda>c. selected_target_key (cd_target c) = key) (ap_ordered p))"

definition filter_candidates ::
    "string set \<Rightarrow> nat \<Rightarrow> cooldown_attempts \<Rightarrow> policy_state \<Rightarrow> instant \<Rightarrow> root_wait
      \<Rightarrow> 'c attempt_policy \<Rightarrow> rpm_state
      \<Rightarrow> ((instant \<times> bool) option \<times> 'c attempt_policy \<times> rpm_state) option" where
  "filter_candidates excluded clock ca ps now w policy s =
     (let p = retain_eligible excluded clock ca ps policy;
          preferred_remaining = from_millis (preferred_wait_ms (rp_config s)) - preferred_used w now;
          preferred_next =
            (if preferred_remaining = 0 then Some (None, s)
             else case preferred_candidate p of
                    None \<Rightarrow> Some (None, s)
                  | Some c \<Rightarrow> next_at (for_target (cd_target c)) now s)
      in case preferred_next of
           None \<Rightarrow> None
         | Some (Some due, s') \<Rightarrow> Some (Some (due, True), p, s')
         | Some (None, s') \<Rightarrow>
             map_option (\<lambda>(kept, next, s'').
               (if kept = [] then map_option (\<lambda>due. (due, False)) next else None,
                p\<lparr>ap_ordered := kept\<rparr>, s''))
               (retain_ready now None (ap_ordered p) s'))"

section \<open>The decision at a send\<close>

datatype decision = Recheck | Admitted | Blocked instant

text \<open>
  The part of \<open>SendEligibility\<close> the commit uses: the target key, its epoch, whether only one
  attempt is allowed; with the health state and the route clock they are judged by.
\<close>

record eligibility =
  el_target_key :: string
  el_epoch :: nat
  el_single_attempt :: bool

definition target_ineligible :: "string \<Rightarrow> 'j admission_error" where
  "target_ineligible message = Rejected (new_error ''target_ineligible'' message)"

text \<open>
  \<open>commit_send\<close>, under the admission lock: \<open>current_key\<close> is the destination the eligibility
  check found (or its error), \<open>sent\<close> the flag of the operation.
\<close>

definition commit_send ::
    "nat \<Rightarrow> 'j admission_error + dest_key \<Rightarrow> bool \<Rightarrow> bool \<Rightarrow> eligibility option \<Rightarrow> policy_state \<Rightarrow> nat
      \<Rightarrow> instant \<Rightarrow> bool \<Rightarrow> rpm_state
      \<Rightarrow> (('j admission_error + decision) \<times> bool \<times> rpm_state) option" where
  "commit_send version current_key cancelled exceeded eligible ps clock now sent s =
     (if rp_version s \<noteq> version then Some (Inr Recheck, sent, s)
      else case current_key of
        Inl e \<Rightarrow> Some (Inl e, sent, s)
      | Inr key \<Rightarrow>
          if cancelled then Some (Inl Cancelled, sent, s)
          else if exceeded then Some (Inl DeadlineExceeded, sent, s)
          else if (case eligible of
                     None \<Rightarrow> False
                   | Some el \<Rightarrow> \<not> permits_send clock (el_target_key el) (el_epoch el) (el_single_attempt el) ps)
            then Some (Inl (if sent
                   then target_ineligible ''Target health changed before another upstream attempt'' else Busy),
                   sent, s)
          else if (case eligible of None \<Rightarrow> False | Some el \<Rightarrow> el_single_attempt el) \<and> sent
            then Some (Inl (target_ineligible ''Cooling Target permits only one extra upstream attempt''), sent, s)
          else (case record_send key now s of
                  None \<Rightarrow> None
                | Some (Inr _, s') \<Rightarrow> Some (Inr Admitted, True, s')
                | Some (Inl next, s') \<Rightarrow> Some (Inr (Blocked next), sent, s')))"

text \<open>
  One pass of the loop of \<open>acquire_inner\<close>, up to the wait: \<open>Again\<close> is \<open>continue\<close>,
  \<open>WaitFor\<close> the wait whose success starts the next pass.
\<close>

datatype 'j pass = Finished "'j admission_error + unit" | Again | WaitFor instant

definition pass_of :: "bool \<Rightarrow> 'j admission_error + decision \<Rightarrow> 'j pass" where
  "pass_of sent result =
     (case result of
        Inl e \<Rightarrow> Finished (Inl e)
      | Inr Recheck \<Rightarrow> Again
      | Inr Admitted \<Rightarrow> Finished (Inr ())
      | Inr (Blocked next) \<Rightarrow> if sent then WaitFor next else Finished (Inl Busy))"

text \<open>\<open>reset_unexecuted_send\<close>: the failure, or the cleared flags.\<close>

definition reset_unexecuted_send ::
    "bool \<Rightarrow> bool \<Rightarrow> bool \<times> nat option \<Rightarrow> 'j admission_error + bool \<times> nat option" where
  "reset_unexecuted_send cancelled exceeded flags =
     (if cancelled then Inl Cancelled
      else if exceeded then Inl DeadlineExceeded
      else Inr (False, map_option (\<lambda>_. 0) (snd flags)))"

end
