(* ===== verification/SendWindow.thy ===== *)
theory SendWindow
  imports Prelude
begin

text \<open>
  The contract of a sliding-window limiter, as a locale: what a limiter must guarantee of
  one step so that over any run no more than the limit of sends happen in any window.
  \<open>RpmLaws\<close> interprets it on the admission state.
\<close>

section \<open>Windows of a sorted log\<close>

text \<open>The sends of a log that fall in the half-open interval of length \<open>len\<close> from \<open>from\<close>.\<close>

definition sends_in :: "nat \<Rightarrow> nat \<Rightarrow> nat list \<Rightarrow> nat" where
  "sends_in start len log = length (filter (\<lambda>x. start \<le> x \<and> x < start + len) log)"

definition recent :: "nat \<Rightarrow> nat \<Rightarrow> nat list \<Rightarrow> nat list" where
  "recent len now xs = dropWhile (\<lambda>x. len \<le> now - x) xs"

text \<open>What a run of steps admits: a step yields the time of the send it admitted, if any.\<close>

fun admitted :: "('e \<Rightarrow> 's \<Rightarrow> nat option \<times> 's) \<Rightarrow> 'e list \<Rightarrow> 's \<Rightarrow> nat list" where
  "admitted step [] s = []"
| "admitted step (e # es) s =
     (case step e s of (r, s') \<Rightarrow> (case r of None \<Rightarrow> [] | Some t \<Rightarrow> [t]) @ admitted step es s')"

lemma sends_in_append [simp]: "sends_in t n (xs @ ys) = sends_in t n xs + sends_in t n ys"
  by (simp add: sends_in_def)

lemma sends_in_Nil [simp]: "sends_in t n [] = 0"
  by (simp add: sends_in_def)

lemma sends_in_le: "sends_in t n xs \<le> length xs"
  by (simp add: sends_in_def)

lemma sends_in_outside: "(\<And>x. x \<in> set xs \<Longrightarrow> x < t) \<Longrightarrow> sends_in t n xs = 0"
  by (auto simp: sends_in_def filter_empty_conv dest: leD)

lemma recent_split: "sorted xs \<Longrightarrow> 0 < len \<Longrightarrow>
   \<exists>old. xs = old @ recent len now xs \<and> (\<forall>x \<in> set old. x + len \<le> now)"
proof (intro exI conjI)
  show "xs = takeWhile (\<lambda>x. len \<le> now - x) xs @ recent len now xs" by (simp add: recent_def)
  show "0 < len \<Longrightarrow> \<forall>x \<in> set (takeWhile (\<lambda>x. len \<le> now - x) xs). x + len \<le> now"
    by (auto dest!: set_takeWhileD)
qed

text \<open>In a sorted list the recent part is long exactly when the element it would start from is recent.\<close>

lemma recent_longer:
  assumes "sorted xs" "i < length xs" "0 < len"
  shows "length xs - i \<le> length (recent len now xs) \<longleftrightarrow> now < xs ! i + len"
  using assms
proof (induction xs arbitrary: i)
  case Nil
  then show ?case by simp
next
  case (Cons x xs)
  show ?case
  proof (cases "len \<le> now - x")
    case True
    then have "x + len \<le> now" using Cons.prems(3) by simp
    then show ?thesis using Cons True length_dropWhile_le [of "\<lambda>x. len \<le> now - x" xs]
      by (cases i) (auto simp: recent_def)
  next
    case False
    have "x \<le> (x # xs) ! i" using Cons.prems(1,2) by (cases i) auto
    then show ?thesis using False Cons.prems(3) by (auto simp: recent_def)
  qed
qed

section \<open>The contract\<close>

locale send_window =
  fixes valid :: "'s \<Rightarrow> bool" and good :: "'e \<Rightarrow> bool" and time :: "'e \<Rightarrow> nat"
    and sends :: "'s \<Rightarrow> nat list" and step :: "'e \<Rightarrow> 's \<Rightarrow> nat option \<times> 's"
    and limit :: nat and len :: nat
  assumes len_pos: "0 < len"
    and valid_step: "valid s \<Longrightarrow> good e \<Longrightarrow> valid (snd (step e s))"
    and step_admits: "valid s \<Longrightarrow> good e \<Longrightarrow> fst (step e s) = Some t \<Longrightarrow>
      t = time e \<and> sends (snd (step e s)) = recent len t (sends s) @ [t] \<and> length (recent len t (sends s)) < limit"
    and step_keeps: "valid s \<Longrightarrow> good e \<Longrightarrow> fst (step e s) = None \<Longrightarrow>
      sends (snd (step e s)) = sends s \<or> sends (snd (step e s)) = recent len (time e) (sends s)"
begin

text \<open>The log so far, of which the state remembers the recent part.\<close>

definition remembers :: "nat list \<Rightarrow> nat \<Rightarrow> 's \<Rightarrow> bool" where
  "remembers log now s \<longleftrightarrow>
     sorted log \<and> (\<forall>x \<in> set log. x \<le> now) \<and> (\<forall>t. sends_in t len log \<le> limit)
     \<and> (\<exists>old. log = old @ sends s \<and> (\<forall>x \<in> set old. x + len \<le> now))"

lemma remembers_step:
  assumes "remembers log now s" "valid s" "good e" "now \<le> time e"
  shows "remembers (log @ (case fst (step e s) of None \<Rightarrow> [] | Some t \<Rightarrow> [t])) (time e) (snd (step e s))"
proof -
  obtain old where old: "log = old @ sends s" "\<forall>x \<in> set old. x + len \<le> now"
    using assms(1) by (auto simp: remembers_def)
  have srt: "sorted (sends s)" using assms(1) old(1) by (auto simp: remembers_def sorted_append)
  obtain gone where gone: "sends s = gone @ recent len (time e) (sends s)" "\<forall>x \<in> set gone. x + len \<le> time e"
    using recent_split [OF srt len_pos] by blast
  have prefix: "\<forall>x \<in> set (old @ gone). x + len \<le> time e" "\<forall>x \<in> set old. x + len \<le> time e"
    using old(2) gone(2) assms(4) by fastforce+
  have log: "log = (old @ gone) @ recent len (time e) (sends s)" using old(1) gone(1) by simp
  have bounds: "sorted log" "\<forall>x \<in> set log. x \<le> time e" "\<forall>t. sends_in t len log \<le> limit"
    using assms(1,4) by (auto simp: remembers_def)
  show ?thesis
  proof (cases "fst (step e s)")
    case None
    then have "\<exists>old'. log = old' @ sends (snd (step e s)) \<and> (\<forall>x \<in> set old'. x + len \<le> time e)"
      using step_keeps [OF assms(2,3)] log old(1) prefix by metis
    with None bounds show ?thesis by (simp add: remembers_def)
  next
    case (Some t)
    note new = step_admits [OF assms(2,3) Some]
    have "sends_in u len (log @ [t]) \<le> limit" for u
    proof (cases "u \<le> t \<and> t < u + len")
      case True
      have "sends_in u len (old @ gone) = 0"
        using prefix(1) True new by (intro sends_in_outside) fastforce
      moreover have "sends_in u len (recent len (time e) (sends s)) < limit"
        using new sends_in_le by (metis le_less_trans)
      ultimately have "sends_in u len log < limit" using log by (metis sends_in_append add_0)
      then show ?thesis by (simp add: sends_in_def)
    next
      case False
      then show ?thesis using bounds(3) by (auto simp: sends_in_def)
    qed
    moreover have "log @ [t] = (old @ gone) @ sends (snd (step e s))" using new log by simp
    ultimately show ?thesis
      using Some bounds prefix(1) new unfolding remembers_def
      by (simp add: sorted_append del: append_assoc)
  qed
qed

text \<open>Over any run with a clock that never goes back.\<close>

lemma admitted_within_limit:
  assumes "remembers log now s" "valid s" "list_all good es" "sorted (now # map time es)"
  shows "sends_in t len (log @ admitted step es s) \<le> limit"
  using assms
proof (induction es arbitrary: log now s)
  case Nil
  then show ?case by (simp add: remembers_def)
next
  case (Cons e es)
  have "remembers (log @ (case fst (step e s) of None \<Rightarrow> [] | Some t \<Rightarrow> [t])) (time e) (snd (step e s))"
    using Cons.prems by (intro remembers_step [of _ now]) simp_all
  moreover have "valid (snd (step e s))" using Cons.prems by (intro valid_step) simp_all
  ultimately have "sends_in t len ((log @ (case fst (step e s) of None \<Rightarrow> [] | Some t \<Rightarrow> [t]))
      @ admitted step es (snd (step e s))) \<le> limit"
    using Cons.prems by (intro Cons.IH [of _ "time e"]) simp_all
  then show ?case by (simp add: case_prod_beta add.assoc)
qed

end

end
