(* ===== verification/RpmLaws.thy ===== *)
theory RpmLaws
  imports RpmAdmission SendWindow RouteSelectorLaws
begin

text \<open>
  What RPM admission guarantees: no more than the limit of sends in any window of sixty
  seconds (by the limiter contract of \<open>SendWindow\<close>), an exact instant to wait for, no
  panic under validated settings, the filter of a policy's candidates, and at most one send
  of an operation that may attempt a cooling target only once.
\<close>

section \<open>Valid limits\<close>

text \<open>Every limit is a positive \<open>i32\<close>.\<close>

definition limits_valid :: "(dest_key \<rightharpoonup> int) \<Rightarrow> bool" where
  "limits_valid limits \<longleftrightarrow> (\<forall>k l. limits k = Some l \<longrightarrow> 0 < l \<and> l < 2 ^ 31)"

lemma limits_validD: "limits_valid limits \<Longrightarrow> limits k = Some l \<Longrightarrow> 0 < l \<and> l < 2 ^ 31"
  unfolding limits_valid_def by blast

definition i32_limits :: "rpm_config \<Rightarrow> bool" where
  "i32_limits c \<longleftrightarrow> list_all (\<lambda>d. case dl_rpm_limit d of None \<Rightarrow> True | Some l \<Rightarrow> l < 2 ^ 31) (destinations c)"

lemma as_usize_pos: "0 < l \<Longrightarrow> l < 2 ^ 31 \<Longrightarrow> as_usize l = nat l"
  by (simp add: as_usize_def)

lemma configured_limits_Some:
  assumes "configured_limits c k = Some l"
  obtains d where "d \<in> set (destinations c)" "destination_key d = k" "dl_rpm_limit d = Some l"
proof -
  from assms have "(k, l) \<in> set (List.map_filter (\<lambda>d. map_option (\<lambda>l. ((dl_provider_id d, dl_model d), l))
      (dl_rpm_limit d)) (destinations c))"
    unfolding configured_limits_def by (rule collect_map_Some)
  then show thesis using that by (auto simp: List.map_filter_def destination_key_def)
qed

lemma validated_limits:
  assumes "check_destinations {} (destinations c) = Inr ()" "i32_limits c"
  shows "limits_valid (configured_limits c)"
proof -
  have "0 < l \<and> l < 2 ^ 31" if limit: "configured_limits c k = Some l" for k l
  proof -
    obtain d where d: "d \<in> set (destinations c)" "dl_rpm_limit d = Some l"
      using configured_limits_Some [OF limit] by blast
    then have "valid_destination d" using assms(1) by (simp add: check_destinations_iff)
    with d assms(2) show ?thesis by (fastforce simp: valid_destination_def i32_limits_def list_all_iff)
  qed
  then show ?thesis by (simp add: limits_valid_def)
qed

section \<open>One destination's window\<close>

definition window_of :: "dest_key \<Rightarrow> rpm_state \<Rightarrow> instant list" where
  "window_of k s = (case rp_windows s k of None \<Rightarrow> [] | Some w \<Rightarrow> w)"

text \<open>When the destination is free again, read off the state; \<open>None\<close> is now.\<close>

definition blocked_until :: "dest_key \<Rightarrow> instant \<Rightarrow> rpm_state \<Rightarrow> instant option" where
  "blocked_until key now s =
     (case rp_limits s key of
        None \<Rightarrow> None
      | Some l \<Rightarrow>
          let w = recent window_length now (window_of key s)
          in if length w < nat l then None else Some (w ! (length w - nat l) + window_length))"

definition pruned :: "dest_key \<Rightarrow> instant \<Rightarrow> rpm_state \<Rightarrow> rpm_state" where
  "pruned key now s =
     (case (rp_limits s key, rp_windows s key) of
        (Some l, Some w) \<Rightarrow> s\<lparr>rp_windows := (rp_windows s)(key \<mapsto> recent window_length now w)\<rparr>
      | _ \<Rightarrow> s)"

lemma next_at_eq:
  assumes "limits_valid (rp_limits s)"
  shows "next_at key now s = Some (blocked_until key now s, pruned key now s)"
proof (cases "rp_limits s key")
  case None
  then show ?thesis by (simp add: next_at_def blocked_until_def pruned_def)
next
  case (Some l)
  then have l: "0 < l" "l < 2 ^ 31" using limits_validD [OF assms] by blast+
  have pos: "0 < nat l" using l by simp
  show ?thesis
  proof (cases "rp_windows s key")
    case None
    with Some pos show ?thesis by (simp add: next_at_def blocked_until_def pruned_def window_of_def recent_def)
  next
    case w: (Some w)
    let ?r = "dropWhile (\<lambda>sent. window_length \<le> now - sent) w"
    have "length ?r < nat l \<or> length ?r - nat l < length ?r" using pos by linarith
    with w Some show ?thesis
      by (auto simp: next_at_def blocked_until_def pruned_def window_of_def recent_def
          as_usize_pos [OF l] nth_opt_def Let_def)
  qed
qed

lemma pruned_frame [simp]:
  "rp_limits (pruned key now s) = rp_limits s" "rp_config (pruned key now s) = rp_config s"
  "rp_version (pruned key now s) = rp_version s" "rp_waiting_roots (pruned key now s) = rp_waiting_roots s"
  by (simp_all add: pruned_def split: option.splits)

lemma window_of_pruned:
  "window_of k (pruned key now s) =
     (if k = key \<and> rp_limits s key \<noteq> None then recent window_length now (window_of k s) else window_of k s)"
  by (auto simp: pruned_def window_of_def recent_def split: option.splits)

lemma recent_idem [simp]: "recent n now (recent n now xs) = recent n now xs"
  by (simp add: recent_def dropWhile_idem)

lemma blocked_pruned [simp]: "blocked_until k now (pruned key now s) = blocked_until k now s"
  by (auto simp: blocked_until_def window_of_pruned split: option.splits)

lemma record_send_eq:
  assumes "limits_valid (rp_limits s)"
  shows "record_send key now s = Some (case blocked_until key now s of
      Some due \<Rightarrow> (Inl due, pruned key now s)
    | None \<Rightarrow> (Inr (), if rp_limits s key = None then pruned key now s
        else (pruned key now s)\<lparr>rp_windows := (rp_windows (pruned key now s))
               (key \<mapsto> window_of key (pruned key now s) @ [now])\<rparr>))"
  by (auto simp: record_send_def next_at_eq [OF assms] window_of_def split: option.splits)

text \<open>The instant to wait for is exact.\<close>

lemma blocked_until_iff:
  assumes "limits_valid (rp_limits s)" "sorted (window_of key s)" "blocked_until key now s = Some due" "now \<le> later"
  shows "blocked_until key later s = None \<longleftrightarrow> due \<le> later"
proof -
  have len: "0 < window_length" by (simp add: window_length_def)
  obtain l where l: "rp_limits s key = Some l" using assms(3) by (auto simp: blocked_until_def split: option.splits)
  let ?w = "window_of key s"
  let ?r = "recent window_length now ?w"
  have r: "nat l \<le> length ?r" "due = ?r ! (length ?r - nat l) + window_length"
    using assms(3) l by (auto simp: blocked_until_def Let_def split: if_splits)
  have pos: "0 < nat l" using limits_validD [OF assms(1) l] by simp
  have srt: "sorted ?r" by (simp add: recent_def assms(2) sorted_dropWhile)
  have le: "length ?r \<le> length ?w" by (simp add: recent_def length_dropWhile_le)
  have later: "recent window_length later ?w = recent window_length later ?r"
  proof -
    obtain old where old: "?w = old @ ?r" "\<forall>x \<in> set old. x + window_length \<le> now"
      using recent_split [OF assms(2) len] by blast
    have "\<forall>x \<in> set old. window_length \<le> later - x" using old(2) assms(4) by fastforce
    then show ?thesis by (subst old(1)) (simp add: recent_def dropWhile_append2)
  qed
  have "nat l \<le> length (recent window_length later ?r) \<longleftrightarrow> later < due"
    using recent_longer [OF srt _ len, of "length ?r - nat l" later] r pos by simp
  then show ?thesis using l by (auto simp: blocked_until_def Let_def later)
qed


section \<open>Runs of the admission state\<close>

text \<open>Everything that changes the limits or the windows, with the clock reading it makes.\<close>

datatype rpm_event =
    SendAt dest_key instant
  | PeekAt dest_key instant
  | Reconfigure rpm_config instant
  | TargetsMoved instant

fun event_time :: "rpm_event \<Rightarrow> instant" where
  "event_time (SendAt _ t) = t"
| "event_time (PeekAt _ t) = t"
| "event_time (Reconfigure _ t) = t"
| "event_time (TargetsMoved t) = t"

text \<open>A step yields the time of the send it admits to the destination \<open>k\<close>.\<close>

fun rpm_step :: "dest_key \<Rightarrow> rpm_event \<Rightarrow> rpm_state \<Rightarrow> instant option \<times> rpm_state" where
  "rpm_step k (SendAt key now) s =
     (case record_send key now s of
        None \<Rightarrow> (None, s)
      | Some (Inl _, s') \<Rightarrow> (None, s')
      | Some (Inr _, s') \<Rightarrow> (if key = k then Some now else None, s'))"
| "rpm_step k (PeekAt key now) s = (None, case next_at key now s of None \<Rightarrow> s | Some (_, s') \<Rightarrow> s')"
| "rpm_step k (Reconfigure c now) s = (None, configure c s)"
| "rpm_step k (TargetsMoved now) s = (None, targets_changed s)"

text \<open>The destination \<open>k\<close> is limited to at most \<open>n\<close>.\<close>

definition limited_to :: "dest_key \<Rightarrow> nat \<Rightarrow> (dest_key \<rightharpoonup> int) \<Rightarrow> bool" where
  "limited_to k n limits \<longleftrightarrow> (case limits k of None \<Rightarrow> False | Some l \<Rightarrow> l \<le> int n)"

definition rpm_valid :: "dest_key \<Rightarrow> nat \<Rightarrow> rpm_state \<Rightarrow> bool" where
  "rpm_valid k n s \<longleftrightarrow> limits_valid (rp_limits s) \<and> limited_to k n (rp_limits s)"

fun event_keeps :: "dest_key \<Rightarrow> nat \<Rightarrow> rpm_event \<Rightarrow> bool" where
  "event_keeps k n (Reconfigure c _) \<longleftrightarrow>
     limits_valid (configured_limits c) \<and> limited_to k n (configured_limits c)"
| "event_keeps k n _ \<longleftrightarrow> True"

lemma configure_sel [simp]:
  "rp_limits (configure c s) = configured_limits c"
  "rp_waiting_roots (configure c s) = rp_waiting_roots s" "rp_config (configure c s) = c"
  by (simp_all add: configure_def Let_def)

lemma configure_window: "configured_limits c k \<noteq> None \<Longrightarrow> window_of k (configure c s) = window_of k s"
  by (auto simp: configure_def window_of_def Let_def)

lemma window_of_update [simp]:
  "window_of k (s\<lparr>rp_windows := (rp_windows t)(key \<mapsto> w)\<rparr>) =
     (if k = key then w else window_of k t)"
  by (simp add: window_of_def)

lemma targets_changed_sel [simp]:
  "rp_limits (targets_changed s) = rp_limits s" "window_of k (targets_changed s) = window_of k s"
  "rp_waiting_roots (targets_changed s) = rp_waiting_roots s" "rp_config (targets_changed s) = rp_config s"
  by (simp_all add: targets_changed_def window_of_def)

lemma limited_toE:
  assumes "limited_to k n limits" obtains l where "limits k = Some l" "l \<le> int n"
  using assms by (auto simp: limited_to_def split: option.splits)

lemma rpm_step_limits:
  "limits_valid (rp_limits s) \<Longrightarrow>
   rp_limits (snd (rpm_step k e s)) = (case e of Reconfigure c _ \<Rightarrow> configured_limits c | _ \<Rightarrow> rp_limits s)"
  by (cases e) (auto simp: record_send_eq next_at_eq split: option.splits)

lemma rpm_step_admits:
  assumes "rpm_valid k n s" "fst (rpm_step k e s) = Some t"
  shows "t = event_time e" "window_of k (snd (rpm_step k e s)) = recent window_length t (window_of k s) @ [t]"
    "length (recent window_length t (window_of k s)) < n"
proof -
  have lv: "limits_valid (rp_limits s)" using assms(1) by (simp add: rpm_valid_def)
  obtain l where l: "rp_limits s k = Some l" "l \<le> int n"
    using assms(1) by (auto simp: rpm_valid_def elim: limited_toE)
  have e: "e = SendAt k t" and free: "blocked_until k t s = None"
    using assms(2) by (cases e; auto simp: record_send_eq [OF lv] split: option.splits if_splits)+
  show "t = event_time e" by (simp add: e)
  show "window_of k (snd (rpm_step k e s)) = recent window_length t (window_of k s) @ [t]"
    using l by (simp add: e record_send_eq [OF lv] free window_of_pruned)
  show "length (recent window_length t (window_of k s)) < n"
    using free l by (auto simp: blocked_until_def Let_def split: if_splits)
qed

lemma rpm_step_keeps:
  assumes "rpm_valid k n s" "event_keeps k n e" "fst (rpm_step k e s) = None"
  shows "window_of k (snd (rpm_step k e s)) = window_of k s
    \<or> window_of k (snd (rpm_step k e s)) = recent window_length (event_time e) (window_of k s)"
proof -
  have lv: "limits_valid (rp_limits s)" using assms(1) by (simp add: rpm_valid_def)
  show ?thesis
  proof (cases e)
    case (SendAt key now)
    then show ?thesis
      using assms(3)
      by (auto simp: record_send_eq [OF lv] window_of_pruned split: option.splits if_splits)
  next
    case (PeekAt key now)
    then show ?thesis by (auto simp: next_at_eq [OF lv] window_of_pruned)
  next
    case (Reconfigure c now)
    then have "configured_limits c k \<noteq> None" using assms(2) by (auto elim: limited_toE)
    with Reconfigure show ?thesis by (simp add: configure_window)
  next
    case (TargetsMoved now)
    then show ?thesis by simp
  qed
qed

interpretation rpm: send_window "rpm_valid k n" "event_keeps k n" event_time "window_of k" "rpm_step k" n window_length
  for k n
proof
  show "0 < window_length" by (simp add: window_length_def)
  show "rpm_valid k n (snd (rpm_step k e s))" if "rpm_valid k n s" "event_keeps k n e" for s e
    using that rpm_step_limits [of s k e] by (cases e) (simp_all add: rpm_valid_def)
qed (use rpm_step_admits rpm_step_keeps in blast)+


section \<open>Filtering candidates\<close>

lemma blocked_pruned_other: "blocked_until k now (pruned key now s) = blocked_until k now s"
  by (cases "k = key") (auto simp: blocked_until_def window_of_pruned split: option.splits)

lemma retain_ready_eq:
  assumes "limits_valid (rp_limits s)"
  shows "\<exists>s'. retain_ready now acc cs s =
      Some (filter (\<lambda>c. blocked_until (for_target (cd_target c)) now s = None) cs,
        fold (\<lambda>due next. Some (case next of None \<Rightarrow> due | Some previous \<Rightarrow> min previous due))
          (List.map_filter (\<lambda>c. blocked_until (for_target (cd_target c)) now s) cs) acc, s')
    \<and> rp_limits s' = rp_limits s \<and> (\<forall>k. blocked_until k now s' = blocked_until k now s)"
  using assms
proof (induction cs arbitrary: acc s)
  case Nil
  show ?case by (simp add: List.map_filter_def)
next
  case (Cons c cs)
  let ?k = "for_target (cd_target c)"
  have lv: "limits_valid (rp_limits (pruned ?k now s))" using Cons.prems by simp
  show ?case
  proof (cases "blocked_until ?k now s")
    case None
    then show ?thesis
      using Cons.IH [OF lv, of acc] by (auto simp: next_at_eq [OF Cons.prems] blocked_pruned_other List.map_filter_simps)
  next
    case (Some due)
    then show ?thesis
      using Cons.IH [OF lv, of "Some (case acc of None \<Rightarrow> due | Some previous \<Rightarrow> min previous due)"]
      by (auto simp: next_at_eq [OF Cons.prems] blocked_pruned_other List.map_filter_simps)
  qed
qed

lemma fold_min_option:
  "fold (\<lambda>due next. Some (case next of None \<Rightarrow> due | Some previous \<Rightarrow> min previous due)) ds (Some a)
     = Some (Min (insert a (set ds :: nat set)))"
proof (induction ds arbitrary: a)
  case (Cons d ds)
  have "Min (insert (min a d) (set ds)) = Min (insert a (insert d (set ds)))"
    by (cases "ds = []") (simp_all add: Min_insert min.assoc)
  with Cons show ?case by simp
qed simp

section \<open>One operation's sends\<close>

text \<open>One call of \<open>commit_send\<close>, with everything it reads.\<close>

record 'j commit_input =
  ci_version :: nat
  ci_key :: "'j admission_error + dest_key"
  ci_cancelled :: bool
  ci_exceeded :: bool
  ci_health :: policy_state
  ci_clock :: nat
  ci_now :: instant
  ci_state :: rpm_state

definition commit_on :: "eligibility option \<Rightarrow> 'j commit_input \<Rightarrow> bool
    \<Rightarrow> (('j admission_error + decision) \<times> bool \<times> rpm_state) option" where
  "commit_on el i sent = commit_send (ci_version i) (ci_key i) (ci_cancelled i) (ci_exceeded i) el (ci_health i)
     (ci_clock i) (ci_now i) sent (ci_state i)"

text \<open>The decisions of the successive commits of one operation; a panic ends it.\<close>

fun commits :: "eligibility option \<Rightarrow> 'j commit_input list \<Rightarrow> bool \<Rightarrow> ('j admission_error + decision) list" where
  "commits el [] sent = []"
| "commits el (i # is) sent =
     (case commit_on el i sent of None \<Rightarrow> [] | Some (r, sent', _) \<Rightarrow> r # commits el is sent')"

lemma commit_sent:
  "commit_on el i sent = Some (r, sent', s') \<Longrightarrow> sent' = (sent \<or> r = Inr Admitted)"
  by (auto simp: commit_on_def commit_send_def split: if_splits sum.splits option.splits)

lemma single_attempt_blocked:
  "commit_on (Some el) i True = Some (r, sent', s') \<Longrightarrow> el_single_attempt el \<Longrightarrow> r \<noteq> Inr Admitted"
  by (auto simp: commit_on_def commit_send_def split: if_splits sum.splits option.splits)

lemma commits_after_send:
  "el_single_attempt el \<Longrightarrow> Inr Admitted \<notin> set (commits (Some el) is True)"
proof (induction "is")
  case (Cons i "is")
  show ?case
  proof (cases "commit_on (Some el) i True")
    case (Some result)
    obtain r sent' s' where result: "result = (r, sent', s')" by (cases result)
    have "sent' = True" "r \<noteq> Inr Admitted"
      using commit_sent [OF Some [unfolded result]] single_attempt_blocked [OF Some [unfolded result] Cons.prems]
      by simp_all
    with Cons Some result show ?thesis by simp
  qed simp
qed simp

section \<open>Properties\<close>

text \<open>
  C4: the admission limit holds. From a state in which a destination has no recorded sends,
  over any interleaving of sends, candidate checks and configuration changes that keep the
  destination limited to at most \<open>n\<close>, at most \<open>n\<close> sends to it are admitted in any interval
  of sixty seconds.
\<close>

theorem rpm_limit_respected:
  assumes "limits_valid (rp_limits s)" "limited_to k n (rp_limits s)" "rp_windows s k = None"
    and "list_all (event_keeps k n) events" "sorted (map event_time events)"
  shows "sends_in t window_length (admitted (rpm_step k) events s) \<le> n"
proof -
  have "rpm.remembers k n [] 0 s"
    using assms(3) by (simp add: rpm.remembers_def window_of_def)
  moreover have "rpm_valid k n s" using assms(1,2) by (simp add: rpm_valid_def)
  ultimately show ?thesis
    using rpm.admitted_within_limit [of k n "[]" 0 s events t] assms(4,5) by simp
qed

definition limited_config :: rpm_config where
  "limited_config = default_rpm_config\<lparr>destinations :=
     [\<lparr>dl_provider_id = ''p'', dl_model = ''m'', dl_rpm_limit = Some 2\<rparr>]\<rparr>"

definition limited_state :: rpm_state where
  "limited_state = configure limited_config default_rpm_state"

lemma limited_state_limits: "rp_limits limited_state = [(''p'', ''m'') \<mapsto> 2]"
  by (simp add: limited_state_def limited_config_def configured_limits_def collect_map_def
      List.map_filter_def)

theorem rpm_limit_respected_witness:
  "sends_in 0 window_length
     (admitted (rpm_step (''p'', ''m'')) [SendAt (''p'', ''m'') 1, SendAt (''p'', ''m'') 2, SendAt (''p'', ''m'') 3] limited_state)
   \<le> 2"
  by (rule rpm_limit_respected)
    (simp_all add: limited_state_limits limits_valid_def limited_to_def,
     simp add: limited_state_def configure_def default_rpm_state_def Let_def)

text \<open>
  the instant a blocked send is told to wait for is exact: if nothing else is sent to
  the destination meanwhile, a send is refused at every earlier moment and admitted from
  that instant on.
\<close>

theorem retry_instant_exact:
  assumes "limits_valid (rp_limits s)" "sorted (window_of key s)"
    and "record_send key now s = Some (Inl due, s')" "now \<le> later"
  shows "(\<exists>s''. record_send key later s' = Some (Inr (), s'')) \<longleftrightarrow> due \<le> later"
proof -
  have due: "blocked_until key now s = Some due" and s': "s' = pruned key now s"
    using assms(3) by (auto simp: record_send_eq [OF assms(1)] split: option.splits)
  have lv: "limits_valid (rp_limits s')" using assms(1) by (simp add: s')
  have srt: "sorted (window_of key s')"
    using assms(2) by (simp add: s' window_of_pruned recent_def sorted_dropWhile)
  have "blocked_until key now s' = Some due" using due by (simp add: s')
  from blocked_until_iff [OF lv srt this assms(4)] show ?thesis
    by (auto simp: record_send_eq [OF lv] split: option.splits)
qed

definition full_state :: rpm_state where
  "full_state = limited_state\<lparr>rp_windows := [(''p'', ''m'') \<mapsto> [10, 20]]\<rparr>"

theorem retry_instant_exact_witness:
  "\<exists>s'. record_send (''p'', ''m'') 30 full_state = Some (Inl (10 + window_length), s')
     \<and> (\<exists>s''. record_send (''p'', ''m'') (10 + window_length) s' = Some (Inr (), s''))"
proof -
  have "limits_valid (rp_limits full_state)"
    by (simp add: full_state_def limited_state_limits limits_valid_def)
  moreover have "sorted (window_of (''p'', ''m'') full_state)"
    by (simp add: full_state_def window_of_def)
  moreover have "blocked_until (''p'', ''m'') 30 full_state = Some (10 + window_length)"
    by (simp add: blocked_until_def full_state_def limited_state_limits window_of_def recent_def window_length_def)
  then obtain s' where "record_send (''p'', ''m'') 30 full_state = Some (Inl (10 + window_length), s')"
    using record_send_eq [OF calculation(1)] by simp
  ultimately show ?thesis
    using retry_instant_exact [of full_state "(''p'', ''m'')" 30 "10 + window_length" s' "10 + window_length"]
    by (auto simp: window_length_def)
qed

text \<open>
  Admission never panics. Under validated settings, whose limits fit an \<open>i32\<close>, the
  index into a window is always in range, after any change of the configuration.
\<close>

theorem admission_total:
  assumes "validate c = Inr ()" "i32_limits c"
  shows "record_send key now (configure c s) \<noteq> None \<and> next_at key now (configure c s) \<noteq> None"
proof -
  have "check_destinations {} (destinations c) = Inr ()"
    using assms(1) by (auto simp: validate_def res_bind_Inr_iff)
  then have "limits_valid (rp_limits (configure c s))" using validated_limits [OF _ assms(2)] by simp
  then show ?thesis by (simp add: record_send_eq next_at_eq)
qed

theorem admission_total_witness:
  "record_send (''p'', ''m'') 7 (configure limited_config full_state) \<noteq> None"
proof -
  have "nonempty_trimmed ''p''" "nonempty_trimmed ''m''" by code_simp+
  then have "validate limited_config = Inr ()"
    by (simp add: validate_def limited_config_def default_rpm_config_def ensure_def i64_max_def)
  moreover have "i32_limits limited_config" by (simp add: i32_limits_def limited_config_def)
  ultimately show ?thesis using admission_total by blast
qed

text \<open>
  filtering a policy's candidates. Once the preferred target is not to be waited for,
  the policy keeps exactly the eligible candidates whose destination has allowance now;
  the caller is told to wait only when none has, and then until the earliest instant at
  which one of the eligible candidates has.
\<close>

theorem filter_candidates_correct:
  assumes "limits_valid (rp_limits s)"
    and "eligible = ap_ordered (retain_eligible excluded clock ca ps policy)"
    and "\<And>c. preferred_used w now < from_millis (preferred_wait_ms (rp_config s)) \<Longrightarrow>
      preferred_candidate (retain_eligible excluded clock ca ps policy) = Some c \<Longrightarrow>
      blocked_until (for_target (cd_target c)) now s = None"
  shows "\<exists>p' s'. filter_candidates excluded clock ca ps now w policy s =
      Some (if eligible \<noteq> [] \<and> list_all (\<lambda>c. blocked_until (for_target (cd_target c)) now s \<noteq> None) eligible
            then Some (Min (set (List.map_filter (\<lambda>c. blocked_until (for_target (cd_target c)) now s) eligible)), False)
            else None, p', s')
    \<and> ap_ordered p' = filter (\<lambda>c. blocked_until (for_target (cd_target c)) now s = None) eligible"
proof -
  let ?p = "retain_eligible excluded clock ca ps policy"
  let ?b = "\<lambda>c. blocked_until (for_target (cd_target c)) now s"
  let ?dues = "List.map_filter ?b eligible"
  let ?first = "if from_millis (preferred_wait_ms (rp_config s)) - preferred_used w now = 0 then Some (None, s)
       else case preferred_candidate ?p of None \<Rightarrow> Some (None, s)
            | Some c \<Rightarrow> next_at (for_target (cd_target c)) now s"
  have "\<exists>t. ?first = Some (None, t) \<and> limits_valid (rp_limits t) \<and> (\<forall>k. blocked_until k now t = blocked_until k now s)"
  proof (cases "preferred_used w now < from_millis (preferred_wait_ms (rp_config s)) \<and> preferred_candidate ?p \<noteq> None")
    case True
    then obtain c where c: "preferred_candidate ?p = Some c" by blast
    let ?t = "pruned (for_target (cd_target c)) now s"
    have "?first = Some (None, ?t)" using assms(3) [OF _ c] True c by (simp add: next_at_eq [OF assms(1)])
    moreover have "limits_valid (rp_limits ?t)" using assms(1) by simp
    ultimately show ?thesis using blocked_pruned_other by blast
  next
    case False
    then have "?first = Some (None, s)" by (cases "preferred_candidate ?p") auto
    then show ?thesis using assms(1) by blast
  qed
  then obtain t where pref: "?first = Some (None, t)"
    and t: "limits_valid (rp_limits t)" "\<And>k. blocked_until k now t = blocked_until k now s"
    by blast
  obtain u where run: "retain_ready now None eligible t = Some (filter (\<lambda>c. ?b c = None) eligible,
      fold (\<lambda>due acc. Some (case acc of None \<Rightarrow> due | Some previous \<Rightarrow> min previous due)) ?dues None, u)"
    using retain_ready_eq [OF t(1), of now None eligible] by (auto simp: t(2))
  have least: "fold (\<lambda>due acc. Some (case acc of None \<Rightarrow> due | Some previous \<Rightarrow> min previous due)) ?dues None
      = (if ?dues = [] then None else Some (Min (set ?dues)))"
    by (cases ?dues) (simp_all add: fold_min_option)
  have dues: "?dues = [] \<longleftrightarrow> list_all (\<lambda>c. ?b c = None) eligible"
    by (induction eligible) (auto simp: List.map_filter_simps split: option.splits)
  have kept: "filter (\<lambda>c. ?b c = None) eligible = [] \<longleftrightarrow> list_all (\<lambda>c. ?b c \<noteq> None) eligible"
    by (simp add: filter_empty_conv list_all_iff)
  have "filter_candidates excluded clock ca ps now w policy s =
      Some (if filter (\<lambda>c. ?b c = None) eligible = []
            then map_option (\<lambda>due. (due, False)) (if ?dues = [] then None else Some (Min (set ?dues))) else None,
        ?p\<lparr>ap_ordered := filter (\<lambda>c. ?b c = None) eligible\<rparr>, u)"
    unfolding filter_candidates_def Let_def pref assms(2) [symmetric] by (simp add: run least)
  then show ?thesis
    unfolding kept using dues by (cases eligible) (auto simp: list_all_iff)
qed


definition busy_state :: rpm_state where
  "busy_state = default_rpm_state\<lparr>rp_limits := [(''p'', ''a'') \<mapsto> 1, (''p'', ''b'') \<mapsto> 1],
     rp_windows := [(''p'', ''a'') \<mapsto> [5], (''p'', ''b'') \<mapsto> [3]]\<rparr>"

theorem filter_candidates_correct_witness:
  "\<exists>p' s'. filter_candidates {} 5 no_attempts initial_state 10 no_wait sample_policy busy_state =
     Some (Some (3 + window_length, False), p', s') \<and> ap_ordered p' = []"
proof -
  let ?p = "retain_eligible {} 5 no_attempts initial_state sample_policy"
  have lv: "limits_valid (rp_limits busy_state)"
    by (simp add: limits_valid_def busy_state_def)
  have ordered: "map (\<lambda>c. for_target (cd_target c)) (ap_ordered ?p) = [(''p'', ''a''), (''p'', ''b'')]"
    by (simp add: retain_eligible_def sample_policy_def initial_state_def for_target_def sample_target_def Let_def)
  have none: "preferred_candidate ?p = None"
    by (simp add: preferred_candidate_def retain_eligible_def sample_policy_def Let_def)
  have b: "blocked_until (''p'', ''a'') 10 busy_state = Some (5 + window_length)"
    "blocked_until (''p'', ''b'') 10 busy_state = Some (3 + window_length)"
    by (simp_all add: blocked_until_def busy_state_def window_of_def recent_def window_length_def)
  obtain c d where cd: "ap_ordered ?p = [c, d]" "for_target (cd_target c) = (''p'', ''a'')"
    "for_target (cd_target d) = (''p'', ''b'')"
    using ordered by auto
  from filter_candidates_correct [OF lv refl, of no_wait 10 "{}" 5 no_attempts initial_state sample_policy]
  show ?thesis by (simp add: none cd b List.map_filter_simps List.map_filter_def)
qed



end
