(* ===== verification/RpmWaiting.thy ===== *)
theory RpmWaiting
  imports RpmLaws "HOL-Library.Multiset"
begin

text \<open>
  All the waits of all root requests over one admission state. A step is a wait that
  registers, the drop of a wait's guard (whatever ended its sleep), an operation on the
  limits or the windows, or the passing of time. Two ghost fields measure, for each root,
  how long it has been waiting (with at least one guard alive), in total and for its
  preferred target.
\<close>

section \<open>Steps\<close>

type_synonym guard = "nat \<times> bool \<times> instant"

record wait_world =
  ww_state :: rpm_state
  ww_roots :: "nat \<Rightarrow> root_wait"
  ww_guards :: "guard multiset"
  ww_clock :: instant
  ww_waited :: "nat \<Rightarrow> duration"
  ww_waited_preferred :: "nat \<Rightarrow> duration"

definition guards_of :: "nat \<Rightarrow> guard multiset \<Rightarrow> nat" where
  "guards_of r gs = size (filter_mset (\<lambda>g. fst g = r) gs)"

definition preferred_guards_of :: "nat \<Rightarrow> guard multiset \<Rightarrow> nat" where
  "preferred_guards_of r gs = size (filter_mset (\<lambda>g. fst g = r \<and> fst (snd g)) gs)"

text \<open>\<open>most\<close> bounds the queue capacity of every configuration of the run.\<close>

inductive wait_reachable :: "nat \<Rightarrow> wait_world \<Rightarrow> bool" for most :: nat where
  initial: "queue_capacity (rp_config s) \<le> most \<Longrightarrow> rp_waiting_roots s = 0 \<Longrightarrow>
    wait_reachable most \<lparr>ww_state = s, ww_roots = (\<lambda>_. no_wait), ww_guards = {#}, ww_clock = 0,
      ww_waited = (\<lambda>_. 0), ww_waited_preferred = (\<lambda>_. 0)\<rparr>"
| enter: "wait_reachable most w \<Longrightarrow>
    wait_enter (ww_clock w) next preferred version (ww_state w) (ww_roots w r) = (Waiting until :: unit wait_entry, s', v') \<Longrightarrow>
    wait_reachable most (w\<lparr>ww_state := s', ww_roots := (ww_roots w)(r := v'),
      ww_guards := add_mset (r, preferred, until) (ww_guards w)\<rparr>)"
| leave: "wait_reachable most w \<Longrightarrow> (r, preferred, until) \<in># ww_guards w \<Longrightarrow>
    wait_leave (ww_clock w) preferred (ww_state w) (ww_roots w r) = (s', v') \<Longrightarrow>
    wait_reachable most (w\<lparr>ww_state := s', ww_roots := (ww_roots w)(r := v'),
      ww_guards := ww_guards w - {#(r, preferred, until)#}\<rparr>)"
| admission: "wait_reachable most w \<Longrightarrow> rpm_step k event (ww_state w) = (out, s') \<Longrightarrow>
    queue_capacity (rp_config s') \<le> most \<Longrightarrow> wait_reachable most (w\<lparr>ww_state := s'\<rparr>)"
| tick: "wait_reachable most w \<Longrightarrow>
    wait_reachable most (w\<lparr>ww_clock := ww_clock w + d,
      ww_waited := (\<lambda>r. ww_waited w r + (if 0 < guards_of r (ww_guards w) then d else 0)),
      ww_waited_preferred := (\<lambda>r. ww_waited_preferred w r
        + (if 0 < preferred_guards_of r (ww_guards w) then d else 0))\<rparr>)"

section \<open>The invariant\<close>

definition root_inv :: "instant \<Rightarrow> guard multiset \<Rightarrow> nat \<Rightarrow> root_wait \<Rightarrow> bool" where
  "root_inv clock gs r v \<longleftrightarrow>
     rw_waiters v = guards_of r gs \<and> rw_preferred_waiters v = preferred_guards_of r gs
     \<and> (rw_started v = None \<longleftrightarrow> guards_of r gs = 0)
     \<and> (rw_preferred_started v = None \<longleftrightarrow> preferred_guards_of r gs = 0)
     \<and> (case rw_started v of None \<Rightarrow> True | Some t \<Rightarrow> t \<le> clock)
     \<and> (case rw_preferred_started v of None \<Rightarrow> True | Some t \<Rightarrow> t \<le> clock)"

definition wait_inv :: "nat \<Rightarrow> wait_world \<Rightarrow> bool" where
  "wait_inv most w \<longleftrightarrow>
     (\<forall>r. root_inv (ww_clock w) (ww_guards w) r (ww_roots w r)
        \<and> total_used (ww_roots w r) (ww_clock w) = ww_waited w r
        \<and> preferred_used (ww_roots w r) (ww_clock w) = ww_waited_preferred w r)
     \<and> rp_waiting_roots (ww_state w) = card (fst ` set_mset (ww_guards w))
     \<and> rp_waiting_roots (ww_state w) \<le> most \<and> queue_capacity (rp_config (ww_state w)) \<le> most"

lemma guards_of_zero: "guards_of r gs = 0 \<longleftrightarrow> r \<notin> fst ` set_mset gs"
  unfolding guards_of_def size_eq_0_iff_empty filter_mset_eq_mempty_iff image_iff by blast

lemma guards_of_add [simp]:
  "guards_of r (add_mset g gs) = guards_of r gs + (if fst g = r then 1 else 0)"
  "preferred_guards_of r (add_mset g gs) = preferred_guards_of r gs + (if fst g = r \<and> fst (snd g) then 1 else 0)"
  by (simp_all add: guards_of_def preferred_guards_of_def)

lemma preferred_le_guards: "preferred_guards_of r gs \<le> guards_of r gs"
  unfolding guards_of_def preferred_guards_of_def
  by (intro size_mset_mono filter_mset_mono_strong) simp_all

lemma wait_enter_waiting:
  assumes "wait_enter now next preferred version s v = (Waiting until, s', v')"
  shows "s' = (if rw_waiters v = 0 then s\<lparr>rp_waiting_roots := rp_waiting_roots s + 1\<rparr> else s)"
    "rw_waiters v = 0 \<Longrightarrow> rp_waiting_roots s < queue_capacity (rp_config s)"
    "v' = v\<lparr>rw_started := (if rw_waiters v = 0 then Some now else rw_started v), rw_waiters := rw_waiters v + 1,
       rw_preferred_started := (if preferred \<and> rw_preferred_waiters v = 0 then Some now else rw_preferred_started v),
       rw_preferred_waiters := (if preferred then rw_preferred_waiters v + 1 else rw_preferred_waiters v)\<rparr>"
  using assms by (auto simp: wait_enter_def Let_def split: if_splits)

lemma wait_leave_eq:
  "wait_leave now preferred s v =
     (if rw_waiters v \<le> 1 then s\<lparr>rp_waiting_roots := rp_waiting_roots s - 1\<rparr> else s,
      v\<lparr>rw_waiters := rw_waiters v - 1,
        rw_total := (if rw_waiters v \<le> 1 then total_used v now else rw_total v),
        rw_started := (if rw_waiters v \<le> 1 then None else rw_started v),
        rw_preferred_waiters := (if preferred then rw_preferred_waiters v - 1 else rw_preferred_waiters v),
        rw_preferred := (if preferred \<and> rw_preferred_waiters v \<le> 1 then preferred_used v now else rw_preferred v),
        rw_preferred_started := (if preferred \<and> rw_preferred_waiters v \<le> 1 then None else rw_preferred_started v)\<rparr>)"
  by (auto simp: wait_leave_def Let_def total_used_def preferred_used_def)

lemma root_inv_enter:
  assumes "root_inv now gs r v" and "wait_enter now next preferred version s v = (Waiting until, s', v')"
  shows "root_inv now (add_mset (r, preferred, until) gs) r v'"
    "total_used v' now = total_used v now" "preferred_used v' now = preferred_used v now"
  using assms(1) unfolding wait_enter_waiting(3) [OF assms(2)]
  by (auto simp: root_inv_def total_used_def preferred_used_def running_def split: option.splits)

lemma root_inv_leave:
  assumes "root_inv now (add_mset (r, preferred, until) gs) r v"
  shows "root_inv now gs r (snd (wait_leave now preferred s v))
    \<and> total_used (snd (wait_leave now preferred s v)) now = total_used v now
    \<and> preferred_used (snd (wait_leave now preferred s v)) now = preferred_used v now"
proof -
  have n: "rw_waiters v = guards_of r gs + 1" and started: "rw_started v \<noteq> None"
    and p: "rw_preferred_waiters v = preferred_guards_of r gs + (if preferred then 1 else 0)"
    and pstarted: "rw_preferred_started v = None \<longleftrightarrow> \<not> preferred \<and> preferred_guards_of r gs = 0"
    and past: "case rw_started v of None \<Rightarrow> True | Some t \<Rightarrow> t \<le> now"
      "case rw_preferred_started v of None \<Rightarrow> True | Some t \<Rightarrow> t \<le> now"
    using assms by (auto simp: root_inv_def)
  show ?thesis
    unfolding wait_leave_eq root_inv_def total_used_def preferred_used_def
    using n started p pstarted past
    by (cases "guards_of r gs = 0"; cases preferred; cases "preferred_guards_of r gs = 0")
      (simp_all add: running_def)
qed

lemma root_inv_other: "q \<noteq> r \<Longrightarrow> root_inv now (add_mset (r, p, u) gs) q v = root_inv now gs q v"
  by (simp add: root_inv_def)

lemma rpm_step_waiting_roots: "rp_waiting_roots (snd (rpm_step k e s)) = rp_waiting_roots s"
proof -
  have next_roots: "rp_waiting_roots t = rp_waiting_roots s" if "next_at key now s = Some (due, t)" for key now due t
    using that by (auto simp: next_at_def Let_def split: option.splits if_splits)
  show ?thesis
    by (cases e) (auto simp: record_send_def dest: next_roots split: option.splits sum.splits)
qed


lemma wait_inv_enter:
  assumes inv: "wait_inv most w"
    and run: "wait_enter (ww_clock w) next preferred version (ww_state w) (ww_roots w r) = (Waiting until, s', v')"
  shows "wait_inv most (w\<lparr>ww_state := s', ww_roots := (ww_roots w)(r := v'),
      ww_guards := add_mset (r, preferred, until) (ww_guards w)\<rparr>)"
proof -
  note parts = inv [unfolded wait_inv_def]
  have rv: "root_inv (ww_clock w) (ww_guards w) r (ww_roots w r)" using parts by blast
  have n: "rw_waiters (ww_roots w r) = 0 \<longleftrightarrow> r \<notin> fst ` set_mset (ww_guards w)"
    using rv guards_of_zero [of r "ww_guards w"] by (simp add: root_inv_def)
  have "rp_waiting_roots s' = card (insert r (fst ` set_mset (ww_guards w)))"
    using parts n by (auto simp: wait_enter_waiting(1) [OF run] insert_absorb)
  moreover have "rp_waiting_roots s' \<le> most" "rp_config s' = rp_config (ww_state w)"
    using parts wait_enter_waiting(1,2) [OF run] by auto
  ultimately show ?thesis
    using parts root_inv_enter [OF rv run] by (auto simp: wait_inv_def root_inv_other)
qed

lemma wait_inv_leave:
  assumes inv: "wait_inv most w" and mem: "(r, preferred, until) \<in># ww_guards w"
    and run: "wait_leave (ww_clock w) preferred (ww_state w) (ww_roots w r) = (s', v')"
  shows "wait_inv most (w\<lparr>ww_state := s', ww_roots := (ww_roots w)(r := v'),
      ww_guards := ww_guards w - {#(r, preferred, until)#}\<rparr>)"
proof -
  obtain gs where gs: "ww_guards w = add_mset (r, preferred, until) gs" using mem by (metis insert_DiffM)
  note parts = inv [unfolded wait_inv_def gs]
  have rv: "root_inv (ww_clock w) (add_mset (r, preferred, until) gs) r (ww_roots w r)" using parts by blast
  have s': "s' = (if rw_waiters (ww_roots w r) \<le> 1
      then (ww_state w)\<lparr>rp_waiting_roots := rp_waiting_roots (ww_state w) - 1\<rparr> else ww_state w)"
    using run by (auto simp: wait_leave_eq)
  have "rw_waiters (ww_roots w r) \<le> 1 \<longleftrightarrow> r \<notin> fst ` set_mset gs"
    using rv guards_of_zero [of r gs] by (simp add: root_inv_def)
  then have "rp_waiting_roots s' = card (fst ` set_mset gs)"
    using parts by (auto simp: s' insert_absorb)
  moreover have "rp_waiting_roots s' \<le> most" "rp_config s' = rp_config (ww_state w)"
    using parts by (auto simp: s')
  moreover have "root_inv (ww_clock w) gs r v'" "total_used v' (ww_clock w) = ww_waited w r"
    "preferred_used v' (ww_clock w) = ww_waited_preferred w r"
    using root_inv_leave [OF rv, of "ww_state w"] parts by (simp_all add: run)
  moreover have "root_inv (ww_clock w) gs q (ww_roots w q)" if "q \<noteq> r" for q
    using parts root_inv_other [OF that] by blast
  ultimately show ?thesis using parts by (auto simp: wait_inv_def gs)
qed

lemma root_inv_tick:
  assumes "root_inv now gs r v"
  shows "root_inv (now + d) gs r v"
    "total_used v (now + d) = total_used v now + (if 0 < guards_of r gs then d else 0)"
    "preferred_used v (now + d) = preferred_used v now + (if 0 < preferred_guards_of r gs then d else 0)"
  using assms
  by (auto simp: root_inv_def total_used_def preferred_used_def running_def split: option.splits)

lemma wait_reachable_inv: "wait_reachable most w \<Longrightarrow> wait_inv most w"
proof (induction rule: wait_reachable.induct)
  case (initial s)
  then show ?case
    by (auto simp: wait_inv_def root_inv_def no_wait_def guards_of_def preferred_guards_of_def
        total_used_def preferred_used_def running_def)
next
  case (enter w "next" preferred version r until s' v')
  then show ?case by (intro wait_inv_enter)
next
  case (leave w r preferred until s' v')
  then show ?case by (intro wait_inv_leave)
next
  case (admission w k event out s')
  then have "rp_waiting_roots s' = rp_waiting_roots (ww_state w)"
    using rpm_step_waiting_roots [of k event "ww_state w"] by simp
  with admission show ?case by (simp add: wait_inv_def)
next
  case (tick w d)
  then have "root_inv (ww_clock w) (ww_guards w) r (ww_roots w r)" for r by (simp add: wait_inv_def)
  note root_inv_tick [OF this]
  with tick show ?case by (simp add: wait_inv_def)
qed

text \<open>A run: a root request waits twice at the same time, for five nanoseconds.\<close>

lemma two_waits:
  "\<exists>w. wait_reachable 128 w \<and> guards_of 0 (ww_guards w) = 2 \<and> fst ` set_mset (ww_guards w) = {0}
     \<and> ww_waited w 0 = 5 \<and> preferred_guards_of 0 (ww_guards w) = 1"
proof -
  let ?w0 = "\<lparr>ww_state = default_rpm_state, ww_roots = (\<lambda>_. no_wait), ww_guards = {#}, ww_clock = 0,
      ww_waited = (\<lambda>_. 0), ww_waited_preferred = (\<lambda>_. 0)\<rparr>"
  have "wait_reachable 128 ?w0"
    by (rule wait_reachable.initial) (simp_all add: default_rpm_state_def default_rpm_config_def)
  moreover obtain u s v where one: "wait_enter (ww_clock ?w0) 9 True 0 (ww_state ?w0) (ww_roots ?w0 0)
      = (Waiting u :: unit wait_entry, s, v)"
    by (simp add: wait_enter_def default_rpm_state_def default_rpm_config_def no_wait_def total_used_def
        preferred_used_def running_def from_millis_def Let_def)
  ultimately have r1: "wait_reachable 128 (?w0\<lparr>ww_state := s, ww_roots := (ww_roots ?w0)(0 := v),
      ww_guards := {#(0, True, u)#}\<rparr>)" (is "wait_reachable _ ?w1")
    using wait_reachable.enter by fastforce
  have "\<exists>u' s' v'. wait_enter (ww_clock ?w1) 9 False 0 (ww_state ?w1) (ww_roots ?w1 0)
      = (Waiting u' :: unit wait_entry, s', v')"
    unfolding wait_enter_waiting(1,3) [OF one]
    by (simp add: wait_enter_def default_rpm_state_def default_rpm_config_def no_wait_def total_used_def
        preferred_used_def running_def from_millis_def Let_def)
  then obtain u' s' v' where "wait_enter (ww_clock ?w1) 9 False 0 (ww_state ?w1) (ww_roots ?w1 0)
      = (Waiting u' :: unit wait_entry, s', v')" by blast
  from wait_reachable.tick [OF wait_reachable.enter [OF r1 this], of 5] show ?thesis
    by (intro exI conjI) (assumption, simp_all add: guards_of_def preferred_guards_of_def)
qed

section \<open>Properties\<close>

text \<open>
  C24: the accounting of waits. However waits of many requests overlap, the counter of
  waiting roots is the number of root requests with a wait in progress, it never exceeds
  the largest queue capacity that was configured, and a root's own counter is the number
  of its waits; so no counter ever goes below zero when a wait ends.
\<close>

theorem wait_accounting:
  assumes "wait_reachable most w"
  shows "rp_waiting_roots (ww_state w) = card (fst ` set_mset (ww_guards w))
    \<and> rp_waiting_roots (ww_state w) \<le> most
    \<and> rw_waiters (ww_roots w r) = guards_of r (ww_guards w)
    \<and> rw_preferred_waiters (ww_roots w r) = preferred_guards_of r (ww_guards w)"
  using wait_reachable_inv [OF assms] by (simp add: wait_inv_def root_inv_def)

theorem wait_accounting_witness:
  "\<exists>w. wait_reachable 128 w \<and> rp_waiting_roots (ww_state w) = 1 \<and> rw_waiters (ww_roots w 0) = 2"
proof -
  obtain w where w: "wait_reachable 128 w" "guards_of 0 (ww_guards w) = 2" "fst ` set_mset (ww_guards w) = {0}"
    using two_waits by blast
  from wait_accounting [OF w(1), of 0] w show ?thesis by (intro exI [of _ w]) simp
qed

text \<open>
  C36: waiting time is charged once. The time a root request has used of its total and of
  its preferred wait budget is exactly the time during which it had at least one wait (of
  that kind) in progress, however many of its waits ran at the same time.
\<close>

theorem wait_time_charged_once:
  assumes "wait_reachable most w"
  shows "total_used (ww_roots w r) (ww_clock w) = ww_waited w r
    \<and> preferred_used (ww_roots w r) (ww_clock w) = ww_waited_preferred w r"
  using wait_reachable_inv [OF assms] by (simp add: wait_inv_def)

theorem wait_time_charged_once_witness:
  "\<exists>w. wait_reachable 128 w \<and> rw_waiters (ww_roots w 0) = 2 \<and> total_used (ww_roots w 0) (ww_clock w) = 5"
proof -
  obtain w where w: "wait_reachable 128 w" "guards_of 0 (ww_guards w) = 2" "ww_waited w 0 = 5"
    using two_waits by blast
  have "rw_waiters (ww_roots w 0) = 2"
    using wait_reachable_inv [OF w(1)] w(2) by (simp add: wait_inv_def root_inv_def)
  with wait_time_charged_once [OF w(1), of 0] w show ?thesis by (intro exI [of _ w]) simp
qed

end
