(* ===== verification/RetryIdentity.thy ===== *)
theory RetryIdentity
  imports Prelude "HOL-Library.Multiset" "HOL-Library.Char_ord" "HOL-Library.List_Lexorder"
    "HOL-Library.Product_Lexorder"
begin

text \<open>
  The retry identity of a canonical request
  (\<open>stravia-runtime-contract/src/protocol/ir/canonical/retry.rs\<close>): a serde serializer that
  folds the whole request into a SHA-256 digest, sorting the entries of every object and
  leaving out the request id of the session. The value serialized is the tree of serde
  calls; SHA-256 and the JSON text of a string are arguments. The specification is a
  canonical form with multisets for objects; the property is that two requests have the
  same identity exactly when they have the same canonical form, as long as SHA-256 does not
  collide on the inputs hashed for them.
\<close>

section \<open>Values as the serializer sees them\<close>

text \<open>
  \<open>SScalar\<close> carries the JSON text of a boolean, number, character or string. \<open>SWrapped\<close>
  is \<open>Some(v)\<close> or a newtype struct, \<open>SNull\<close> is \<open>None\<close>, a unit or a unit struct.
  \<open>SSeq\<close> is a sequence, tuple or tuple struct, or with a variant name a tuple variant;
  \<open>SObject\<close> a map (no name), a struct, or with a variant name a struct variant. Its
  contents are the calls made: \<open>serialize_key\<close>, \<open>serialize_value\<close>, and
  \<open>serialize_entry\<close> or \<open>serialize_field\<close>, with the JSON text of the key.
\<close>

datatype sval =
    SScalar string
  | SBytes "u8 list"
  | SNull
  | SWrapped sval
  | SUnitVariant string
  | SNewtypeVariant string sval
  | SSeq "string option" "sval list"
  | SObject "string option" "string option" "scall list"
and scall = CKey string | CValue sval | CEntry string sval

datatype path = PRequest | PParameters | PSession | POther

datatype retry_error = MapValueMissing | MapKeyRepeated | MapKeyMissing

section \<open>Digests\<close>

text \<open>\<open>u64::to_le_bytes\<close>.\<close>

fun le_bytes :: "nat \<Rightarrow> nat \<Rightarrow> string" where
  "le_bytes 0 n = []"
| "le_bytes (Suc k) n = char_of (n mod 256) # le_bytes k (n div 256)"

definition le64 :: "nat \<Rightarrow> string" where
  "le64 n = le_bytes 8 n"

definition scalar_hash :: "(string \<Rightarrow> string) \<Rightarrow> string \<Rightarrow> string" where
  "scalar_hash sha text = sha (''scalar:'' @ text)"

definition variant_hash :: "(string \<Rightarrow> string) \<Rightarrow> (string \<Rightarrow> string) \<Rightarrow> string \<Rightarrow> string \<Rightarrow> string" where
  "variant_hash sha js variant v = sha (''variant:'' @ scalar_hash sha (js variant) @ v)"

definition with_variant ::
  "(string \<Rightarrow> string) \<Rightarrow> (string \<Rightarrow> string) \<Rightarrow> string option \<Rightarrow> string \<Rightarrow> string" where
  "with_variant sha js variant h = (case variant of None \<Rightarrow> h | Some v \<Rightarrow> variant_hash sha js v h)"

definition sequence_finish ::
  "(string \<Rightarrow> string) \<Rightarrow> (string \<Rightarrow> string) \<Rightarrow> string option \<Rightarrow> string list \<Rightarrow> string" where
  "sequence_finish sha js variant ds =
     with_variant sha js variant (sha (''sequence:'' @ concat ds @ le64 (length ds)))"

definition object_input :: "string \<Rightarrow> (string \<times> string) list \<Rightarrow> string" where
  "object_input name entries =
     ''object:'' @ le64 (length name) @ name @ le64 (length entries)
       @ concat (map (\<lambda>(k, v). k @ v) entries)"

definition object_finish ::
  "(string \<Rightarrow> string) \<Rightarrow> (string \<Rightarrow> string) \<Rightarrow> string option \<Rightarrow> string option
     \<Rightarrow> string option \<Rightarrow> (string \<times> string) list \<Rightarrow> retry_error + string" where
  "object_finish sha js name variant pending_key entries =
     (if pending_key \<noteq> None then Inl MapValueMissing
      else Inr (with_variant sha js variant
        (sha (object_input (case name of None \<Rightarrow> [] | Some n \<Rightarrow> n) (sort entries)))))"

definition key_of :: "(string \<Rightarrow> string) \<Rightarrow> (string \<Rightarrow> string) \<Rightarrow> string \<Rightarrow> string" where
  "key_of sha js name = scalar_hash sha (js name)"

definition skipped :: "(string \<Rightarrow> string) \<Rightarrow> (string \<Rightarrow> string) \<Rightarrow> path \<Rightarrow> string \<Rightarrow> bool" where
  "skipped sha js p key \<longleftrightarrow> p = PSession \<and> key = key_of sha js ''request_id''"

definition child_path :: "(string \<Rightarrow> string) \<Rightarrow> (string \<Rightarrow> string) \<Rightarrow> path \<Rightarrow> string \<Rightarrow> path" where
  "child_path sha js p key =
     (if p = PRequest \<and> key = key_of sha js ''parameters'' then PParameters
      else if p = PParameters \<and> key = key_of sha js ''session'' then PSession
      else POther)"

section \<open>The serializer\<close>

fun identity :: "(string \<Rightarrow> string) \<Rightarrow> (string \<Rightarrow> string) \<Rightarrow> path \<Rightarrow> sval \<Rightarrow> retry_error + string"
  and elements :: "(string \<Rightarrow> string) \<Rightarrow> (string \<Rightarrow> string) \<Rightarrow> sval list \<Rightarrow> retry_error + string list"
  and calls :: "(string \<Rightarrow> string) \<Rightarrow> (string \<Rightarrow> string) \<Rightarrow> path \<Rightarrow> string option \<Rightarrow> scall list
     \<Rightarrow> retry_error + (string option \<times> (string \<times> string) list)"
where
  "identity sha js p (SScalar text) = Inr (scalar_hash sha text)"
| "identity sha js p (SBytes bs) =
     Inr (sequence_finish sha js None (map (\<lambda>b. scalar_hash sha (show_nat (unat b))) bs))"
| "identity sha js p SNull = Inr (scalar_hash sha ''null'')"
| "identity sha js p (SWrapped v) = identity sha js p v"
| "identity sha js p (SUnitVariant variant) = Inr (scalar_hash sha (js variant))"
| "identity sha js p (SNewtypeVariant variant v) =
     res_bind (identity sha js POther v) (\<lambda>h. Inr (variant_hash sha js variant h))"
| "identity sha js p (SSeq variant vs) =
     res_bind (elements sha js vs) (\<lambda>ds. Inr (sequence_finish sha js variant ds))"
| "identity sha js p (SObject name variant cs) =
     res_bind (calls sha js p None cs)
       (\<lambda>(pending, entries). object_finish sha js name variant pending entries)"
| "elements sha js [] = Inr []"
| "elements sha js (v # vs) =
     res_bind (identity sha js POther v) (\<lambda>d. res_bind (elements sha js vs) (\<lambda>ds. Inr (d # ds)))"
| "calls sha js p pending [] = Inr (pending, [])"
| "calls sha js p pending (CKey text # cs) =
     (if pending \<noteq> None then Inl MapKeyRepeated
      else calls sha js p (Some (scalar_hash sha text)) cs)"
| "calls sha js p pending (CValue v # cs) =
     (case pending of
        None \<Rightarrow> Inl MapKeyMissing
      | Some key \<Rightarrow>
          if skipped sha js p key then calls sha js p None cs
          else res_bind (identity sha js (child_path sha js p key) v)
            (\<lambda>d. res_bind (calls sha js p None cs)
              (\<lambda>(pending, entries). Inr (pending, (key, d) # entries))))"
| "calls sha js p pending (CEntry text v # cs) =
     (if skipped sha js p (scalar_hash sha text) then calls sha js p pending cs
      else res_bind (identity sha js (child_path sha js p (scalar_hash sha text)) v)
        (\<lambda>d. res_bind (calls sha js p pending cs)
          (\<lambda>(pending, entries). Inr (pending, (scalar_hash sha text, d) # entries))))"

definition request_hash ::
  "(string \<Rightarrow> string) \<Rightarrow> (string \<Rightarrow> string) \<Rightarrow> sval \<Rightarrow> retry_error + string" where
  "request_hash sha js request = identity sha js PRequest request"

section \<open>Canonical forms\<close>

datatype norm =
    NScalar string
  | NSeq "norm list"
  | NObject string "(string \<times> norm) multiset"
  | NVariant string norm

definition norm_variant :: "(string \<Rightarrow> string) \<Rightarrow> string option \<Rightarrow> norm \<Rightarrow> norm" where
  "norm_variant js variant n = (case variant of None \<Rightarrow> n | Some v \<Rightarrow> NVariant (js v) n)"

definition norm_skipped :: "(string \<Rightarrow> string) \<Rightarrow> path \<Rightarrow> string \<Rightarrow> bool" where
  "norm_skipped js p text \<longleftrightarrow> p = PSession \<and> text = js ''request_id''"

definition norm_child :: "(string \<Rightarrow> string) \<Rightarrow> path \<Rightarrow> string \<Rightarrow> path" where
  "norm_child js p text =
     (if p = PRequest \<and> text = js ''parameters'' then PParameters
      else if p = PParameters \<and> text = js ''session'' then PSession
      else POther)"

fun canon :: "(string \<Rightarrow> string) \<Rightarrow> path \<Rightarrow> sval \<Rightarrow> norm"
  and canon_calls :: "(string \<Rightarrow> string) \<Rightarrow> path \<Rightarrow> string option \<Rightarrow> scall list \<Rightarrow> (string \<times> norm) list"
where
  "canon js p (SScalar text) = NScalar text"
| "canon js p (SBytes bs) = NSeq (map (\<lambda>b. NScalar (show_nat (unat b))) bs)"
| "canon js p SNull = NScalar ''null''"
| "canon js p (SWrapped v) = canon js p v"
| "canon js p (SUnitVariant variant) = NScalar (js variant)"
| "canon js p (SNewtypeVariant variant v) = NVariant (js variant) (canon js POther v)"
| "canon js p (SSeq variant vs) = norm_variant js variant (NSeq (map (canon js POther) vs))"
| "canon js p (SObject name variant cs) =
     norm_variant js variant
       (NObject (case name of None \<Rightarrow> [] | Some n \<Rightarrow> n) (mset (canon_calls js p None cs)))"
| "canon_calls js p pending [] = []"
| "canon_calls js p pending (CKey text # cs) = canon_calls js p (Some text) cs"
| "canon_calls js p pending (CValue v # cs) =
     (case pending of
        None \<Rightarrow> []
      | Some text \<Rightarrow>
          if norm_skipped js p text then canon_calls js p None cs
          else (text, canon js (norm_child js p text) v) # canon_calls js p None cs)"
| "canon_calls js p pending (CEntry text v # cs) =
     (if norm_skipped js p text then canon_calls js p pending cs
      else (text, canon js (norm_child js p text) v) # canon_calls js p pending cs)"

text \<open>The calls serde makes: values follow keys, and no key is left over.\<close>

fun well_called :: "sval \<Rightarrow> bool"
  and well_calls :: "bool \<Rightarrow> scall list \<Rightarrow> bool" where
  "well_called (SScalar text) = True"
| "well_called (SBytes bs) = True"
| "well_called SNull = True"
| "well_called (SWrapped v) = well_called v"
| "well_called (SUnitVariant variant) = True"
| "well_called (SNewtypeVariant variant v) = well_called v"
| "well_called (SSeq variant vs) = list_all well_called vs"
| "well_called (SObject name variant cs) = well_calls False cs"
| "well_calls pending [] = (\<not> pending)"
| "well_calls pending (CKey text # cs) = (\<not> pending \<and> well_calls True cs)"
| "well_calls pending (CValue v # cs) = (pending \<and> well_called v \<and> well_calls False cs)"
| "well_calls pending (CEntry text v # cs) = (well_called v \<and> well_calls pending cs)"

text \<open>The key texts occurring in a value.\<close>

fun key_texts :: "sval \<Rightarrow> string set"
  and call_texts :: "scall \<Rightarrow> string set" where
  "key_texts (SScalar text) = {}"
| "key_texts (SBytes bs) = {}"
| "key_texts SNull = {}"
| "key_texts (SWrapped v) = key_texts v"
| "key_texts (SUnitVariant variant) = {}"
| "key_texts (SNewtypeVariant variant v) = key_texts v"
| "key_texts (SSeq variant vs) = (\<Union>v \<in> set vs. key_texts v)"
| "key_texts (SObject name variant cs) = (\<Union>c \<in> set cs. call_texts c)"
| "call_texts (CKey text) = {text}"
| "call_texts (CValue v) = key_texts v"
| "call_texts (CEntry text v) = insert text (key_texts v)"


section \<open>The digest of a canonical form\<close>

primrec digest :: "(string \<Rightarrow> string) \<Rightarrow> norm \<Rightarrow> string" where
  "digest sha (NScalar text) = scalar_hash sha text"
| "digest sha (NSeq ns) =
     sha (''sequence:'' @ concat (map (digest sha) ns) @ le64 (length ns))"
| "digest sha (NObject name M) =
     sha (object_input name (sorted_list_of_multiset
       (image_mset (map_prod (scalar_hash sha) id) (image_mset (map_prod id (digest sha)) M))))"
| "digest sha (NVariant text n) = sha (''variant:'' @ scalar_hash sha text @ digest sha n)"

text \<open>The inputs SHA-256 is applied to for a canonical form.\<close>

primrec inputs :: "(string \<Rightarrow> string) \<Rightarrow> norm \<Rightarrow> string set" where
  "inputs sha (NScalar text) = {''scalar:'' @ text}"
| "inputs sha (NSeq ns) =
     insert (''sequence:'' @ concat (map (digest sha) ns) @ le64 (length ns))
       (\<Union> (set (map (inputs sha) ns)))"
| "inputs sha (NObject name M) =
     insert (object_input name (sorted_list_of_multiset
         (image_mset (map_prod (scalar_hash sha) id) (image_mset (map_prod id (digest sha)) M))))
       ((\<lambda>e. ''scalar:'' @ fst e) ` set_mset M
         \<union> \<Union> (snd ` set_mset (image_mset (map_prod id (inputs sha)) M)))"
| "inputs sha (NVariant text n) =
     {''variant:'' @ scalar_hash sha text @ digest sha n, ''scalar:'' @ text} \<union> inputs sha n"

definition path_texts :: "(string \<Rightarrow> string) \<Rightarrow> string set" where
  "path_texts js = {js ''parameters'', js ''session'', js ''request_id''}"

text \<open>Everything hashed for a request.\<close>

definition hashed :: "(string \<Rightarrow> string) \<Rightarrow> (string \<Rightarrow> string) \<Rightarrow> sval \<Rightarrow> string set" where
  "hashed sha js v =
     inputs sha (canon js PRequest v) \<union> (\<lambda>t. ''scalar:'' @ t) ` (key_texts v \<union> path_texts js)"

text \<open>No key text collides with one of the three the paths look for.\<close>

definition key_distinct :: "(string \<Rightarrow> string) \<Rightarrow> (string \<Rightarrow> string) \<Rightarrow> string \<Rightarrow> bool" where
  "key_distinct sha js t \<longleftrightarrow>
     (\<forall>t' \<in> path_texts js. scalar_hash sha t = scalar_hash sha t' \<longrightarrow> t = t')"

abbreviation keys_distinct :: "(string \<Rightarrow> string) \<Rightarrow> (string \<Rightarrow> string) \<Rightarrow> string set \<Rightarrow> bool" where
  "keys_distinct sha js T \<equiv> \<forall>t \<in> T. key_distinct sha js t"

lemma paths_agree:
  assumes "key_distinct sha js t"
  shows "skipped sha js p (scalar_hash sha t) = norm_skipped js p t"
    "child_path sha js p (scalar_hash sha t) = norm_child js p t"
  using assms
  by (auto simp: key_distinct_def path_texts_def skipped_def norm_skipped_def child_path_def
      norm_child_def key_of_def)

definition entry_digest :: "(string \<Rightarrow> string) \<Rightarrow> string \<times> norm \<Rightarrow> string \<times> string" where
  "entry_digest sha e = (scalar_hash sha (fst e), digest sha (snd e))"

lemma digest_object:
  "digest sha (NObject name M)
   = sha (object_input name (sorted_list_of_multiset (image_mset (entry_digest sha) M)))"
  by (simp add: image_mset.compositionality comp_def entry_digest_def [abs_def] map_prod_def
      split_beta)

lemma digest_norm_variant:
  "digest sha (norm_variant js variant n) = with_variant sha js variant (digest sha n)"
  by (simp add: norm_variant_def with_variant_def variant_hash_def split: option.split)

lemma identity_canon:
  "well_called v \<Longrightarrow> keys_distinct sha js (key_texts v) \<Longrightarrow>
     identity sha js p v = Inr (digest sha (canon js p v))"
  "list_all well_called vs \<Longrightarrow> keys_distinct sha js (\<Union>v \<in> set vs. key_texts v) \<Longrightarrow>
     elements sha js vs = Inr (map (\<lambda>v. digest sha (canon js POther v)) vs)"
  "pending = map_option (scalar_hash sha) pt \<Longrightarrow> well_calls (pt \<noteq> None) cs \<Longrightarrow>
     keys_distinct sha js ((\<Union>c \<in> set cs. call_texts c) \<union> set_option pt) \<Longrightarrow>
     calls sha js p pending cs = Inr (None, map (entry_digest sha) (canon_calls js p pt cs))"
proof (induction sha js p v and sha js vs and sha js p pending cs arbitrary: pt and pt and pt
    rule: identity_elements_calls.induct)
  case (2 sha js p bs)
  then show ?case by (simp add: sequence_finish_def with_variant_def comp_def)
next
  case (6 sha js p variant v)
  then show ?case by (simp add: variant_hash_def)
next
  case (7 sha js p variant vs)
  then show ?case by (simp add: sequence_finish_def digest_norm_variant comp_def)
next
  case (8 sha js p name variant cs)
  have "calls sha js p None cs = Inr (None, map (entry_digest sha) (canon_calls js p None cs))"
    using "8.prems" by (intro "8.IH") simp_all
  then show ?case
    unfolding canon.simps digest_norm_variant digest_object
    by (simp add: object_finish_def flip: mset_map)
next
  case (12 sha js p pending t cs)
  from "12.prems"(1,2) have none: "pt = None" "pending = None" by simp_all
  have "calls sha js p (Some (scalar_hash sha t)) cs
      = Inr (None, map (entry_digest sha) (canon_calls js p (Some t) cs))"
  proof (rule "12.IH")
    show "\<not> pending \<noteq> None" using none by simp
    show "Some (scalar_hash sha t) = map_option (scalar_hash sha) (Some t)" by simp
    show "well_calls (Some t \<noteq> None) cs" using "12.prems"(2) none by simp
    show "keys_distinct sha js (\<Union> (call_texts ` set cs) \<union> set_option (Some t))"
      using "12.prems"(3) none by simp
  qed
  with none show ?case by simp
next
  case (13 sha js p pending v cs)
  from "13.prems"(1,2) obtain t where t: "pt = Some t" "pending = Some (scalar_hash sha t)" by auto
  note agree = paths_agree [of sha js t p]
  have kd: "key_distinct sha js t" using "13.prems"(3) t(1) by simp
  have rest: "calls sha js p None cs = Inr (None, map (entry_digest sha) (canon_calls js p None cs))"
    if "norm_skipped js p t"
    using "13.prems" t agree [OF kd] that by (intro "13.IH"(1)) auto
  show ?case
  proof (cases "norm_skipped js p t")
    case True
    with rest t agree [OF kd] show ?thesis by simp
  next
    case False
    have v: "identity sha js (norm_child js p t) v = Inr (digest sha (canon js (norm_child js p t) v))"
      using "13.prems" t agree [OF kd] False "13.IH"(2) [of "scalar_hash sha t"] by simp
    have r: "calls sha js p None cs = Inr (None, map (entry_digest sha) (canon_calls js p None cs))"
      using "13.prems" t agree [OF kd] False by (intro "13.IH"(3)) auto
    from v r t agree [OF kd] False show ?thesis by (simp add: entry_digest_def)
  qed
next
  case (14 sha js p pending t v cs)
  have kd: "key_distinct sha js t" "keys_distinct sha js (key_texts v)"
    "keys_distinct sha js (\<Union> (call_texts ` set cs) \<union> set_option pt)"
    using "14.prems"(3) by simp_all
  have wc: "well_called v" "well_calls (pt \<noteq> None) cs" using "14.prems"(2) by simp_all
  note agree = paths_agree [OF kd(1), of p]
  show ?case
  proof (cases "norm_skipped js p t")
    case True
    then have "calls sha js p pending cs = Inr (None, map (entry_digest sha) (canon_calls js p pt cs))"
      using "14.IH"(1) [OF _ "14.prems"(1) wc(2) kd(3)] agree by simp
    with True agree show ?thesis by simp
  next
    case False
    then have "calls sha js p pending cs = Inr (None, map (entry_digest sha) (canon_calls js p pt cs))"
      using "14.IH"(3) [OF _ "14.prems"(1) wc(2) kd(3)] agree by simp
    moreover have "identity sha js (norm_child js p t) v = Inr (digest sha (canon js (norm_child js p t) v))"
      using "14.IH"(2) [OF _ wc(1) kd(2)] agree False by simp
    ultimately show ?thesis using False agree by (simp add: entry_digest_def)
  qed
qed (simp_all)


section \<open>Equal digests come from equal forms\<close>

text \<open>Names fit the 64-bit length field.\<close>

primrec fits :: "norm \<Rightarrow> bool" where
  "fits (NScalar t) = True"
| "fits (NSeq ns) = list_all id (map fits ns)"
| "fits (NObject name M) =
     (length name < 2 ^ 64 \<and> False \<notin># image_mset snd (image_mset (map_prod id fits) M))"
| "fits (NVariant t n) = fits n"

lemma fits_object: "fits (NObject name M) \<longleftrightarrow> length name < 2 ^ 64 \<and> (\<forall>e \<in># M. fits (snd e))"
  by (force simp: image_mset.compositionality)

lemma length_le_bytes [simp]: "length (le_bytes k n) = k"
  by (induction k arbitrary: n) simp_all

lemma length_le64 [simp]: "length (le64 n) = 8"
  by (simp add: le64_def)

lemma le_bytes_inj:
  assumes "le_bytes k a = le_bytes k b" "a < 256 ^ k" "b < 256 ^ k"
  shows "a = b"
  using assms
proof (induction k arbitrary: a b)
  case (Suc k)
  have "of_char (char_of (a mod 256) :: char) = (of_char (char_of (b mod 256) :: char) :: nat)"
    using Suc.prems(1) by (simp only: le_bytes.simps list.inject)
  then have m: "a mod 256 = b mod 256" by simp
  have "a div 256 = b div 256"
    using Suc.prems by (intro Suc.IH) (auto simp: less_mult_imp_div_less mult.commute)
  with m show ?case by (metis div_mult_mod_eq)
qed simp

lemma le64_inj: "le64 a = le64 b \<Longrightarrow> a < 2 ^ 64 \<Longrightarrow> b < 2 ^ 64 \<Longrightarrow> a = b"
  using le_bytes_inj [of 8 a b] by (simp add: le64_def power_mult [of 2 8 8, simplified])

lemma concat_blocks_inj:
  assumes "concat xs = concat ys" "\<forall>x \<in> set xs. length x = k" "\<forall>y \<in> set ys. length y = k" "0 < k"
  shows "xs = ys"
  using assms
proof (induction xs arbitrary: ys)
  case Nil
  then show ?case by (cases ys) auto
next
  case (Cons x xs)
  then show ?case by (cases ys) auto
qed

lemma length_concat_blocks: "\<forall>x \<in> set xs. length x = k \<Longrightarrow> length (concat xs) = k * length xs"
  by (induction xs) simp_all

lemma image_mset_inj_eq:
  assumes "image_mset f M = image_mset f N" "inj_on f (set_mset M \<union> set_mset N)"
  shows "M = N"
proof -
  let ?g = "inv_into (set_mset M \<union> set_mset N) f"
  have "image_mset (?g \<circ> f) M = image_mset (?g \<circ> f) N"
    using assms(1) by (metis multiset.map_comp)
  moreover have "image_mset (?g \<circ> f) K = K" if "set_mset K \<subseteq> set_mset M \<union> set_mset N" for K
  proof -
    have "image_mset (?g \<circ> f) K = image_mset id K"
      using that assms(2) by (intro image_mset_cong) (auto simp: inv_into_f_f)
    then show ?thesis by simp
  qed
  ultimately show ?thesis by simp
qed

lemma sorted_list_of_multiset_inj:
  "sorted_list_of_multiset M = sorted_list_of_multiset N \<longleftrightarrow> M = N"
  by (metis mset_sorted_list_of_multiset)

definition digest_size :: "(string \<Rightarrow> string) \<Rightarrow> bool" where
  "digest_size sha \<longleftrightarrow> (\<forall>x. length (sha x) = 32)"

lemma digest_length: "digest_size sha \<Longrightarrow> length (digest sha n) = 32"
  by (cases n) (simp_all add: digest_size_def scalar_hash_def)

lemma scalar_length: "digest_size sha \<Longrightarrow> length (scalar_hash sha t) = 32"
  by (simp add: digest_size_def scalar_hash_def)

lemma object_input_inj:
  assumes "object_input n es = object_input n' es'" "length n < 2 ^ 64" "length n' < 2 ^ 64"
    and blocks: "\<forall>e \<in> set es \<union> set es'. length (fst e) = 32 \<and> length (snd e) = 32"
  shows "n = n' \<and> es = es'"
proof -
  have eq: "le64 (length n) @ n @ le64 (length es) @ concat (map (\<lambda>(k, v). k @ v) es)
      = le64 (length n') @ n' @ le64 (length es') @ concat (map (\<lambda>(k, v). k @ v) es')"
    using assms(1) by (simp add: object_input_def)
  then have "le64 (length n) = le64 (length n')" by simp
  then have l: "length n = length n'" using assms(2,3) le64_inj by blast
  with eq have nn: "n = n'" and c: "concat (map (\<lambda>(k, v). k @ v) es) = concat (map (\<lambda>(k, v). k @ v) es')"
    by simp_all
  have blk: "length (case e of (k, v) \<Rightarrow> k @ v) = 64" if "e \<in> set es \<union> set es'" for e
    using bspec [OF blocks that] by (cases e) simp
  have "map (\<lambda>(k, v). k @ v) es = map (\<lambda>(k, v). k @ v) es'"
    by (rule concat_blocks_inj [OF c, of 64]) (use blk in auto)
  moreover have "inj_on (\<lambda>(k, v). k @ v) (set es \<union> set es')"
  proof (rule inj_onI)
    fix e e' assume e: "e \<in> set es \<union> set es'" "e' \<in> set es \<union> set es'"
      and eq: "(case e of (k, v) \<Rightarrow> k @ v) = (case e' of (k, v) \<Rightarrow> k @ v)"
    with bspec [OF blocks e(1)] bspec [OF blocks e(2)] show "e = e'"
      by (cases e; cases e') simp
  qed
  ultimately have "es = es'" by (simp add: inj_on_map_eq_map)
  with nn show ?thesis by simp
qed


lemma sequence_input_inj:
  assumes "concat ds @ le64 (length ds) = concat ds' @ le64 (length ds')"
    and blocks: "\<forall>d \<in> set ds. length d = 32" "\<forall>d \<in> set ds'. length d = 32"
  shows "ds = ds'"
proof -
  have "concat ds = concat ds'"
    using assms(1) length_append [of "concat ds" "le64 (length ds)"]
      length_append [of "concat ds'" "le64 (length ds')"]
    by (metis append_eq_append_conv length_le64)
  then show ?thesis by (rule concat_blocks_inj) (use blocks in auto)
qed

definition top_input :: "(string \<Rightarrow> string) \<Rightarrow> norm \<Rightarrow> string" where
  "top_input sha n =
     (case n of
        NScalar t \<Rightarrow> ''scalar:'' @ t
      | NSeq ns \<Rightarrow> ''sequence:'' @ concat (map (digest sha) ns) @ le64 (length ns)
      | NObject name M \<Rightarrow> object_input name (sorted_list_of_multiset (image_mset (entry_digest sha) M))
      | NVariant t n \<Rightarrow> ''variant:'' @ scalar_hash sha t @ digest sha n)"

lemma digest_top: "digest sha n = sha (top_input sha n)"
  by (cases n) (simp_all add: top_input_def scalar_hash_def digest_object del: digest.simps(3))

lemma inputs_object:
  "inputs sha (NObject name M) =
     insert (object_input name (sorted_list_of_multiset (image_mset (entry_digest sha) M)))
       ((\<lambda>e. ''scalar:'' @ fst e) ` set_mset M \<union> (\<Union>e \<in> set_mset M. inputs sha (snd e)))"
  by (simp add: image_mset.compositionality comp_def entry_digest_def [abs_def] map_prod_def
      split_beta image_image)

lemma scalar_inj:
  assumes "scalar_hash sha t = scalar_hash sha t'" "inj_on sha S"
    "''scalar:'' @ t \<in> S" "''scalar:'' @ t' \<in> S"
  shows "t = t'"
  using inj_onD [OF assms(2) assms(1) [unfolded scalar_hash_def] assms(3,4)] by simp

lemma top_input_in: "top_input sha n \<in> inputs sha n"
  by (cases n) (simp_all add: top_input_def inputs_object del: inputs.simps(3))

lemma digest_inj:
  assumes "digest_size sha"
  shows "digest sha m = digest sha n \<Longrightarrow> inj_on sha (inputs sha m \<union> inputs sha n) \<Longrightarrow> fits m \<Longrightarrow> fits n
    \<Longrightarrow> m = n"
proof (induction m arbitrary: n)
  case (NScalar t)
  have "top_input sha (NScalar t) = top_input sha n"
    using NScalar.prems(1,2) top_input_in unfolding digest_top by (meson UnI1 UnI2 inj_onD)
  then show ?case by (cases n) (simp_all add: top_input_def object_input_def)
next
  case (NSeq ms)
  have top: "top_input sha (NSeq ms) = top_input sha n"
    using NSeq.prems(1,2) top_input_in unfolding digest_top by (meson UnI1 UnI2 inj_onD)
  then obtain ns where n: "n = NSeq ns" by (cases n) (simp_all add: top_input_def object_input_def)
  have ds: "map (digest sha) ms = map (digest sha) ns"
    using top by (intro sequence_input_inj)
      (auto simp: n top_input_def digest_length [OF assms])
  have "ms = ns"
  proof (rule nth_equalityI)
    show "length ms = length ns" using ds by (rule map_eq_imp_length_eq)
  next
    fix i assume i: "i < length ms"
    then have j: "i < length ns" using map_eq_imp_length_eq [OF ds] by simp
    have sub: "inputs sha (ms ! i) \<union> inputs sha (ns ! i) \<subseteq> inputs sha (NSeq ms) \<union> inputs sha n"
      using i j by (auto simp: n)
    show "ms ! i = ns ! i"
    proof (rule NSeq.IH)
      show "digest sha (ms ! i) = digest sha (ns ! i)" using ds i j by (metis nth_map)
      show "inj_on sha (inputs sha (ms ! i) \<union> inputs sha (ns ! i))"
        using NSeq.prems(2) sub by (rule inj_on_subset)
    qed (use i j NSeq.prems(3,4) n in \<open>auto simp: list_all_length\<close>)
  qed
  with n show ?case by simp
next
  case (NObject name M)
  have top: "top_input sha (NObject name M) = top_input sha n"
    using NObject.prems(1,2) top_input_in unfolding digest_top by (meson UnI1 UnI2 inj_onD)
  then obtain name' N where n: "n = NObject name' N" by (cases n) (simp_all add: top_input_def object_input_def)
  have fits: "length name < 2 ^ 64" "length name' < 2 ^ 64" "\<forall>e \<in># M. fits (snd e)" "\<forall>e \<in># N. fits (snd e)"
    using NObject.prems(3,4) unfolding n fits_object by auto
  have "name = name' \<and> sorted_list_of_multiset (image_mset (entry_digest sha) M)
      = sorted_list_of_multiset (image_mset (entry_digest sha) N)"
    using top fits(1,2)
    by (intro object_input_inj)
      (auto simp: n top_input_def entry_digest_def digest_length [OF assms] scalar_length [OF assms])
  then have name: "name = name'" and im: "image_mset (entry_digest sha) M = image_mset (entry_digest sha) N"
    by (simp_all add: sorted_list_of_multiset_inj)
  have "rel_mset (\<lambda>e e'. entry_digest sha e = entry_digest sha e') M N"
    using im by (simp flip: multiset.rel_eq add: multiset.rel_map)
  then have "rel_mset (=) M N"
  proof (rule multiset.rel_mono_strong)
    fix e e' assume e: "e \<in># M" "e' \<in># N" "entry_digest sha e = entry_digest sha e'"
    then have k: "scalar_hash sha (fst e) = scalar_hash sha (fst e')"
      and d: "digest sha (snd e) = digest sha (snd e')"
      by (simp_all add: entry_digest_def)
    have sub: "{''scalar:'' @ fst e, ''scalar:'' @ fst e'} \<union> (inputs sha (snd e) \<union> inputs sha (snd e'))
        \<subseteq> inputs sha (NObject name M) \<union> inputs sha n"
      using e(1,2) unfolding n inputs_object by blast
    note inj = inj_on_subset [OF NObject.prems(2) sub]
    have "fst e = fst e'" by (rule scalar_inj [OF k inj]) simp_all
    moreover have "snd e = snd e'"
    proof (rule NObject.IH)
      show "e \<in># M" by (rule e(1))
      show "snd e \<in> Basic_BNFs.snds e" by (cases e) simp
      show "inj_on sha (inputs sha (snd e) \<union> inputs sha (snd e'))"
        using inj by (rule inj_on_subset) auto
    qed (use d e(1,2) fits(3,4) in auto)
    ultimately show "e = e'" by (simp add: prod_eq_iff)
  qed
  then have "M = N" by (simp add: multiset.rel_eq)
  with n name show ?case by simp
next
  case (NVariant t m)
  have top: "top_input sha (NVariant t m) = top_input sha n"
    using NVariant.prems(1,2) top_input_in unfolding digest_top by (meson UnI1 UnI2 inj_onD)
  then obtain t' n' where n: "n = NVariant t' n'" by (cases n) (simp_all add: top_input_def object_input_def)
  have "scalar_hash sha t @ digest sha m = scalar_hash sha t' @ digest sha n'"
    using top by (simp add: n top_input_def)
  then have e: "scalar_hash sha t = scalar_hash sha t'" "digest sha m = digest sha n'"
    by (simp_all add: scalar_length [OF assms])
  have "t = t'" by (rule scalar_inj [OF e(1) NVariant.prems(2)]) (simp_all add: n)
  moreover have "m = n'"
    using e(2) NVariant.prems by (intro NVariant.IH) (auto simp: n intro: inj_on_subset)
  ultimately show ?case using n by simp
qed


section \<open>Properties\<close>

lemma request_hash_canon:
  assumes "well_called v" "inj_on sha S" "hashed sha js v \<subseteq> S"
  shows "request_hash sha js v = Inr (digest sha (canon js PRequest v))"
proof -
  have "keys_distinct sha js (key_texts v)"
    unfolding key_distinct_def
  proof (intro ballI impI)
    fix t t' assume t: "t \<in> key_texts v" "t' \<in> path_texts js"
      and eq: "scalar_hash sha t = scalar_hash sha t'"
    show "t = t'"
      by (rule scalar_inj [OF eq assms(2)]) (use t assms(3) in \<open>auto simp: hashed_def\<close>)
  qed
  with assms(1) show ?thesis unfolding request_hash_def by (rule identity_canon(1))
qed

text \<open>
  C13: Two well-formed requests have the same retry identity exactly when they have the same
  canonical form (objects as multisets of entries, the session's request id left out), if
  SHA-256 has 32-byte digests and does not collide on the inputs hashed for the two.
\<close>
theorem retry_identity_exact:
  assumes "digest_size sha" "well_called a" "well_called b"
    and "fits (canon js PRequest a)" "fits (canon js PRequest b)"
    and "inj_on sha (hashed sha js a \<union> hashed sha js b)"
  shows "(\<exists>d. request_hash sha js a = Inr d)
    \<and> (request_hash sha js a = request_hash sha js b \<longleftrightarrow> canon js PRequest a = canon js PRequest b)"
proof -
  have a: "request_hash sha js a = Inr (digest sha (canon js PRequest a))"
    by (rule request_hash_canon [OF assms(2,6)]) simp
  have b: "request_hash sha js b = Inr (digest sha (canon js PRequest b))"
    by (rule request_hash_canon [OF assms(3,6)]) simp
  have "inj_on sha (inputs sha (canon js PRequest a) \<union> inputs sha (canon js PRequest b))"
    by (rule inj_on_subset [OF assms(6)]) (auto simp: hashed_def)
  with a b digest_inj [OF assms(1)] assms(4,5) show ?thesis by auto
qed

text \<open>
  Two requests that differ in the request id of their session only, with a stand-in for
  SHA-256 that cuts its input to 32 bytes, which is injective on the inputs at hand.
\<close>

definition session_request :: "string \<Rightarrow> sval" where
  "session_request i =
     SObject None None [CEntry ''parameters''
       (SObject None None [CEntry ''session''
         (SObject None None [CEntry ''request_id'' (SScalar i)])])]"

definition cut32 :: "string \<Rightarrow> string" where
  "cut32 x = take 32 (x @ replicate 32 CHR ''0'')"

theorem retry_identity_exact_witness:
  "request_hash cut32 id (session_request ''1'') = request_hash cut32 id (session_request ''2'')"
proof -
  have size: "digest_size cut32" by (auto simp: digest_size_def cut32_def)
  have wc: "well_called (session_request i)" for i by (simp add: session_request_def)
  have cn: "canon id PRequest (session_request i) =
      NObject [] {#(''parameters'', NObject [] {#(''session'', NObject [] {#})#})#}" for i
    by (simp add: session_request_def norm_variant_def norm_child_def norm_skipped_def)
  have fits: "fits (canon id PRequest (session_request i))" for i
    unfolding cn fits_object by (simp add: fits_object del: fits.simps)
  let ?e = "object_input [] []"
  let ?s = "object_input [] [(cut32 ''scalar:session'', cut32 ?e)]"
  let ?p = "object_input [] [(cut32 ''scalar:parameters'', cut32 ?s)]"
  have h: "hashed cut32 id (session_request i)
      = {?e, ?s, ?p, ''scalar:session'', ''scalar:parameters'', ''scalar:request_id''}" for i
    unfolding hashed_def cn
    by (auto simp: session_request_def path_texts_def scalar_hash_def)
  have "distinct (map cut32 [?e, ?s, ?p, ''scalar:session'', ''scalar:parameters'', ''scalar:request_id''])"
    by code_simp
  then have "inj_on cut32 {?e, ?s, ?p, ''scalar:session'', ''scalar:parameters'', ''scalar:request_id''}"
    unfolding distinct_map list.set by (rule conjunct2)
  then have "inj_on cut32 (hashed cut32 id (session_request ''1'') \<union> hashed cut32 id (session_request ''2''))"
    unfolding h by simp
  from retry_identity_exact [OF size wc wc fits fits this] show ?thesis by (simp add: cn)
qed

end
