(* ===== verification/IpAddr.thy ===== *)
theory IpAddr
  imports Prelude
begin

text \<open>
  The part of Rust's \<open>std::net\<close> that \<open>stravia-web-access/src/address_policy.rs\<close> uses:
  IPv4 and IPv6 addresses as their octets and segments, the classification predicates,
  \<open>Ipv6Addr::to_ipv4\<close>, \<open>Display\<close> of an IPv4 address and the parser behind
  \<open>str::parse::<IpAddr>()\<close>. An address also has its number, and a CIDR block is the set
  of numbers with a given prefix; the lemmas give block membership octet by octet.
\<close>

unbundle bit_operations_syntax

section \<open>Addresses\<close>

datatype ipv4 = Ipv4 u8 u8 u8 u8
datatype ipv6 = Ipv6 u16 u16 u16 u16 u16 u16 u16 u16
datatype ip_addr = V4 ipv4 | V6 ipv6

fun v4_private :: "ipv4 \<Rightarrow> bool" where
  "v4_private (Ipv4 a b c d) \<longleftrightarrow>
     a = 10 \<or> (a = 172 \<and> 16 \<le> b \<and> b \<le> 31) \<or> (a = 192 \<and> b = 168)"

fun v4_loopback :: "ipv4 \<Rightarrow> bool" where
  "v4_loopback (Ipv4 a b c d) \<longleftrightarrow> a = 127"

fun v4_link_local :: "ipv4 \<Rightarrow> bool" where
  "v4_link_local (Ipv4 a b c d) \<longleftrightarrow> a = 169 \<and> b = 254"

fun v4_unspecified :: "ipv4 \<Rightarrow> bool" where
  "v4_unspecified (Ipv4 a b c d) \<longleftrightarrow> a = 0 \<and> b = 0 \<and> c = 0 \<and> d = 0"

fun v4_multicast :: "ipv4 \<Rightarrow> bool" where
  "v4_multicast (Ipv4 a b c d) \<longleftrightarrow> 224 \<le> a \<and> a \<le> 239"

fun v4_broadcast :: "ipv4 \<Rightarrow> bool" where
  "v4_broadcast (Ipv4 a b c d) \<longleftrightarrow> a = 255 \<and> b = 255 \<and> c = 255 \<and> d = 255"

fun v4_documentation :: "ipv4 \<Rightarrow> bool" where
  "v4_documentation (Ipv4 a b c d) \<longleftrightarrow>
     (a = 192 \<and> b = 0 \<and> c = 2) \<or> (a = 198 \<and> b = 51 \<and> c = 100) \<or> (a = 203 \<and> b = 0 \<and> c = 113)"

fun v6_loopback :: "ipv6 \<Rightarrow> bool" where
  "v6_loopback x \<longleftrightarrow> x = Ipv6 0 0 0 0 0 0 0 1"

fun v6_unspecified :: "ipv6 \<Rightarrow> bool" where
  "v6_unspecified x \<longleftrightarrow> x = Ipv6 0 0 0 0 0 0 0 0"

fun v6_multicast :: "ipv6 \<Rightarrow> bool" where
  "v6_multicast (Ipv6 s0 _ _ _ _ _ _ _) \<longleftrightarrow> s0 AND 0xff00 = 0xff00"

fun v6_unique_local :: "ipv6 \<Rightarrow> bool" where
  "v6_unique_local (Ipv6 s0 _ _ _ _ _ _ _) \<longleftrightarrow> s0 AND 0xfe00 = 0xfc00"

fun v6_link_local :: "ipv6 \<Rightarrow> bool" where
  "v6_link_local (Ipv6 s0 _ _ _ _ _ _ _) \<longleftrightarrow> s0 AND 0xffc0 = 0xfe80"

definition high_octet :: "u16 \<Rightarrow> u8" where
  "high_octet s = ucast (drop_bit 8 s)"

definition low_octet :: "u16 \<Rightarrow> u8" where
  "low_octet s = ucast s"

definition segment_of :: "u8 \<Rightarrow> u8 \<Rightarrow> u16" where
  "segment_of h l = push_bit 8 (ucast h) OR ucast l"

fun to_ipv4 :: "ipv6 \<Rightarrow> ipv4 option" where
  "to_ipv4 (Ipv6 s0 s1 s2 s3 s4 s5 s6 s7) =
     (if s0 = 0 \<and> s1 = 0 \<and> s2 = 0 \<and> s3 = 0 \<and> s4 = 0 \<and> (s5 = 0 \<or> s5 = 0xffff)
      then Some (Ipv4 (high_octet s6) (low_octet s6) (high_octet s7) (low_octet s7))
      else None)"

section \<open>The text of an address\<close>

text \<open>
  A reader returns the value and the rest of the input, or \<open>None\<close>, in which case
  \<open>read_atomically\<close> has put the position back.
\<close>

type_synonym 'a reader = "string \<Rightarrow> ('a \<times> string) option"

definition to_digit :: "nat \<Rightarrow> char \<Rightarrow> nat option" where
  "to_digit radix c =
     (let n = of_char c :: nat;
          d = (if 48 \<le> n \<and> n \<le> 57 then n - 48
               else if 97 \<le> n \<and> n \<le> 122 then n - 87
               else if 65 \<le> n \<and> n \<le> 90 then n - 55
               else radix)
      in if d < radix then Some d else None)"

definition digits_value :: "nat \<Rightarrow> string \<Rightarrow> nat" where
  "digits_value radix s = foldl (\<lambda>a c. radix * a + the (to_digit radix c)) 0 s"

definition read_number :: "nat \<Rightarrow> nat \<Rightarrow> bool \<Rightarrow> nat \<Rightarrow> nat reader" where
  "read_number radix max_digits allow_zero_prefix limit s =
     (let ds = takeWhile (\<lambda>c. to_digit radix c \<noteq> None) s;
          rest = dropWhile (\<lambda>c. to_digit radix c \<noteq> None) s
      in if length ds > max_digits then None
         else if ds = [] then None
         else if \<not> allow_zero_prefix \<and> hd ds = CHR ''0'' \<and> length ds > 1 then None
         else if digits_value radix ds < limit then Some (digits_value radix ds, rest)
         else None)"

definition read_separator :: "char \<Rightarrow> nat \<Rightarrow> 'a reader \<Rightarrow> 'a reader" where
  "read_separator sep index inner s =
     (if 0 < index
      then (case s of [] \<Rightarrow> None | c # t \<Rightarrow> if c = sep then inner t else None)
      else inner s)"

definition read_ipv4_addr :: "ipv4 reader" where
  "read_ipv4_addr s =
     do {
       (a, s) \<leftarrow> read_separator CHR ''.'' 0 (read_number 10 3 False 256) s;
       (b, s) \<leftarrow> read_separator CHR ''.'' 1 (read_number 10 3 False 256) s;
       (c, s) \<leftarrow> read_separator CHR ''.'' 2 (read_number 10 3 False 256) s;
       (d, s) \<leftarrow> read_separator CHR ''.'' 3 (read_number 10 3 False 256) s;
       Some (Ipv4 (of_nat a) (of_nat b) (of_nat c) (of_nat d), s)
     }"

text \<open>\<open>read_groups\<close>: the first argument counts the groups left, the second those read.\<close>

fun read_groups :: "nat \<Rightarrow> nat \<Rightarrow> string \<Rightarrow> u16 list \<times> bool \<times> string" where
  "read_groups 0 i s = ([], False, s)"
| "read_groups (Suc k) i s =
     (case (if 0 < k then read_separator CHR '':'' i read_ipv4_addr s else None) of
        Some (Ipv4 a b c d, t) \<Rightarrow> ([segment_of a b, segment_of c d], True, t)
      | None \<Rightarrow>
        (case read_separator CHR '':'' i (read_number 16 4 True 65536) s of
           None \<Rightarrow> ([], False, s)
         | Some (g, t) \<Rightarrow>
             (let (gs, v4, u) = read_groups k (i + 1) t in (of_nat g # gs, v4, u))))"

fun ipv6_of_segments :: "u16 list \<Rightarrow> ipv6 option" where
  "ipv6_of_segments [a, b, c, d, e, f, g, h] = Some (Ipv6 a b c d e f g h)"
| "ipv6_of_segments _ = None"

definition read_ipv6_addr :: "ipv6 reader" where
  "read_ipv6_addr s =
     (case read_groups 8 0 s of (head, head_ipv4, t) \<Rightarrow>
        if length head = 8 then map_option (\<lambda>x. (x, t)) (ipv6_of_segments head)
        else if head_ipv4 then None
        else (case t of
                c1 # c2 # u \<Rightarrow>
                  if c1 = CHR '':'' \<and> c2 = CHR '':'' then
                    (case read_groups (8 - (length head + 1)) 0 u of (tail, _, rest) \<Rightarrow>
                       map_option (\<lambda>x. (x, rest))
                         (ipv6_of_segments
                            (head @ replicate (8 - length head - length tail) 0 @ tail)))
                  else None
              | _ \<Rightarrow> None))"

definition parse_ip :: "string \<Rightarrow> ip_addr option" where
  "parse_ip s =
     (case read_ipv4_addr s of
        Some (a, rest) \<Rightarrow> if rest = [] then Some (V4 a) else None
      | None \<Rightarrow>
        (case read_ipv6_addr s of
           Some (a, rest) \<Rightarrow> if rest = [] then Some (V6 a) else None
         | None \<Rightarrow> None))"

fun show_ipv4 :: "ipv4 \<Rightarrow> string" where
  "show_ipv4 (Ipv4 a b c d) =
     show_nat (unat a) @ ''.'' @ show_nat (unat b) @ ''.'' @ show_nat (unat c) @ ''.''
       @ show_nat (unat d)"

section \<open>Reading back a dotted-decimal address\<close>

lemma of_char_digit: "d < 10 \<Longrightarrow> (of_char (digit_char d) :: nat) = 48 + d"
  by (simp add: digit_char_def)

lemma to_digit_char [simp]: "d < 10 \<Longrightarrow> to_digit 10 (digit_char d) = Some d"
  by (simp add: to_digit_def of_char_digit Let_def)

lemma show_nat_chars: "c \<in> set (show_nat n) \<Longrightarrow> \<exists>d<10. c = digit_char d"
proof (induction n rule: show_nat.induct)
  case (1 n)
  then show ?case
    by (subst (asm) (2) show_nat.simps) (force split: if_splits)
qed

lemma digits_value_show_nat: "digits_value 10 (show_nat n) = n"
proof (induction n rule: show_nat.induct)
  case (1 n)
  then show ?case by (subst show_nat.simps) (auto simp: digits_value_def)
qed

lemma show_nat_nonempty [simp]: "show_nat n \<noteq> []"
  by (subst show_nat.simps) simp

lemma hd_show_nat: "hd (show_nat n) = CHR ''0'' \<longleftrightarrow> n = 0"
proof (induction n rule: show_nat.induct)
  case (1 n)
  have z: "digit_char d = CHR ''0'' \<longleftrightarrow> d = 0" if "d < 10" for d
    proof -
    have "digit_char d = CHR ''0'' \<longleftrightarrow> of_char (digit_char d) = (of_char (CHR ''0'') :: nat)"
      by (simp only: of_char_eq_iff)
    with of_char_digit [OF that] show ?thesis by simp
  qed
  show ?case
  proof (cases "n < 10")
    case True
    then show ?thesis using z by (simp add: show_nat_small)
  next
    case False
    with "1.IH" show ?thesis by (subst show_nat.simps) auto
  qed
qed

lemma length_show_nat: "n < 1000 \<Longrightarrow> length (show_nat n) \<le> 3"
  "n < 10 \<Longrightarrow> length (show_nat n) = 1"
  by (auto simp: show_nat.simps [of n] show_nat.simps [of "n div 10"] show_nat.simps [of "n div 10 div 10"])

lemma read_number_show:
  assumes "n < 256" and "rest = [] \<or> hd rest = CHR ''.''"
  shows "read_number 10 3 False 256 (show_nat n @ rest) = Some (n, rest)"
proof -
  let ?P = "\<lambda>c. to_digit 10 c \<noteq> None"
  have all: "?P c" if "c \<in> set (show_nat n)" for c
    using show_nat_chars [OF that] by auto
  have dot: "\<not> ?P CHR ''.''" by (simp add: to_digit_def)
  have "takeWhile ?P rest = []" "dropWhile ?P rest = rest"
    using assms(2) dot by (cases rest; auto)+
  then have "takeWhile ?P (show_nat n @ rest) = show_nat n" "dropWhile ?P (show_nat n @ rest) = rest"
    using all by (simp_all add: takeWhile_append2 dropWhile_append2 del: not_None_eq)
  moreover have "\<not> (hd (show_nat n) = CHR ''0'' \<and> 1 < length (show_nat n))"
    using length_show_nat(2) [of n] by (auto simp: hd_show_nat)
  moreover have "length (show_nat n) \<le> 3" using assms(1) by (simp add: length_show_nat)
  ultimately show ?thesis
    using assms(1) unfolding read_number_def Let_def by (simp add: digits_value_show_nat)
qed

lemma read_show_ipv4:
  assumes "rest = [] \<or> hd rest = CHR ''.''"
  shows "read_ipv4_addr (show_ipv4 a @ rest) = Some (a, rest)"
proof (cases a)
  case (Ipv4 a b c d)
  show ?thesis
    by (simp add: Ipv4 read_ipv4_addr_def read_separator_def read_number_show unat_lt256 assms)
qed

lemma last_show_ipv4: "\<exists>d<10. last (show_ipv4 a) = digit_char d" "show_ipv4 a \<noteq> []"
proof -
  have "\<exists>n. last (show_ipv4 a) = last (show_nat n)" by (cases a) (auto intro: exI)
  then show "\<exists>d<10. last (show_ipv4 a) = digit_char d"
    using show_nat_chars last_in_set [OF show_nat_nonempty] by metis
  show "show_ipv4 a \<noteq> []" by (cases a) simp
qed

end
