(* ===== verification/AddressPolicy.thy ===== *)
theory AddressPolicy
  imports IpAddr
begin

text \<open>
  The static address rules of Web Access
  (\<open>stravia-web-access/src/address_policy.rs\<close>): which IP addresses and which URLs may be
  fetched. The reference is a table of CIDR blocks in the form of the IANA registries; the
  properties are that the code's tests on octets and segments decide exactly the table,
  that an IPv4 address embedded in an IPv6 one or spelled as a host name gets the IPv4
  decision, and what an allowed URL guarantees.
\<close>

unbundle bit_operations_syntax

section \<open>Addresses\<close>

fun is_public_ipv4 :: "ipv4 \<Rightarrow> bool" where
  "is_public_ipv4 (Ipv4 a b c d) \<longleftrightarrow>
     \<not> v4_private (Ipv4 a b c d)
     \<and> \<not> v4_loopback (Ipv4 a b c d)
     \<and> \<not> v4_link_local (Ipv4 a b c d)
     \<and> \<not> v4_unspecified (Ipv4 a b c d)
     \<and> \<not> v4_multicast (Ipv4 a b c d)
     \<and> \<not> v4_broadcast (Ipv4 a b c d)
     \<and> \<not> v4_documentation (Ipv4 a b c d)
     \<and> \<not> (a = 100 \<and> (64 \<le> b \<and> b \<le> 127))
     \<and> \<not> (a = 192 \<and> b = 0 \<and> c = 0 \<and> \<not> (d = 9 \<or> d = 10))
     \<and> \<not> (a = 192 \<and> b = 88 \<and> c = 99)
     \<and> \<not> (a = 198 \<and> (b = 18 \<or> b = 19))
     \<and> a < 240
     \<and> a \<noteq> 0"

fun is_global_ipv6_special :: "ipv6 \<Rightarrow> bool" where
  "is_global_ipv6_special (Ipv6 s0 s1 s2 s3 s4 s5 s6 s7) \<longleftrightarrow>
     (if (s0 = 0x0064 \<and> s1 = 0xff9b \<and> s2 = 0 \<and> s3 = 0 \<and> s4 = 0 \<and> s5 = 0)
         \<or> (s0 = 0x0064 \<and> s1 = 0xff9b \<and> s2 = 1)
         \<or> s0 = 0x2002
         \<or> (s0 = 0x0100 \<and> s1 = 0 \<and> s2 = 0 \<and> (s3 = 0 \<or> s3 = 1))
         \<or> (s0 = 0x3fff \<and> s1 AND 0xf000 = 0)
         \<or> s0 = 0x5f00
         \<or> s0 AND 0xffc0 = 0xfec0
      then False
      else if s0 = 0x2001 \<and> s1 AND 0xfe00 = 0
      then s1 = 3
           \<or> (s1 = 4 \<and> s2 = 0x0112)
           \<or> (s1 = 1 \<and> (s2 = 0 \<and> s3 = 0 \<and> s4 = 0 \<and> s5 = 0 \<and> s6 = 0) \<and> (1 \<le> s7 \<and> s7 \<le> 3))
           \<or> s1 AND 0xfff0 = 0x0020
           \<or> s1 AND 0xfff0 = 0x0030
      else True)"

definition is_public_ipv6 :: "ipv6 \<Rightarrow> bool" where
  "is_public_ipv6 x =
     (case to_ipv4 x of
        Some a \<Rightarrow> is_public_ipv4 a
      | None \<Rightarrow>
          (case x of Ipv6 s0 s1 s2 s3 s4 s5 s6 s7 \<Rightarrow>
             0x2000 \<le> s0 \<and> s0 \<le> 0x3fff
             \<and> \<not> v6_loopback x
             \<and> \<not> v6_unspecified x
             \<and> \<not> v6_multicast x
             \<and> \<not> v6_unique_local x
             \<and> \<not> v6_link_local x
             \<and> \<not> (s0 = 0x2001 \<and> s1 = 0x0db8)
             \<and> \<not> (s0 = 0x2001 \<and> s1 = 0)
             \<and> \<not> (s0 = 0x2001 \<and> s1 AND 0xfff0 = 0x0010)
             \<and> is_global_ipv6_special x))"

fun is_public_ip :: "ip_addr \<Rightarrow> bool" where
  "is_public_ip (V4 a) = is_public_ipv4 a"
| "is_public_ip (V6 a) = is_public_ipv6 a"

section \<open>URLs\<close>

text \<open>
  The parsed \<open>Url\<close> is what the code reads of it: the scheme, the user name, the password
  and the host, which the parser has already normalised.
\<close>

datatype url_host = HostIpv4 ipv4 | HostIpv6 ipv6 | HostDomain string

record url =
  url_scheme :: string
  url_username :: string
  url_password :: "string option"
  url_host :: "url_host option"

definition trim_end_dots :: "string \<Rightarrow> string" where
  "trim_end_dots s = rev (dropWhile (\<lambda>c. c = CHR ''.'') (rev s))"

definition allows_domain :: "string \<Rightarrow> bool" where
  "allows_domain host =
     (let hostname = trim_end_dots host in
      hostname \<noteq> []
      \<and> hostname \<noteq> ''localhost''
      \<and> \<not> is_suffix_of ''.localhost'' hostname
      \<and> \<not> is_suffix_of ''.local'' hostname
      \<and> hostname \<noteq> ''home.arpa''
      \<and> \<not> is_suffix_of ''.home.arpa'' hostname
      \<and> (case parse_ip hostname of None \<Rightarrow> True | Some ip \<Rightarrow> is_public_ip ip))"

definition allows_url :: "url \<Rightarrow> bool" where
  "allows_url u =
     (if \<not> (url_scheme u = ''http'' \<or> url_scheme u = ''https'')
         \<or> url_username u \<noteq> []
         \<or> url_password u \<noteq> None
      then False
      else (case url_host u of
              Some (HostIpv4 a) \<Rightarrow> is_public_ip (V4 a)
            | Some (HostIpv6 a) \<Rightarrow> is_public_ip (V6 a)
            | Some (HostDomain h) \<Rightarrow> allows_domain h
            | None \<Rightarrow> False))"

section \<open>The table of special-purpose blocks\<close>

fun v4_number :: "ipv4 \<Rightarrow> nat" where
  "v4_number (Ipv4 a b c d) = ((unat a * 256 + unat b) * 256 + unat c) * 256 + unat d"

fun v6_number :: "ipv6 \<Rightarrow> nat" where
  "v6_number (Ipv6 s0 s1 s2 s3 s4 s5 s6 s7) =
     ((((((unat s0 * 65536 + unat s1) * 65536 + unat s2) * 65536 + unat s3) * 65536
        + unat s4) * 65536 + unat s5) * 65536 + unat s6) * 65536 + unat s7"

definition same_prefix :: "nat \<Rightarrow> nat \<Rightarrow> nat \<Rightarrow> nat \<Rightarrow> bool" where
  "same_prefix width len base n \<longleftrightarrow> n div 2 ^ (width - len) = base div 2 ^ (width - len)"

definition in_v4 :: "ipv4 \<Rightarrow> ipv4 \<times> nat \<Rightarrow> bool" where
  "in_v4 a blk = same_prefix 32 (snd blk) (v4_number (fst blk)) (v4_number a)"

definition in_v6 :: "ipv6 \<Rightarrow> ipv6 \<times> nat \<Rightarrow> bool" where
  "in_v6 a blk = same_prefix 128 (snd blk) (v6_number (fst blk)) (v6_number a)"

definition v4_special :: "(ipv4 \<times> nat) list" where
  "v4_special =
     [(Ipv4 0 0 0 0, 8), (Ipv4 10 0 0 0, 8), (Ipv4 100 64 0 0, 10), (Ipv4 127 0 0 0, 8),
      (Ipv4 169 254 0 0, 16), (Ipv4 172 16 0 0, 12), (Ipv4 192 0 0 0, 24), (Ipv4 192 0 2 0, 24),
      (Ipv4 192 88 99 0, 24), (Ipv4 192 168 0 0, 16), (Ipv4 198 18 0 0, 15),
      (Ipv4 198 51 100 0, 24), (Ipv4 203 0 113 0, 24), (Ipv4 224 0 0 0, 4), (Ipv4 240 0 0 0, 4)]"

definition v4_exceptions :: "(ipv4 \<times> nat) list" where
  "v4_exceptions = [(Ipv4 192 0 0 9, 32), (Ipv4 192 0 0 10, 32)]"

definition v4_table_public :: "ipv4 \<Rightarrow> bool" where
  "v4_table_public a \<longleftrightarrow> list_ex (in_v4 a) v4_exceptions \<or> \<not> list_ex (in_v4 a) v4_special"

definition v6_embedding :: "(ipv6 \<times> nat) list" where
  "v6_embedding = [(Ipv6 0 0 0 0 0 0 0 0, 96), (Ipv6 0 0 0 0 0 0xffff 0 0, 96)]"

definition v6_unicast :: "ipv6 \<times> nat" where
  "v6_unicast = (Ipv6 0x2000 0 0 0 0 0 0 0, 3)"

definition v6_special :: "(ipv6 \<times> nat) list" where
  "v6_special =
     [(Ipv6 0x2001 0 0 0 0 0 0 0, 23), (Ipv6 0x2001 0x0db8 0 0 0 0 0 0, 32),
      (Ipv6 0x2002 0 0 0 0 0 0 0, 16), (Ipv6 0x3fff 0 0 0 0 0 0 0, 20)]"

definition v6_exceptions :: "(ipv6 \<times> nat) list" where
  "v6_exceptions =
     [(Ipv6 0x2001 1 0 0 0 0 0 1, 128), (Ipv6 0x2001 1 0 0 0 0 0 2, 128),
      (Ipv6 0x2001 1 0 0 0 0 0 3, 128), (Ipv6 0x2001 3 0 0 0 0 0 0, 32),
      (Ipv6 0x2001 4 0x112 0 0 0 0 0, 48), (Ipv6 0x2001 0x20 0 0 0 0 0 0, 28),
      (Ipv6 0x2001 0x30 0 0 0 0 0 0, 28)]"

fun low_v4 :: "ipv6 \<Rightarrow> ipv4" where
  "low_v4 (Ipv6 _ _ _ _ _ _ s6 s7) =
     Ipv4 (high_octet s6) (low_octet s6) (high_octet s7) (low_octet s7)"

definition v6_table_public :: "ipv6 \<Rightarrow> bool" where
  "v6_table_public x \<longleftrightarrow>
     (if list_ex (in_v6 x) v6_embedding then v4_table_public (low_v4 x)
      else in_v6 x v6_unicast
           \<and> (list_ex (in_v6 x) v6_exceptions \<or> \<not> list_ex (in_v6 x) v6_special))"

fun table_public :: "ip_addr \<Rightarrow> bool" where
  "table_public (V4 a) = v4_table_public a"
| "table_public (V6 a) = v6_table_public a"

section \<open>Prefixes of an address number\<close>

lemma digit_up: "y < B \<Longrightarrow> (x * B + y) div (B * m) = x div (m::nat)"
  by (simp add: div_mult2_eq)
lemma w_eq: "(a = (w::'a::len word)) = (unat a = unat w)"
  using unsigned_word_eqI by auto

lemma v4_drop: "(x * 256 + unat s) div (256 * m) = x div m" for s :: u8
  by (simp only: digit_up unat_lt256)

lemma v4_pow:
  "(2::nat) ^ (32 - 4) = 256 * (256 * (256 * 16))"
  "(2::nat) ^ (32 - 8) = 256 * (256 * (256 * 1))"
  "(2::nat) ^ (32 - 10) = 256 * (256 * 64)"
  "(2::nat) ^ (32 - 12) = 256 * (256 * 16)"
  "(2::nat) ^ (32 - 15) = 256 * (256 * 2)"
  "(2::nat) ^ (32 - 16) = 256 * (256 * 1)"
  "(2::nat) ^ (32 - 24) = 256 * 1"
  "(2::nat) ^ (32 - 32) = 1"
  by simp_all

lemma sub_prefix:
  fixes B :: nat
  assumes "m dvd B" "y < B" "y' < B"
  shows "(x * B + y) div m = (x' * B + y') div m \<longleftrightarrow> x = x' \<and> y div m = y' div m"
proof -
  obtain k where k: "B = m * k" using assms(1) by (elim dvdE)
  have m: "m > 0" using k assms(2) by (cases m) auto
  have s: "(x * B + y) div m = x * k + y div m" for x y
    unfolding k by (simp add: m mult.assoc mult.left_commute [of x m k])
  have l: "y div m < k" if "y < B" for y
    using that unfolding k by (simp add: less_mult_imp_div_less mult.commute)
  show ?thesis
    unfolding s using l [OF assms(2)] l [OF assms(3)]
    by (metis add.commute div_mult_self1 div_less mod_mult_self1 mod_less add_cancel_right_left
      gr_implies_not_zero)
qed

lemma dvd256: "64 dvd (256::nat)" "16 dvd (256::nat)" "2 dvd (256::nat)"
  by simp_all

lemmas sub_prefix_1 = sub_prefix [OF one_dvd, unfolded div_by_1]

lemma in_v4_lens:
  "in_v4 (Ipv4 a b c d) (Ipv4 p q r s, 4) \<longleftrightarrow> unat a div 16 = unat p div 16"
  "in_v4 (Ipv4 a b c d) (Ipv4 p q r s, 8) \<longleftrightarrow> a = p"
  "in_v4 (Ipv4 a b c d) (Ipv4 p q r s, 10) \<longleftrightarrow> a = p \<and> unat b div 64 = unat q div 64"
  "in_v4 (Ipv4 a b c d) (Ipv4 p q r s, 12) \<longleftrightarrow> a = p \<and> unat b div 16 = unat q div 16"
  "in_v4 (Ipv4 a b c d) (Ipv4 p q r s, 15) \<longleftrightarrow> a = p \<and> unat b div 2 = unat q div 2"
  "in_v4 (Ipv4 a b c d) (Ipv4 p q r s, 16) \<longleftrightarrow> a = p \<and> b = q"
  "in_v4 (Ipv4 a b c d) (Ipv4 p q r s, 24) \<longleftrightarrow> a = p \<and> b = q \<and> c = r"
  "in_v4 (Ipv4 a b c d) (Ipv4 p q r s, 32) \<longleftrightarrow> a = p \<and> b = q \<and> c = r \<and> d = s"
  unfolding in_v4_def same_prefix_def fst_conv snd_conv v4_pow v4_number.simps v4_drop w_eq div_by_1
  by (simp_all only: sub_prefix unat_lt256 sub_prefix_1 dvd256 div_by_1 conj_assoc)

lemma v4_ranges:
  "unat (b::u8) div 64 = 1 \<longleftrightarrow> 64 \<le> b \<and> b \<le> 127"
  "unat b div 16 = 1 \<longleftrightarrow> 16 \<le> b \<and> b \<le> 31"
  "unat b div 2 = 9 \<longleftrightarrow> b = 18 \<or> b = 19"
  "unat b div 16 = 14 \<longleftrightarrow> 224 \<le> b \<and> b \<le> 239"
  "unat b div 16 = 15 \<longleftrightarrow> \<not> b < 240"
  using unat_lt256 [of b] by (auto simp: word_le_nat_alt word_less_nat_alt w_eq)

lemma list_ex_simps': "list_ex P (x # xs) \<longleftrightarrow> P x \<or> list_ex P xs" "list_ex P [] \<longleftrightarrow> False"
  by simp_all

lemma v4_table_eq: "v4_table_public (Ipv4 a b c d) \<longleftrightarrow>
   (a = 192 \<and> b = 0 \<and> c = 0 \<and> (d = 9 \<or> d = 10))
   \<or> \<not> (a = 0 \<or> a = 10 \<or> (a = 100 \<and> 64 \<le> b \<and> b \<le> 127) \<or> a = 127 \<or> (a = 169 \<and> b = 254)
      \<or> (a = 172 \<and> 16 \<le> b \<and> b \<le> 31) \<or> (a = 192 \<and> b = 0 \<and> c = 0) \<or> (a = 192 \<and> b = 0 \<and> c = 2)
      \<or> (a = 192 \<and> b = 88 \<and> c = 99) \<or> (a = 192 \<and> b = 168) \<or> (a = 198 \<and> (b = 18 \<or> b = 19))
      \<or> (a = 198 \<and> b = 51 \<and> c = 100) \<or> (a = 203 \<and> b = 0 \<and> c = 113)
      \<or> (224 \<le> a \<and> a \<le> 239) \<or> \<not> a < 240)"
proof -
  have n: "unat (64::u8) div 64 = 1" "unat (16::u8) div 16 = 1" "unat (18::u8) div 2 = 9"
    "unat (224::u8) div 16 = 14" "unat (240::u8) div 16 = 15"
    by simp_all
  show ?thesis
    unfolding v4_table_public_def v4_special_def v4_exceptions_def list_ex_simps' in_v4_lens n v4_ranges
    by argo
qed

lemma ipv4_table: "is_public_ipv4 a = v4_table_public a"
proof (cases a)
  case (Ipv4 a b c d)
  show ?thesis
  proof (cases "a = 192")
    case True
    show ?thesis unfolding Ipv4 v4_table_eq True by (cases "b = 0"; cases "c = 0"; simp; blast?)
  next
    case False
    have l: "a = 255 \<Longrightarrow> \<not> a < 240" by simp
    from False show ?thesis unfolding Ipv4 v4_table_eq using l
      by (simp only: is_public_ipv4.simps v4_private.simps v4_loopback.simps v4_link_local.simps
        v4_unspecified.simps v4_multicast.simps v4_broadcast.simps v4_documentation.simps) argo
  qed
qed

subsection \<open>IPv6\<close>

lemma v6_drop: "(x * 65536 + unat s) div (65536 * m) = x div m" for s :: u16
  by (simp only: digit_up unat_lt65536)
lemma v6_pow:
  "(2::nat) ^ (128 - 3) = 65536 * (65536 * (65536 * (65536 * (65536 * (65536 * (65536 * 8192))))))"
  "(2::nat) ^ (128 - 16) = 65536 * (65536 * (65536 * (65536 * (65536 * (65536 * (65536 * 1))))))"
  "(2::nat) ^ (128 - 20) = 65536 * (65536 * (65536 * (65536 * (65536 * (65536 * 4096)))))"
  "(2::nat) ^ (128 - 23) = 65536 * (65536 * (65536 * (65536 * (65536 * (65536 * 512)))))"
  "(2::nat) ^ (128 - 28) = 65536 * (65536 * (65536 * (65536 * (65536 * (65536 * 16)))))"
  "(2::nat) ^ (128 - 32) = 65536 * (65536 * (65536 * (65536 * (65536 * (65536 * 1)))))"
  "(2::nat) ^ (128 - 48) = 65536 * (65536 * (65536 * (65536 * (65536 * 1))))"
  "(2::nat) ^ (128 - 96) = 65536 * (65536 * 1)"
  "(2::nat) ^ (128 - 128) = 1"
  by simp_all

lemma dvd65536: "4096 dvd (65536::nat)" "512 dvd (65536::nat)" "16 dvd (65536::nat)"
  by simp_all

lemma in_v6_lens:
  fixes a b c d e f g h p q r s t u v w :: u16
  defines "x \<equiv> Ipv6 a b c d e f g h" and "y \<equiv> Ipv6 p q r s t u v w"
  shows
  "in_v6 x (y, 3) \<longleftrightarrow> unat a div 8192 = unat p div 8192"
  "in_v6 x (y, 16) \<longleftrightarrow> a = p"
  "in_v6 x (y, 20) \<longleftrightarrow> a = p \<and> unat b div 4096 = unat q div 4096"
  "in_v6 x (y, 23) \<longleftrightarrow> a = p \<and> unat b div 512 = unat q div 512"
  "in_v6 x (y, 28) \<longleftrightarrow> a = p \<and> unat b div 16 = unat q div 16"
  "in_v6 x (y, 32) \<longleftrightarrow> a = p \<and> b = q"
  "in_v6 x (y, 48) \<longleftrightarrow> a = p \<and> b = q \<and> c = r"
  "in_v6 x (y, 96) \<longleftrightarrow> a = p \<and> b = q \<and> c = r \<and> d = s \<and> e = t \<and> f = u"
  "in_v6 x (y, 128) \<longleftrightarrow> a = p \<and> b = q \<and> c = r \<and> d = s \<and> e = t \<and> f = u \<and> g = v \<and> h = w"
  unfolding x_def y_def in_v6_def same_prefix_def fst_conv snd_conv v6_pow v6_number.simps v6_drop w_eq div_by_1
  by (simp_all only: sub_prefix unat_lt65536 sub_prefix_1 dvd65536 div_by_1 conj_assoc)

lemma high_bits:
  fixes s c :: u16
  assumes "take_bit n c = 0"
  shows "s AND NOT (mask n) = c \<longleftrightarrow> unat s div 2 ^ n = unat c div 2 ^ n"
proof -
  have "s AND NOT (mask n) = c \<longleftrightarrow> drop_bit n s = drop_bit n c"
  proof
    assume "s AND NOT (mask n) = c"
    then have "drop_bit n c = drop_bit n (s AND NOT (mask n))" by simp
    also have "\<dots> = drop_bit n s"
      by (rule bit_word_eqI) (use bit_imp_le_length [of s] in \<open>auto simp: bit_simps\<close>)
    finally show "drop_bit n s = drop_bit n c" by simp
  next
    assume d: "drop_bit n s = drop_bit n c"
    show "s AND NOT (mask n) = c"
    proof (rule bit_word_eqI)
      fix i assume "i < LENGTH(16)"
      have low: "i < n \<Longrightarrow> \<not> bit c i"
        using bit_take_bit_iff [of n c i] assms by simp
      show "bit (s AND NOT (mask n)) i = bit c i"
        using low arg_cong [OF d, of "\<lambda>w. bit w (i - n)"] \<open>i < LENGTH(16)\<close>
        by (cases "i < n") (auto simp: bit_simps)
    qed
  qed
  also have "\<dots> \<longleftrightarrow> unat s div 2 ^ n = unat c div 2 ^ n"
    by (subst w_eq, subst unat_drop_bit_eq, subst unat_drop_bit_eq, simp only: drop_bit_eq_div)
  finally show ?thesis .
qed

lemma masks:
  fixes s :: u16
  shows "s AND 0xff00 = 0xff00 \<longleftrightarrow> unat s div 256 = 255"
   "s AND 0xfe00 = 0xfc00 \<longleftrightarrow> unat s div 512 = 126"
   "s AND 0xffc0 = 0xfe80 \<longleftrightarrow> unat s div 64 = 1018"
   "s AND 0xffc0 = 0xfec0 \<longleftrightarrow> unat s div 64 = 1019"
   "s AND 0xf000 = 0 \<longleftrightarrow> unat s div 4096 = 0"
   "s AND 0xfe00 = 0 \<longleftrightarrow> unat s div 512 = 0"
   "s AND 0xfff0 = 0x10 \<longleftrightarrow> unat s div 16 = 1"
   "s AND 0xfff0 = 0x20 \<longleftrightarrow> unat s div 16 = 2"
   "s AND 0xfff0 = 0x30 \<longleftrightarrow> unat s div 16 = 3"
proof -
  have n: "0xff00 = NOT (mask 8 :: u16)" "0xfe00 = NOT (mask 9 :: u16)" "0xffc0 = NOT (mask 6 :: u16)"
     "0xf000 = NOT (mask 12 :: u16)" "0xfff0 = NOT (mask 4 :: u16)"
    by (simp_all add: mask_eq_exp_minus_1)
  show "s AND 0xff00 = 0xff00 \<longleftrightarrow> unat s div 256 = 255"
    using high_bits [of 8 "0xff00" s] n by simp
  show "s AND 0xfe00 = 0xfc00 \<longleftrightarrow> unat s div 512 = 126"
    using high_bits [of 9 "0xfc00" s] n by simp
  show "s AND 0xffc0 = 0xfe80 \<longleftrightarrow> unat s div 64 = 1018"
    using high_bits [of 6 "0xfe80" s] n by simp
  show "s AND 0xffc0 = 0xfec0 \<longleftrightarrow> unat s div 64 = 1019"
    using high_bits [of 6 "0xfec0" s] n by simp
  show "s AND 0xf000 = 0 \<longleftrightarrow> unat s div 4096 = 0"
    using high_bits [of 12 "0" s] n by simp
  show "s AND 0xfe00 = 0 \<longleftrightarrow> unat s div 512 = 0"
    using high_bits [of 9 "0" s] n by simp
  show "s AND 0xfff0 = 0x10 \<longleftrightarrow> unat s div 16 = 1"
    using high_bits [of 4 "0x10" s] n by simp
  show "s AND 0xfff0 = 0x20 \<longleftrightarrow> unat s div 16 = 2"
    using high_bits [of 4 "0x20" s] n by simp
  show "s AND 0xfff0 = 0x30 \<longleftrightarrow> unat s div 16 = 3"
    using high_bits [of 4 "0x30" s] n by simp
qed


lemma v6_ranges:
  fixes s :: u16
  shows "unat s div 8192 = 1 \<longleftrightarrow> 0x2000 \<le> s \<and> s \<le> 0x3fff"
  using unat_lt65536 [of s] by (auto simp: word_le_nat_alt)

text \<open>Inside \<open>2000::/3\<close> the tests for ranges outside it never fire.\<close>

lemma v6_unicast_excludes:
  fixes s :: u16
  assumes "0x2000 \<le> s" "s \<le> 0x3fff"
  shows "s AND 0xff00 \<noteq> 0xff00" "s AND 0xfe00 \<noteq> 0xfc00" "s AND 0xffc0 \<noteq> 0xfe80"
    "s AND 0xffc0 \<noteq> 0xfec0" "s \<noteq> 0x64" "s \<noteq> 0x100" "s \<noteq> 0x5f00" "s \<noteq> 0"
proof -
  have r: "8192 \<le> unat s" "unat s \<le> 16383" using assms by (simp_all add: word_le_nat_alt)
  show "s AND 0xff00 \<noteq> 0xff00" "s AND 0xfe00 \<noteq> 0xfc00" "s AND 0xffc0 \<noteq> 0xfe80"
    "s AND 0xffc0 \<noteq> 0xfec0" unfolding masks
    using r(1) div_le_mono [OF r(2), of 256] div_le_mono [OF r(2), of 512] div_le_mono [OF r(2), of 64]
    by simp_all
  show "s \<noteq> 0x64" "s \<noteq> 0x100" "s \<noteq> 0x5f00" "s \<noteq> 0" using r by auto
qed

lemma v6_table_eq:
  assumes "to_ipv4 (Ipv6 a b c d e f g h) = None"
  shows "v6_table_public (Ipv6 a b c d e f g h) \<longleftrightarrow>
   0x2000 \<le> a \<and> a \<le> 0x3fff
   \<and> ((a = 0x2001 \<and> b = 1 \<and> c = 0 \<and> d = 0 \<and> e = 0 \<and> f = 0 \<and> g = 0 \<and> (h = 1 \<or> h = 2 \<or> h = 3))
      \<or> (a = 0x2001 \<and> b = 3) \<or> (a = 0x2001 \<and> b = 4 \<and> c = 0x112)
      \<or> (a = 0x2001 \<and> b AND 0xfff0 = 0x20) \<or> (a = 0x2001 \<and> b AND 0xfff0 = 0x30)
      \<or> \<not> ((a = 0x2001 \<and> b AND 0xfe00 = 0) \<or> (a = 0x2001 \<and> b = 0xdb8) \<or> a = 0x2002
            \<or> (a = 0x3fff \<and> b AND 0xf000 = 0)))"
proof -
  have n: "unat (0x2000::u16) div 8192 = 1" "unat (0x20::u16) div 16 = 2"
    "unat (0x30::u16) div 16 = 3" "unat (0::u16) div k = 0" for k by simp_all
  have e: "\<not> (a = 0 \<and> b = 0 \<and> c = 0 \<and> d = 0 \<and> e = 0 \<and> f = 0)"
      "\<not> (a = 0 \<and> b = 0 \<and> c = 0 \<and> d = 0 \<and> e = 0 \<and> f = 0xffff)"
    using assms by (auto split: if_splits)
  show ?thesis
    unfolding v6_table_public_def v6_special_def v6_exceptions_def v6_unicast_def v6_embedding_def
      list_ex_simps' in_v6_lens n v6_ranges masks using e
    by argo
qed

lemma to_ipv4_low: "to_ipv4 x = Some a \<longleftrightarrow> list_ex (in_v6 x) v6_embedding \<and> a = low_v4 x"
proof (cases x)
  case (Ipv6 s0 s1 s2 s3 s4 s5 s6 s7)
  show ?thesis unfolding Ipv6 v6_embedding_def list_ex_simps' in_v6_lens by (auto split: if_splits)
qed

lemma ipv6_table: "is_public_ipv6 x = v6_table_public x"
proof (cases "to_ipv4 x")
  case (Some a)
  with to_ipv4_low [of x a] show ?thesis
    by (simp add: is_public_ipv6_def v6_table_public_def ipv4_table)
next
  case None
  obtain a b c d e f g h where x: "x = Ipv6 a b c d e f g h" by (cases x)
  have r: "1 \<le> h \<and> h \<le> 3 \<longleftrightarrow> h = 1 \<or> h = 2 \<or> h = 3"
    by (auto simp: word_le_nat_alt w_eq)
  have b: "b = 0 \<longrightarrow> b AND 0xfe00 = 0 \<and> b AND 0xfff0 \<noteq> 0x20 \<and> b AND 0xfff0 \<noteq> 0x30 \<and> b \<noteq> 1 \<and> b \<noteq> 3 \<and> b \<noteq> 4"
    "b AND 0xfff0 = 0x10 \<longrightarrow> b AND 0xfe00 = 0 \<and> b AND 0xfff0 \<noteq> 0x20 \<and> b AND 0xfff0 \<noteq> 0x30 \<and> b \<noteq> 1 \<and> b \<noteq> 3 \<and> b \<noteq> 4"
    "b AND 0xfff0 = 0x20 \<or> b AND 0xfff0 = 0x30 \<longrightarrow> b AND 0xfe00 = 0"
    "b = 1 \<or> b = 3 \<or> b = 4 \<longrightarrow> b AND 0xfe00 = 0" "b = 0xdb8 \<longrightarrow> b AND 0xfe00 \<noteq> 0"
    unfolding masks by auto
  have n: "\<not> v6_loopback x" "\<not> v6_unspecified x" using None by (auto simp: x)
  show ?thesis
  proof (cases "0x2000 \<le> a \<and> a \<le> 0x3fff")
    case True
    note ex = v6_unicast_excludes [OF conjunct1 [OF True] conjunct2 [OF True]]
    show ?thesis
    proof (cases "a = 0x2001")
      case A: True
      show ?thesis using None n(1,2) ex(1,2,3,4)
        unfolding is_public_ipv6_def x v6_table_eq [OF None [unfolded x]]
        apply (simp add: A r del: One_nat_def)
        using b by argo
    next
      case False
      then show ?thesis using None n ex True
        unfolding is_public_ipv6_def x v6_table_eq [OF None [unfolded x]]
        by simp
    qed
  next
    case False
    have "\<not> is_public_ipv6 x" unfolding is_public_ipv6_def x None [unfolded x] option.case ipv6.case using False by blast
    moreover have "\<not> v6_table_public x" unfolding x v6_table_eq [OF None [unfolded x]] using False by blast
    ultimately show ?thesis by simp
  qed
qed

section \<open>Host names that spell an IPv4 address\<close>

lemma trim_end_dots_show: "trim_end_dots (show_ipv4 a @ replicate n CHR ''.'') = show_ipv4 a"
proof -
  obtain d where d: "d < 10" "last (show_ipv4 a) = digit_char d" using last_show_ipv4 by blast
  have "digit_char d \<noteq> CHR ''.''" using of_char_digit [OF d(1)] by auto
  with d(2) last_show_ipv4(2) [of a] have "dropWhile (\<lambda>c. c = CHR ''.'') (rev (show_ipv4 a)) = rev (show_ipv4 a)"
    by (cases "rev (show_ipv4 a)") (auto simp: last_rev hd_rev [symmetric])
  moreover have "dropWhile (\<lambda>c. c = CHR ''.'') (replicate n CHR ''.'' @ ys)
      = dropWhile (\<lambda>c. c = CHR ''.'') ys" for ys
    by (induction n) auto
  ultimately show ?thesis by (simp add: trim_end_dots_def)
qed
lemma suffix_last: "is_suffix_of p s \<Longrightarrow> p \<noteq> [] \<Longrightarrow> s \<noteq> [] \<and> last s = last p"
  by (cases "rev p"; cases "rev s") (auto simp: is_suffix_of_def is_prefix_of_def)

lemma allows_domain_ipv4:
  "allows_domain (show_ipv4 a @ replicate n CHR ''.'') = is_public_ipv4 a"
proof -
  obtain d where d: "d < 10" "last (show_ipv4 a) = digit_char d" using last_show_ipv4 by blast
  have l: "last (show_ipv4 a) \<noteq> CHR ''t''" "last (show_ipv4 a) \<noteq> CHR ''l''" "last (show_ipv4 a) \<noteq> CHR ''a''"
    unfolding d(2) using of_char_digit [OF d(1)] d(1) by auto
  have "\<not> is_suffix_of p (show_ipv4 a)" if "p \<noteq> []" "last p \<in> {CHR ''t'', CHR ''l'', CHR ''a''}" for p
    using suffix_last [of p "show_ipv4 a"] that l by auto
  moreover have "show_ipv4 a \<noteq> ''localhost''" "show_ipv4 a \<noteq> ''home.arpa''" using l by auto
  moreover have "parse_ip (show_ipv4 a) = Some (V4 a)"
    using read_show_ipv4 [of "[]" a] by (simp add: parse_ip_def)
  ultimately show ?thesis
    unfolding allows_domain_def trim_end_dots_show Let_def using last_show_ipv4(2) [of a]
    by simp
qed

section \<open>Properties\<close>

text \<open>
  C27: \<open>is_public_ip\<close>, which tests octets and segments one by one, decides exactly the table
  of special-purpose CIDR blocks and their globally reachable exceptions: no bit pattern of
  an IPv4 or IPv6 address escapes it, and an IPv4-mapped or IPv4-compatible address is
  judged as the IPv4 address it carries.
\<close>
theorem public_ip_table: "is_public_ip a = table_public a"
  by (cases a) (simp_all add: ipv4_table ipv6_table)

text \<open>
  A URL whose host name spells an IPv4 address in dotted decimal, followed by any number
  of dots, is allowed exactly when the URL with that address as its host is.
\<close>
theorem domain_literal_decision:
  "allows_url (u\<lparr>url_host := Some (HostDomain (show_ipv4 a @ replicate n CHR ''.''))\<rparr>)
   = allows_url (u\<lparr>url_host := Some (HostIpv4 a)\<rparr>)"
  by (simp add: allows_url_def allows_domain_ipv4)

end
