(* ===== verification/Xxhash.thy ===== *)
theory Xxhash
  imports Prelude
begin

text \<open>
  The streaming XXH64 of \<open>stravia-vendor-claudecode/src/xxhash.rs\<close>: 64-bit words with
  wrapping arithmetic, four lanes, a 32-byte stripe buffer. The specification cuts the
  whole input into 32-byte stripes by index; the property is that any sequence of updates
  computes it, whatever the split into chunks.
\<close>

unbundle bit_operations_syntax

section \<open>The rounds\<close>

definition prime_1 :: u64 where "prime_1 = 0x9E3779B185EBCA87"
definition prime_2 :: u64 where "prime_2 = 0xC2B2AE3D27D4EB4F"
definition prime_3 :: u64 where "prime_3 = 0x165667B19E3779F9"
definition prime_4 :: u64 where "prime_4 = 0x85EBCA77C2B2AE63"
definition prime_5 :: u64 where "prime_5 = 0x27D4EB2F165667C5"
definition stripe :: nat where "stripe = 32"

definition rotate_left :: "nat \<Rightarrow> u64 \<Rightarrow> u64" where
  "rotate_left n w = push_bit n w OR drop_bit (64 - n) w"

definition read_u64 :: "u8 list \<Rightarrow> u64" where
  "read_u64 bytes = from_le_bytes (take 8 bytes)"

definition read_u32 :: "u8 list \<Rightarrow> u64" where
  "read_u32 bytes = from_le_bytes (take 4 bytes)"

definition xxh_round :: "u64 \<Rightarrow> u64 \<Rightarrow> u64" where
  "xxh_round accumulator lane = rotate_left 31 (accumulator + lane * prime_2) * prime_1"

definition merge_round :: "u64 \<Rightarrow> u64 \<Rightarrow> u64" where
  "merge_round accumulator v = (accumulator XOR xxh_round 0 v) * prime_1 + prime_4"

section \<open>The streaming state\<close>

record xxh64_state =
  xx_seed :: u64
  xx_lanes :: "u64 list"
  xx_buffer :: "u8 list"
  xx_buffered :: nat
  xx_total :: u64

definition init_lanes :: "u64 \<Rightarrow> u64 list" where
  "init_lanes seed = [seed + prime_1 + prime_2, seed + prime_2, seed, seed - prime_1]"

definition xxh64_new :: "u64 \<Rightarrow> xxh64_state" where
  "xxh64_new seed =
     \<lparr>xx_seed = seed, xx_lanes = init_lanes seed, xx_buffer = replicate stripe 0,
      xx_buffered = 0, xx_total = 0\<rparr>"

definition consume :: "u64 list \<Rightarrow> u8 list \<Rightarrow> u64 list" where
  "consume lanes s =
     map (\<lambda>(index, lane). xxh_round lane (read_u64 (drop (index * 8) s))) (enumerate 0 lanes)"

text \<open>\<open>buffer[at..at + n].copy_from_slice(..)\<close>.\<close>

definition overwrite :: "'a list \<Rightarrow> nat \<Rightarrow> 'a list \<Rightarrow> 'a list" where
  "overwrite xs i ys = take i xs @ ys @ drop (i + length ys) xs"

text \<open>The \<open>while\<close> loop over whole stripes; it returns the lanes and the rest of the input.\<close>

function consume_stripes :: "u64 list \<Rightarrow> u8 list \<Rightarrow> u64 list \<times> u8 list" where
  "consume_stripes lanes input =
     (if length input \<ge> stripe
      then consume_stripes (consume lanes (take stripe input)) (drop stripe input)
      else (lanes, input))"
  by pat_completeness auto
termination by (relation "measure (\<lambda>(_, input). length input)") (auto simp: stripe_def)

declare consume_stripes.simps [simp del]

definition xxh64_update :: "xxh64_state \<Rightarrow> u8 list \<Rightarrow> xxh64_state" where
  "xxh64_update h input =
     (let h = h\<lparr>xx_total := xx_total h + of_nat (length input)\<rparr> in
      if xx_buffered h + length input < stripe
      then h\<lparr>xx_buffer := overwrite (xx_buffer h) (xx_buffered h) input,
             xx_buffered := xx_buffered h + length input\<rparr>
      else
        (let (h, input) =
           (if xx_buffered h > 0
            then (let fill = stripe - xx_buffered h;
                      full = overwrite (xx_buffer h) (xx_buffered h) (take fill input)
                  in (h\<lparr>xx_buffer := full, xx_lanes := consume (xx_lanes h) full,
                        xx_buffered := 0\<rparr>,
                      drop fill input))
            else (h, input));
           (lanes, rest) = consume_stripes (xx_lanes h) input
         in h\<lparr>xx_lanes := lanes, xx_buffer := overwrite (xx_buffer h) 0 rest,
              xx_buffered := length rest\<rparr>))"

section \<open>Finishing\<close>

function finish_eights :: "u64 \<Rightarrow> u8 list \<Rightarrow> u64 \<times> u8 list" where
  "finish_eights hash rest =
     (if length rest \<ge> 8
      then finish_eights
        (rotate_left 27 (hash XOR xxh_round 0 (read_u64 rest)) * prime_1 + prime_4) (drop 8 rest)
      else (hash, rest))"
  by pat_completeness auto
termination by (relation "measure (\<lambda>(_, rest). length rest)") auto

declare finish_eights.simps [simp del]

definition finish_four :: "u64 \<Rightarrow> u8 list \<Rightarrow> u64 \<times> u8 list" where
  "finish_four hash rest =
     (if length rest \<ge> 4
      then (rotate_left 23 (hash XOR read_u32 rest * prime_1) * prime_2 + prime_3, drop 4 rest)
      else (hash, rest))"

definition finish_byte :: "u64 \<Rightarrow> u8 \<Rightarrow> u64" where
  "finish_byte hash byte = rotate_left 11 (hash XOR ucast byte * prime_5) * prime_1"

definition avalanche :: "u64 \<Rightarrow> u64" where
  "avalanche hash =
     (let hash = hash XOR drop_bit 33 hash;
          hash = hash * prime_2;
          hash = hash XOR drop_bit 29 hash;
          hash = hash * prime_3
      in hash XOR drop_bit 32 hash)"

definition merge_lanes :: "u64 list \<Rightarrow> u64" where
  "merge_lanes lanes =
     (case lanes of
        [v1, v2, v3, v4] \<Rightarrow>
          merge_round (merge_round (merge_round (merge_round
            (rotate_left 1 v1 + rotate_left 7 v2 + rotate_left 12 v3 + rotate_left 18 v4)
            v1) v2) v3) v4
      | _ \<Rightarrow> 0)"

definition finish_tail :: "u64 \<Rightarrow> u8 list \<Rightarrow> u64" where
  "finish_tail hash rest =
     (let (hash, rest) = finish_eights hash rest;
          (hash, rest) = finish_four hash rest
      in avalanche (foldl finish_byte hash rest))"

definition xxh64_finish :: "xxh64_state \<Rightarrow> u64" where
  "xxh64_finish h =
     (let hash = (if xx_total h \<ge> of_nat stripe then merge_lanes (xx_lanes h)
                  else xx_seed h + prime_5)
      in finish_tail (hash + xx_total h) (take (xx_buffered h) (xx_buffer h)))"

definition xxh64 :: "u8 list \<Rightarrow> u64 \<Rightarrow> u64" where
  "xxh64 input seed = xxh64_finish (xxh64_update (xxh64_new seed) input)"

section \<open>Specification\<close>

text \<open>The stripes of an input, cut by index, and the hash of the whole input.\<close>

definition stripes_of :: "u8 list \<Rightarrow> u8 list list" where
  "stripes_of d = map (\<lambda>k. take stripe (drop (stripe * k) d)) [0..<length d div stripe]"

definition tail_of :: "u8 list \<Rightarrow> u8 list" where
  "tail_of d = drop (stripe * (length d div stripe)) d"

definition xxh64_spec :: "u64 \<Rightarrow> u8 list \<Rightarrow> u64" where
  "xxh64_spec seed d =
     finish_tail
       ((if stripe \<le> length d then merge_lanes (foldl consume (init_lanes seed) (stripes_of d))
         else seed + prime_5) + of_nat (length d))
       (tail_of d)"

text \<open>The abstraction: a state holds the input read so far.\<close>

definition holds_input :: "xxh64_state \<Rightarrow> u64 \<Rightarrow> u8 list \<Rightarrow> bool" where
  "holds_input h seed d \<longleftrightarrow>
     xx_seed h = seed \<and> xx_total h = of_nat (length d) \<and> length (xx_buffer h) = stripe
     \<and> xx_buffered h < stripe
     \<and> consume_stripes (init_lanes seed) d = (xx_lanes h, take (xx_buffered h) (xx_buffer h))"

lemma stripe_pos [simp]: "0 < stripe" "stripe \<noteq> 0"
  by (simp_all add: stripe_def)

lemma consume_stripes_append:
  "consume_stripes l (a @ b) = (case consume_stripes l a of (l', r) \<Rightarrow> consume_stripes l' (r @ b))"
proof (induction l a rule: consume_stripes.induct)
  case (1 l a)
  show ?case
  proof (cases "length a \<ge> stripe")
    case True
    then show ?thesis
      using "1.IH" by (simp add: consume_stripes.simps [of l a] consume_stripes.simps [of l "a @ b"])
  next
    case False
    then show ?thesis by (simp add: consume_stripes.simps [of l a])
  qed
qed

lemma consume_stripes_short: "length a < stripe \<Longrightarrow> consume_stripes l a = (l, a)"
  by (simp add: consume_stripes.simps)

lemma consume_stripes_rest: "consume_stripes l a = (l', r) \<Longrightarrow> length r < stripe"
proof (induction l a rule: consume_stripes.induct)
  case (1 l a)
  then show ?case by (subst (asm) (2) consume_stripes.simps) (auto split: if_splits)
qed

lemma stripes_of_step:
  assumes "stripe \<le> length d"
  shows "stripes_of d = take stripe d # stripes_of (drop stripe d)" "tail_of d = tail_of (drop stripe d)"
proof -
  have n: "length d div stripe = Suc ((length d - stripe) div stripe)"
    using assms by (simp add: le_div_geq)
  show "stripes_of d = take stripe d # stripes_of (drop stripe d)"
    unfolding stripes_of_def n
    by (simp add: upt_conv_Cons map_Suc_upt [symmetric] del: upt_Suc) (simp add: add.commute)
  show "tail_of d = tail_of (drop stripe d)"
    unfolding tail_of_def n by (simp add: add.commute)
qed

lemma consume_stripes_spec: "consume_stripes l d = (foldl consume l (stripes_of d), tail_of d)"
proof (induction l d rule: consume_stripes.induct)
  case (1 l d)
  show ?case
  proof (cases "length d \<ge> stripe")
    case True
    then show ?thesis using "1.IH" by (subst consume_stripes.simps) (simp add: stripes_of_step)
  next
    case False
    then show ?thesis by (simp add: consume_stripes_short stripes_of_def tail_of_def)
  qed
qed

lemma take_overwrite:
  "i + length ys \<le> length xs \<Longrightarrow> take (i + length ys) (overwrite xs i ys) = take i xs @ ys"
  by (simp add: overwrite_def)

lemma length_overwrite [simp]: "i + length ys \<le> length xs \<Longrightarrow> length (overwrite xs i ys) = length xs"
  by (simp add: overwrite_def)

lemma new_holds: "holds_input (xxh64_new seed) seed []"
  by (simp add: holds_input_def xxh64_new_def consume_stripes_short)

lemma update_holds:
  assumes "holds_input h seed d"
  shows "holds_input (xxh64_update h input) seed (d @ input)"
proof -
  let ?b = "xx_buffered h" and ?buf = "xx_buffer h"
  have len: "length ?buf = stripe" "?b < stripe"
    and cs: "consume_stripes (init_lanes seed) d = (xx_lanes h, take ?b ?buf)"
    and st: "xx_seed h = seed" "xx_total h = of_nat (length d)"
    using assms by (simp_all add: holds_input_def)
  have app: "consume_stripes (init_lanes seed) (d @ input)
      = consume_stripes (xx_lanes h) (take ?b ?buf @ input)"
    using consume_stripes_append [of "init_lanes seed" d input] cs by simp
  show ?thesis
  proof (cases "?b + length input < stripe")
    case True
    then show ?thesis
      using len st app
      by (simp add: holds_input_def xxh64_update_def Let_def take_overwrite consume_stripes_short)
  next
    case False
    let ?fill = "stripe - ?b"
    let ?full = "overwrite ?buf ?b (take ?fill input)"
    define lanes rest where "lanes = (if 0 < ?b then consume (xx_lanes h) ?full else xx_lanes h)"
      and "rest = (if 0 < ?b then drop ?fill input else input)"
    have full: "?full = take ?b ?buf @ take ?fill input"
      using False len by (simp add: overwrite_def)
    have ne: "consume_stripes (xx_lanes h) (take ?b ?buf @ input) = consume_stripes lanes rest"
    proof (cases "0 < ?b")
      case True
      then show ?thesis using False len
        by (simp add: consume_stripes.simps [of "xx_lanes h"] lanes_def rest_def full)
    qed (simp add: lanes_def rest_def)
    obtain l r where lr: "consume_stripes lanes rest = (l, r)" by (cases "consume_stripes lanes rest")
    have rl: "length r < stripe" by (rule consume_stripes_rest [OF lr])
    show ?thesis
    proof (cases "0 < ?b")
      case True
      then show ?thesis
        using False len st app ne lr rl
        by (simp add: holds_input_def xxh64_update_def Let_def lanes_def rest_def
            take_overwrite [of 0, simplified])
    next
      case b0: False
      then show ?thesis
        using False len st app ne lr rl
        by (simp add: holds_input_def xxh64_update_def Let_def lanes_def rest_def
            take_overwrite [of 0, simplified])
    qed
  qed
qed

lemma updates_hold:
  "holds_input h seed d \<Longrightarrow> holds_input (foldl xxh64_update h chunks) seed (d @ concat chunks)"
proof (induction chunks arbitrary: h d)
  case (Cons c cs)
  from Cons.IH [OF update_holds [OF Cons.prems]] show ?case by simp
qed simp

lemma finish_holds:
  assumes "holds_input h seed d" and "length d < 2 ^ 64"
  shows "xxh64_finish h = xxh64_spec seed d"
proof -
  have "of_nat stripe \<le> (of_nat (length d) :: u64) \<longleftrightarrow> stripe \<le> length d"
    using assms(2) by (simp add: word_le_nat_alt unat_of_nat stripe_def)
  with assms(1) show ?thesis
    by (simp add: holds_input_def xxh64_finish_def xxh64_spec_def consume_stripes_spec)
qed


section \<open>Properties\<close>

text \<open>
  C28: Refinement: feeding an input to the streaming hasher in any chunks computes the
  specified hash of the whole input (below \<open>2^64\<close> bytes, which every slice in memory is).
\<close>
theorem streaming_hash_refines:
  assumes "length (concat chunks) < 2 ^ 64"
  shows "xxh64_finish (foldl xxh64_update (xxh64_new seed) chunks) = xxh64_spec seed (concat chunks)"
  using finish_holds [OF updates_hold [OF new_holds, of seed chunks]] assms by simp

text \<open>The reference vector of the test-suite for the input \<open>abc\<close>, fed in two chunks.\<close>
theorem streaming_hash_refines_witness:
  "xxh64_finish (foldl xxh64_update (xxh64_new 0) [[0x61], [0x62, 0x63]]) = xxh64_spec 0 [0x61, 0x62, 0x63]
   \<and> xxh64_spec 0 [0x61, 0x62, 0x63] = 0x44bc2cf5ad770999"
proof
  show "xxh64_finish (foldl xxh64_update (xxh64_new 0) [[0x61], [0x62, 0x63]]) = xxh64_spec 0 [0x61, 0x62, 0x63]"
    using streaming_hash_refines [of "[[0x61], [0x62, 0x63]]" 0] by simp
  show "xxh64_spec 0 [0x61, 0x62, 0x63] = 0x44bc2cf5ad770999"
    by code_simp
qed

end
