(* ===== verification/Cch.thy ===== *)
theory Cch
  imports Xxhash
begin

text \<open>
  The \<open>cch\<close> check value of a Claude Code request body
  (\<open>stravia-vendor-claudecode/src/request.rs\<close>): which byte ranges of the serialised body are
  left out of the hash, the digest of the rest, and the patch of the placeholder. Bytes are
  characters; indices are the code's, and a slice out of range is \<open>None\<close>, a panic.
\<close>

unbundle bit_operations_syntax

section \<open>Scanning\<close>

definition cch_seed :: u64 where "cch_seed = 0x4d659218e32a3268"
definition cch_mask :: u64 where "cch_mask = 0xfffff"
definition cch_placeholder :: string where "cch_placeholder = ''cch=00000''"
definition cch_system_prefix :: string where
  "cch_system_prefix = ''[{\"type\":\"text\",\"text\":\"x-anthropic-billing-header:''"
definition cch_search_window :: nat where "cch_search_window = 300"

definition cch_model_key :: string where "cch_model_key = ''\"model\":\"''"
definition cch_max_tokens_key :: string where "cch_max_tokens_key = ''\"max_tokens\":''"
definition cch_fallbacks_key :: string where "cch_fallbacks_key = ''\"fallbacks\":[''"
definition cch_credit_token_key :: string where
  "cch_credit_token_key = ''\"fallback_credit_token\":\"''"

text \<open>\<open>iter().position(..)\<close> of a byte.\<close>

fun position_from :: "nat \<Rightarrow> char \<Rightarrow> string \<Rightarrow> nat option" where
  "position_from n c [] = None"
| "position_from n c (x # xs) = (if x = c then Some n else position_from (Suc n) c xs)"

abbreviation position :: "char \<Rightarrow> string \<Rightarrow> nat option" where
  "position \<equiv> position_from 0"

definition find_bytes :: "string \<Rightarrow> string \<Rightarrow> nat \<Rightarrow> nat option" where
  "find_bytes haystack needle from =
     (if from \<le> length haystack
      then find (\<lambda>i. take (length needle) (drop i haystack) = needle)
             [from..<Suc (length haystack) - length needle]
      else None)"

function closing_quote :: "string \<Rightarrow> nat \<Rightarrow> nat option" where
  "closing_quote body index =
     (if index < length body
      then (if body ! index = CHR 0x5C then closing_quote body (index + 2)
            else if body ! index = CHR 0x22 then Some index
            else closing_quote body (index + 1))
      else None)"
  by pat_completeness auto
termination by (relation "measure (\<lambda>(body, index). length body - index)") auto

declare closing_quote.simps [simp del]

text \<open>The subtraction of a release build wraps at zero.\<close>

definition dec_depth :: "nat \<Rightarrow> nat" where
  "dec_depth depth = (if depth = 0 then u64_max else depth - 1)"

lemma closing_quote_ge: "closing_quote body i = Some e \<Longrightarrow> i \<le> e \<and> e < length body"
proof (induction body i rule: closing_quote.induct)
  case (1 body i)
  then show ?case
    by (subst (asm) (3) closing_quote.simps) (auto split: if_splits)
qed

function array_scan :: "string \<Rightarrow> nat \<Rightarrow> nat \<Rightarrow> nat option" where
  "array_scan body depth index =
     (if index < length body
      then (if body ! index = CHR 0x22
            then (case closing_quote body (index + 1) of
                    None \<Rightarrow> None
                  | Some q \<Rightarrow> array_scan body depth (q + 1))
            else if body ! index = CHR ''['' then array_scan body (depth + 1) (index + 1)
            else if body ! index = CHR '']''
            then (if dec_depth depth = 0 then Some (index + 1)
                  else array_scan body (dec_depth depth) (index + 1))
            else array_scan body depth (index + 1))
      else None)"
  by pat_completeness auto
termination
  by (relation "measure (\<lambda>(body, depth, index). length body - index)")
    (auto dest: closing_quote_ge)

declare array_scan.simps [simp del]

definition array_end :: "string \<Rightarrow> nat \<Rightarrow> nat option" where
  "array_end body from = array_scan body 0 from"

lemma array_scan_ge: "array_scan body d i = Some e \<Longrightarrow> i < e \<and> e \<le> length body"
proof (induction body d i rule: array_scan.induct)
  case (1 body d i)
  show ?case
  proof (cases "i < length body \<and> body ! i = CHR 0x22")
    case True
    then obtain q where q: "closing_quote body (i + 1) = Some q" "array_scan body d (q + 1) = Some e"
      using "1.prems" by (subst (asm) array_scan.simps) (auto split: option.splits)
    then show ?thesis using "1.IH"(1) True closing_quote_ge [OF q(1)] by fastforce
  next
    case False
    then show ?thesis using "1.prems" "1.IH"(2,3,4)
      by (fastforce simp: array_scan.simps [of body d i] split: if_splits)
  qed
qed

section \<open>Excluded spans\<close>

definition field_span :: "string \<Rightarrow> nat \<Rightarrow> nat \<Rightarrow> nat \<Rightarrow> nat \<times> nat" where
  "field_span body start stop previous_end =
     (if stop < length body \<and> body ! stop = CHR '','' then (start, stop + 1)
      else if start > previous_end \<and> body ! (start - 1) = CHR '','' then (start - 1, stop)
      else (start, stop))"

definition is_ascii_digit :: "char \<Rightarrow> bool" where
  "is_ascii_digit c \<longleftrightarrow> 48 \<le> (of_char c :: nat) \<and> (of_char c :: nat) \<le> 57"

text \<open>
  One turn of the iterator's loop: it ends, goes on at a later position, or yields a span.
\<close>

datatype scan = ScanEnd | ScanSkip nat | ScanSpan "nat \<times> nat" nat

definition cch_scan :: "string \<Rightarrow> nat \<Rightarrow> nat \<Rightarrow> scan" where
  "cch_scan body at previous_end =
     (if length body < at then ScanEnd else
      case position CHR 0x22 (drop at body) of
        None \<Rightarrow> ScanEnd
      | Some offset \<Rightarrow>
        (let start = at + offset;
             rest = drop start body
         in
         if is_prefix_of cch_model_key rest then
           (let v = start + length cch_model_key in
            case position CHR 0x22 (drop v body) of
              None \<Rightarrow> ScanEnd
            | Some n \<Rightarrow> if v + n > v then ScanSpan (v, v + n) (v + n) else ScanSkip (v + n))
         else if is_prefix_of cch_max_tokens_key rest then
           (let digits = start + length cch_max_tokens_key;
                stop = digits + length (takeWhile is_ascii_digit (drop digits body))
            in if stop > digits then ScanSpan (field_span body start stop previous_end) stop
               else ScanSkip (start + 1))
         else if is_prefix_of cch_fallbacks_key rest then
           (let from = start + length cch_fallbacks_key - 1 in
            case array_end body from of
              None \<Rightarrow> ScanEnd
            | Some stop \<Rightarrow> ScanSpan (field_span body start stop previous_end) stop)
         else if is_prefix_of cch_credit_token_key rest then
           (let v = start + length cch_credit_token_key in
            case position CHR 0x22 (drop v body) of
              None \<Rightarrow> ScanEnd
            | Some n \<Rightarrow> ScanSpan (field_span body start (v + n + 1) previous_end) (v + n + 1))
         else ScanSkip (start + 1)))"


subsection \<open>Progress and bounds of one turn\<close>

lemma position_from_bounds: "position_from n c xs = Some k \<Longrightarrow> n \<le> k \<and> k < n + length xs \<and> xs ! (k - n) = c"
proof (induction xs arbitrary: n)
  case (Cons x xs)
  show ?case
  proof (cases "x = c")
    case False
    with Cons.prems have "position_from (Suc n) c xs = Some k" by simp
    from Cons.IH [OF this] show ?thesis by (auto simp: nth_Cons')
  qed (use Cons.prems in auto)
qed simp

lemma position_bounds:
  "position c (drop v body) = Some k \<Longrightarrow> v + k < length body \<and> body ! (v + k) = c"
  using position_from_bounds [of 0 c "drop v body" k] by (cases "v \<le> length body") auto

lemma prefix_length: "is_prefix_of p (drop i xs) \<Longrightarrow> p \<noteq> [] \<Longrightarrow> i + length p \<le> length xs"
  by (cases "i \<le> length xs") (auto simp: is_prefix_of_def dest!: arg_cong [where f = length])

lemma key_lengths [simp]:
  "length cch_model_key = 9" "length cch_max_tokens_key = 13" "length cch_fallbacks_key = 13"
  "length cch_credit_token_key = 25"
  by (simp_all add: cch_model_key_def cch_max_tokens_key_def cch_fallbacks_key_def
    cch_credit_token_key_def)

lemma keys_nonempty [simp]:
  "cch_model_key \<noteq> []" "cch_max_tokens_key \<noteq> []" "cch_fallbacks_key \<noteq> []"
  "cch_credit_token_key \<noteq> []"
  using key_lengths by (metis list.size(3) zero_neq_numeral)+

text \<open>
  A span starts no earlier than the previous one ended, is not empty, ends inside the body,
  and the scan goes on behind its start; what the span adds after \<open>at'\<close> is one comma.
\<close>

definition good_scan :: "string \<Rightarrow> nat \<Rightarrow> nat \<Rightarrow> scan \<Rightarrow> bool" where
  "good_scan body at prev r =
     (case r of
        ScanEnd \<Rightarrow> True
      | ScanSkip at' \<Rightarrow> at < at' \<and> at' \<le> length body
      | ScanSpan (s, e) at' \<Rightarrow>
          at < at' \<and> prev \<le> s \<and> s < e \<and> e \<le> length body \<and> at' \<le> e \<and> e \<le> at' + 1
          \<and> (e = at' + 1 \<longrightarrow> body ! at' = CHR '',''))"

lemma field_span_good:
  assumes "at \<le> start" "start < stop" "stop \<le> length body" "prev \<le> start"
  shows "good_scan body at prev (ScanSpan (field_span body start stop prev) stop)"
  using assms by (auto simp: field_span_def good_scan_def)


definition span_gap :: "string \<Rightarrow> nat \<Rightarrow> nat \<Rightarrow> bool" where
  "span_gap body at prev \<longleftrightarrow>
     at \<le> length body \<and> prev \<le> length body
     \<and> (prev \<le> at \<or> (prev = at + 1 \<and> body ! at = CHR '',''))"

lemma cch_scan_good:
  assumes gap: "span_gap body at prev"
  shows "good_scan body at prev (cch_scan body at prev)"
proof (cases "position CHR 0x22 (drop at body)")
  case None
  with gap show ?thesis by (simp add: cch_scan_def good_scan_def span_gap_def)
next
  case (Some offset)
  let ?start = "at + offset" and ?rest = "drop (at + offset) body"
  from position_bounds [OF Some] have q: "?start < length body" "body ! ?start = CHR 0x22" by auto
  have prev: "prev \<le> ?start"
    using gap q by (cases offset) (auto simp: span_gap_def)
  note scan = cch_scan_def Some Let_def
  consider (model) "is_prefix_of cch_model_key ?rest"
    | (tokens) "\<not> is_prefix_of cch_model_key ?rest" "is_prefix_of cch_max_tokens_key ?rest"
    | (fallbacks) "\<not> is_prefix_of cch_model_key ?rest" "\<not> is_prefix_of cch_max_tokens_key ?rest"
        "is_prefix_of cch_fallbacks_key ?rest"
    | (credit) "\<not> is_prefix_of cch_model_key ?rest" "\<not> is_prefix_of cch_max_tokens_key ?rest"
        "\<not> is_prefix_of cch_fallbacks_key ?rest" "is_prefix_of cch_credit_token_key ?rest"
    | (other) "\<not> is_prefix_of cch_model_key ?rest" "\<not> is_prefix_of cch_max_tokens_key ?rest"
        "\<not> is_prefix_of cch_fallbacks_key ?rest" "\<not> is_prefix_of cch_credit_token_key ?rest"
    by blast
  then show ?thesis
  proof cases
    case model
    then show ?thesis
      using gap prev
      by (auto simp: scan good_scan_def span_gap_def split: option.split dest!: position_bounds)
  next
    case tokens
    let ?n = "length (takeWhile is_ascii_digit (drop (?start + 13) body))"
    have "?start + 13 \<le> length body" using prefix_length [OF tokens(2)] by simp
    moreover have "?n \<le> length (drop (?start + 13) body)" by (rule length_takeWhile_le)
    ultimately have le: "?start + 13 + ?n \<le> length body" by simp
    show ?thesis
    proof (cases "?n = 0")
      case True
      with tokens gap q show ?thesis by (simp add: scan good_scan_def span_gap_def)
    next
      case False
      have "good_scan body at prev (ScanSpan (field_span body ?start (?start + 13 + ?n) prev) (?start + 13 + ?n))"
        by (rule field_span_good) (use le prev in auto)
      with tokens gap False show ?thesis by (simp add: scan span_gap_def)
    qed
  next
    case fallbacks
    show ?thesis
    proof (cases "array_end body (12 + ?start)")
      case None
      with fallbacks gap show ?thesis by (simp add: scan span_gap_def good_scan_def)
    next
      case e: (Some e)
      from e have "?start + 12 < e" "e \<le> length body"
        by (auto simp: array_end_def dest: array_scan_ge)
      then have "good_scan body at prev (ScanSpan (field_span body ?start e prev) e)"
        by (intro field_span_good) (use prev in auto)
      with fallbacks gap e show ?thesis by (simp add: scan span_gap_def)
    qed
  next
    case credit
    show ?thesis
    proof (cases "position CHR 0x22 (drop (?start + 25) body)")
      case None
      with credit gap show ?thesis by (simp add: scan span_gap_def good_scan_def)
    next
      case e: (Some n)
      from position_bounds [OF e]
      have "good_scan body at prev (ScanSpan (field_span body ?start (?start + 25 + n + 1) prev) (?start + 25 + n + 1))"
        by (intro field_span_good) (use prev in auto)
      with credit gap e show ?thesis by (simp add: scan span_gap_def)
    qed
  next
    case other
    with gap q show ?thesis by (simp add: scan good_scan_def span_gap_def)
  qed
qed


subsection \<open>The iterator\<close>

fun scan_next :: "scan \<Rightarrow> nat option" where
  "scan_next ScanEnd = None"
| "scan_next (ScanSkip at') = Some at'"
| "scan_next (ScanSpan sp at') = Some at'"

lemma scan_next_prev: "scan_next (cch_scan body at p) = scan_next (cch_scan body at p')"
  by (simp add: cch_scan_def Let_def split: option.split)

lemma cch_scan_progress:
  assumes "scan_next (cch_scan body at p) = Some at'"
  shows "at < at' \<and> at \<le> length body"
proof -
  have le: "at \<le> length body"
    using assms by (cases "length body < at") (simp_all add: cch_scan_def)
  then have "good_scan body at 0 (cch_scan body at 0)"
    by (intro cch_scan_good) (simp add: span_gap_def)
  with assms scan_next_prev [of body at p 0] le show ?thesis
    by (cases "cch_scan body at 0") (auto simp: good_scan_def)
qed

function spans_from :: "string \<Rightarrow> nat \<Rightarrow> nat \<Rightarrow> (nat \<times> nat) list" where
  "spans_from body at prev =
     (case cch_scan body at prev of
        ScanEnd \<Rightarrow> []
      | ScanSkip at' \<Rightarrow> spans_from body at' prev
      | ScanSpan sp at' \<Rightarrow> sp # spans_from body at' (snd sp))"
  by pat_completeness auto
termination
proof (relation "measure (\<lambda>(body, at, prev). Suc (length body) - at)")
  fix body at prev at'
  assume "cch_scan body at prev = ScanSkip at'"
  then show "((body, at', prev), (body, at, prev)) \<in> measure (\<lambda>(body, at, prev). Suc (length body) - at)"
    using cch_scan_progress [of body at prev at'] by auto
next
  fix body at prev sp at'
  assume "cch_scan body at prev = ScanSpan sp at'"
  then show "((body, at', snd sp), (body, at, prev)) \<in> measure (\<lambda>(body, at, prev). Suc (length body) - at)"
    using cch_scan_progress [of body at prev at'] by auto
qed simp

declare spans_from.simps [simp del]

definition cch_excluded_spans :: "string \<Rightarrow> (nat \<times> nat) list" where
  "cch_excluded_spans body = spans_from body 0 0"

text \<open>Spans in order: each starts at or after the cursor, is not empty and ends inside.\<close>

fun ordered_spans :: "nat \<Rightarrow> nat \<Rightarrow> (nat \<times> nat) list \<Rightarrow> bool" where
  "ordered_spans cursor len [] \<longleftrightarrow> cursor \<le> len"
| "ordered_spans cursor len ((s, e) # sps) \<longleftrightarrow> cursor \<le> s \<and> s < e \<and> ordered_spans e len sps"

lemma spans_from_ordered:
  "span_gap body at prev \<Longrightarrow> ordered_spans prev (length body) (spans_from body at prev)"
proof (induction body at prev rule: spans_from.induct)
  case (1 body at prev)
  note good = cch_scan_good [OF "1.prems"]
  show ?case
  proof (cases "cch_scan body at prev")
    case ScanEnd
    with "1.prems" show ?thesis by (simp add: spans_from.simps [of body at prev] span_gap_def)
  next
    case (ScanSkip at')
    with good "1.prems" have "span_gap body at' prev"
      by (auto simp: good_scan_def span_gap_def)
    with ScanSkip "1.IH"(1) show ?thesis by (simp add: spans_from.simps [of body at prev])
  next
    case (ScanSpan sp at')
    obtain s e where sp: "sp = (s, e)" by (cases sp)
    with ScanSpan good have "span_gap body at' e"
      by (auto simp: good_scan_def span_gap_def)
    with ScanSpan sp good "1.IH"(2) show ?thesis
      by (auto simp: spans_from.simps [of body at prev] good_scan_def)
  qed
qed

lemma ordered_spans_le: "ordered_spans c len sps \<Longrightarrow> c \<le> len"
  by (induction c len sps rule: ordered_spans.induct) auto

lemma excluded_spans_ordered: "ordered_spans 0 (length body) (cch_excluded_spans body)"
  unfolding cch_excluded_spans_def by (rule spans_from_ordered) (simp add: span_gap_def)

section \<open>The digest\<close>

definition byte_of :: "char \<Rightarrow> u8" where
  "byte_of c = of_char c"

definition slice :: "'a list \<Rightarrow> nat \<Rightarrow> nat \<Rightarrow> 'a list option" where
  "slice xs a b = (if a \<le> b \<and> b \<le> length xs then Some (take (b - a) (drop a xs)) else None)"

fun digest_spans :: "string \<Rightarrow> xxh64_state \<Rightarrow> nat \<Rightarrow> (nat \<times> nat) list \<Rightarrow> xxh64_state option" where
  "digest_spans body hasher cursor [] =
     map_option (\<lambda>part. xxh64_update hasher (map byte_of part)) (slice body cursor (length body))"
| "digest_spans body hasher cursor (span # spans) =
     do {
       part \<leftarrow> slice body cursor (fst span);
       digest_spans body (xxh64_update hasher (map byte_of part)) (snd span) spans
     }"

definition cch_digest :: "string \<Rightarrow> u64 option" where
  "cch_digest body =
     map_option (\<lambda>hasher. xxh64_finish hasher AND cch_mask)
       (digest_spans body (xxh64_new cch_seed) 0 (cch_excluded_spans body))"

text \<open>The bytes that are hashed: those whose index lies in no excluded span.\<close>

definition excluded :: "(nat \<times> nat) list \<Rightarrow> nat \<Rightarrow> bool" where
  "excluded sps i \<longleftrightarrow> list_ex (\<lambda>(s, e). s \<le> i \<and> i < e) sps"

definition retained :: "string \<Rightarrow> string" where
  "retained body =
     map (\<lambda>i. body ! i) (filter (\<lambda>i. \<not> excluded (cch_excluded_spans body) i) [0..<length body])"

lemma excluded_before: "ordered_spans c len sps \<Longrightarrow> i < c \<Longrightarrow> \<not> excluded sps i"
  by (induction c len sps rule: ordered_spans.induct) (auto simp: excluded_def)

lemma excluded_Cons: "excluded ((s, e) # sps) i \<longleftrightarrow> (s \<le> i \<and> i < e) \<or> excluded sps i"
  by (simp add: excluded_def)

lemma take_drop_map: "a \<le> b \<Longrightarrow> b \<le> length xs \<Longrightarrow> take (b - a) (drop a xs) = map (\<lambda>i. xs ! i) [a..<b]"
  by (rule nth_equalityI) auto

lemma upt_split3: "a \<le> s \<Longrightarrow> s \<le> e \<Longrightarrow> e \<le> n \<Longrightarrow> [a..<n] = [a..<s] @ [s..<e] @ [e..<n]" for a s e n :: nat
  by (metis le_add_diff_inverse le_trans upt_add_eq_append append_assoc)

lemma digest_spans_holds:
  assumes "ordered_spans cursor (length body) sps" and "holds_input h seed d"
  shows "\<exists>h'. digest_spans body h cursor sps = Some h'
    \<and> holds_input h' seed (d @ map byte_of (map (\<lambda>i. body ! i)
         (filter (\<lambda>i. \<not> excluded sps i) [cursor..<length body])))"
  using assms
proof (induction sps arbitrary: cursor h d)
  case Nil
  have "drop cursor body = map (\<lambda>i. body ! i) [cursor..<length body]"
    using take_drop_map [of cursor "length body" body] Nil(1) by simp
  with Nil(1) update_holds [OF Nil(2), of "map byte_of (drop cursor body)"] show ?case
    by (simp add: slice_def excluded_def)
next
  case (Cons sp sps)
  obtain s e where sp: "sp = (s, e)" by (cases sp)
  with Cons.prems have o: "cursor \<le> s" "s < e" "ordered_spans e (length body) sps" by auto
  have le: "e \<le> length body" using ordered_spans_le [OF o(3)] .
  let ?h = "xxh64_update h (map byte_of (map (\<lambda>i. body ! i) [cursor..<s]))"
  have split: "[cursor..<length body] = [cursor..<s] @ [s..<e] @ [e..<length body]"
    using upt_split3 o le by simp
  have f1: "filter (\<lambda>i. \<not> excluded (sp # sps) i) [cursor..<s] = [cursor..<s]"
    using excluded_before [OF o(3)] o(2) by (auto simp: filter_id_conv sp excluded_Cons)
  have f2: "filter (\<lambda>i. \<not> excluded (sp # sps) i) [s..<e] = []"
    by (auto simp: filter_empty_conv sp excluded_Cons)
  have f3: "filter (\<lambda>i. \<not> excluded (sp # sps) i) [e..<length body]
      = filter (\<lambda>i. \<not> excluded sps i) [e..<length body]"
    by (rule filter_cong) (auto simp: sp excluded_Cons)
  have step: "digest_spans body h cursor (sp # sps) = digest_spans body ?h e sps"
    using o le by (simp add: sp slice_def take_drop_map)
  show ?case
    using Cons.IH [OF o(3) update_holds [OF Cons.prems(2)]]
    unfolding step split filter_append f1 f2 f3 by simp
qed

lemma cch_digest_spec:
  assumes "length body < 2 ^ 64"
  shows "cch_digest body = Some (xxh64_spec cch_seed (map byte_of (retained body)) AND cch_mask)"
proof -
  obtain h where h: "digest_spans body (xxh64_new cch_seed) 0 (cch_excluded_spans body) = Some h"
    and hi: "holds_input h cch_seed (map byte_of (retained body))"
    using digest_spans_holds [OF excluded_spans_ordered new_holds, of body cch_seed]
    by (auto simp: retained_def)
  have "length (retained body) \<le> length body"
    unfolding retained_def by (metis length_filter_le length_map length_upt minus_nat.diff_0)
  with assms h finish_holds [OF hi] show ?thesis by (simp add: cch_digest_def)
qed


section \<open>Patching the placeholder\<close>

definition hex_digit :: "nat \<Rightarrow> char" where
  "hex_digit d = char_of (if d < 10 then 48 + d else 87 + d)"

fun show_hex :: "nat \<Rightarrow> string" where
  "show_hex n = (if n < 16 then [hex_digit n] else show_hex (n div 16) @ [hex_digit (n mod 16)])"

declare show_hex.simps [simp del]

text \<open>\<open>format!("{:05x}", n)\<close>.\<close>

definition format_05x :: "nat \<Rightarrow> string" where
  "format_05x n = replicate (5 - length (show_hex n)) CHR ''0'' @ show_hex n"

definition hex_val :: "char \<Rightarrow> nat" where
  "hex_val c = (let n = of_char c :: nat in if n < 97 then n - 48 else n - 87)"

definition read_hex :: "string \<Rightarrow> nat" where
  "read_hex s = foldl (\<lambda>a c. 16 * a + hex_val c) 0 s"

definition patch_cch :: "string \<Rightarrow> nat option \<Rightarrow> (string + string) option" where
  "patch_cch body system_at =
     (case system_at of
        None \<Rightarrow> Some (Inl ''request has no system blocks'')
      | Some at \<Rightarrow>
        (case slice body at (length body) of
           None \<Rightarrow> None
         | Some rest \<Rightarrow>
           (if \<not> is_prefix_of cch_system_prefix rest
            then Some (Inl ''billing header is not the first system block'')
            else
              (case Option.bind (find_bytes body cch_placeholder at)
                     (\<lambda>index. if index - at \<le> cch_search_window then Some index else None) of
                 None \<Rightarrow> Some (Inl ''billing header cch placeholder is missing'')
               | Some placeholder \<Rightarrow>
                 (case (cch_digest body, slice body (placeholder + 4) (placeholder + 9)) of
                    (Some digest, Some _) \<Rightarrow>
                      (let cch = format_05x (unat digest) in
                       if length cch = 5 then Some (Inr (overwrite body (placeholder + 4) cch))
                       else None)
                  | _ \<Rightarrow> None)))))"

lemma hex_val_digit [simp]: "d < 16 \<Longrightarrow> hex_val (hex_digit d) = d"
  by (auto simp: hex_val_def hex_digit_def Let_def)

lemma read_show_hex [simp]: "read_hex (show_hex n) = n"
proof (induction n rule: show_hex.induct)
  case (1 n)
  then show ?case by (subst show_hex.simps) (auto simp: read_hex_def)
qed

lemma read_format_05x: "read_hex (format_05x n) = n"
proof -
  have zero: "hex_val CHR ''0'' = 0" by (simp add: hex_val_def)
  have "read_hex (replicate k CHR ''0'' @ s) = read_hex s" for k s
    by (induction k) (simp_all add: read_hex_def zero)
  then show ?thesis by (simp add: format_05x_def)
qed

lemma length_show_hex: "n < 16 ^ Suc k \<Longrightarrow> length (show_hex n) \<le> Suc k"
proof (induction k arbitrary: n)
  case 0
  then show ?case by (simp add: show_hex.simps)
next
  case (Suc k)
  have "n div 16 < 16 ^ Suc k" using Suc.prems by (simp add: less_mult_imp_div_less mult.commute)
  with Suc.IH [of "n div 16"] show ?case by (simp add: show_hex.simps [of n])
qed

lemma length_format_05x: "n \<le> 0xfffff \<Longrightarrow> length (format_05x n) = 5"
  using length_show_hex [of n 4] by (simp add: format_05x_def)

lemma masked_digest: "unat (w AND cch_mask) \<le> 0xfffff"
proof -
  have "w AND cch_mask \<le> cch_mask" by (rule word_and_le1)
  then show ?thesis by (simp add: word_le_nat_alt cch_mask_def)
qed

lemma find_upt_Some:
  assumes "find P [a..<b] = Some p"
  shows "a \<le> p" "p < b" "P p" "a \<le> i \<Longrightarrow> i < p \<Longrightarrow> \<not> P i"
proof -
  obtain k where k: "k < b - a" "P (a + k)" "p = a + k" "\<forall>j<k. \<not> P (a + j)"
    using assms by (auto simp: find_Some_iff)
  then show "a \<le> p" "p < b" "P p" by auto
  show "\<not> P i" if "a \<le> i" "i < p"
    using k(4) [rule_format, of "i - a"] that k(3) by simp
qed

lemma find_bytes_Some:
  assumes "find_bytes h n a = Some p"
  shows "a \<le> p" "p + length n \<le> length h" "is_prefix_of n (drop p h)"
    "a \<le> i \<Longrightarrow> i < p \<Longrightarrow> \<not> is_prefix_of n (drop i h)"
proof -
  have f: "find (\<lambda>i. take (length n) (drop i h) = n) [a..<Suc (length h) - length n] = Some p"
    using assms by (simp add: find_bytes_def split: if_splits)
  note r = find_upt_Some [OF f]
  show "a \<le> p" "p + length n \<le> length h" "is_prefix_of n (drop p h)"
    "a \<le> i \<Longrightarrow> i < p \<Longrightarrow> \<not> is_prefix_of n (drop i h)"
    using r by (auto simp: is_prefix_of_def)
qed

lemma find_bytes_None:
  assumes "find_bytes h n a = None" "n \<noteq> []" "a \<le> i"
  shows "\<not> is_prefix_of n (drop i h)"
proof
  assume pre: "is_prefix_of n (drop i h)"
  from prefix_length [OF pre assms(2)] assms pre show False
    by (auto simp: find_bytes_def find_None_iff is_prefix_of_def split: if_splits)
qed

text \<open>The outcome the specification expects, in terms of where the placeholder occurs.\<close>

definition placeholder_at :: "string \<Rightarrow> nat \<Rightarrow> nat \<Rightarrow> bool" where
  "placeholder_at body at p \<longleftrightarrow>
     at \<le> p \<and> p \<le> at + cch_search_window \<and> is_prefix_of cch_placeholder (drop p body)"

definition patched_at :: "string \<Rightarrow> nat \<Rightarrow> string \<Rightarrow> bool" where
  "patched_at body p body' \<longleftrightarrow>
     take (p + 4) body' = take (p + 4) body \<and> drop (p + 9) body' = drop (p + 9) body
     \<and> length body' = length body
     \<and> read_hex (take 5 (drop (p + 4) body'))
       = unat (xxh64_spec cch_seed (map byte_of (retained body)) AND cch_mask)"

definition patch_spec :: "string \<Rightarrow> nat \<Rightarrow> (string + string) option \<Rightarrow> bool" where
  "patch_spec body at r =
     (if \<not> is_prefix_of cch_system_prefix (drop at body)
      then r = Some (Inl ''billing header is not the first system block'')
      else if \<not> list_ex (placeholder_at body at) [at..<Suc (at + cch_search_window)]
      then r = Some (Inl ''billing header cch placeholder is missing'')
      else (case r of
              Some (Inr body') \<Rightarrow>
                list_ex (\<lambda>p. placeholder_at body at p \<and> patched_at body p body')
                  [at..<Suc (at + cch_search_window)]
            | _ \<Rightarrow> False))"

lemma placeholder_length: "length cch_placeholder = 9" "cch_placeholder \<noteq> []"
  by (simp_all add: cch_placeholder_def)

lemma patched_overwrite:
  assumes "p + 9 \<le> length body" "length cch = 5"
    "read_hex cch = unat (xxh64_spec cch_seed (map byte_of (retained body)) AND cch_mask)"
  shows "patched_at body p (overwrite body (p + 4) cch)"
  using assms by (simp add: patched_at_def overwrite_def add.commute)

lemma patch_cch_meets_spec:
  assumes at: "at \<le> length body" and len: "length body < 2 ^ 64"
  shows "patch_spec body at (patch_cch body (Some at))"
proof (cases "is_prefix_of cch_system_prefix (drop at body)")
  case False
  with at show ?thesis by (simp add: patch_spec_def patch_cch_def slice_def)
next
  case prefix: True
  show ?thesis
  proof (cases "list_ex (placeholder_at body at) [at..<Suc (at + cch_search_window)]")
    case True
    then obtain q where q: "placeholder_at body at q" by (auto simp: list_ex_iff)
    then obtain p where p: "find_bytes body cch_placeholder at = Some p"
      using find_bytes_None [of body cch_placeholder at q] placeholder_length
      by (cases "find_bytes body cch_placeholder at") (auto simp: placeholder_at_def)
    note fb = find_bytes_Some [OF p]
    have "p \<le> q" using fb(4) [of q] q by (force simp: placeholder_at_def)
    with q fb have pw: "placeholder_at body at p" "p - at \<le> cch_search_window"
      by (auto simp: placeholder_at_def)
    define d where "d = xxh64_spec cch_seed (map byte_of (retained body)) AND cch_mask"
    have cch: "length (format_05x (unat d)) = 5"
      unfolding d_def by (rule length_format_05x [OF masked_digest])
    have p9: "p + 9 \<le> length body" using fb(2) placeholder_length by simp
    have "patch_cch body (Some at) = Some (Inr (overwrite body (p + 4) (format_05x (unat d))))"
      using at prefix p pw(2) p9 cch cch_digest_spec [OF len]
      by (simp add: patch_cch_def slice_def d_def [symmetric])
    moreover have "patched_at body p (overwrite body (p + 4) (format_05x (unat d)))"
      using p9 cch by (rule patched_overwrite) (simp add: read_format_05x d_def)
    moreover have "p \<in> set [at..<Suc (at + cch_search_window)]"
      using pw(1) by (auto simp: placeholder_at_def)
    ultimately show ?thesis
      using prefix True pw(1) by (auto simp: patch_spec_def list_ex_iff)
  next
    case False
    have "Option.bind (find_bytes body cch_placeholder at)
        (\<lambda>index. if index - at \<le> cch_search_window then Some index else None) = None"
    proof (cases "find_bytes body cch_placeholder at")
      case (Some p)
      note fb = find_bytes_Some [OF Some]
      have "\<not> p - at \<le> cch_search_window"
      proof
        assume le: "p - at \<le> cch_search_window"
        then have "placeholder_at body at p" using fb by (simp add: placeholder_at_def)
        moreover have "p \<in> set [at..<Suc (at + cch_search_window)]" using le fb(1) by auto
        ultimately show False using False unfolding list_ex_iff by blast
      qed
      with Some show ?thesis by simp
    qed simp
    with at prefix False show ?thesis by (simp add: patch_spec_def patch_cch_def slice_def)
  qed
qed

section \<open>Properties\<close>

text \<open>
  C29: The digest never slices out of range and is the XXH64 of exactly the bytes outside the
  excluded spans, in order, reduced to its low 20 bits.
\<close>
theorem cch_digest_retained:
  assumes "length body < 2 ^ 64"
  shows "cch_digest body = Some (xxh64_spec cch_seed (map byte_of (retained body)) AND cch_mask)"
  by (rule cch_digest_spec [OF assms])

text \<open>A body whose token limit is excluded from the hash, together with the comma after it.\<close>
theorem cch_digest_retained_witness:
  "cch_digest ''{\"max_tokens\":7,\"a\":1}''
     = Some (xxh64_spec cch_seed (map byte_of (retained ''{\"max_tokens\":7,\"a\":1}'')) AND cch_mask)
   \<and> retained ''{\"max_tokens\":7,\"a\":1}'' = ''{\"a\":1}''"
proof
  show "cch_digest ''{\"max_tokens\":7,\"a\":1}''
     = Some (xxh64_spec cch_seed (map byte_of (retained ''{\"max_tokens\":7,\"a\":1}'')) AND cch_mask)"
    by (rule cch_digest_retained) simp
  show "retained ''{\"max_tokens\":7,\"a\":1}'' = ''{\"a\":1}''"
    by code_simp
qed

text \<open>
  C30: Patching never panics: it reports a body whose first system block is not the billing
  header, or one without a placeholder in the search window, and otherwise overwrites the
  five digits of a placeholder by the hexadecimal digest of the unpatched body and leaves
  every other byte alone.
\<close>
theorem patch_cch_exact:
  assumes "at \<le> length body" and "length body < 2 ^ 64"
  shows "patch_spec body at (patch_cch body (Some at))"
  by (rule patch_cch_meets_spec [OF assms])

text \<open>A body with the billing header but no placeholder is an error.\<close>
theorem patch_cch_exact_witness:
  "patch_spec (cch_system_prefix @ ''x'') 0 (patch_cch (cch_system_prefix @ ''x'') (Some 0))
   \<and> patch_cch (cch_system_prefix @ ''x'') (Some 0)
     = Some (Inl ''billing header cch placeholder is missing'')"
proof
  show "patch_spec (cch_system_prefix @ ''x'') 0 (patch_cch (cch_system_prefix @ ''x'') (Some 0))"
    by (rule patch_cch_exact) (simp_all add: cch_system_prefix_def)
  show "patch_cch (cch_system_prefix @ ''x'') (Some 0)
     = Some (Inl ''billing header cch placeholder is missing'')"
    by code_simp
qed

end
