(* ===== verification/Proto.thy ===== *)
theory Proto
  imports Prelude
begin

text \<open>
  Protobuf wire primitives of the Devin codec
  (\<open>stravia-vendor-devin/src/codec/devin_connect/proto.rs\<close>): the writers, the varint
  reader and the field parser with its capture limit, on bytes and 64-bit words. A
  \<open>usize\<close> is 64 bits wide; \<open>pos + len\<close> wraps as in a release build. The properties are
  the round trip of written fields, termination by progress, and the bound on what a
  payload can make the parser keep.
\<close>

unbundle bit_operations_syntax

section \<open>Writers\<close>

definition max_field_number :: u32 where
  "max_field_number = push_bit 29 1 - 1"

record proto_field =
  pf_number :: u32
  pf_wire_type :: u8
  pf_scalar :: u64
  pf_bytes :: "u8 list"

lemma drop_7_less: "drop_bit 7 w \<noteq> 0 \<Longrightarrow> unat (drop_bit 7 w) < unat w" for w :: u64
proof -
  assume nz: "drop_bit 7 w \<noteq> 0"
  have e: "unat (drop_bit 7 w) = unat w div 128"
    by (subst unat_drop_bit_eq) (simp add: drop_bit_eq_div)
  from nz have "unat (drop_bit 7 w) \<noteq> 0" by (metis unsigned_0 unsigned_word_eqI)
  then show ?thesis unfolding e by linarith
qed

function write_varint :: "u64 \<Rightarrow> u8 list" where
  "write_varint v =
     (let byte = ucast (v AND 0x7f);
          v = drop_bit 7 v
      in if v = 0 then [byte] else (byte OR 0x80) # write_varint v)"
  by pat_completeness auto
termination by (relation "measure unat") (use drop_7_less in auto)

declare write_varint.simps [simp del]

lemma write_varint_code [code]:
  "write_varint v =
     (if drop_bit 7 v = 0 then [ucast (v AND 0x7f)]
      else (ucast (v AND 0x7f) OR 0x80) # write_varint (drop_bit 7 v))"
  by (subst write_varint.simps) (simp add: Let_def)

definition write_tag :: "u32 \<Rightarrow> u8 \<Rightarrow> u8 list" where
  "write_tag field wire_type = write_varint (push_bit 3 (ucast field) OR ucast wire_type)"

definition write_varint_field :: "u32 \<Rightarrow> u64 \<Rightarrow> u8 list" where
  "write_varint_field field v = write_tag field 0 @ write_varint v"

text \<open>The eight bytes of an \<open>f64\<close>, given by its bit pattern.\<close>

definition write_fixed64_field :: "u32 \<Rightarrow> u64 \<Rightarrow> u8 list" where
  "write_fixed64_field field bits = write_tag field 1 @ to_le_bytes 8 bits"

definition write_fixed32_field :: "u32 \<Rightarrow> u32 \<Rightarrow> u8 list" where
  "write_fixed32_field field bits = write_tag field 5 @ to_le_bytes 4 (ucast bits)"

definition write_len_field :: "u32 \<Rightarrow> u8 list \<Rightarrow> u8 list" where
  "write_len_field field payload =
     write_tag field 2 @ write_varint (of_nat (length payload)) @ payload"

definition write_string_field :: "u32 \<Rightarrow> u8 list \<Rightarrow> u8 list" where
  "write_string_field field v = write_len_field field v"

definition write_message_field :: "u32 \<Rightarrow> u8 list \<Rightarrow> u8 list" where
  "write_message_field field message = write_len_field field message"

section \<open>Readers\<close>

fun read_varint_from :: "nat \<Rightarrow> u64 \<Rightarrow> u8 list \<Rightarrow> (u64 \<times> nat) option" where
  "read_varint_from index v [] = None"
| "read_varint_from index v (byte # bytes) =
     (if index < 10 then
        (let v = v OR push_bit (7 * index) (ucast (byte AND 0x7f)) in
         if byte AND 0x80 = 0 then Some (v, index + 1) else read_varint_from (index + 1) v bytes)
      else None)"

definition read_varint :: "u8 list \<Rightarrow> (u64 \<times> nat) option" where
  "read_varint payload = read_varint_from 0 0 payload"

datatype proto_error =
    TooManyFields
  | BadTag
  | InvalidFieldNumber u32
  | BadVarint
  | TruncatedFixed64
  | BadLengthPrefix
  | TruncatedLength
  | TruncatedFixed32
  | UnsupportedWireType u8

definition context_of :: "proto_error \<Rightarrow> 'a option \<Rightarrow> proto_error + 'a" where
  "context_of e r = (case r of None \<Rightarrow> Inl e | Some a \<Rightarrow> Inr a)"

text \<open>\<open>payload.get(pos..stop)\<close>.\<close>

definition get_range :: "u8 list \<Rightarrow> nat \<Rightarrow> nat \<Rightarrow> u8 list option" where
  "get_range payload pos stop =
     (if pos \<le> stop \<and> stop \<le> length payload then Some (take (stop - pos) (drop pos payload))
      else None)"

text \<open>One turn of the loop: the field at a position and the position behind it.\<close>

definition parse_field :: "u8 list \<Rightarrow> nat \<Rightarrow> proto_error + proto_field \<times> nat" where
  "parse_field payload pos =
     res_bind (context_of BadTag (read_varint (drop pos payload))) (\<lambda>(tag, used).
       let pos = pos + used;
           number = ucast (drop_bit 3 tag) :: u32
       in if number = 0 \<or> number > max_field_number then Inl (InvalidFieldNumber number)
          else
            (let wire_type = ucast (tag AND 7) :: u8 in
             if wire_type = 0 then
               res_bind (context_of BadVarint (read_varint (drop pos payload))) (\<lambda>(v, used).
                 Inr (\<lparr>pf_number = number, pf_wire_type = wire_type, pf_scalar = v, pf_bytes = []\<rparr>,
                      pos + used))
             else if wire_type = 1 then
               res_bind (context_of TruncatedFixed64 (get_range payload pos (pos + 8))) (\<lambda>raw.
                 Inr (\<lparr>pf_number = number, pf_wire_type = wire_type,
                        pf_scalar = from_le_bytes raw, pf_bytes = []\<rparr>, pos + 8))
             else if wire_type = 2 then
               res_bind (context_of BadLengthPrefix (read_varint (drop pos payload))) (\<lambda>(len, used).
                 let pos = pos + used;
                     len = unat len
                 in res_bind
                      (context_of TruncatedLength (get_range payload pos (wrap_add64 pos len)))
                      (\<lambda>bytes.
                        Inr (\<lparr>pf_number = number, pf_wire_type = wire_type, pf_scalar = 0,
                               pf_bytes = bytes\<rparr>, pos + len)))
             else if wire_type = 5 then
               res_bind (context_of TruncatedFixed32 (get_range payload pos (pos + 4))) (\<lambda>raw.
                 Inr (\<lparr>pf_number = number, pf_wire_type = wire_type,
                        pf_scalar = from_le_bytes raw, pf_bytes = []\<rparr>, pos + 4))
             else Inl (UnsupportedWireType wire_type)))"

lemma read_varint_from_used:
  "read_varint_from i v bs = Some (w, n) \<Longrightarrow> i < n \<and> n \<le> i + length bs"
  by (induction i v bs rule: read_varint_from.induct) (fastforce simp: Let_def split: if_splits)+

lemma read_varint_used: "read_varint bs = Some (w, n) \<Longrightarrow> 0 < n \<and> n \<le> length bs"
  using read_varint_from_used [of 0 0 bs w n] by (simp add: read_varint_def)

lemma context_of_Inr [simp]: "context_of e r = Inr a \<longleftrightarrow> r = Some a"
  by (simp add: context_of_def split: option.splits)

lemma get_range_Some:
  "get_range p i j = Some xs \<longleftrightarrow> i \<le> j \<and> j \<le> length p \<and> xs = take (j - i) (drop i p)"
  by (auto simp: get_range_def)

lemma wrapped_range:
  assumes "x \<le> (x + a) mod 2 ^ 64" "x < 2 ^ 64" "a < 2 ^ 64"
  shows "(x + a) mod 2 ^ 64 = x + (a :: nat)"
proof (cases "x + a < 2 ^ 64")
  case False
  then have "(x + a) mod 2 ^ 64 = x + a - 2 ^ 64"
    using assms(2,3) by (simp add: le_mod_geq)
  with assms False show ?thesis by linarith
qed simp

text \<open>A parsed field lies behind the position; it takes two bytes and its contents at least.\<close>

lemma parse_field_progress:
  assumes "parse_field payload pos = Inr (f, pos')" "pos \<le> length payload" "length payload < 2 ^ 64"
  shows "pos + 2 + length (pf_bytes f) \<le> pos' \<and> pos' \<le> length payload"
proof -
  obtain tag n where t: "read_varint (drop pos payload) = Some (tag, n)"
    using assms(1) by (auto simp: parse_field_def res_bind_Inr_iff)
  note u = read_varint_used [OF t]
  have pn: "pos + n \<le> length payload" using u assms(2) by (simp del: One_nat_def) linarith
  have a64: "unat (a :: u64) < 2 ^ 64" for a
    using unsigned_less [of a, where 'a = nat] by simp
  show ?thesis
    using assms(1,3) u pn unfolding parse_field_def t
    by (auto simp: res_bind_Inr_iff Let_def get_range_Some wrap_add64_def
        dest!: read_varint_used dest: wrapped_range [OF _ _ a64, simplified] split: if_splits)
qed


lemma parse_field_gt: "parse_field payload pos = Inr (f, pos') \<Longrightarrow> pos < pos'"
  unfolding parse_field_def
  by (auto simp: res_bind_Inr_iff Let_def dest!: read_varint_used split: if_splits)

section \<open>The parser\<close>

text \<open>
  The loop with the capture counter, which the caller keeps between calls; the counter is
  decremented before a field is looked at, and stays decremented on an error.
\<close>

function parse_loop :: "u8 list \<Rightarrow> nat \<Rightarrow> nat \<Rightarrow> (proto_error + proto_field list) \<times> nat" where
  "parse_loop payload remaining pos =
     (if pos < length payload then
        (if remaining = 0 then (Inl TooManyFields, 0)
         else case parse_field payload pos of
                Inl e \<Rightarrow> (Inl e, remaining - 1)
              | Inr (field, pos') \<Rightarrow>
                  (case parse_loop payload (remaining - 1) pos' of
                     (Inl e, r) \<Rightarrow> (Inl e, r)
                   | (Inr fs, r) \<Rightarrow> (Inr (field # fs), r)))
      else (Inr [], remaining))"
  by pat_completeness auto
termination
  by (relation "measure (\<lambda>(payload, remaining, pos). length payload - pos)")
    (auto dest!: parse_field_gt)

declare parse_loop.simps [simp del]

definition parse_fields_limited ::
  "u8 list \<Rightarrow> nat \<Rightarrow> (proto_error + proto_field list) \<times> nat" where
  "parse_fields_limited payload remaining = parse_loop payload remaining 0"

definition parse_fields :: "u8 list \<Rightarrow> proto_error + proto_field list" where
  "parse_fields payload = fst (parse_fields_limited payload u64_max)"

lemma parse_loop_bounds:
  assumes "length payload < 2 ^ 64" "pos \<le> length payload"
    "parse_loop payload remaining pos = (r, left)"
  shows "left \<le> remaining \<and>
    (case r of Inl e \<Rightarrow> True
     | Inr fs \<Rightarrow>
         remaining = left + length fs
         \<and> 2 * length fs + sum_list (map (\<lambda>f. length (pf_bytes f)) fs) \<le> length payload - pos)"
  using assms
proof (induction payload remaining pos arbitrary: r left rule: parse_loop.induct)
  case (1 payload remaining pos)
  show ?case
  proof (cases "pos < length payload \<and> remaining \<noteq> 0")
    case False
    with "1.prems"(3) show ?thesis by (auto simp: parse_loop.simps [of payload] split: if_splits)
  next
    case True
    show ?thesis
    proof (cases "parse_field payload pos")
      case (Inl e)
      with True "1.prems"(3) show ?thesis by (auto simp: parse_loop.simps [of payload remaining pos])
    next
      case (Inr fp)
      obtain f pos' where f: "parse_field payload pos = Inr (f, pos')" using Inr by (cases fp) auto
      note prog = parse_field_progress [OF f "1.prems"(2,1)]
      obtain r' left' where rest: "parse_loop payload (remaining - 1) pos' = (r', left')"
        by (cases "parse_loop payload (remaining - 1) pos'")
      have "left' \<le> remaining - 1 \<and>
        (case r' of Inl e \<Rightarrow> True
         | Inr fs \<Rightarrow>
             remaining - 1 = left' + length fs
             \<and> 2 * length fs + sum_list (map (\<lambda>f. length (pf_bytes f)) fs) \<le> length payload - pos')"
        using True f prog rest "1.prems"(1) by (intro "1.IH") auto
      with True f rest prog "1.prems"(3) show ?thesis
        by (cases r') (auto simp: parse_loop.simps [of payload remaining pos])
    qed
  qed
qed

section \<open>Round trip\<close>

lemma bit_0x80: "bit (0x80 :: u8) n \<longleftrightarrow> n = 7"
proof -
  have e: "(0x80 :: u8) = 2 ^ 7" by simp
  show ?thesis unfolding e bit_exp_iff by (auto simp: possible_bit_word)
qed

lemma bit_7_test: "b AND 0x80 = 0 \<longleftrightarrow> \<not> bit b 7" for b :: u8
proof
  assume "b AND 0x80 = 0"
  then have "\<not> bit (b AND 0x80) 7" by simp
  then show "\<not> bit b 7" unfolding bit_and_iff bit_0x80 by simp
next
  assume b: "\<not> bit b 7"
  show "b AND 0x80 = 0"
    by (rule bit_word_eqI) (use b in \<open>auto simp add: bit_and_iff bit_0x80 simp del: bit_numeral_word_iff\<close>)
qed

lemma low_7: "(b AND 0x7f) = take_bit 7 b" for b :: "'a::len word"
proof -
  have e: "(0x7f :: 'a word) = mask 7" by (simp add: mask_eq_exp_minus_1)
  show ?thesis unfolding e by (simp add: take_bit_eq_mask)
qed

lemma last_byte: "\<not> bit (ucast (take_bit 7 w) :: u8) 7" for w :: u64
  by (simp add: bit_simps)

lemma more_byte: "bit ((ucast (take_bit 7 w) :: u8) OR 0x80) 7" for w :: u64
  by (simp add: bit_or_iff bit_0x80)

lemma byte_value:
  "ucast (take_bit 7 (ucast (take_bit 7 w) :: u8)) = take_bit 7 w"
  "ucast (take_bit 7 ((ucast (take_bit 7 w) :: u8) OR 0x80)) = take_bit 7 w" for w :: u64
proof -
  show "ucast (take_bit 7 (ucast (take_bit 7 w) :: u8)) = take_bit 7 w"
    by (rule bit_word_eqI) (auto simp: bit_simps)
  show "ucast (take_bit 7 ((ucast (take_bit 7 w) :: u8) OR 0x80)) = take_bit 7 w"
    by (rule bit_word_eqI) (auto simp: bit_simps bit_0x80)
qed


lemma split_7: "push_bit k w = push_bit k (take_bit 7 w) OR push_bit (k + 7) (drop_bit 7 w)" for w :: u64
proof (rule bit_word_eqI)
  fix n assume "n < LENGTH(64)"
  moreover have "7 + (n - (k + 7)) = n - k" if "k + 7 \<le> n" using that by simp
  ultimately show "bit (push_bit k w) n = bit (push_bit k (take_bit 7 w) OR push_bit (k + 7) (drop_bit 7 w)) n"
    by (cases "k + 7 \<le> n") (auto simp: bit_simps)
qed

lemma read_write_from:
  assumes "i < 10" "unat w < 2 ^ (64 - 7 * i)"
  shows "read_varint_from i v (write_varint w @ rest)
    = Some (v OR push_bit (7 * i) w, i + length (write_varint w))"
  using assms
proof (induction w arbitrary: i v rule: write_varint.induct)
  case (1 w)
  let ?low = "ucast (take_bit 7 w) :: u8"
  show ?case
  proof (cases "drop_bit 7 w = 0")
    case True
    then have "push_bit (7 * i) w = push_bit (7 * i) (take_bit 7 w)" using split_7 [of "7 * i" w] by simp
    with True "1.prems"(1) show ?thesis
      by (simp add: write_varint.simps [of w] Let_def low_7 bit_7_test last_byte byte_value)
  next
    case False
    have d: "unat (drop_bit 7 w) = unat w div 128"
      by (subst unat_drop_bit_eq) (simp add: drop_bit_eq_div)
    have i9: "i < 9"
    proof (rule ccontr)
      assume "\<not> i < 9"
      with "1.prems"(1) have "i = 9" by simp
      with "1.prems"(2) have "unat w < 2" by simp
      then have "unat (drop_bit 7 w) = 0" unfolding d by simp
      with False show False by (metis unsigned_0 unsigned_word_eqI)
    qed
    have "(2::nat) ^ (64 - 7 * i) = 128 * 2 ^ (64 - 7 * (i + 1))"
    proof -
      have e: "64 - 7 * i = 7 + (64 - 7 * (i + 1))" using i9 by simp
      show ?thesis unfolding e power_add by simp
    qed
    then have lt: "unat (drop_bit 7 w) < 2 ^ (64 - 7 * (i + 1))"
      using "1.prems"(2) unfolding d by (simp add: less_mult_imp_div_less mult.commute)
    have IH: "read_varint_from (i + 1) v' (write_varint (drop_bit 7 w) @ rest)
        = Some (v' OR push_bit (7 * (i + 1)) (drop_bit 7 w), (i + 1) + length (write_varint (drop_bit 7 w)))" for v'
      by (rule "1.IH" [OF refl refl False]) (use i9 lt in simp_all)
    have "push_bit (7 * i) w = push_bit (7 * i) (take_bit 7 w) OR push_bit (7 * (i + 1)) (drop_bit 7 w)"
      using split_7 [of "7 * i" w] by (simp add: algebra_simps)
    with False i9 IH [of "v OR push_bit (7 * i) (take_bit 7 w)"] show ?thesis
      by (simp add: write_varint.simps [of w] Let_def low_7 bit_7_test more_byte byte_value or.assoc)
  qed
qed

lemma read_write_varint [simp]:
  "read_varint (write_varint w @ rest) = Some (w, length (write_varint w))"
  using read_write_from [of 0 w 0 rest] unsigned_less [of w, where 'a = nat]
  by (simp add: read_varint_def)

text \<open>What the writers are given, and the field the parser is to return.\<close>

datatype wire_field = WVarint u32 u64 | WFixed64 u32 u64 | WFixed32 u32 u32 | WLen u32 "u8 list"

fun write_field :: "wire_field \<Rightarrow> u8 list" where
  "write_field (WVarint n v) = write_varint_field n v"
| "write_field (WFixed64 n bits) = write_fixed64_field n bits"
| "write_field (WFixed32 n bits) = write_fixed32_field n bits"
| "write_field (WLen n payload) = write_len_field n payload"

fun field_number :: "wire_field \<Rightarrow> u32" where
  "field_number (WVarint n v) = n"
| "field_number (WFixed64 n bits) = n"
| "field_number (WFixed32 n bits) = n"
| "field_number (WLen n payload) = n"

fun read_as :: "wire_field \<Rightarrow> proto_field" where
  "read_as (WVarint n v) = \<lparr>pf_number = n, pf_wire_type = 0, pf_scalar = v, pf_bytes = []\<rparr>"
| "read_as (WFixed64 n bits) = \<lparr>pf_number = n, pf_wire_type = 1, pf_scalar = bits, pf_bytes = []\<rparr>"
| "read_as (WFixed32 n bits) = \<lparr>pf_number = n, pf_wire_type = 5, pf_scalar = ucast bits, pf_bytes = []\<rparr>"
| "read_as (WLen n payload) = \<lparr>pf_number = n, pf_wire_type = 2, pf_scalar = 0, pf_bytes = payload\<rparr>"

definition valid_number :: "u32 \<Rightarrow> bool" where
  "valid_number n \<longleftrightarrow> 0 < n \<and> n \<le> max_field_number"

lemma tag_parts:
  fixes n :: u32 and t :: u8
  assumes "valid_number n" "t < 8"
  defines "tag \<equiv> (push_bit 3 (ucast n) OR ucast t :: u64)"
  shows "ucast (drop_bit 3 tag) = n" "ucast (tag AND 7) = t"
proof -
  have "unat (take_bit 3 t) = unat t"
    using assms(2) by (simp add: unsigned_take_bit_eq take_bit_eq_mod word_less_nat_alt unat_mod_distrib)
  then have t3: "t = take_bit 3 t" by (metis unsigned_word_eqI)
  have t: "\<not> bit t k" if "3 \<le> k" for k
    by (subst t3) (use that in \<open>simp add: bit_take_bit_iff\<close>)
  show "ucast (drop_bit 3 tag) = n"
    unfolding tag_def by (rule bit_word_eqI) (use t in \<open>auto simp: bit_simps\<close>)
  have m: "(7 :: u64) = mask 3" by (simp add: mask_eq_exp_minus_1)
  show "ucast (tag AND 7) = t"
    unfolding tag_def m
  proof (rule bit_word_eqI)
    fix k assume "k < LENGTH(8)"
    then show "bit (ucast ((push_bit 3 (ucast n) OR ucast t) AND mask 3 :: u64) :: u8) k = bit t k"
      using t [of k] by (cases "k < 3") (auto simp: bit_simps)
  qed
qed


lemma drop_pre [simp]: "drop (length pre + n) (pre @ xs) = drop n xs"
  by simp

lemma valid_number_test: "valid_number n \<Longrightarrow> \<not> (n = 0 \<or> n > max_field_number)"
  by (auto simp: valid_number_def)

lemma read_tag:
  assumes "valid_number n" "t < 8" "p = pre @ write_tag n t @ rest"
  shows "\<exists>tag. read_varint (drop (length pre) p) = Some (tag, length (write_tag n t))
    \<and> ucast (drop_bit 3 tag) = n \<and> ucast (tag AND 7) = t"
  using tag_parts [OF assms(1,2)] by (auto simp: assms(3) write_tag_def)

lemma parse_written_field:
  assumes num: "valid_number (field_number w)" and len: "length p < 2 ^ 64"
    and p: "p = pre @ write_field w @ rest"
  shows "parse_field p (length pre) = Inr (read_as w, length pre + length (write_field w))"
proof (cases w)
  case (WVarint n v)
  with num p have n: "valid_number n" and pp: "p = pre @ write_tag n 0 @ write_varint v @ rest"
    by (simp_all add: write_varint_field_def)
  from read_tag [OF n _ pp] obtain tag where tag: "read_varint (drop (length pre) p) = Some (tag, length (write_tag n 0))"
    "ucast (drop_bit 3 tag) = n" "ucast (tag AND 7) = (0 :: u8)" by auto
  have d: "drop (length pre + length (write_tag n 0)) p = write_varint v @ rest" by (simp add: pp)
  show ?thesis
    using valid_number_test [OF n]
    by (simp add: WVarint parse_field_def tag context_of_def d write_varint_field_def)
next
  case (WFixed64 n bits)
  with num p have n: "valid_number n" and pp: "p = pre @ write_tag n 1 @ to_le_bytes 8 bits @ rest"
    by (simp_all add: write_fixed64_field_def)
  from read_tag [OF n _ pp] obtain tag where tag: "read_varint (drop (length pre) p) = Some (tag, length (write_tag n 1))"
    "ucast (drop_bit 3 tag) = n" "ucast (tag AND 7) = (1 :: u8)" by auto
  have d: "drop (length pre + length (write_tag n 1)) p = to_le_bytes 8 bits @ rest"
    and l: "length pre + length (write_tag n 1) + 8 \<le> length p" by (simp_all add: pp)
  show ?thesis
    using valid_number_test [OF n]
    by (simp add: WFixed64 parse_field_def tag context_of_def get_range_def d l from_to_le_bytes_8 write_fixed64_field_def)
next
  case (WFixed32 n bits)
  with num p have n: "valid_number n" and pp: "p = pre @ write_tag n 5 @ to_le_bytes 4 (ucast bits) @ rest"
    by (simp_all add: write_fixed32_field_def)
  from read_tag [OF n _ pp] obtain tag where tag: "read_varint (drop (length pre) p) = Some (tag, length (write_tag n 5))"
    "ucast (drop_bit 3 tag) = n" "ucast (tag AND 7) = (5 :: u8)" by auto
  have d: "drop (length pre + length (write_tag n 5)) p = to_le_bytes 4 (ucast bits) @ rest"
    and l: "length pre + length (write_tag n 5) + 4 \<le> length p" by (simp_all add: pp)
  have b: "take_bit 32 (ucast bits :: u64) = ucast bits"
    by (rule bit_word_eqI) (auto simp: bit_simps dest: bit_imp_le_length)
  show ?thesis
    using valid_number_test [OF n]
    by (simp add: WFixed32 parse_field_def tag context_of_def get_range_def d l from_to_le_bytes b write_fixed32_field_def)
next
  case (WLen n payload)
  let ?len = "of_nat (length payload) :: u64"
  from WLen num p have n: "valid_number n"
    and pp: "p = pre @ write_tag n 2 @ write_varint ?len @ payload @ rest"
    by (simp_all add: write_len_field_def)
  from read_tag [OF n _ pp] obtain tag where tag: "read_varint (drop (length pre) p) = Some (tag, length (write_tag n 2))"
    "ucast (drop_bit 3 tag) = n" "ucast (tag AND 7) = (2 :: u8)" by auto
  have d: "drop (length pre + length (write_tag n 2)) p = write_varint ?len @ payload @ rest"
    "drop (length pre + length (write_tag n 2) + length (write_varint ?len)) p = payload @ rest"
    by (simp_all add: pp add.assoc)
  have total: "length pre + length (write_tag n 2) + length (write_varint ?len) + length payload \<le> length p"
    by (simp add: pp)
  then have small: "length payload < 2 ^ 64"
    "length pre + length (write_tag n 2) + length (write_varint ?len) + length payload < 2 ^ 64"
    using len by linarith+
  have ul: "unat ?len = length payload" using small(1) by (simp add: unat_of_nat)
  have w: "wrap_add64 (length pre + length (write_tag n 2) + length (write_varint ?len)) (length payload)
      = length pre + length (write_tag n 2) + length (write_varint ?len) + length payload"
    unfolding wrap_add64_def by (rule mod_less [OF small(2)])
  show ?thesis
    using valid_number_test [OF n] total
    by (simp add: WLen parse_field_def tag context_of_def get_range_def d ul w Let_def write_len_field_def)
qed

lemma write_field_nonempty: "0 < length (write_field w)"
proof -
  have "write_varint v \<noteq> []" for v by (subst write_varint.simps) (simp add: Let_def)
  then show ?thesis
    by (cases w) (simp_all add: write_varint_field_def write_fixed64_field_def
        write_fixed32_field_def write_len_field_def write_tag_def)
qed

lemma parse_written:
  assumes "list_all (\<lambda>w. valid_number (field_number w)) ws" "length p < 2 ^ 64"
    "p = pre @ concat (map write_field ws)"
  shows "parse_loop p remaining (length pre)
    = (if length ws \<le> remaining then (Inr (map read_as ws), remaining - length ws)
       else (Inl TooManyFields, 0))"
  using assms
proof (induction ws arbitrary: pre remaining)
  case Nil
  then show ?case by (simp add: parse_loop.simps)
next
  case (Cons w ws)
  have pos: "length pre < length p" using Cons.prems(3) write_field_nonempty [of w] by simp
  have f: "parse_field p (length pre) = Inr (read_as w, length pre + length (write_field w))"
    using Cons.prems by (intro parse_written_field [where rest = "concat (map write_field ws)"]) auto
  have IH: "parse_loop p r (length (pre @ write_field w))
    = (if length ws \<le> r then (Inr (map read_as ws), r - length ws) else (Inl TooManyFields, 0))" for r
    using Cons.prems by (intro Cons.IH) auto
  show ?case
  proof (cases remaining)
    case 0
    with pos show ?thesis by (simp add: parse_loop.simps [of p 0])
  next
    case (Suc r)
    from pos f IH [of r] show ?thesis
      unfolding Suc by (subst parse_loop.simps) simp
  qed
qed

lemmas parse_field_eval =
  parse_field_def read_varint_def Let_def context_of_def get_range_def wrap_add64_def
  max_field_number_def

lemma empty_string_field:
  "parse_field [0x0a, 0] 0 = Inr (\<lparr>pf_number = 1, pf_wire_type = 2, pf_scalar = 0, pf_bytes = []\<rparr>, 2)"
  by (simp add: parse_field_eval)

section \<open>Properties\<close>

text \<open>
  C31: Round trip: the parser reads back exactly the fields written, in order, decrementing
  the capture counter once for each, and refuses them when there are more than the counter
  allows.
\<close>
theorem written_fields_parse:
  assumes "list_all (\<lambda>w. valid_number (field_number w)) ws"
    and "length (concat (map write_field ws)) < 2 ^ 64"
  shows "parse_fields_limited (concat (map write_field ws)) remaining
    = (if length ws \<le> remaining then (Inr (map read_as ws), remaining - length ws)
       else (Inl TooManyFields, 0))"
  unfolding parse_fields_limited_def
  using parse_written [OF assms, of "[]" remaining] by simp

text \<open>The fields of the test-suite, without the text of the string.\<close>
theorem written_fields_parse_witness:
  "parse_fields_limited (write_len_field 1 [0x63] @ write_varint_field 2 300) 2
   = (Inr [\<lparr>pf_number = 1, pf_wire_type = 2, pf_scalar = 0, pf_bytes = [0x63]\<rparr>,
           \<lparr>pf_number = 2, pf_wire_type = 0, pf_scalar = 300, pf_bytes = []\<rparr>], 0)"
proof -
  have "list_all (\<lambda>w. valid_number (field_number w)) [WLen 1 [0x63], WVarint 2 300]"
    by (simp add: valid_number_def max_field_number_def)
  moreover have "length (concat (map write_field [WLen 1 [0x63], WVarint 2 300])) = 6"
    by code_simp
  ultimately show ?thesis
    using written_fields_parse [of "[WLen 1 [0x63], WVarint 2 300]" 2] by simp
qed

text \<open>
  C32: Parsing keeps at most as many fields as the counter allowed, each taking at least two
  bytes of the payload besides its contents, so a small payload cannot make it keep much.
\<close>
theorem parse_is_bounded:
  assumes "length payload < 2 ^ 64"
  shows "case parse_fields_limited payload remaining of
      (Inl e, left) \<Rightarrow> left \<le> remaining
    | (Inr fs, left) \<Rightarrow> remaining = left + length fs
        \<and> 2 * length fs + sum_list (map (\<lambda>f. length (pf_bytes f)) fs) \<le> length payload"
  using parse_loop_bounds [OF assms, of 0 remaining]
  by (cases "parse_fields_limited payload remaining"; cases "fst (parse_fields_limited payload remaining)")
    (auto simp: parse_fields_limited_def)

text \<open>An empty string field and nothing else.\<close>
theorem parse_is_bounded_witness:
  "parse_fields_limited [0x0a, 0] 5
     = (Inr [\<lparr>pf_number = 1, pf_wire_type = 2, pf_scalar = 0, pf_bytes = []\<rparr>], 4)
   \<and> (case parse_fields_limited [0x0a, 0] 5 of
      (Inl e, left) \<Rightarrow> left \<le> 5
    | (Inr fs, left) \<Rightarrow> 5 = left + length fs
        \<and> 2 * length fs + sum_list (map (\<lambda>f. length (pf_bytes f)) fs) \<le> length [0x0a :: u8, 0])"
proof
  show "parse_fields_limited [0x0a, 0] 5
     = (Inr [\<lparr>pf_number = 1, pf_wire_type = 2, pf_scalar = 0, pf_bytes = []\<rparr>], 4)"
    by (simp add: parse_fields_limited_def parse_loop.simps empty_string_field)
  show "case parse_fields_limited [0x0a, 0] 5 of
      (Inl e, left) \<Rightarrow> left \<le> 5
    | (Inr fs, left) \<Rightarrow> 5 = left + length fs
        \<and> 2 * length fs + sum_list (map (\<lambda>f. length (pf_bytes f)) fs) \<le> length [0x0a :: u8, 0]"
    by (rule parse_is_bounded) simp
qed

text \<open>
  The field number is cut to 32 bits before its range is checked: the tag
  \<open>(2^32 + 1) << 3\<close> is read as field number 1.
\<close>

lemma oversized_tag_alias:
  "write_varint (push_bit 3 (0x100000001 :: u64)) = [0x88, 0x80, 0x80, 0x80, 0x80, 1]"
  "parse_fields [0x88, 0x80, 0x80, 0x80, 0x80, 1, 7]
     = Inr [\<lparr>pf_number = 1, pf_wire_type = 0, pf_scalar = 7, pf_bytes = []\<rparr>]"
proof -
  show "write_varint (push_bit 3 (0x100000001 :: u64)) = [0x88, 0x80, 0x80, 0x80, 0x80, 1]"
    by code_simp
  have "parse_field [0x88, 0x80, 0x80, 0x80, 0x80, 1, 7] 0
      = Inr (\<lparr>pf_number = 1, pf_wire_type = 0, pf_scalar = 7, pf_bytes = []\<rparr>, 7)"
    by (simp add: parse_field_eval)
  then show "parse_fields [0x88, 0x80, 0x80, 0x80, 0x80, 1, 7]
     = Inr [\<lparr>pf_number = 1, pf_wire_type = 0, pf_scalar = 7, pf_bytes = []\<rparr>]"
    by (simp add: parse_fields_def parse_fields_limited_def parse_loop.simps u64_max_def)
qed

end
