(* ===== verification/GatewayErrors.thy ===== *)
theory GatewayErrors
  imports Prelude
begin

text \<open>
  The error taxonomy of the gateway (\<open>stravia-core/src/error.rs\<close>): every failure that leaves
  a layer, with its HTTP status, its stable code, its message, whether another target may be
  tried, and its rendering. The status type of the \<open>http\<close> crate, the JSON library and the
  redaction of texts are arguments.
\<close>

section \<open>Variants\<close>

datatype timeout_phase = ConnectPhase | FirstByte | Streaming | TotalPhase

fun timeout_phase_as_str :: "timeout_phase \<Rightarrow> string" where
  "timeout_phase_as_str ConnectPhase = ''connect''"
| "timeout_phase_as_str FirstByte = ''first_byte''"
| "timeout_phase_as_str Streaming = ''streaming''"
| "timeout_phase_as_str TotalPhase = ''total''"

datatype auth_failure = MissingCredential | InvalidKey | ExpiredKey

fun auth_failure_as_str :: "auth_failure \<Rightarrow> string" where
  "auth_failure_as_str MissingCredential = ''missing_credential''"
| "auth_failure_as_str InvalidKey = ''invalid_api_key''"
| "auth_failure_as_str ExpiredKey = ''expired_api_key''"

datatype access_denial = ModelNotAllowed | IpDenied | CustomDenial string

text \<open>The source of an internal error is an \<open>anyhow::Error\<close>, of which the text is kept.\<close>

datatype gateway_error =
    BadRequest string string
  | Unauthorized auth_failure
  | Forbidden access_denial
  | PrincipalRpmExceeded nat
  | ApiKeySpendLimitReached
  | ModelNotFound string
  | ProtocolUnsupported string string
  | ProtocolLossyRejected "string list"
  | UpstreamStatus string nat "string option"
  | UpstreamTimeout timeout_phase
  | StreamParseError string "string option"
  | ClientCancelled
  | ProviderUnavailable string string
  | InternalError string

section \<open>Status, code and message\<close>

text \<open>\<open>from_u16\<close> is \<open>StatusCode::from_u16\<close>; the named status codes are their numbers.\<close>

fun http_status :: "(nat \<Rightarrow> nat option) \<Rightarrow> gateway_error \<Rightarrow> nat" where
  "http_status from_u16 (BadRequest _ _) = 400"
| "http_status from_u16 (Unauthorized _) = 401"
| "http_status from_u16 (Forbidden _) = 403"
| "http_status from_u16 (PrincipalRpmExceeded _) = 429"
| "http_status from_u16 ApiKeySpendLimitReached = 429"
| "http_status from_u16 (ModelNotFound _) = 404"
| "http_status from_u16 (ProtocolUnsupported _ _) = 400"
| "http_status from_u16 (ProtocolLossyRejected _) = 422"
| "http_status from_u16 (UpstreamStatus _ status _) = (case from_u16 status of Some s \<Rightarrow> s | None \<Rightarrow> 502)"
| "http_status from_u16 (UpstreamTimeout _) = 504"
| "http_status from_u16 (StreamParseError _ _) = 502"
| "http_status from_u16 ClientCancelled = (case from_u16 499 of Some s \<Rightarrow> s | None \<Rightarrow> 500)"
| "http_status from_u16 (ProviderUnavailable _ _) = 503"
| "http_status from_u16 (InternalError _) = 500"

fun stable_code :: "gateway_error \<Rightarrow> string" where
  "stable_code (BadRequest _ _) = ''STRAVIA_BAD_REQUEST''"
| "stable_code (Unauthorized _) = ''STRAVIA_AUTH_ERROR''"
| "stable_code (Forbidden _) = ''STRAVIA_FORBIDDEN''"
| "stable_code (PrincipalRpmExceeded _) = ''STRAVIA_RPM_LIMIT''"
| "stable_code ApiKeySpendLimitReached = ''STRAVIA_SPEND_LIMIT''"
| "stable_code (ModelNotFound _) = ''STRAVIA_NOT_FOUND''"
| "stable_code (ProtocolUnsupported _ _) = ''STRAVIA_PROTOCOL_UNSUPPORTED''"
| "stable_code (ProtocolLossyRejected _) = ''STRAVIA_PROTOCOL_LOSSY_REJECTED''"
| "stable_code (UpstreamStatus _ _ _) = ''STRAVIA_UPSTREAM_ERROR''"
| "stable_code (UpstreamTimeout _) = ''STRAVIA_UPSTREAM_TIMEOUT''"
| "stable_code (StreamParseError _ _) = ''STRAVIA_STREAM_PARSE_ERROR''"
| "stable_code ClientCancelled = ''STRAVIA_CLIENT_CANCELLED''"
| "stable_code (ProviderUnavailable _ _) = ''STRAVIA_SERVICE_UNAVAILABLE''"
| "stable_code (InternalError _) = ''STRAVIA_INTERNAL_ERROR''"

text \<open>
  What the messages are built with: \<open>serde_json::from_str\<close>, the redaction of a JSON value
  and of a text (\<open>interaction_observation/redaction.rs\<close>), and the text of a JSON value.
\<close>

record 'j redactor =
  rd_from_str :: "string \<Rightarrow> 'j option"
  rd_redact_value :: "'j \<Rightarrow> 'j"
  rd_to_string :: "'j \<Rightarrow> string"
  rd_redact_text :: "string \<Rightarrow> string"

definition redacted_payload :: "'j redactor \<Rightarrow> string \<Rightarrow> string" where
  "redacted_payload rd payload =
     (case rd_from_str rd payload of
        Some v \<Rightarrow> rd_to_string rd (rd_redact_value rd v)
      | None \<Rightarrow> rd_redact_text rd payload)"

fun join_strings :: "string \<Rightarrow> string list \<Rightarrow> string" where
  "join_strings sep [] = []"
| "join_strings sep [x] = x"
| "join_strings sep (x # y # ys) = x @ sep @ join_strings sep (y # ys)"

fun raw_message :: "'j redactor \<Rightarrow> gateway_error \<Rightarrow> string" where
  "raw_message rd (BadRequest _ msg) = msg"
| "raw_message rd (Unauthorized reason) = ''authentication failed: '' @ auth_failure_as_str reason"
| "raw_message rd (Forbidden reason) =
     (case reason of
        ModelNotAllowed \<Rightarrow> ''access to this model is not permitted''
      | IpDenied \<Rightarrow> ''request origin is blocked''
      | CustomDenial msg \<Rightarrow> msg)"
| "raw_message rd (PrincipalRpmExceeded _) = ''Principal RPM limit exceeded.''"
| "raw_message rd ApiKeySpendLimitReached = ''API key spend limit reached.''"
| "raw_message rd (ModelNotFound model) = ''no model found for model: '' @ model"
| "raw_message rd (ProtocolUnsupported ingress egress) = ''cannot translate '' @ ingress @ '' to '' @ egress"
| "raw_message rd (ProtocolLossyRejected lost) =
     ''translation would drop '' @ show_nat (length lost) @ '' field(s): '' @ join_strings '', '' lost"
| "raw_message rd (UpstreamStatus provider status body) =
     (case body of
        Some b \<Rightarrow> ''upstream '' @ provider @ '' returned '' @ show_nat status @ '': '' @ redacted_payload rd b
      | None \<Rightarrow> ''upstream '' @ provider @ '' returned '' @ show_nat status)"
| "raw_message rd (UpstreamTimeout phase) = ''upstream timeout during '' @ timeout_phase_as_str phase"
| "raw_message rd (StreamParseError provider chunk) =
     (case chunk of
        Some c \<Rightarrow> ''stream parse error from '' @ provider @ '': '' @ redacted_payload rd c
      | None \<Rightarrow> ''stream parse error from '' @ provider)"
| "raw_message rd ClientCancelled = ''client disconnected before response completed''"
| "raw_message rd (ProviderUnavailable provider reason) = ''provider '' @ provider @ '' unavailable: '' @ reason"
| "raw_message rd (InternalError source) = ''internal error: '' @ source"

definition error_message :: "'j redactor \<Rightarrow> gateway_error \<Rightarrow> string" where
  "error_message rd e = rd_redact_text rd (raw_message rd e)"

fun retryable :: "gateway_error \<Rightarrow> bool" where
  "retryable (UpstreamStatus _ status _) = (status \<in> {429, 500, 502, 503, 504})"
| "retryable (UpstreamTimeout _) = True"
| "retryable (StreamParseError _ _) = True"
| "retryable (ProviderUnavailable _ _) = True"
| "retryable _ = False"

section \<open>Rendering\<close>

text \<open>The values of the \<open>error\<close> object, the response and the diagnostic attached to it.\<close>

datatype body_value = BodyString string | BodyNumber nat

record failure_diagnostic =
  fd_source :: string
  fd_code :: string
  fd_message :: string
  fd_status_code :: nat

record error_response =
  er_status :: nat
  er_error :: "(string \<times> body_value) list"
  er_retry_after :: "string option"
  er_diagnostic :: failure_diagnostic

fun is_upstream :: "gateway_error \<Rightarrow> bool" where
  "is_upstream (UpstreamStatus _ _ _) = True"
| "is_upstream (UpstreamTimeout _) = True"
| "is_upstream (StreamParseError _ _) = True"
| "is_upstream _ = False"

definition render :: "(nat \<Rightarrow> nat option) \<Rightarrow> 'j redactor \<Rightarrow> gateway_error \<Rightarrow> string option \<Rightarrow> error_response" where
  "render from_u16 rd e request_id =
     (let status = http_status from_u16 e;
          error_obj = [(''message'', BodyString (error_message rd e)), (''type'', BodyString (stable_code e)),
                       (''code'', BodyNumber status)]
                      @ (case request_id of None \<Rightarrow> [] | Some i \<Rightarrow> [(''request_id'', BodyString i)])
      in \<lparr>er_status = status, er_error = error_obj,
          er_retry_after = (case e of PrincipalRpmExceeded secs \<Rightarrow> Some (show_nat secs) | _ \<Rightarrow> None),
          er_diagnostic = \<lparr>fd_source = (if is_upstream e then ''upstream'' else ''platform''),
             fd_code = stable_code e, fd_message = error_message rd e, fd_status_code = status\<rparr>\<rparr>)"

text \<open>\<open>Display\<close> and \<open>Debug\<close> show the same two fields.\<close>

definition display_error :: "'j redactor \<Rightarrow> gateway_error \<Rightarrow> string" where
  "display_error rd e = ''['' @ stable_code e @ ''] '' @ error_message rd e"

section \<open>Laws\<close>

text \<open>The documented range of \<open>StatusCode\<close>.\<close>

definition status_code :: "nat \<Rightarrow> nat option" where
  "status_code n = (if 100 \<le> n \<and> n < 1000 then Some n else None)"

lemma http_status_range:
  assumes "\<And>n s. from_u16 n = Some s \<Longrightarrow> 100 \<le> s \<and> s < 1000"
  shows "100 \<le> http_status from_u16 e \<and> http_status from_u16 e < 1000"
  using assms by (cases e) (auto split: option.splits)

lemma retryable_status:
  assumes "\<And>n. 100 \<le> n \<Longrightarrow> n < 1000 \<Longrightarrow> from_u16 n = Some n" "retryable e"
  shows "http_status from_u16 e \<in> {429, 500, 502, 503, 504}"
proof (cases e)
  case (UpstreamStatus p status b)
  with assms(2) have "status \<in> {429, 500, 502, 503, 504}" by simp
  then have "from_u16 status = Some status" by (intro assms(1)) auto
  with UpstreamStatus \<open>status \<in> _\<close> show ?thesis by simp
qed (use assms(2) in auto)

lemma platform_retryable: "retryable e \<Longrightarrow> \<not> is_upstream e \<Longrightarrow> \<exists>p r. e = ProviderUnavailable p r"
  by (cases e) auto

text \<open>C40: every error renders to a well-formed response: its status is a valid HTTP status and
  the same in the response, the body and the diagnostic, the body carries the request id that
  was given and no other, \<open>Retry-After\<close> comes only with 429, and an error that allows another
  target has one of the five transient statuses and, if it is the platform's own, is an
  unavailable provider.\<close>

theorem rendered_error_well_formed:
  assumes "\<And>n. from_u16 n = status_code n"
  shows "let r = render from_u16 rd e request_id in
    100 \<le> er_status r \<and> er_status r < 1000
    \<and> map_of (er_error r) ''code'' = Some (BodyNumber (er_status r))
    \<and> map_of (er_error r) ''request_id'' = map_option BodyString request_id
    \<and> fd_status_code (er_diagnostic r) = er_status r
    \<and> (er_retry_after r \<noteq> None \<longrightarrow> er_status r = 429)
    \<and> (retryable e \<longrightarrow> er_status r \<in> {429, 500, 502, 503, 504}
         \<and> (fd_source (er_diagnostic r) = ''platform'' \<longrightarrow> (\<exists>p x. e = ProviderUnavailable p x)))"
proof -
  let ?r = "render from_u16 rd e request_id"
  have fields: "er_status ?r = http_status from_u16 e" "fd_status_code (er_diagnostic ?r) = http_status from_u16 e"
      "map_of (er_error ?r) ''code'' = Some (BodyNumber (http_status from_u16 e))"
      "map_of (er_error ?r) ''request_id'' = map_option BodyString request_id"
      "fd_source (er_diagnostic ?r) = (if is_upstream e then ''upstream'' else ''platform'')"
    by (simp_all add: render_def Let_def split: option.split)
  have retry: "er_retry_after ?r \<noteq> None \<Longrightarrow> http_status from_u16 e = 429"
    by (cases e) (simp_all add: render_def Let_def)
  have range: "100 \<le> http_status from_u16 e \<and> http_status from_u16 e < 1000"
    by (rule http_status_range) (simp add: assms status_code_def split: if_splits)
  have transient: "retryable e \<Longrightarrow> http_status from_u16 e \<in> {429, 500, 502, 503, 504}"
    by (rule retryable_status) (simp_all add: assms status_code_def)
  show ?thesis unfolding Let_def fields using retry range transient platform_retryable [of e] by auto
qed

theorem rendered_error_well_formed_witness:
  "er_status (render status_code \<lparr>rd_from_str = (\<lambda>_. None), rd_redact_value = id, rd_to_string = (\<lambda>_::unit. ''''),
     rd_redact_text = id\<rparr> (UpstreamStatus ''p'' 503 None) None) \<in> {429, 500, 502, 503, 504}"
proof -
  have "retryable (UpstreamStatus ''p'' 503 None)" by simp
  with rendered_error_well_formed [of status_code, OF refl] show ?thesis unfolding Let_def by blast
qed

end
