(* ===== verification/Security.thy ===== *)
theory Security
  imports GatewayErrors
begin

text \<open>
  Client credentials (\<open>stravia-core/src/proxy/security.rs\<close>): which secret a request carries,
  when an API key is accepted, and what its principal may do.

  Arguments: the request headers as the texts the \<open>http\<close> crate reads (visible ASCII), the
  key store (\<open>AuthAccessStore\<close>, a trait over SQL), and the two date parsers of \<open>chrono\<close> with
  the current time.
\<close>

section \<open>Credentials\<close>

text \<open>\<open>headers.get(name).and_then(|v| v.to_str().ok())\<close>.\<close>

type_synonym headers = "string \<Rightarrow> string option"

definition is_space :: "char \<Rightarrow> bool" where
  "is_space c = ([c] \<in> set whitespace)"

fun split_words :: "string \<Rightarrow> string \<Rightarrow> string list" where
  "split_words word [] = (if word = [] then [] else [word])"
| "split_words word (c # cs) =
     (if is_space c then (if word = [] then split_words [] cs else word # split_words [] cs)
      else split_words (word @ [c]) cs)"

text \<open>\<open>str::split_whitespace\<close> and \<open>splitn(2, char::is_whitespace)\<close> of an ASCII text.\<close>

definition split_whitespace :: "string \<Rightarrow> string list" where
  "split_whitespace s = split_words [] s"

definition split_once_space :: "string \<Rightarrow> string \<times> string option" where
  "split_once_space s =
     (case dropWhile (\<lambda>c. \<not> is_space c) s of
        [] \<Rightarrow> (s, None)
      | _ # rest \<Rightarrow> (takeWhile (\<lambda>c. \<not> is_space c) s, Some rest))"

definition eq_ignore_ascii_case :: "string \<Rightarrow> string \<Rightarrow> bool" where
  "eq_ignore_ascii_case a b = (to_ascii_lowercase a = to_ascii_lowercase b)"

definition bearer_token :: "string \<Rightarrow> string option" where
  "bearer_token v =
     (let (scheme, rest) = split_once_space v;
          token = trim (case rest of Some r \<Rightarrow> r | None \<Rightarrow> '''')
      in if eq_ignore_ascii_case scheme ''bearer'' \<and> token \<noteq> [] then Some token else None)"

definition trimmed_header :: "headers \<Rightarrow> string \<Rightarrow> string option" where
  "trimmed_header hdr name =
     (case map_option trim (hdr name) of Some v \<Rightarrow> if v \<noteq> [] then Some v else None | None \<Rightarrow> None)"

definition extract_api_key :: "headers \<Rightarrow> string option" where
  "extract_api_key hdr =
     (case Option.bind (hdr ''authorization'') bearer_token of
        Some token \<Rightarrow> Some token
      | None \<Rightarrow> (case trimmed_header hdr ''x-api-key'' of
                   Some key \<Rightarrow> Some key
                 | None \<Rightarrow> trimmed_header hdr ''x-goog-api-key''))"

definition from_inference_headers :: "headers \<Rightarrow> string option" where
  "from_inference_headers hdr = extract_api_key hdr"

definition from_mcp_headers :: "headers \<Rightarrow> string option" where
  "from_mcp_headers hdr =
     Option.bind (hdr ''authorization'') (\<lambda>v.
       case split_whitespace v of
         scheme # token # rest \<Rightarrow>
           (if eq_ignore_ascii_case scheme ''Bearer'' \<and> rest = [] then Some token else None)
       | _ \<Rightarrow> None)"

section \<open>Keys\<close>

record api_key =
  ak_id :: string
  ak_name :: string
  ak_is_enabled :: bool
  ak_expires_at :: "string option"
  ak_rpm_limit :: "int option"
  ak_spend_limit_nanos :: "int option"
  ak_transparent_injection_enabled :: bool
  ak_inject_media_understanding :: bool
  ak_inject_web_search :: bool
  ak_inject_media_generation :: bool

text \<open>\<open>anyhow\<close> errors of the store are their texts.\<close>

record auth_store =
  as_find_api_key :: "string \<Rightarrow> string + api_key option"
  as_find_api_key_by_id :: "string \<Rightarrow> string + api_key option"
  as_model_access_allowed :: "string \<Rightarrow> string \<Rightarrow> string + bool"
  as_list_bound_model_ids :: "string \<Rightarrow> string + string list"

text \<open>The parsers give the instant in UTC; \<open>now\<close> is \<open>Utc::now()\<close> on the same scale.\<close>

record calendar =
  ca_parse_rfc3339 :: "string \<Rightarrow> int option"
  ca_parse_naive :: "string \<Rightarrow> int option"
  ca_now :: int

definition is_key_expired :: "calendar \<Rightarrow> string \<Rightarrow> unit + bool" where
  "is_key_expired cal expires_at =
     (case ca_parse_rfc3339 cal expires_at of
        Some parsed \<Rightarrow> Inr (parsed \<le> ca_now cal)
      | None \<Rightarrow> (case ca_parse_naive cal expires_at of
                   Some parsed \<Rightarrow> Inr (parsed \<le> ca_now cal)
                 | None \<Rightarrow> Inl ()))"

definition validate_key_state :: "calendar \<Rightarrow> api_key \<Rightarrow> gateway_error + unit" where
  "validate_key_state cal key =
     (if \<not> ak_is_enabled key then Inl (Forbidden (CustomDenial ''api key disabled''))
      else case ak_expires_at key of
             None \<Rightarrow> Inr ()
           | Some expires_at \<Rightarrow>
               (case is_key_expired cal expires_at of
                  Inr True \<Rightarrow> Inl (Unauthorized ExpiredKey)
                | Inr False \<Rightarrow> Inr ()
                | Inl () \<Rightarrow> Inl (Unauthorized InvalidKey)))"

definition auth_storage_error :: "string \<Rightarrow> gateway_error" where
  "auth_storage_error error = InternalError (''auth db error: '' @ error)"

section \<open>Authentication\<close>

text \<open>
  A \<open>Principal\<close> is its key id; \<open>Principal::new\<close> asserts that it is a real one, \<open>None\<close> being
  the panic (\<open>stravia-runtime-contract/src/identity.rs\<close>).
\<close>

definition principal_new :: "string \<Rightarrow> string option" where
  "principal_new api_key_id =
     (if api_key_id \<noteq> [] \<and> api_key_id \<noteq> ''anonymous'' then Some api_key_id else None)"

record authenticated =
  au_principal :: string
  au_api_key_name :: string
  au_rpm_limit :: "int option"
  au_spend_limit_nanos :: "int option"

definition find_credential_key :: "auth_store option \<Rightarrow> string option \<Rightarrow> gateway_error + api_key" where
  "find_credential_key sec secret =
     res_bind (ok_or (Unauthorized MissingCredential) secret) (\<lambda>raw_key.
     res_bind (ok_or (InternalError ''API key authentication is unavailable'') sec) (\<lambda>auth.
     res_bind (map_err auth_storage_error (as_find_api_key auth raw_key))
       (ok_or (Unauthorized InvalidKey))))"

definition authenticated_principal ::
    "calendar \<Rightarrow> auth_store option \<Rightarrow> string option \<Rightarrow> (gateway_error + authenticated) option" where
  "authenticated_principal cal sec secret =
     (case res_bind (find_credential_key sec secret)
             (\<lambda>key. res_bind (validate_key_state cal key) (\<lambda>_. Inr key)) of
        Inl e \<Rightarrow> Some (Inl e)
      | Inr key \<Rightarrow>
          map_option (\<lambda>p. Inr \<lparr>au_principal = p, au_api_key_name = ak_name key,
              au_rpm_limit = ak_rpm_limit key, au_spend_limit_nanos = ak_spend_limit_nanos key\<rparr>)
            (principal_new (ak_id key)))"

definition required_principal ::
    "calendar \<Rightarrow> auth_store option \<Rightarrow> string option \<Rightarrow> (gateway_error + string) option" where
  "required_principal cal sec secret =
     map_option (\<lambda>r. res_bind r (\<lambda>a. Inr (au_principal a))) (authenticated_principal cal sec secret)"

definition visible_model_ids ::
    "calendar \<Rightarrow> auth_store option \<Rightarrow> string option \<Rightarrow> gateway_error + string list" where
  "visible_model_ids cal sec secret =
     res_bind (ok_or (Unauthorized MissingCredential) secret) (\<lambda>raw_key.
     res_bind (ok_or (InternalError ''API key authentication is unavailable'') sec) (\<lambda>auth.
     res_bind (res_bind (map_err auth_storage_error (as_find_api_key auth raw_key))
       (ok_or (Unauthorized InvalidKey))) (\<lambda>key.
     res_bind (validate_key_state cal key) (\<lambda>_.
     map_err auth_storage_error (as_list_bound_model_ids auth (ak_id key))))))"

section \<open>Authorization\<close>

record access_grant =
  ag_api_key_id :: "string option"
  ag_api_key_name :: "string option"

definition key_grant :: "api_key \<Rightarrow> access_grant" where
  "key_grant key = \<lparr>ag_api_key_id = Some (ak_id key), ag_api_key_name = Some (ak_name key)\<rparr>"

definition principal_key :: "auth_store option \<Rightarrow> string \<Rightarrow> gateway_error + api_key" where
  "principal_key sec p =
     (case sec of
        None \<Rightarrow> Inl (Unauthorized InvalidKey)
      | Some auth \<Rightarrow>
          res_bind (map_err auth_storage_error (as_find_api_key_by_id auth p))
            (ok_or (Unauthorized InvalidKey)))"

definition authorize_key_model ::
    "calendar \<Rightarrow> auth_store option \<Rightarrow> api_key \<Rightarrow> string \<Rightarrow> gateway_error + access_grant" where
  "authorize_key_model cal sec key route_id =
     res_bind (validate_key_state cal key) (\<lambda>_.
     case sec of
       None \<Rightarrow> Inl (Unauthorized InvalidKey)
     | Some auth \<Rightarrow>
         res_bind (map_err auth_storage_error (as_model_access_allowed auth (ak_id key) route_id)) (\<lambda>allowed.
         if \<not> allowed then Inl (Forbidden ModelNotAllowed) else Inr (key_grant key)))"

definition authorize_principal_model ::
    "calendar \<Rightarrow> auth_store option \<Rightarrow> string \<Rightarrow> string \<Rightarrow> gateway_error + access_grant" where
  "authorize_principal_model cal sec p route_id =
     res_bind (principal_key sec p) (\<lambda>key. authorize_key_model cal sec key route_id)"

definition authorize_principal_capability ::
    "calendar \<Rightarrow> auth_store option \<Rightarrow> string \<Rightarrow> gateway_error + access_grant" where
  "authorize_principal_capability cal sec p =
     res_bind (principal_key sec p) (\<lambda>key.
     res_bind (validate_key_state cal key) (\<lambda>_. Inr (key_grant key)))"

text \<open>The injection switches: the master switch of the key and, where there is one, its own.\<close>

definition injection_switch ::
    "(api_key \<Rightarrow> bool) \<Rightarrow> calendar \<Rightarrow> auth_store option \<Rightarrow> string \<Rightarrow> gateway_error + bool" where
  "injection_switch selected cal sec p =
     res_bind (principal_key sec p) (\<lambda>key.
     res_bind (validate_key_state cal key) (\<lambda>_.
     Inr (ak_transparent_injection_enabled key \<and> selected key)))"

definition authorize_principal_web_search ::
    "calendar \<Rightarrow> auth_store option \<Rightarrow> string \<Rightarrow> gateway_error + bool" where
  "authorize_principal_web_search = injection_switch ak_inject_web_search"

definition transparent_injection_enabled ::
    "calendar \<Rightarrow> auth_store option \<Rightarrow> string \<Rightarrow> gateway_error + bool" where
  "transparent_injection_enabled = injection_switch (\<lambda>_. True)"

definition media_transparent_injection_enabled ::
    "calendar \<Rightarrow> auth_store option \<Rightarrow> string \<Rightarrow> gateway_error + bool" where
  "media_transparent_injection_enabled = injection_switch ak_inject_media_understanding"

definition generation_transparent_injection_enabled ::
    "calendar \<Rightarrow> auth_store option \<Rightarrow> string \<Rightarrow> gateway_error + bool" where
  "generation_transparent_injection_enabled = injection_switch ak_inject_media_generation"

section \<open>Laws\<close>

text \<open>A key is live if it is enabled and has no expiry, or one that can be read and lies ahead.\<close>

definition parsed_expiry :: "calendar \<Rightarrow> string \<Rightarrow> int option" where
  "parsed_expiry cal e = (case ca_parse_rfc3339 cal e of Some t \<Rightarrow> Some t | None \<Rightarrow> ca_parse_naive cal e)"

definition key_live :: "calendar \<Rightarrow> api_key \<Rightarrow> bool" where
  "key_live cal key \<longleftrightarrow> ak_is_enabled key
     \<and> (case ak_expires_at key of
          None \<Rightarrow> True
        | Some e \<Rightarrow> (case parsed_expiry cal e of None \<Rightarrow> False | Some t \<Rightarrow> ca_now cal < t))"

lemma is_key_expired_parsed:
  "is_key_expired cal e = (case parsed_expiry cal e of None \<Rightarrow> Inl () | Some t \<Rightarrow> Inr (t \<le> ca_now cal))"
  by (simp add: is_key_expired_def parsed_expiry_def split: option.split)

lemma validate_key_state_cases:
  "validate_key_state cal key =
     (if \<not> ak_is_enabled key then Inl (Forbidden (CustomDenial ''api key disabled''))
      else case ak_expires_at key of
             None \<Rightarrow> Inr ()
           | Some x \<Rightarrow> (case parsed_expiry cal x of
                 None \<Rightarrow> Inl (Unauthorized InvalidKey)
               | Some t \<Rightarrow> if t \<le> ca_now cal then Inl (Unauthorized ExpiredKey) else Inr ()))"
proof -
  have b: "(case Inr b of Inr True \<Rightarrow> x | Inr False \<Rightarrow> y | Inl () \<Rightarrow> z) = (if b then x else y)"
    for b and x y z :: "gateway_error + unit" by (cases b) simp_all
  show ?thesis
    by (cases "ak_expires_at key"; cases "parsed_expiry cal (the (ak_expires_at key))")
       (simp_all add: validate_key_state_def is_key_expired_parsed b split: unit.split)
qed

lemma validate_key_state_Inr: "validate_key_state cal key = Inr u \<longleftrightarrow> key_live cal key"
  by (cases "ak_expires_at key"; cases "parsed_expiry cal (the (ak_expires_at key))")
     (simp_all add: validate_key_state_cases key_live_def not_le)

lemmas security_Inr = res_bind_Inr_iff map_err_Inr ok_or_Inr validate_key_state_Inr

lemma find_credential_key_Inr:
  "find_credential_key sec secret = Inr key \<longleftrightarrow>
     (\<exists>raw auth. secret = Some raw \<and> sec = Some auth \<and> as_find_api_key auth raw = Inr (Some key))"
  by (auto simp: find_credential_key_def security_Inr)

lemma principal_key_Inr:
  "principal_key sec p = Inr key \<longleftrightarrow>
     (\<exists>auth. sec = Some auth \<and> as_find_api_key_by_id auth p = Inr (Some key))"
  by (cases sec) (auto simp: principal_key_def security_Inr)

lemma injection_switch_Inr:
  "injection_switch selected cal sec p = Inr b \<longleftrightarrow>
     (\<exists>key. principal_key sec p = Inr key \<and> key_live cal key
       \<and> b = (ak_transparent_injection_enabled key \<and> selected key))"
  by (auto simp: injection_switch_def security_Inr)

lemma authorize_principal_capability_Inr:
  "authorize_principal_capability cal sec p = Inr g \<longleftrightarrow>
     (\<exists>key. principal_key sec p = Inr key \<and> key_live cal key \<and> g = key_grant key)"
  by (auto simp: authorize_principal_capability_def security_Inr)

lemma authorize_principal_model_Inr:
  "authorize_principal_model cal sec p route_id = Inr g \<longleftrightarrow>
     (\<exists>auth key. sec = Some auth \<and> as_find_api_key_by_id auth p = Inr (Some key) \<and> key_live cal key
       \<and> as_model_access_allowed auth (ak_id key) route_id = Inr True \<and> g = key_grant key)"
proof (cases sec)
  case None
  then show ?thesis by (simp add: authorize_principal_model_def principal_key_def)
next
  case (Some auth)
  have "(if \<not> allowed then Inl (Forbidden ModelNotAllowed) else Inr (key_grant key)) = Inr g
      \<longleftrightarrow> allowed \<and> g = key_grant key" for allowed key by auto
  then show ?thesis using Some
    by (auto simp: authorize_principal_model_def authorize_key_model_def security_Inr principal_key_Inr)
qed

section \<open>Properties\<close>

text \<open>C23: authentication fails closed. A principal is handed out exactly for a presented
  secret that the store maps to a key which is enabled, not expired (an expiry that cannot be
  read counts as expired) and has a real id; the principal is that key's. A missing secret is
  refused before the store is asked, and the assertion on the id is the only panic.\<close>

theorem authentication_exact:
  "(authenticated_principal cal sec secret = Some (Inr a) \<longleftrightarrow>
      (\<exists>raw auth key. secret = Some raw \<and> sec = Some auth \<and> as_find_api_key auth raw = Inr (Some key)
        \<and> key_live cal key \<and> ak_id key \<notin> {'''', ''anonymous''}
        \<and> a = \<lparr>au_principal = ak_id key, au_api_key_name = ak_name key,
               au_rpm_limit = ak_rpm_limit key, au_spend_limit_nanos = ak_spend_limit_nanos key\<rparr>))
   \<and> authenticated_principal cal sec None = Some (Inl (Unauthorized MissingCredential))
   \<and> (authenticated_principal cal sec secret = None \<longleftrightarrow>
      (\<exists>raw auth key. secret = Some raw \<and> sec = Some auth \<and> as_find_api_key auth raw = Inr (Some key)
        \<and> key_live cal key \<and> ak_id key \<in> {'''', ''anonymous''}))"
proof -
  let ?r = "res_bind (find_credential_key sec secret) (\<lambda>key. res_bind (validate_key_state cal key) (\<lambda>_. Inr key))"
  have r: "?r = Inr key \<longleftrightarrow> (\<exists>raw auth. secret = Some raw \<and> sec = Some auth
      \<and> as_find_api_key auth raw = Inr (Some key) \<and> key_live cal key)" for key
    by (auto simp: security_Inr find_credential_key_Inr)
  have missing: "authenticated_principal cal sec None = Some (Inl (Unauthorized MissingCredential))"
    by (simp add: authenticated_principal_def find_credential_key_def ok_or_def)
  have found: "authenticated_principal cal sec secret = Some (Inr a) \<longleftrightarrow>
      (\<exists>key. ?r = Inr key \<and> ak_id key \<notin> {'''', ''anonymous''}
        \<and> a = \<lparr>au_principal = ak_id key, au_api_key_name = ak_name key,
               au_rpm_limit = ak_rpm_limit key, au_spend_limit_nanos = ak_spend_limit_nanos key\<rparr>)"
    by (auto simp: authenticated_principal_def principal_new_def split: sum.splits)
  have panics: "authenticated_principal cal sec secret = None \<longleftrightarrow>
      (\<exists>key. ?r = Inr key \<and> ak_id key \<in> {'''', ''anonymous''})"
    by (auto simp: authenticated_principal_def principal_new_def split: sum.splits)
  show ?thesis unfolding found panics r using missing by blast
qed

end
