(* ===== verification/SendEligibility.thy ===== *)
theory SendEligibility
  imports Security RouteSelection RpmLaws
begin

text \<open>
  The last check before bytes leave for a provider: \<open>SendEligibility::current_destination\<close>
  and one pass of \<open>acquire_inner\<close> (\<open>stravia-core/src/rpm/runtime.rs\<close>), with the availability
  of a provider model (\<open>provider_models.rs\<close>), the capability test of a target
  (\<open>model_turn/mod.rs\<close>) and the lookup of a plugin's provider profile
  (\<open>stravia-vendor-sdk/src/descriptor.rs\<close>).

  The route table, the storage and the plugin's descriptor are read through a record; each
  read is what the corresponding \<open>await\<close> returned.
\<close>

section \<open>Provider models\<close>

datatype selection_policy = AutoPolicy | ForceEnabled | ForceDisabled
datatype source_kind = Discovered | Manual
datatype presence = Present | Missing

definition effective_availability ::
    "selection_policy \<Rightarrow> source_kind \<Rightarrow> presence \<Rightarrow> string option \<Rightarrow> bool" where
  "effective_availability policy kind pres lifecycle_status =
     (case policy of
        ForceEnabled \<Rightarrow> True
      | ForceDisabled \<Rightarrow> False
      | AutoPolicy \<Rightarrow> (kind = Manual \<or> pres = Present) \<and> lifecycle_status \<noteq> Some ''deprecated'')"

text \<open>
  \<open>pm_capabilities\<close> is the array under \<open>capabilities\<close> in the extensions, if there is one: of
  each value its string, if it is a string.
\<close>

record 'd provider_model =
  pm_source_kind :: source_kind
  pm_presence :: presence
  pm_selection_policy :: selection_policy
  pm_metadata :: "'d model_metadata"
  pm_status :: "string option"
  pm_capabilities :: "string option list option"

definition effective_available :: "'d provider_model \<Rightarrow> bool" where
  "effective_available m =
     effective_availability (pm_selection_policy m) (pm_source_kind m) (pm_presence m) (pm_status m)"

text \<open>Unregistered modalities count as text in and text out.\<close>

definition effective_modalities :: "'d model_metadata \<Rightarrow> string list \<times> string list" where
  "effective_modalities m = (case mm_modalities m of Some ms \<Rightarrow> ms | None \<Rightarrow> ([''text''], [''text'']))"

definition route_output_modalities :: "'d provider_model \<Rightarrow> output_modality list" where
  "route_output_modalities m =
     (if \<not> effective_available m then []
      else filter (supports_route_output_modality (pm_metadata m)) [output_modality.Text, Image])"

section \<open>Capabilities and channels\<close>

datatype capability =
    Infer | Compact | Search | MediaImage | AuthOauth | ModelDiscovery | AllowanceRead | ConfigValidation

fun capability_as_str :: "capability \<Rightarrow> string" where
  "capability_as_str Infer = ''infer''"
| "capability_as_str Compact = ''compact''"
| "capability_as_str Search = ''search''"
| "capability_as_str MediaImage = ''media_image''"
| "capability_as_str AuthOauth = ''auth_oauth''"
| "capability_as_str ModelDiscovery = ''model_discovery''"
| "capability_as_str AllowanceRead = ''allowance''"
| "capability_as_str ConfigValidation = ''config_validation''"

definition parse_capability :: "string \<Rightarrow> capability option" where
  "parse_capability s =
     find (\<lambda>c. capability_as_str c = s)
       [Infer, Compact, Search, MediaImage, AuthOauth, ModelDiscovery, AllowanceRead, ConfigValidation]"

record channel_descriptor =
  cd_id :: string
  cd_capabilities :: "capability list"

record provider_descriptor =
  pd_provider_id :: string
  pd_channels :: "channel_descriptor list"

definition descriptor_provider :: "provider_descriptor list \<Rightarrow> string \<Rightarrow> provider_descriptor option" where
  "descriptor_provider providers p = find (\<lambda>d. pd_provider_id d = p) providers"

text \<open>\<open>values.iter().any(|value| value.as_str() == Some(c))\<close> on an optional array.\<close>

definition declares :: "'d provider_model \<Rightarrow> string \<Rightarrow> bool" where
  "declares m c = (case pm_capabilities m of None \<Rightarrow> False | Some vs \<Rightarrow> list_ex (\<lambda>v. v = Some c) vs)"

definition validate_target_capability ::
    "channel_descriptor \<Rightarrow> string \<Rightarrow> 'd provider_model option \<Rightarrow> capability \<Rightarrow> string + unit" where
  "validate_target_capability ch model m cap =
     (if cap \<notin> set (cd_capabilities ch)
      then Inl (''Target Provider channel does not support '' @ capability_as_str cap)
      else if cap \<notin> {Search, MediaImage} then
        (if (case m of None \<Rightarrow> True | Some pm \<Rightarrow> effective_available pm) then Inr ()
         else Inl ''Target Provider Model is unavailable'')
      else if trim model = [] \<or> trim model = ''*'' then Inl ''Target Provider Model is invalid''
      else case m of
        None \<Rightarrow> Inl ''Target Provider Model is unavailable''
      | Some pm \<Rightarrow>
          if \<not> effective_available pm then Inl ''Target Provider Model is unavailable''
          else if (cap = MediaImage \<or> pm_capabilities pm \<noteq> None)
                \<and> \<not> (declares pm (capability_as_str cap) \<or> cap = MediaImage \<and> declares pm ''image_output'')
            then Inl (''Target Provider Model does not support '' @ capability_as_str cap)
            else Inr ())"

section \<open>The check\<close>

record provider_row =
  pr_is_enabled :: bool
  pr_credential_status :: string
  pr_vendor :: "string option"
  pr_channel :: "string option"

datatype turn_authorization = RouteBinding | CapabilityGrant

text \<open>
  The fields of \<open>SendEligibility\<close> that \<open>current_destination\<close> reads, on top of the ones the
  commit reads; the descriptor is that of the admitted component.
\<close>

record send_eligibility = eligibility +
  sg_admitted_provider_id :: string
  sg_descriptor :: "provider_descriptor list"
  sg_route_id :: string
  sg_target :: target_destination
  sg_principal :: string
  sg_authorization :: turn_authorization
  sg_capability :: capability
  sg_requires_video :: bool
  sg_requires_image :: bool

record ('b, 'd, 'j) send_env =
  sv_routes :: "'b route_config list"
  sv_auth :: "auth_store option"
  sv_calendar :: calendar
  sv_redactor :: "'j redactor"
  sv_provider :: "string \<Rightarrow> string + provider_row option"
  sv_find_model :: "string \<Rightarrow> string \<Rightarrow> string + 'd provider_model option"

definition rejected :: "'j admission_error" where
  "rejected = target_ineligible ''Target is no longer eligible for sending''"

definition send_access ::
    "('b, 'd, 'j) send_env \<Rightarrow> send_eligibility \<Rightarrow> 'b route_config \<Rightarrow> gateway_error + access_grant" where
  "send_access env el route =
     (case sg_authorization el of
        RouteBinding \<Rightarrow> authorize_principal_model (sv_calendar env) (sv_auth env) (sg_principal el) (rc_id route)
      | CapabilityGrant \<Rightarrow> authorize_principal_capability (sv_calendar env) (sv_auth env) (sg_principal el))"

text \<open>The block on video and image inputs.\<close>

definition media_supported :: "send_eligibility \<Rightarrow> 'd provider_model option \<Rightarrow> bool" where
  "media_supported el m =
     ((sg_requires_video el \<longrightarrow>
         (case m of None \<Rightarrow> False
          | Some pm \<Rightarrow> supports_modality (fst (effective_modalities (pm_metadata pm))) ''video''))
      \<and> (sg_requires_image el \<longrightarrow>
         (case m of None \<Rightarrow> False
          | Some pm \<Rightarrow>
              if sg_capability el = MediaImage
              then (case mm_modalities (pm_metadata pm) of None \<Rightarrow> False | Some (inputs, _) \<Rightarrow> supports_image inputs)
              else declares pm ''image_input'' \<or> supports_image (fst (effective_modalities (pm_metadata pm))))))"

text \<open>\<open>None\<close> of \<open>guard\<close> continues, \<open>Some e\<close> is an early return.\<close>

definition guard_err :: "bool \<Rightarrow> 'e \<Rightarrow> 'e + unit" where
  "guard_err bad e = (if bad then Inl e else Inr ())"

definition current_destination ::
    "('b, 'd, 'j) send_env \<Rightarrow> send_eligibility \<Rightarrow> 'x admission_error + dest_key" where
  "current_destination env el =
     res_bind (ok_or rejected (find (\<lambda>r. rc_id r = sg_route_id el \<and> rc_is_enabled r) (sv_routes env))) (\<lambda>route.
     res_bind (ok_or (Rejected (new_error ''route_output_modality_unconfigured''
         ''Select and save an output modality to reconfigure this Route'')) (rc_output_modality route)) (\<lambda>modality.
     res_bind (guard_err (sg_capability el = MediaImage \<and> modality \<noteq> Image)
         (Rejected (new_error ''media_generation_route_output_modality_mismatch''
           ''Image generation requires an image-output Route''))) (\<lambda>_.
     res_bind (ok_or rejected
         (find (\<lambda>t. tc_enabled t \<and> tc_destination t = sg_target el) (rc_targets route))) (\<lambda>t.
     res_bind (map_err (\<lambda>e. Rejected (new_error (stable_code e) (error_message (sv_redactor env) e)))
         (send_access env el route)) (\<lambda>_.
     res_bind (map_err (\<lambda>e. Rejected (new_error ''provider_unavailable'' e))
         (sv_provider env (provider_id (sg_target el)))) (\<lambda>found.
     res_bind (ok_or rejected found) (\<lambda>provider.
     res_bind (guard_err (\<not> pr_is_enabled provider \<or> pr_credential_status provider = ''invalid'') rejected) (\<lambda>_.
     res_bind (guard_err (map_option trim (pr_vendor provider) \<noteq> Some (sg_admitted_provider_id el)) rejected) (\<lambda>_.
     res_bind (ok_or rejected (descriptor_provider (sg_descriptor el) (sg_admitted_provider_id el))) (\<lambda>descriptor.
     res_bind (ok_or rejected
         (find (\<lambda>c. cd_id c = (case pr_channel provider of Some x \<Rightarrow> x | None \<Rightarrow> ''default''))
            (pd_channels descriptor))) (\<lambda>channel.
     res_bind (map_err (\<lambda>e. Rejected (new_error ''model_unavailable'' e))
         (sv_find_model env (provider_id (sg_target el)) (model_id (sg_target el)))) (\<lambda>model.
     res_bind (guard_err (case model of None \<Rightarrow> False | Some m \<Rightarrow> \<not> effective_available m) rejected) (\<lambda>_.
     res_bind (guard_err
         (\<not> (case model of None \<Rightarrow> False | Some m \<Rightarrow> supports_route_output_modality (pm_metadata m) modality))
         (Rejected (new_error ''target_output_modality_mismatch''
           ''Target no longer registers the Route output modality''))) (\<lambda>_.
     res_bind (map_err (\<lambda>_. rejected)
         (validate_target_capability channel (model_id (sg_target el)) model (sg_capability el))) (\<lambda>_.
     res_bind (guard_err (\<not> media_supported el model) rejected) (\<lambda>_.
     Inr (provider_id (tc_destination t), model_id (tc_destination t))))))))))))))))))"

section \<open>One pass of the admission loop\<close>

text \<open>
  The readings of one pass: the flags before the check, the version captured before the
  check, what the check returned (or the key fixed at the start, without eligibility), then
  the commit under the lock with its own readings and state.
\<close>

definition send_pass ::
    "bool \<Rightarrow> bool \<Rightarrow> ('b, 'd, 'j) send_env \<Rightarrow> send_eligibility option \<Rightarrow> dest_key \<Rightarrow> nat
      \<Rightarrow> bool \<Rightarrow> bool \<Rightarrow> policy_state \<Rightarrow> nat \<Rightarrow> instant \<Rightarrow> bool \<Rightarrow> rpm_state
      \<Rightarrow> ('x pass \<times> bool \<times> rpm_state) option" where
  "send_pass cancelled0 exceeded0 env el key version cancelled exceeded ps clock now sent s =
     (if cancelled0 then Some (Finished (Inl Cancelled), sent, s)
      else if exceeded0 then Some (Finished (Inl DeadlineExceeded), sent, s)
      else map_option (\<lambda>(result, sent', s'). (pass_of sent' result, sent', s'))
        (commit_send version
           (case el of Some e \<Rightarrow> current_destination env e | None \<Rightarrow> Inr key)
           cancelled exceeded (map_option eligibility.truncate el) ps clock now sent s))"

section \<open>What a send needs\<close>

text \<open>The four parts of the condition, each in terms of what it reads.\<close>

definition route_admits ::
    "('b, 'd, 'j) send_env \<Rightarrow> send_eligibility \<Rightarrow> 'b route_config \<Rightarrow> output_modality \<Rightarrow> bool" where
  "route_admits env el route modality \<longleftrightarrow>
     find (\<lambda>r. rc_id r = sg_route_id el \<and> rc_is_enabled r) (sv_routes env) = Some route
     \<and> rc_output_modality route = Some modality
     \<and> (sg_capability el = MediaImage \<longrightarrow> modality = Image)
     \<and> (\<exists>t \<in> set (rc_targets route). tc_enabled t \<and> tc_destination t = sg_target el)"

definition principal_admits :: "('b, 'd, 'j) send_env \<Rightarrow> send_eligibility \<Rightarrow> 'b route_config \<Rightarrow> bool" where
  "principal_admits env el route \<longleftrightarrow>
     (\<exists>auth key. sv_auth env = Some auth \<and> as_find_api_key_by_id auth (sg_principal el) = Inr (Some key)
       \<and> key_live (sv_calendar env) key
       \<and> (sg_authorization el = RouteBinding \<longrightarrow>
            as_model_access_allowed auth (ak_id key) (rc_id route) = Inr True))"

definition provider_admits :: "('b, 'd, 'j) send_env \<Rightarrow> send_eligibility \<Rightarrow> channel_descriptor \<Rightarrow> bool" where
  "provider_admits env el ch \<longleftrightarrow>
     (\<exists>p d. sv_provider env (provider_id (sg_target el)) = Inr (Some p)
       \<and> pr_is_enabled p \<and> pr_credential_status p \<noteq> ''invalid''
       \<and> map_option trim (pr_vendor p) = Some (sg_admitted_provider_id el)
       \<and> descriptor_provider (sg_descriptor el) (sg_admitted_provider_id el) = Some d
       \<and> find (\<lambda>c. cd_id c = (case pr_channel p of Some x \<Rightarrow> x | None \<Rightarrow> ''default'')) (pd_channels d) = Some ch)"

definition model_admits ::
    "('b, 'd, 'j) send_env \<Rightarrow> send_eligibility \<Rightarrow> output_modality \<Rightarrow> channel_descriptor \<Rightarrow> bool" where
  "model_admits env el modality ch \<longleftrightarrow>
     (\<exists>m. sv_find_model env (provider_id (sg_target el)) (model_id (sg_target el)) = Inr (Some m)
       \<and> effective_available m
       \<and> supports_route_output_modality (pm_metadata m) modality
       \<and> sg_capability el \<in> set (cd_capabilities ch)
       \<and> (sg_capability el \<in> {Search, MediaImage} \<longrightarrow>
            trim (model_id (sg_target el)) \<notin> {'''', ''*''}
            \<and> (sg_capability el = MediaImage \<or> pm_capabilities m \<noteq> None \<longrightarrow>
                 declares m (capability_as_str (sg_capability el))
                 \<or> sg_capability el = MediaImage \<and> declares m ''image_output''))
       \<and> media_supported el (Some m))"

lemma guard_err_Inr [simp]: "guard_err bad e = Inr u \<longleftrightarrow> \<not> bad"
  by (simp add: guard_err_def)

lemma find_ex: "(\<exists>x. find P xs = Some x) \<longleftrightarrow> (\<exists>x \<in> set xs. P x)"
  by (induction xs) auto

lemma validate_target_capability_Inr:
  "validate_target_capability ch model (Some m) cap = Inr u \<longleftrightarrow>
     cap \<in> set (cd_capabilities ch) \<and> effective_available m
     \<and> (cap \<in> {Search, MediaImage} \<longrightarrow> trim model \<notin> {'''', ''*''}
        \<and> (cap = MediaImage \<or> pm_capabilities m \<noteq> None \<longrightarrow>
             declares m (capability_as_str cap) \<or> cap = MediaImage \<and> declares m ''image_output''))"
  by (auto simp: validate_target_capability_def)

lemma send_access_Inr:
  "(\<exists>g. send_access env el route = Inr g) \<longleftrightarrow> principal_admits env el route"
  by (cases "sg_authorization el")
     (auto simp: send_access_def principal_admits_def authorize_principal_model_Inr
       authorize_principal_capability_Inr principal_key_Inr)

text \<open>The target found is the one the turn was admitted for, so its destination is known.\<close>

lemma found_destination:
  "find (\<lambda>t. tc_enabled t \<and> tc_destination t = dest) ts = Some t \<Longrightarrow> tc_destination t = dest"
  by (auto simp: find_Some_iff)

lemma current_destination_Inr:
  "current_destination env el = (Inr d :: 'x admission_error + dest_key) \<longleftrightarrow>
     (\<exists>route modality ch. route_admits env el route modality \<and> principal_admits env el route
        \<and> provider_admits env el ch \<and> model_admits env el modality ch)
     \<and> d = (provider_id (sg_target el), model_id (sg_target el))" (is "?L \<longleftrightarrow> ?R")
proof
  assume ?L
  then obtain route modality t g found p desc ch model u1 u2 u3 u4 where
    f: "find (\<lambda>r. rc_id r = sg_route_id el \<and> rc_is_enabled r) (sv_routes env) = Some route"
      "rc_output_modality route = Some modality" "\<not> (sg_capability el = MediaImage \<and> modality \<noteq> Image)"
      "find (\<lambda>t. tc_enabled t \<and> tc_destination t = sg_target el) (rc_targets route) = Some t"
    and a: "send_access env el route = Inr g"
    and p: "sv_provider env (provider_id (sg_target el)) = Inr found" "found = Some p"
      "\<not> (\<not> pr_is_enabled p \<or> pr_credential_status p = ''invalid'')"
      "\<not> (map_option trim (pr_vendor p) \<noteq> Some (sg_admitted_provider_id el))"
      "descriptor_provider (sg_descriptor el) (sg_admitted_provider_id el) = Some desc"
      "find (\<lambda>c. cd_id c = (case pr_channel p of Some x \<Rightarrow> x | None \<Rightarrow> ''default'')) (pd_channels desc) = Some ch"
    and m: "sv_find_model env (provider_id (sg_target el)) (model_id (sg_target el)) = Inr model"
      "\<not> (case model of None \<Rightarrow> False | Some m \<Rightarrow> \<not> effective_available m)"
      "\<not> \<not> (case model of None \<Rightarrow> False | Some m \<Rightarrow> supports_route_output_modality (pm_metadata m) modality)"
      "validate_target_capability ch (model_id (sg_target el)) model (sg_capability el) = Inr u1"
      "\<not> \<not> media_supported el model"
    and d: "Inr (provider_id (tc_destination t), model_id (tc_destination t)) = (Inr d :: 'x admission_error + dest_key)"
    unfolding current_destination_def res_bind_Inr_iff ok_or_Inr map_err_Inr guard_err_Inr by blast
  obtain pm where pm: "model = Some pm" using m(3) by (cases model) simp_all
  have "route_admits env el route modality"
    using f unfolding route_admits_def find_ex [symmetric] by blast
  moreover have "principal_admits env el route" using a send_access_Inr by metis
  moreover have "provider_admits env el ch" unfolding provider_admits_def using p by blast
  moreover have "model_admits env el modality ch"
  proof -
    have "effective_available pm" "supports_route_output_modality (pm_metadata pm) modality"
      "media_supported el (Some pm)" using m(2,3,5) pm by simp_all
    moreover note m(1) [unfolded pm] m(4) [unfolded pm validate_target_capability_Inr]
    ultimately show ?thesis unfolding model_admits_def by blast
  qed
  moreover have "d = (provider_id (sg_target el), model_id (sg_target el))"
    using d found_destination [OF f(4)] by simp
  ultimately show ?R by blast
next
  assume ?R
  then obtain route modality ch where r: "route_admits env el route modality" "principal_admits env el route"
    "provider_admits env el ch" "model_admits env el modality ch"
    and d: "d = (provider_id (sg_target el), model_id (sg_target el))" by blast
  obtain t where t: "find (\<lambda>t. tc_enabled t \<and> tc_destination t = sg_target el) (rc_targets route) = Some t"
    using r(1) unfolding route_admits_def find_ex [symmetric] by blast
  obtain g where g: "send_access env el route = Inr g" using r(2) send_access_Inr by blast
  obtain m where m: "sv_find_model env (provider_id (sg_target el)) (model_id (sg_target el)) = Inr (Some m)"
      "effective_available m" "supports_route_output_modality (pm_metadata m) modality"
      "validate_target_capability ch (model_id (sg_target el)) (Some m) (sg_capability el) = Inr ()"
      "media_supported el (Some m)"
    using r(4) unfolding model_admits_def validate_target_capability_Inr by blast
  show ?L
    using r(1,3) t g m d found_destination [OF t]
    by (auto simp: current_destination_def route_admits_def provider_admits_def ok_or_def guard_err_def)
qed

section \<open>Properties\<close>

lemma record_send_admitted:
  assumes "record_send key now s = Some (Inr (), s')" "rp_limits s key = Some l"
  shows "\<exists>w. rp_windows s' key = Some (w @ [now])"
proof -
  have n: "rp_limits s1 = rp_limits s" if "next_at key now s = Some (r, s1)" for r s1
    using that by (auto simp: next_at_def Let_def split: option.splits if_splits)
  show ?thesis using assms n
    by (auto simp: record_send_def split: option.splits prod.splits if_splits)
qed

lemma commit_send_admitted:
  assumes "commit_send version cur cancelled exceeded (Some el) ps clock now sent s = Some (Inr Admitted, sent', s')"
  obtains key where "cur = Inr key" "rp_version s = version" "\<not> cancelled" "\<not> exceeded"
    "permits_send clock (el_target_key el) (el_epoch el) (el_single_attempt el) ps"
    "el_single_attempt el \<longrightarrow> \<not> sent" "sent'" "record_send key now s = Some (Inr (), s')"
  using assms
  by (auto simp: commit_send_def split: if_splits sum.splits option.splits prod.splits)

lemma pass_of_admitted: "pass_of sent r = Finished (Inr ()) \<longleftrightarrow> r = Inr Admitted"
  by (auto simp: pass_of_def split: sum.splits decision.splits)

text \<open>C2: nothing is sent past a withdrawn permission. If one pass of the admission loop lets
  a request go, then the whole condition held when it was read, the shared state has not
  been reconfigured since before that reading, neither cancellation nor the deadline struck,
  the circuit of the target still permits the send, a single-attempt permission was not used
  before, and the send is recorded in the window of a limited destination.\<close>

theorem send_only_when_eligible:
  assumes "send_pass cancelled0 exceeded0 env (Some el) key version cancelled exceeded ps clock now sent s
    = Some (Finished (Inr ()) :: 'x pass, sent', s')"
  shows "(\<exists>route modality ch. route_admits env el route modality \<and> principal_admits env el route
        \<and> provider_admits env el ch \<and> model_admits env el modality ch)
    \<and> rp_version s = version \<and> \<not> cancelled0 \<and> \<not> exceeded0 \<and> \<not> cancelled \<and> \<not> exceeded
    \<and> permits_send clock (el_target_key el) (el_epoch el) (el_single_attempt el) ps
    \<and> (el_single_attempt el \<longrightarrow> \<not> sent) \<and> sent'
    \<and> (rp_limits s (provider_id (sg_target el), model_id (sg_target el)) \<noteq> None \<longrightarrow>
         (\<exists>w. rp_windows s' (provider_id (sg_target el), model_id (sg_target el)) = Some (w @ [now])))"
proof -
  have flags: "\<not> cancelled0" "\<not> exceeded0" using assms by (auto simp: send_pass_def split: if_splits)
  let ?cur = "current_destination env el :: 'x admission_error + dest_key"
  obtain r where r: "commit_send version ?cur cancelled exceeded (Some (eligibility.truncate el)) ps clock now sent s
      = Some (r, sent', s')" "pass_of sent' r = Finished (Inr ())"
    using assms flags by (auto simp: send_pass_def)
  then have "r = Inr Admitted" by (simp only: pass_of_admitted)
  from commit_send_admitted [OF r(1) [unfolded this]] obtain d where d: "?cur = Inr d"
    "rp_version s = version" "\<not> cancelled" "\<not> exceeded"
    "permits_send clock (el_target_key el) (el_epoch el) (el_single_attempt el) ps"
    "el_single_attempt el \<longrightarrow> \<not> sent" "sent'" "record_send d now s = Some (Inr (), s')"
    by (auto simp: eligibility.truncate_def)
  have c: "(\<exists>route modality ch. route_admits env el route modality \<and> principal_admits env el route
        \<and> provider_admits env el ch \<and> model_admits env el modality ch)"
      "d = (provider_id (sg_target el), model_id (sg_target el))"
    using d(1) unfolding current_destination_Inr by blast+
  show ?thesis using c(1) d(2-7) flags record_send_admitted [OF d(8)] unfolding c(2) by blast
qed

text \<open>One route with one enabled target, a key without expiry bound to it, a limited destination.\<close>

definition eligible_sample_target :: target_config where
  "eligible_sample_target = \<lparr>tc_id = ''t'', tc_model_id = ''r'', tc_destination = Model ''p'' ''m'', tc_enabled = True,
     tc_priority = 0, tc_first_token_timeout_ms = 0, tc_retry_budget = 0, tc_cooldown_ms = 0,
     tc_created_at = '''', tc_thinking_level_map = [], tc_model_name = None,
     tc_output_modality_mismatch = False, tc_route_output_modalities = []\<rparr>"

definition sample_route :: "unit route_config" where
  "sample_route = \<lparr>rc_id = ''r'', rc_model_id = ''r'', rc_display_name = None,
     rc_output_modality = Some output_modality.Text, rc_image_generation_bound = False,
     rc_default_thinking_level = None, rc_billing = None, rc_balance = '''', rc_is_enabled = True,
     rc_created_at = '''', rc_supported_thinking_levels = [], rc_context_window = None,
     rc_supports_image_input = False, rc_targets = [eligible_sample_target]\<rparr>"

definition sample_key :: api_key where
  "sample_key = \<lparr>ak_id = ''k'', ak_name = ''n'', ak_is_enabled = True, ak_expires_at = None,
     ak_rpm_limit = None, ak_spend_limit_nanos = None, ak_transparent_injection_enabled = False,
     ak_inject_media_understanding = False, ak_inject_web_search = False, ak_inject_media_generation = False\<rparr>"

definition sample_store :: auth_store where
  "sample_store = \<lparr>as_find_api_key = (\<lambda>_. Inr (Some sample_key)), as_find_api_key_by_id = (\<lambda>_. Inr (Some sample_key)),
     as_model_access_allowed = (\<lambda>k r. Inr (r = ''r'')), as_list_bound_model_ids = (\<lambda>_. Inr [])\<rparr>"

definition sample_model :: "unit provider_model" where
  "sample_model = \<lparr>pm_source_kind = Manual, pm_presence = Missing, pm_selection_policy = AutoPolicy,
     pm_metadata = \<lparr>mm_modalities = Some ([''text''], [''text'']), mm_cost = None\<rparr>, pm_status = None,
     pm_capabilities = None\<rparr>"

definition eligible_sample_env :: "(unit, unit, unit) send_env" where
  "eligible_sample_env = \<lparr>sv_routes = [sample_route], sv_auth = Some sample_store,
     sv_calendar = \<lparr>ca_parse_rfc3339 = (\<lambda>_. None), ca_parse_naive = (\<lambda>_. None), ca_now = 0\<rparr>,
     sv_redactor = \<lparr>rd_from_str = (\<lambda>_. None), rd_redact_value = id, rd_to_string = (\<lambda>_. ''''), rd_redact_text = id\<rparr>,
     sv_provider = (\<lambda>_. Inr (Some \<lparr>pr_is_enabled = True, pr_credential_status = ''ok'', pr_vendor = Some ''v'',
        pr_channel = None\<rparr>)),
     sv_find_model = (\<lambda>_ _. Inr (Some sample_model))\<rparr>"

definition sample_eligibility :: send_eligibility where
  "sample_eligibility = \<lparr>el_target_key = ''p:m'', el_epoch = 0, el_single_attempt = False,
     sg_admitted_provider_id = ''v'',
     sg_descriptor = [\<lparr>pd_provider_id = ''v'', pd_channels = [\<lparr>cd_id = ''default'', cd_capabilities = [Infer]\<rparr>]\<rparr>],
     sg_route_id = ''r'', sg_target = Model ''p'' ''m'', sg_principal = ''k'', sg_authorization = RouteBinding,
     sg_capability = Infer, sg_requires_video = False, sg_requires_image = False\<rparr>"

lemmas sample_defs = eligible_sample_target_def sample_route_def sample_key_def sample_store_def sample_model_def
  eligible_sample_env_def sample_eligibility_def

lemma sample_trim: "trim ''v'' = ''v''"
  by code_simp

lemma sample_destination: "current_destination eligible_sample_env sample_eligibility = Inr (''p'', ''m'')"
  by (simp add: sample_defs current_destination_def ok_or_def guard_err_def send_access_def
      authorize_principal_model_def principal_key_def authorize_key_model_def validate_key_state_def
      descriptor_provider_def effective_available_def effective_availability_def
      supports_route_output_modality_def validate_target_capability_def media_supported_def sample_trim)

lemma sample_pass:
  "send_pass False False eligible_sample_env (Some sample_eligibility) key 0 False False initial_state 0 7 False
     (default_rpm_state\<lparr>rp_limits := [(''p'', ''m'') \<mapsto> 1]\<rparr>)
   = Some (Finished (Inr ()), True, default_rpm_state\<lparr>rp_limits := [(''p'', ''m'') \<mapsto> 1],
       rp_windows := [(''p'', ''m'') \<mapsto> [7]]\<rparr>)"
  unfolding send_pass_def commit_send_def option.case sample_destination
  by (simp add: sample_eligibility_def eligibility.truncate_def permits_send_def initial_state_def
      default_rpm_state_def record_send_def next_at_def pass_of_def)

theorem send_only_when_eligible_witness:
  "permits_send 0 ''p:m'' 0 False initial_state \<and> (\<exists>route. principal_admits eligible_sample_env sample_eligibility route)"
  using send_only_when_eligible [OF sample_pass] by (auto simp: sample_eligibility_def)

end
