(* ===== verification/PrincipalAdmission.thy ===== *)
theory PrincipalAdmission
  imports SendWindow GatewayErrors
begin

text \<open>
  The request limit of an API key (\<open>stravia-core/src/admission.rs\<close>): one strict sliding
  window per principal, checked and recorded under one lock. The clock is an argument; each
  operation is one critical section. The limiter contract of \<open>SendWindow\<close> is interpreted
  on it.
\<close>

section \<open>The window of a principal\<close>

definition principal_window_length :: duration where
  "principal_window_length = 60 * 1000000000"

record principal_window =
  pw_limit :: "int option"
  pw_starts :: "instant list"

text \<open>
  \<open>PrincipalWindow::acquire\<close>. The limit is an \<open>i32\<close>; \<open>duration_since\<close> saturates at zero. The
  index is in range: the limit is positive and at most the length.
\<close>

definition window_acquire :: "instant \<Rightarrow> principal_window \<Rightarrow> (gateway_error + unit) \<times> principal_window" where
  "window_acquire now w =
     (case pw_limit w of
        None \<Rightarrow> (Inr (), w)
      | Some limit \<Rightarrow>
          if limit \<le> 0 then (Inl (InternalError ''stored Principal RPM limit must be positive''), w)
          else let starts = dropWhile (\<lambda>start. principal_window_length \<le> now - start) (pw_starts w)
               in if nat limit \<le> length starts
                  then let expires = starts ! (length starts - nat limit) + principal_window_length;
                           remaining = expires - now
                       in (Inl (PrincipalRpmExceeded (ceil_secs remaining)), w\<lparr>pw_starts := starts\<rparr>)
                  else (Inr (), w\<lparr>pw_starts := starts @ [now]\<rparr>))"

section \<open>All principals\<close>

type_synonym principal_windows = "string \<rightharpoonup> principal_window"

definition set_limit :: "string \<Rightarrow> int option \<Rightarrow> principal_windows \<Rightarrow> principal_windows" where
  "set_limit principal_id rpm_limit s =
     (case s principal_id of
        Some w \<Rightarrow>
          let w1 = (if pw_limit w = None \<or> rpm_limit = None then w\<lparr>pw_starts := []\<rparr> else w)
          in s(principal_id \<mapsto> w1\<lparr>pw_limit := rpm_limit\<rparr>)
      | None \<Rightarrow> s(principal_id \<mapsto> \<lparr>pw_limit = rpm_limit, pw_starts = []\<rparr>))"

definition remove_principal :: "string \<Rightarrow> principal_windows \<Rightarrow> principal_windows" where
  "remove_principal principal_id s = s(principal_id := None)"

definition principal_acquire ::
    "instant \<Rightarrow> string \<Rightarrow> int option \<Rightarrow> principal_windows \<Rightarrow> (gateway_error + unit) \<times> principal_windows" where
  "principal_acquire now principal_id rpm_limit s =
     (case s principal_id of
        Some w \<Rightarrow> let (result, w') = window_acquire now w in (result, s(principal_id \<mapsto> w'))
      | None \<Rightarrow>
          if rpm_limit = None then (Inr (), s)
          else let (result, w') = window_acquire now \<lparr>pw_limit = rpm_limit, pw_starts = []\<rparr>
               in (result, s(principal_id \<mapsto> w')))"

section \<open>Runs\<close>

datatype principal_op =
    AcquireRoot string "int option"
  | SetPrincipalLimit string "int option"
  | RemovePrincipal string

text \<open>One timed operation; the admission of \<open>p\<close>, if it is one.\<close>

fun principal_step ::
    "string \<Rightarrow> instant \<times> principal_op \<Rightarrow> principal_windows \<Rightarrow> instant option \<times> principal_windows" where
  "principal_step p (now, AcquireRoot q lim) s =
     (case principal_acquire now q lim s of
        (Inr (), s') \<Rightarrow> (if q = p then Some now else None, s')
      | (Inl _, s') \<Rightarrow> (None, s'))"
| "principal_step p (now, SetPrincipalLimit q lim) s = (None, set_limit q lim s)"
| "principal_step p (now, RemovePrincipal q) s = (None, remove_principal q s)"

text \<open>
  The operations that keep \<open>p\<close> limited to at most \<open>l\<close>: its limit may be changed to any other
  value that is not larger, but it is neither lifted nor is the key removed.
\<close>

fun at_most :: "int \<Rightarrow> int option \<Rightarrow> bool" where
  "at_most l None = False"
| "at_most l (Some k) = (k \<le> l)"

fun principal_limited_to :: "string \<Rightarrow> int \<Rightarrow> instant \<times> principal_op \<Rightarrow> bool" where
  "principal_limited_to p l (now, AcquireRoot q lim) = (q = p \<longrightarrow> at_most l lim)"
| "principal_limited_to p l (now, SetPrincipalLimit q lim) = (q = p \<longrightarrow> at_most l lim)"
| "principal_limited_to p l (now, RemovePrincipal q) = (q \<noteq> p)"

definition principal_sends :: "string \<Rightarrow> principal_windows \<Rightarrow> instant list" where
  "principal_sends p s = (case s p of None \<Rightarrow> [] | Some w \<Rightarrow> pw_starts w)"

definition principal_limited :: "string \<Rightarrow> int \<Rightarrow> principal_windows \<Rightarrow> bool" where
  "principal_limited p l s = (case s p of None \<Rightarrow> True | Some w \<Rightarrow> at_most l (pw_limit w))"

lemma at_mostE: "at_most l lim \<Longrightarrow> (\<And>k. lim = Some k \<Longrightarrow> k \<le> l \<Longrightarrow> thesis) \<Longrightarrow> thesis"
  by (cases lim) auto

section \<open>Laws of one operation\<close>

lemma window_acquire_limit [simp]: "pw_limit (snd (window_acquire now w)) = pw_limit w"
  by (auto simp: window_acquire_def Let_def split: option.splits)

lemma window_acquire_admits:
  assumes "fst (window_acquire now w) = Inr ()" "at_most l (pw_limit w)"
  shows "pw_starts (snd (window_acquire now w)) = recent principal_window_length now (pw_starts w) @ [now]
    \<and> length (recent principal_window_length now (pw_starts w)) < nat l"
  using assms by (auto simp: window_acquire_def recent_def Let_def not_le split: if_splits elim!: at_mostE)

lemma window_acquire_keeps:
  assumes "fst (window_acquire now w) = Inl e"
  shows "pw_starts (snd (window_acquire now w)) = pw_starts w
    \<or> pw_starts (snd (window_acquire now w)) = recent principal_window_length now (pw_starts w)"
  using assms by (auto simp: window_acquire_def recent_def Let_def split: option.splits if_splits)

lemma principal_acquire_other: "q \<noteq> p \<Longrightarrow> snd (principal_acquire now q lim s) p = s p"
  by (auto simp: principal_acquire_def split: option.splits prod.splits)

lemma set_limit_other: "q \<noteq> p \<Longrightarrow> set_limit q lim s p = s p"
  by (auto simp: set_limit_def Let_def split: option.splits)

text \<open>An acquisition of \<open>p\<close> is one of its window, fresh if there was none.\<close>

definition window_for :: "string \<Rightarrow> int option \<Rightarrow> principal_windows \<Rightarrow> principal_window" where
  "window_for p lim s = (case s p of Some w \<Rightarrow> w | None \<Rightarrow> \<lparr>pw_limit = lim, pw_starts = []\<rparr>)"

lemma principal_acquire_own:
  assumes "at_most l lim"
  shows "principal_acquire now p lim s =
    (fst (window_acquire now (window_for p lim s)), s(p \<mapsto> snd (window_acquire now (window_for p lim s))))"
  using assms by (auto simp: principal_acquire_def window_for_def case_prod_beta split: option.splits elim!: at_mostE)

lemma window_for_limit:
  "principal_limited p l s \<Longrightarrow> at_most l lim \<Longrightarrow> at_most l (pw_limit (window_for p lim s))"
  by (auto simp: principal_limited_def window_for_def split: option.splits)

lemma window_for_starts [simp]: "pw_starts (window_for p lim s) = principal_sends p s"
  by (simp add: window_for_def principal_sends_def split: option.splits)

lemma set_limit_own:
  assumes "principal_limited p l s" "at_most l lim"
  shows "principal_sends p (set_limit p lim s) = principal_sends p s \<and> principal_limited p l (set_limit p lim s)"
  using assms by (auto simp: set_limit_def principal_sends_def principal_limited_def Let_def
      split: option.splits elim!: at_mostE)

lemma snd_principal_step_acquire [simp]:
  "snd (principal_step p (now, AcquireRoot q lim) s) = snd (principal_acquire now q lim s)"
  by (auto split: prod.splits sum.splits unit.splits)

lemma fst_principal_step_acquire [simp]:
  "fst (principal_step p (now, AcquireRoot q lim) s)
     = (if q = p \<and> fst (principal_acquire now q lim s) = Inr () then Some now else None)"
  by (auto split: prod.splits sum.splits unit.splits)

declare principal_step.simps(1) [simp del]

lemma principal_step_other:
  assumes "case snd e of AcquireRoot q _ \<Rightarrow> q \<noteq> p | SetPrincipalLimit q _ \<Rightarrow> q \<noteq> p | RemovePrincipal q \<Rightarrow> q \<noteq> p"
  shows "fst (principal_step p e s) = None \<and> snd (principal_step p e s) p = s p"
  using assms
  by (cases "(p, e, s)" rule: principal_step.cases)
     (auto simp: principal_acquire_other set_limit_other remove_principal_def)

lemma principal_step_acquire_own:
  assumes "principal_limited p l s" "at_most l lim"
  shows "principal_limited p l (snd (principal_acquire now p lim s))"
    and "fst (principal_acquire now p lim s) = Inr () \<Longrightarrow>
      principal_sends p (snd (principal_acquire now p lim s))
        = recent principal_window_length now (principal_sends p s) @ [now]
      \<and> length (recent principal_window_length now (principal_sends p s)) < nat l"
    and "fst (principal_acquire now p lim s) \<noteq> Inr () \<Longrightarrow>
      principal_sends p (snd (principal_acquire now p lim s)) = principal_sends p s
      \<or> principal_sends p (snd (principal_acquire now p lim s))
          = recent principal_window_length now (principal_sends p s)"
proof -
  let ?w = "window_for p lim s"
  have own: "principal_acquire now p lim s = (fst (window_acquire now ?w), s(p \<mapsto> snd (window_acquire now ?w)))"
    by (rule principal_acquire_own [OF assms(2)])
  have lim: "at_most l (pw_limit ?w)" by (rule window_for_limit [OF assms])
  have sends: "principal_sends p (s(p \<mapsto> w)) = pw_starts w" for w
    by (simp add: principal_sends_def)
  show "principal_limited p l (snd (principal_acquire now p lim s))"
    using lim by (simp add: own principal_limited_def)
  show "fst (principal_acquire now p lim s) = Inr () \<Longrightarrow>
      principal_sends p (snd (principal_acquire now p lim s))
        = recent principal_window_length now (principal_sends p s) @ [now]
      \<and> length (recent principal_window_length now (principal_sends p s)) < nat l"
    using window_acquire_admits [OF _ lim, of now] by (simp add: sends own)
  show "fst (principal_acquire now p lim s) \<noteq> Inr () \<Longrightarrow>
      principal_sends p (snd (principal_acquire now p lim s)) = principal_sends p s
      \<or> principal_sends p (snd (principal_acquire now p lim s))
          = recent principal_window_length now (principal_sends p s)"
    using window_acquire_keeps [of now ?w] by (cases "fst (window_acquire now ?w)") (simp_all add: sends own)
qed

lemma principal_sends_cong: "s p = s' p \<Longrightarrow> principal_sends p s = principal_sends p s'"
  by (simp add: principal_sends_def)

lemma principal_limited_cong: "s p = s' p \<Longrightarrow> principal_limited p l s = principal_limited p l s'"
  by (simp add: principal_limited_def)

section \<open>The limiter contract\<close>

text \<open>What one step does to the remembered sends of \<open>p\<close>, on every operation.\<close>

lemma principal_step_contract:
  assumes "principal_limited p l s" "principal_limited_to p l e"
  shows "principal_limited p l (snd (principal_step p e s))"
    and "fst (principal_step p e s) = Some t \<Longrightarrow> t = fst e
      \<and> principal_sends p (snd (principal_step p e s)) = recent principal_window_length t (principal_sends p s) @ [t]
      \<and> length (recent principal_window_length t (principal_sends p s)) < nat l"
    and "fst (principal_step p e s) = None \<Longrightarrow>
      principal_sends p (snd (principal_step p e s)) = principal_sends p s
      \<or> principal_sends p (snd (principal_step p e s)) = recent principal_window_length (fst e) (principal_sends p s)"
proof -
  obtain now oper where e: "e = (now, oper)" by (cases e)
  let ?other = "case oper of AcquireRoot q _ \<Rightarrow> q \<noteq> p | SetPrincipalLimit q _ \<Rightarrow> q \<noteq> p | RemovePrincipal q \<Rightarrow> q \<noteq> p"
  have all: "principal_limited p l (snd (principal_step p e s))
    \<and> (fst (principal_step p e s) = Some t \<longrightarrow> t = fst e
      \<and> principal_sends p (snd (principal_step p e s)) = recent principal_window_length t (principal_sends p s) @ [t]
      \<and> length (recent principal_window_length t (principal_sends p s)) < nat l)
    \<and> (fst (principal_step p e s) = None \<longrightarrow>
      principal_sends p (snd (principal_step p e s)) = principal_sends p s
      \<or> principal_sends p (snd (principal_step p e s)) = recent principal_window_length (fst e) (principal_sends p s))"
  proof (cases ?other)
    case True
    then have "fst (principal_step p e s) = None \<and> snd (principal_step p e s) p = s p"
      using principal_step_other [where e = e and p = p and s = s] e by simp
    then show ?thesis
      using assms(1) principal_sends_cong [of "snd (principal_step p e s)" p s]
        principal_limited_cong [of "snd (principal_step p e s)" p s l] by simp
  next
    case False
    show ?thesis
    proof (cases oper)
      case (AcquireRoot q lim)
      with False have q: "q = p" by simp
      have lim: "at_most l lim" using assms(2) AcquireRoot q by (simp add: e)
      show ?thesis using principal_step_acquire_own [OF assms(1) lim, of now]
        unfolding e AcquireRoot q snd_principal_step_acquire fst_principal_step_acquire fst_conv by auto
    next
      case (SetPrincipalLimit q lim)
      then show ?thesis using False assms(2) set_limit_own [OF assms(1), of lim] by (simp add: e)
    next
      case (RemovePrincipal q)
      then show ?thesis using False assms(2) by (simp add: e)
    qed
  qed
  then show "principal_limited p l (snd (principal_step p e s))"
    and "fst (principal_step p e s) = Some t \<Longrightarrow> t = fst e
      \<and> principal_sends p (snd (principal_step p e s)) = recent principal_window_length t (principal_sends p s) @ [t]
      \<and> length (recent principal_window_length t (principal_sends p s)) < nat l"
    and "fst (principal_step p e s) = None \<Longrightarrow>
      principal_sends p (snd (principal_step p e s)) = principal_sends p s
      \<or> principal_sends p (snd (principal_step p e s)) = recent principal_window_length (fst e) (principal_sends p s)"
    by blast+
qed

interpretation principal_limiter:
  send_window "principal_limited p l" "principal_limited_to p l" fst "principal_sends p" "principal_step p" "nat l"
    principal_window_length
  for p l
proof
  show "0 < principal_window_length" by (simp add: principal_window_length_def)
qed (use principal_step_contract in blast)+

section \<open>The limit over a run\<close>



section \<open>When to come back\<close>

text \<open>Whether a later acquisition is admitted depends on one remembered request only.\<close>

lemma window_acquire_later:
  assumes "pw_limit w = Some l" "0 < l" "sorted (pw_starts w)" "nat l \<le> length (pw_starts w)"
  shows "fst (window_acquire now w) = Inr ()
    \<longleftrightarrow> pw_starts w ! (length (pw_starts w) - nat l) + principal_window_length \<le> now"
proof -
  let ?xs = "pw_starts w" and ?i = "length (pw_starts w) - nat l"
  have i: "?i < length ?xs" "length ?xs - ?i = nat l" using assms(2,4) by auto
  have "nat l \<le> length (recent principal_window_length now ?xs)
      \<longleftrightarrow> now < ?xs ! ?i + principal_window_length"
    using recent_longer [OF assms(3) i(1), of principal_window_length now] i(2)
    by (simp add: principal_window_length_def)
  then show ?thesis
    using assms(1,2) by (auto simp: window_acquire_def recent_def Let_def split: if_splits)
qed

lemma window_acquire_refuses:
  assumes "fst (window_acquire now w) = Inl (PrincipalRpmExceeded secs)"
  obtains l where "pw_limit w = Some l" "0 < l"
    and "snd (window_acquire now w) = w\<lparr>pw_starts := recent principal_window_length now (pw_starts w)\<rparr>"
    and "nat l \<le> length (recent principal_window_length now (pw_starts w))"
    and "\<And>k. secs \<le> k \<longleftrightarrow> recent principal_window_length now (pw_starts w)
          ! (length (recent principal_window_length now (pw_starts w)) - nat l)
          + principal_window_length - now \<le> k * 1000000000"
proof (cases "pw_limit w")
  case None
  with assms show thesis by (simp add: window_acquire_def)
next
  case (Some l)
  let ?xs = "recent principal_window_length now (pw_starts w)"
  let ?r = "?xs ! (length ?xs - nat l) + principal_window_length - now"
  have refused: "0 < l \<and> nat l \<le> length ?xs \<and> snd (window_acquire now w) = w\<lparr>pw_starts := ?xs\<rparr>
    \<and> secs = ceil_secs ?r"
    using assms Some unfolding window_acquire_def recent_def
    by (simp add: Let_def split: if_split_asm)
  have "secs \<le> k \<longleftrightarrow> ?r \<le> k * 1000000000" for k
    using refused by (simp only: ceil_secs_le)
  with Some refused show thesis by (intro that) blast+
qed

lemma sorted_recent: "sorted xs \<Longrightarrow> sorted (recent len now xs)"
  by (simp add: recent_def sorted_dropWhile)

lemma recent_nth_bounds:
  assumes "i < length (recent len now xs)" "sorted xs" "\<forall>x \<in> set xs. x \<le> now" "0 < len"
  shows "recent len now xs ! i \<le> now" "now < recent len now xs ! i + len"
proof -
  let ?r = "recent len now xs"
  have "?r ! i \<in> set xs" using assms(1) by (metis nth_mem recent_def set_dropWhileD)
  then show "?r ! i \<le> now" using assms(3) by blast
  have "?r \<noteq> []" using assms(1) by force
  then have hd: "\<not> len \<le> now - hd ?r"
    unfolding recent_def by (rule hd_dropWhile)
  have "hd ?r \<le> ?r ! i"
    using sorted_nth_mono [OF sorted_recent [OF assms(2)], of 0 i len now] assms(1)
    by (cases ?r) simp_all
  with hd show "now < ?r ! i + len" by linarith
qed

text \<open>C34: a refused request is told the exact time to wait: with no other request in
  between, trying again after \<open>k\<close> whole seconds succeeds exactly when \<open>k\<close> is at least the
  advertised number, which lies between one and sixty; the rendered response carries that
  number in its \<open>Retry-After\<close> header.\<close>

theorem retry_after_exact:
  assumes "window_acquire now w = (Inl (PrincipalRpmExceeded secs), w')"
    and "sorted (pw_starts w)" "\<forall>x \<in> set (pw_starts w). x \<le> now"
  shows "(fst (window_acquire (now + k * 1000000000) w') = Inr () \<longleftrightarrow> secs \<le> k)
    \<and> 1 \<le> secs \<and> secs \<le> 60
    \<and> er_retry_after (render from_u16 rd (PrincipalRpmExceeded secs) request_id) = Some (show_nat secs)"
proof -
  let ?xs = "recent principal_window_length now (pw_starts w)"
  obtain l where l: "pw_limit w = Some l" "0 < l" "w' = w\<lparr>pw_starts := ?xs\<rparr>" "nat l \<le> length ?xs"
    and secs: "\<And>k. secs \<le> k \<longleftrightarrow>
      ?xs ! (length ?xs - nat l) + principal_window_length - now \<le> k * 1000000000"
    using window_acquire_refuses [of now w secs] assms(1) by (metis fst_conv snd_conv)
  have "length ?xs - nat l < length ?xs" using l(2,4) by simp
  note bounds = recent_nth_bounds [OF this assms(2,3)]
  have b: "?xs ! (length ?xs - nat l) \<le> now" "now < ?xs ! (length ?xs - nat l) + principal_window_length"
    by (rule bounds; simp add: principal_window_length_def)+
  have "fst (window_acquire (now + k * 1000000000) w') = Inr () \<longleftrightarrow> secs \<le> k"
    using window_acquire_later [of w' l "now + k * 1000000000"] l sorted_recent [OF assms(2)] secs [of k] by auto
  moreover have "1 \<le> secs" using secs [of 0] b(2) by auto
  moreover have "secs \<le> 60" using secs [of 60] b(1) by (simp add: principal_window_length_def)
  ultimately show ?thesis by (simp add: render_def Let_def)
qed

theorem retry_after_exact_witness:
  "fst (window_acquire (500000001 + 60 * 1000000000) \<lparr>pw_limit = Some 1, pw_starts = [1]\<rparr>) = Inr ()
   \<and> fst (window_acquire (500000001 + 59 * 1000000000) \<lparr>pw_limit = Some 1, pw_starts = [1]\<rparr>) \<noteq> Inr ()"
proof -
  let ?w = "\<lparr>pw_limit = Some 1, pw_starts = [1]\<rparr>"
  have w: "window_acquire 500000001 ?w = (Inl (PrincipalRpmExceeded 60), ?w)"
    by (simp add: window_acquire_def principal_window_length_def ceil_secs_def)
  have "sorted (pw_starts ?w)" "\<forall>x \<in> set (pw_starts ?w). x \<le> 500000001" by simp_all
  note exact = retry_after_exact [OF w this, THEN conjunct1]
  show ?thesis using exact [of 60] exact [of 59] by (simp only: simp_thms) simp
qed

end
