(* ===== verification/Identifier.thy ===== *)
theory Identifier
  imports Prelude
begin

text \<open>
  Opaque identifiers (\<open>stravia-runtime-contract/src/identifier.rs\<close>): their alphabet and
  lengths, and the encoding of a 256-bit digest as fifty-five letters. The random letters of
  a new identifier are arguments.
\<close>

section \<open>Identifiers\<close>

definition id_len :: nat where
  "id_len = 28"

definition digest_id_len :: nat where
  "digest_id_len = 55"

text \<open>\<open>u8::is_ascii_lowercase\<close>, on the bytes of a string.\<close>

definition is_ascii_lowercase :: "char \<Rightarrow> bool" where
  "is_ascii_lowercase c = (97 \<le> (of_char c :: nat) \<and> (of_char c :: nat) \<le> 122)"

definition valid_id :: "string \<Rightarrow> bool" where
  "valid_id i = (length i = id_len \<and> list_all is_ascii_lowercase i)"

definition valid_digest_id :: "string \<Rightarrow> bool" where
  "valid_digest_id i = (length i = digest_id_len \<and> list_all is_ascii_lowercase i)"

text \<open>\<open>samples\<close> are the draws of \<open>Uniform::new_inclusive(b'a', b'z')\<close>.\<close>

definition new_id :: "(nat \<Rightarrow> u8) \<Rightarrow> string" where
  "new_id samples = map (\<lambda>i. char_of (unat (samples i))) [0..<id_len]"

section \<open>Encoding a digest\<close>

text \<open>
  One pass of the inner loop: the bytes are divided by twenty-six in place, the most
  significant first; the result is the remainder and the quotient's bytes.
\<close>

fun div26 :: "u16 \<Rightarrow> u8 list \<Rightarrow> u16 \<times> u8 list" where
  "div26 remainder [] = (remainder, [])"
| "div26 remainder (byte # bytes) =
     (let dividend = push_bit 8 remainder OR ucast byte;
          (r, quotient) = div26 (dividend mod 26) bytes
      in (r, ucast (dividend div 26) # quotient))"

text \<open>\<open>while first < value.len() \&\& value[first] == 0 { first += 1 }\<close>.\<close>

definition skip_zeros :: "nat \<Rightarrow> u8 list \<Rightarrow> nat" where
  "skip_zeros first bytes = first + length (takeWhile (\<lambda>b. b = 0) (drop first bytes))"

text \<open>The loop over the digits, from the last one; the digits are listed in that order.\<close>

fun encode_digits :: "u8 list \<Rightarrow> nat \<Rightarrow> u8 list \<Rightarrow> u8 list" where
  "encode_digits [] first bytes = []"
| "encode_digits (digit # digits) first bytes =
     (let (remainder, quotient) = div26 0 (drop first bytes);
          bytes' = take first bytes @ quotient;
          first' = skip_zeros first bytes'
      in (digit + ucast remainder)
         # (if first' = length bytes' then digits else encode_digits digits first' bytes'))"

text \<open>\<open>String::from_utf8\<close> of ASCII bytes; \<open>None\<close> is the panic of \<open>expect\<close>.\<close>

definition from_ascii :: "u8 list \<Rightarrow> string option" where
  "from_ascii bytes = (if list_all (\<lambda>b. b < 0x80) bytes then Some (map (\<lambda>b. char_of (unat b)) bytes) else None)"

definition encode_digest :: "u8 list \<Rightarrow> string option" where
  "encode_digest digest = from_ascii (rev (encode_digits (replicate digest_id_len 97) 0 digest))"

section \<open>Positional values\<close>

text \<open>The number a big-endian byte sequence stands for, and the number a base-26 word stands for.\<close>

fun be_value :: "u8 list \<Rightarrow> nat" where
  "be_value [] = 0"
| "be_value (b # bs) = unat b * 256 ^ length bs + be_value bs"

fun le_digits_value :: "u8 list \<Rightarrow> nat" where
  "le_digits_value [] = 0"
| "le_digits_value (d # ds) = (unat d - 97) + 26 * le_digits_value ds"

definition base26_value :: "string \<Rightarrow> nat" where
  "base26_value s = foldl (\<lambda>a c. 26 * a + (of_char c - 97)) 0 s"

lemma be_value_bound: "be_value bs < 256 ^ length bs"
proof (induction bs)
  case (Cons b bs)
  let ?p = "256 ^ length bs :: nat"
  have "Suc (unat b) * ?p \<le> 256 * ?p" using unat_lt256 [of b] by (intro mult_right_mono) simp_all
  moreover have "unat b * ?p + be_value bs < Suc (unat b) * ?p" using Cons by simp
  ultimately have "unat b * ?p + be_value bs < 256 * ?p" by (rule order_less_le_trans [rotated])
  then show ?case by (simp only: be_value.simps length_Cons power_Suc)
qed simp

lemma be_value_append: "be_value (xs @ ys) = be_value xs * 256 ^ length ys + be_value ys"
  by (induction xs) (simp_all add: power_add algebra_simps)

lemma be_value_zeros: "list_all (\<lambda>b. b = 0) bs \<Longrightarrow> be_value bs = 0"
  by (induction bs) simp_all

lemma be_value_inj: "length xs = length ys \<Longrightarrow> be_value xs = be_value ys \<longleftrightarrow> xs = ys"
proof (induction xs ys rule: list_induct2)
  case (Cons x xs y ys)
  have "x = y \<and> be_value xs = be_value ys" if "be_value (x # xs) = be_value (y # ys)"
  proof -
    let ?p = "256 ^ length ys :: nat"
    have p: "0 < ?p" by simp
    have lt: "be_value xs < ?p" "be_value ys < ?p"
      using be_value_bound [of xs] be_value_bound [of ys] Cons.hyps by simp_all
    have eq: "unat x * ?p + be_value xs = unat y * ?p + be_value ys" using that Cons.hyps by simp
    have "(unat x * ?p + be_value xs) div ?p = unat x" "(unat y * ?p + be_value ys) div ?p = unat y"
      using lt by simp_all
    with eq have x: "unat x = unat y" by metis
    with eq have "be_value xs = be_value ys" by simp
    with x show ?thesis using unsigned_word_eqI by blast
  qed
  with Cons.IH show ?case by auto
qed simp

lemma base26_value_rev:
  "base26_value (rev (map (\<lambda>b. char_of (unat (b::u8))) ds)) = le_digits_value ds"
proof (induction ds)
  case (Cons d ds)
  have "(of_char (char_of (unat d)) :: nat) = unat d"
    using unat_lt256 [of d] by simp
  with Cons show ?case by (simp add: base26_value_def)
qed (simp add: base26_value_def)

section \<open>Division and the digits\<close>

lemma dividend_value:
  assumes "unat (r::u16) < 26"
  shows "unat (push_bit 8 r OR ucast (b::u8) :: u16) = unat r * 256 + unat b"
proof -
  have b: "unat b < 2 ^ 8" using unat_lt256 [of b] by simp
  have "push_bit 8 (unat r) OR unat b = push_bit 8 (unat r) + unat b"
  proof (rule disjunctive_add_eq_or [symmetric], rule bit_eqI)
    fix n
    have "\<not> bit (unat b) n" if "8 \<le> n"
      using b that by (metis bit_take_bit_iff not_less take_bit_nat_eq_self)
    then show "bit (push_bit 8 (unat r) AND unat b) n = bit (0::nat) n"
      by (cases "8 \<le> n") (auto simp: bit_simps)
  qed
  moreover have "unat (push_bit 8 r) = push_bit 8 (unat r)"
    by (subst unsigned_push_bit_eq) (use assms in \<open>simp add: push_bit_eq_mult take_bit_eq_mod\<close>)
  moreover have "unat (ucast b :: u16) = unat b" by (simp add: unsigned_ucast_eq take_bit_eq_mod order_less_trans [OF b])
  ultimately show ?thesis by (simp add: unsigned_or_eq push_bit_eq_mult)
qed

lemma div26_correct:
  assumes "unat r < 26" "div26 r bs = (r', qs)"
  shows "length qs = length bs \<and> unat r' < 26
    \<and> unat r * 256 ^ length bs + be_value bs = 26 * be_value qs + unat r'"
  using assms
proof (induction bs arbitrary: r qs)
  case Nil
  then show ?case by simp
next
  case (Cons b bs)
  let ?d = "push_bit 8 r OR ucast b :: u16"
  have d: "unat ?d = unat r * 256 + unat b" by (rule dividend_value [OF Cons.prems(1)])
  have b: "unat b < 256" using unat_lt256 [of b] by simp
  obtain qs' where rec: "div26 (?d mod 26) bs = (r', qs')" and qs: "qs = ucast (?d div 26) # qs'"
    using Cons.prems(2) by (auto simp: Let_def split: prod.splits)
  have m: "unat (?d mod 26) = unat ?d mod 26" by (simp add: unat_mod_distrib)
  have q: "unat (ucast (?d div 26) :: u8) = unat ?d div 26"
  proof -
    have "unat ?d div 26 < 256" using d b Cons.prems(1) by simp
    then show ?thesis by (simp add: unsigned_ucast_eq unat_div_distrib take_bit_eq_mod)
  qed
  have IH: "length qs' = length bs \<and> unat r' < 26
      \<and> unat ?d mod 26 * 256 ^ length bs + be_value bs = 26 * be_value qs' + unat r'"
    using Cons.IH [OF _ rec] m by simp
  have "(unat r * 256 + unat b) * 256 ^ length bs = unat ?d * 256 ^ length bs" by (simp add: d)
  also have "\<dots> = (26 * (unat ?d div 26) + unat ?d mod 26) * 256 ^ length bs" by simp
  also have "\<dots> + be_value bs
      = 26 * (unat ?d div 26 * 256 ^ length bs + be_value qs') + unat r'"
    using IH by (simp only: add_mult_distrib add_mult_distrib2 mult.assoc) simp
  finally show ?case using IH q by (simp add: qs add_mult_distrib)
qed

lemma skip_zeros_props:
  assumes "first \<le> length bytes" "list_all (\<lambda>b. b = 0) (take first bytes)"
  shows "skip_zeros first bytes \<le> length bytes"
    and "list_all (\<lambda>b. b = 0) (take (skip_zeros first bytes) bytes)"
proof -
  let ?z = "takeWhile (\<lambda>b. b = 0) (drop first bytes)"
  have "length ?z \<le> length (drop first bytes)" by (rule length_takeWhile_le)
  then show "skip_zeros first bytes \<le> length bytes" using assms(1) by (simp add: skip_zeros_def)
  have "take (skip_zeros first bytes) bytes = take first bytes @ ?z"
    using assms(1) by (simp add: skip_zeros_def take_add takeWhile_eq_take [symmetric])
  moreover have "list_all (\<lambda>b. b = 0) ?z" by (auto simp: list_all_iff dest: set_takeWhileD)
  ultimately show "list_all (\<lambda>b. b = 0) (take (skip_zeros first bytes) bytes)" using assms(2) by simp
qed

lemma be_value_drop_zeros:
  assumes "first \<le> length bytes" "list_all (\<lambda>b. b = 0) (take first bytes)"
  shows "be_value (drop first bytes) = be_value bytes"
  using be_value_append [of "take first bytes" "drop first bytes"] be_value_zeros [OF assms(2)] by simp

text \<open>The digits written stand for the number that is left, if there are enough of them.\<close>

lemma replicate_digits_value: "le_digits_value (replicate n 97) = 0"
  by (induction n) simp_all

lemma encode_digits_correct:
  assumes "first \<le> length bytes" "list_all (\<lambda>b. b = 0) (take first bytes)" "be_value bytes < 26 ^ n"
  shows "length (encode_digits (replicate n 97) first bytes) = n
    \<and> list_all (\<lambda>d. 97 \<le> unat d \<and> unat d \<le> 122) (encode_digits (replicate n 97) first bytes)
    \<and> le_digits_value (encode_digits (replicate n 97) first bytes) = be_value bytes"
  using assms
proof (induction n arbitrary: first bytes)
  case 0
  then show ?case by simp
next
  case (Suc n)
  obtain r qs where d: "div26 0 (drop first bytes) = (r, qs)" by (cases "div26 0 (drop first bytes)")
  let ?v = "take first bytes @ qs" and ?f = "skip_zeros first (take first bytes @ qs)"
  have c: "length qs = length bytes - first" "unat r < 26" "be_value (drop first bytes) = 26 * be_value qs + unat r"
    using div26_correct [OF _ d] by simp_all
  have len: "length ?v = length bytes" using c(1) Suc.prems(1) by simp
  have zeros: "first \<le> length ?v" "list_all (\<lambda>b. b = 0) (take first ?v)"
    using Suc.prems(1,2) len by simp_all
  have v: "be_value ?v = be_value qs"
    by (simp add: be_value_append be_value_zeros [OF Suc.prems(2)])
  have left: "be_value bytes = 26 * be_value ?v + unat r"
    using be_value_drop_zeros [OF Suc.prems(1,2)] c(3) v by simp
  then have bound: "be_value ?v < 26 ^ n" using Suc.prems(3) by simp
  have digit: "unat (97 + ucast r :: u8) = 97 + unat r"
  proof -
    have "unat (ucast r :: u8) = unat r" using c(2) by (simp add: unsigned_ucast_eq take_bit_eq_mod)
    then show ?thesis using c(2) by (simp add: unat_word_ariths(1))
  qed
  note skip = skip_zeros_props [OF zeros]
  have IH: "length (encode_digits (replicate n 97) ?f ?v) = n
    \<and> list_all (\<lambda>d. 97 \<le> unat d \<and> unat d \<le> 122) (encode_digits (replicate n 97) ?f ?v)
    \<and> le_digits_value (encode_digits (replicate n 97) ?f ?v) = be_value ?v"
    by (rule Suc.IH [OF skip bound])
  let ?rest = "if ?f = length ?v then replicate n 97 else encode_digits (replicate n 97) ?f ?v"
  have all_zero: "be_value ?v = 0" if "?f = length ?v"
    using be_value_zeros skip(2) unfolding that take_all_iff [THEN iffD2, OF order_refl] by blast
  have rest: "length ?rest = n \<and> list_all (\<lambda>d. 97 \<le> unat d \<and> unat d \<le> 122) ?rest
    \<and> le_digits_value ?rest = be_value ?v"
    using IH all_zero by (simp add: replicate_digits_value list_all_iff)
  have "encode_digits (replicate (Suc n) 97) first bytes = (97 + ucast r) # ?rest"
    using d by (simp add: Let_def)
  then show ?case using rest digit c(2) left by simp
qed

section \<open>Properties\<close>

lemma digest_fits: "(256::nat) ^ 32 \<le> 26 ^ 55"
  by simp

lemma encode_digest_value:
  assumes "length digest = 32"
  obtains s where "encode_digest digest = Some s" "valid_digest_id s" "base26_value s = be_value digest"
proof -
  let ?ds = "encode_digits (replicate digest_id_len 97) 0 digest"
  have "be_value digest < 26 ^ digest_id_len"
    using be_value_bound [of digest] digest_fits assms by (simp add: digest_id_len_def)
  then have ds: "length ?ds = digest_id_len" "list_all (\<lambda>d. 97 \<le> unat d \<and> unat d \<le> 122) ?ds"
      "le_digits_value ?ds = be_value digest"
    using encode_digits_correct [of 0 digest digest_id_len] by simp_all
  let ?s = "rev (map (\<lambda>b. char_of (unat b)) ?ds)"
  have ascii: "list_all (\<lambda>b. b < 0x80) (rev ?ds)"
    using ds(2) by (auto simp: list_all_iff word_less_nat_alt)
  have "encode_digest digest = Some ?s"
    unfolding encode_digest_def from_ascii_def using ascii by (simp only: if_True rev_map)
  moreover have "valid_digest_id ?s"
    using ds(1,2) by (auto simp: valid_digest_id_def list_all_iff is_ascii_lowercase_def)
  moreover have "base26_value ?s = be_value digest" using ds(3) by (simp only: base26_value_rev)
  ultimately show thesis by (rule that)
qed

text \<open>C33: encoding a digest of thirty-two bytes never panics and loses nothing: the
  fifty-five letters are a valid digest identifier, read as a number in base twenty-six they
  are the digest read as a big-endian number, and so two digests have the same identifier
  only if they are equal.\<close>

theorem encode_digest_lossless:
  assumes "length digest = 32" "length other = 32"
  shows "\<exists>s. encode_digest digest = Some s \<and> valid_digest_id s \<and> base26_value s = be_value digest
    \<and> (encode_digest other = Some s \<longleftrightarrow> other = digest)"
proof -
  obtain s where s: "encode_digest digest = Some s" "valid_digest_id s" "base26_value s = be_value digest"
    using encode_digest_value [OF assms(1)] by blast
  obtain t where t: "encode_digest other = Some t" "base26_value t = be_value other"
    using encode_digest_value [OF assms(2)] by blast
  have "encode_digest other = Some s \<longleftrightarrow> other = digest"
    using s t be_value_inj [of other digest] assms by auto
  with s show ?thesis by blast
qed

text \<open>The digest of thirty-two zero bytes is fifty-five times the letter a, and no other digest is.\<close>

theorem encode_digest_lossless_witness:
  "\<exists>s. encode_digest (replicate 32 0) = Some s \<and> valid_digest_id s \<and> base26_value s = 0
    \<and> encode_digest (replicate 31 0 @ [1]) \<noteq> Some s"
proof -
  have z: "be_value (replicate 32 0) = 0" by (rule be_value_zeros) (simp add: list_all_iff)
  have ne: "replicate 31 0 @ [1] \<noteq> replicate 32 (0::u8)" by (simp add: numeral_eq_Suc)
  show ?thesis
    using encode_digest_lossless [of "replicate 32 0" "replicate 31 0 @ [1]"] z ne by auto
qed

end
