(* ===== verification/CancellationToken.thy ===== *)
theory CancellationToken
  imports Prelude
begin

text \<open>
  Cancellation tokens (\<open>stravia-runtime-contract/src/cancellation.rs\<close>): a tree of flags in
  which cancelling a parent reaches its children. The operations run concurrently; each
  atomic access of the source (the swap of the flag, taking and releasing the mutex of the
  children, a load of the flag, \<open>notify_waiters\<close>) is one step, and a thread is the stack of
  the calls it is in. Tokens are numbered in the order of their creation.
\<close>

section \<open>State\<close>

text \<open>
  The flags are kept as the log of the swaps that set them, with the thread that did; a flag
  is set when its token occurs. \<open>tk_alive\<close> are the tokens with a strong reference, the
  children are weak references, a mutex is its owner, and \<open>tk_notified\<close> counts the calls of
  \<open>notify_waiters\<close>.
\<close>

record token_state =
  tk_next :: nat
  tk_alive :: "nat set"
  tk_log :: "(nat \<times> nat) list"
  tk_children :: "nat \<Rightarrow> nat list"
  tk_lock :: "nat \<Rightarrow> nat option"
  tk_notified :: "nat \<Rightarrow> nat"

definition is_cancelled :: "token_state \<Rightarrow> nat \<Rightarrow> bool" where
  "is_cancelled s x = (x \<in> fst ` set (tk_log s))"

section \<open>Calls\<close>

text \<open>
  Where a call of \<open>cancel\<close> or \<open>cancel_with\<close> is. The guard of the children lives as long as
  the loop that drains them, and in \<open>cancel_with\<close> until the end of the call.
\<close>

datatype frame =
    Cancel nat
  | Wake nat
  | LockDrain nat
  | Draining nat "nat list"
  | CancelWith nat nat
  | Check nat nat
  | Register nat nat
  | Unlock nat

text \<open>One step of thread \<open>t\<close> in frame \<open>f\<close>: the frames that replace it, \<open>None\<close> if it must wait.\<close>

fun exec_top :: "nat \<Rightarrow> frame \<Rightarrow> token_state \<Rightarrow> (frame list \<times> token_state) option" where
  "exec_top t (Cancel x) s =
     Some (if is_cancelled s x then ([], s) else ([Wake x], s\<lparr>tk_log := tk_log s @ [(x, t)]\<rparr>))"
| "exec_top t (Wake x) s =
     Some ([LockDrain x], s\<lparr>tk_notified := (tk_notified s)(x := Suc (tk_notified s x))\<rparr>)"
| "exec_top t (LockDrain x) s =
     (if tk_lock s x \<noteq> None then None
      else Some ([Draining x (tk_children s x)],
                 s\<lparr>tk_lock := (tk_lock s)(x := Some t), tk_children := (tk_children s)(x := [])\<rparr>))"
| "exec_top t (Draining x []) s = Some ([], s\<lparr>tk_lock := (tk_lock s)(x := None)\<rparr>)"
| "exec_top t (Draining x (c # cs)) s =
     Some (if c \<in> tk_alive s then [Cancel c, Draining x cs] else [Draining x cs], s)"
| "exec_top t (CancelWith c p) s =
     (if c = p then Some ([], s)
      else if tk_lock s p \<noteq> None then None
      else Some ([Check c p], s\<lparr>tk_lock := (tk_lock s)(p := Some t)\<rparr>))"
| "exec_top t (Check c p) s = Some (if is_cancelled s p then [Cancel c, Unlock p] else [Register c p], s)"
| "exec_top t (Register c p) s =
     (let kept = filter (\<lambda>x. x \<in> tk_alive s) (tk_children s p)
      in Some ([], s\<lparr>tk_children := (tk_children s)(p := if c \<in> set kept then kept else kept @ [c]),
                     tk_lock := (tk_lock s)(p := None)\<rparr>))"
| "exec_top t (Unlock p) s = Some ([], s\<lparr>tk_lock := (tk_lock s)(p := None)\<rparr>)"

text \<open>The strong references a frame keeps.\<close>

fun strong :: "frame \<Rightarrow> nat set" where
  "strong (Cancel x) = {x}"
| "strong (Wake x) = {x}"
| "strong (LockDrain x) = {x}"
| "strong (Draining x _) = {x}"
| "strong (CancelWith c p) = {c, p}"
| "strong (Check c p) = {c, p}"
| "strong (Register c p) = {c, p}"
| "strong (Unlock p) = {p}"

section \<open>Waiting for a cancellation\<close>

text \<open>
  \<open>cancelled().await\<close>: a \<open>Notified\<close> future is created, the flag is read, and the future is
  awaited; \<open>notify_waiters\<close> completes the futures created before it.
\<close>

datatype waiter = NotWaiting | Registered nat nat | Parked nat nat | Returned nat

fun waiter_step :: "token_state \<Rightarrow> waiter \<Rightarrow> waiter option" where
  "waiter_step s NotWaiting = None"
| "waiter_step s (Registered x n) = Some (if is_cancelled s x then Returned x else Parked x n)"
| "waiter_step s (Parked x n) =
     (if n < tk_notified s x
      then Some (if is_cancelled s x then Returned x else Registered x (tk_notified s x)) else None)"
| "waiter_step s (Returned x) = None"

section \<open>The system\<close>

text \<open>
  The threads and the waiting tasks over the shared tokens; \<open>cc_links\<close> and \<open>cc_requested\<close>
  record which \<open>cancel_with\<close> and \<open>cancel\<close> calls clients have made.
\<close>

record cancel_config =
  cc_tokens :: token_state
  cc_threads :: "frame list list"
  cc_waiters :: "nat \<Rightarrow> waiter"
  cc_links :: "(nat \<times> nat) set"
  cc_requested :: "nat set"

definition call :: "nat \<Rightarrow> frame \<Rightarrow> cancel_config \<Rightarrow> cancel_config" where
  "call t f c = c\<lparr>cc_threads := (cc_threads c)[t := [f]]\<rparr>"

definition run_thread :: "nat \<Rightarrow> cancel_config \<Rightarrow> cancel_config option" where
  "run_thread t c =
     (case cc_threads c ! t of
        [] \<Rightarrow> None
      | f # fs \<Rightarrow>
          map_option (\<lambda>(new, s'). c\<lparr>cc_tokens := s', cc_threads := (cc_threads c)[t := new @ fs]\<rparr>)
            (exec_top t f (cc_tokens c)))"

definition new_token :: "cancel_config \<Rightarrow> cancel_config" where
  "new_token c =
     c\<lparr>cc_tokens := (cc_tokens c)\<lparr>tk_next := Suc (tk_next (cc_tokens c)),
          tk_alive := insert (tk_next (cc_tokens c)) (tk_alive (cc_tokens c))\<rparr>\<rparr>"

definition all_frames :: "cancel_config \<Rightarrow> frame set" where
  "all_frames c = (\<Union>st \<in> set (cc_threads c). set st)"

inductive cancel_step :: "cancel_config \<Rightarrow> cancel_config \<Rightarrow> bool" where
  run: "t < length (cc_threads c) \<Longrightarrow> run_thread t c = Some c' \<Longrightarrow> cancel_step c c'"
| cancel_call: "t < length (cc_threads c) \<Longrightarrow> cc_threads c ! t = [] \<Longrightarrow> x \<in> tk_alive (cc_tokens c) \<Longrightarrow>
    cancel_step c ((call t (Cancel x) c)\<lparr>cc_requested := insert x (cc_requested c)\<rparr>)"
| cancel_with_call: "t < length (cc_threads c) \<Longrightarrow> cc_threads c ! t = [] \<Longrightarrow>
    x \<in> tk_alive (cc_tokens c) \<Longrightarrow> p \<in> tk_alive (cc_tokens c) \<Longrightarrow>
    cancel_step c ((call t (CancelWith x p) c)
      \<lparr>cc_links := (if x = p then cc_links c else insert (p, x) (cc_links c))\<rparr>)"
| create: "cancel_step c (new_token c)"
| drop: "x \<notin> \<Union> (strong ` all_frames c) \<Longrightarrow>
    cancel_step c (c\<lparr>cc_tokens := (cc_tokens c)\<lparr>tk_alive := tk_alive (cc_tokens c) - {x}\<rparr>\<rparr>)"
| wait_begin: "cancel_step c (c\<lparr>cc_waiters := (cc_waiters c)(w := Registered x (tk_notified (cc_tokens c) x))\<rparr>)"
| wait_step: "waiter_step (cc_tokens c) (cc_waiters c w) = Some v \<Longrightarrow>
    cancel_step c (c\<lparr>cc_waiters := (cc_waiters c)(w := v)\<rparr>)"

text \<open>\<open>n\<close> threads, no tokens.\<close>

definition initial_cancel :: "nat \<Rightarrow> cancel_config" where
  "initial_cancel n =
     \<lparr>cc_tokens = \<lparr>tk_next = 0, tk_alive = {}, tk_log = [], tk_children = (\<lambda>_. []),
        tk_lock = (\<lambda>_. None), tk_notified = (\<lambda>_. 0)\<rparr>,
      cc_threads = replicate n [], cc_waiters = (\<lambda>_. NotWaiting), cc_links = {}, cc_requested = {}\<rparr>"

definition reachable_cancel :: "nat \<Rightarrow> cancel_config \<Rightarrow> bool" where
  "reachable_cancel n c = cancel_step\<^sup>*\<^sup>* (initial_cancel n) c"

text \<open>\<open>child_token\<close> is a new token followed by \<open>cancel_with\<close>.\<close>

definition child_token :: "nat \<Rightarrow> nat \<Rightarrow> cancel_config \<Rightarrow> cancel_config" where
  "child_token t p c =
     (let x = tk_next (cc_tokens c); c1 = new_token c
      in (call t (CancelWith x p) c1)\<lparr>cc_links := (if x = p then cc_links c1 else insert (p, x) (cc_links c1))\<rparr>)"

inductive_cases cancel_stepE: "cancel_step c c'"

section \<open>Where a registered child is\<close>

text \<open>
  The invariants that do not depend on which thread a frame belongs to, over the set of all
  frames. First the registrations, and that cancellation stays within them.
\<close>

definition link_inv :: "frame set \<Rightarrow> token_state \<Rightarrow> (nat \<times> nat) set \<Rightarrow> bool" where
  "link_inv F s L \<longleftrightarrow>
     (\<forall>x. (x, x) \<notin> L)
     \<and> (\<forall>p c. c \<in> set (tk_children s p) \<longrightarrow> (p, c) \<in> L)
     \<and> (\<forall>p l c. Draining p l \<in> F \<longrightarrow> c \<in> set l \<longrightarrow> (p, c) \<in> L)
     \<and> (\<forall>c p. CancelWith c p \<in> F \<longrightarrow> c \<noteq> p \<longrightarrow> (p, c) \<in> L)
     \<and> (\<forall>c p. Check c p \<in> F \<or> Register c p \<in> F \<longrightarrow> (p, c) \<in> L)"

definition flag_inv :: "frame set \<Rightarrow> token_state \<Rightarrow> bool" where
  "flag_inv F s \<longleftrightarrow>
     (\<forall>x. Wake x \<in> F \<or> LockDrain x \<in> F \<or> (\<exists>l. Draining x l \<in> F) \<or> Unlock x \<in> F \<longrightarrow> is_cancelled s x)"

definition isolated :: "frame set \<Rightarrow> token_state \<Rightarrow> (nat \<times> nat) set \<Rightarrow> nat set \<Rightarrow> bool" where
  "isolated F s L R \<longleftrightarrow> (\<forall>x. is_cancelled s x \<or> Cancel x \<in> F \<longrightarrow> x \<in> L\<^sup>* `` R)"

text \<open>
  Then what makes the cancellation arrive: a child of a cancelled token that is still
  referenced is cancelled, or some thread has it ahead of it.
\<close>

definition register_inv :: "frame set \<Rightarrow> token_state \<Rightarrow> bool" where
  "register_inv F s \<longleftrightarrow>
     (\<forall>c p. Register c p \<in> F \<longrightarrow> \<not> is_cancelled s p \<or> Wake p \<in> F \<or> LockDrain p \<in> F)"

definition ahead :: "frame set \<Rightarrow> nat \<Rightarrow> nat \<Rightarrow> bool" where
  "ahead F p c \<longleftrightarrow> CancelWith c p \<in> F \<or> Check c p \<in> F \<or> Register c p \<in> F \<or> Cancel c \<in> F
     \<or> (\<exists>l. Draining p l \<in> F \<and> c \<in> set l)"

definition child_kept :: "frame set \<Rightarrow> token_state \<Rightarrow> nat \<Rightarrow> nat \<Rightarrow> bool" where
  "child_kept F s p c \<longleftrightarrow>
     c \<in> set (tk_children s p) \<and> (is_cancelled s p \<longrightarrow> Wake p \<in> F \<or> LockDrain p \<in> F)"

definition propagates :: "frame set \<Rightarrow> token_state \<Rightarrow> (nat \<times> nat) set \<Rightarrow> bool" where
  "propagates F s L \<longleftrightarrow>
     (\<forall>p c. (p, c) \<in> L \<longrightarrow> c \<in> tk_alive s \<longrightarrow> is_cancelled s c \<or> ahead F p c \<or> child_kept F s p c)"

definition requests_done :: "frame set \<Rightarrow> token_state \<Rightarrow> nat set \<Rightarrow> bool" where
  "requests_done F s R \<longleftrightarrow> (\<forall>r \<in> R. is_cancelled s r \<or> Cancel r \<in> F)"

text \<open>A parked task whose token is cancelled has been notified, or will be.\<close>

definition waiter_inv :: "frame set \<Rightarrow> token_state \<Rightarrow> (nat \<Rightarrow> waiter) \<Rightarrow> bool" where
  "waiter_inv F s W \<longleftrightarrow>
     (\<forall>w x n. W w = Registered x n \<or> W w = Parked x n \<longrightarrow> n \<le> tk_notified s x)
     \<and> (\<forall>w x n. W w = Parked x n \<longrightarrow> is_cancelled s x \<longrightarrow> n < tk_notified s x \<or> Wake x \<in> F)"

text \<open>What replacing one frame does to the set of all frames.\<close>

definition replaces :: "frame set \<Rightarrow> frame \<Rightarrow> frame list \<Rightarrow> frame set \<Rightarrow> bool" where
  "replaces F f new F' \<longleftrightarrow> f \<in> F \<and> F - {f} \<subseteq> F' \<and> set new \<subseteq> F' \<and> F' \<subseteq> F \<union> set new"

lemma replacesD:
  assumes "replaces F f new F'"
  shows "f \<in> F" "g \<in> set new \<Longrightarrow> g \<in> F'" "g \<in> F' \<Longrightarrow> g \<in> F \<or> g \<in> set new" "g \<in> F \<Longrightarrow> g \<noteq> f \<Longrightarrow> g \<in> F'"
  using assms by (auto simp: replaces_def)

lemma exec_log: "exec_top t f s = Some (new, s') \<Longrightarrow>
    (\<exists>x. f = Cancel x \<and> \<not> is_cancelled s x \<and> tk_log s' = tk_log s @ [(x, t)]) \<or> tk_log s' = tk_log s"
  by (cases "(t, f, s)" rule: exec_top.cases) (auto simp: Let_def split: if_splits)

lemma exec_cancelled_mono: "exec_top t f s = Some (new, s') \<Longrightarrow> is_cancelled s x \<Longrightarrow> is_cancelled s' x"
  by (drule exec_log) (auto simp: is_cancelled_def)

lemma exec_cancelled: "exec_top t f s = Some (new, s') \<Longrightarrow>
    is_cancelled s' x \<longleftrightarrow> is_cancelled s x \<or> f = Cancel x"
  by (cases "(t, f, s)" rule: exec_top.cases) (auto simp: is_cancelled_def Let_def split: if_splits)

lemma exec_alive: "exec_top t f s = Some (new, s') \<Longrightarrow> tk_alive s' = tk_alive s \<and> tk_next s' = tk_next s"
  by (cases "(t, f, s)" rule: exec_top.cases) (auto simp: Let_def split: if_splits)

text \<open>The frames that can appear, and the one that appears for each.\<close>

lemma exec_new_frames:
  assumes "exec_top t f s = Some (new, s')"
  shows "Cancel x \<in> set new \<Longrightarrow> (\<exists>p l. f = Draining p (x # l)) \<or> (\<exists>p. f = Check x p \<and> is_cancelled s p)"
    and "Wake x \<in> set new \<Longrightarrow> f = Cancel x"
    and "LockDrain x \<in> set new \<Longrightarrow> f = Wake x"
    and "Draining x l \<in> set new \<Longrightarrow>
      f = LockDrain x \<and> l = tk_children s x \<or> (\<exists>c. f = Draining x (c # l))"
    and "CancelWith c p \<notin> set new"
    and "Check c p \<in> set new \<Longrightarrow> f = CancelWith c p \<and> c \<noteq> p"
    and "Register c p \<in> set new \<Longrightarrow> f = Check c p \<and> \<not> is_cancelled s p"
    and "Unlock p \<in> set new \<Longrightarrow> \<exists>c. f = Check c p \<and> is_cancelled s p"
  using assms by (cases "(t, f, s)" rule: exec_top.cases; auto simp: Let_def split: if_splits)+

lemma exec_children:
  assumes "exec_top t f s = Some (new, s')"
  shows "c \<in> set (tk_children s' p) \<Longrightarrow> c \<in> set (tk_children s p) \<or> f = Register c p"
    and "c \<in> set (tk_children s p) \<Longrightarrow> c \<in> tk_alive s \<Longrightarrow>
      c \<in> set (tk_children s' p) \<or> f = LockDrain p \<and> Draining p (tk_children s p) \<in> set new"
    and "f = Register c p \<Longrightarrow> c \<in> tk_alive s \<Longrightarrow> c \<in> set (tk_children s' p)"
  using assms by (cases "(t, f, s)" rule: exec_top.cases; auto simp: Let_def split: if_splits)+

section \<open>The steps of a thread keep them\<close>

lemma link_inv_exec:
  assumes "link_inv F s L" "exec_top t f s = Some (new, s')" "replaces F f new F'"
  shows "link_inv F' s' L"
proof -
  note old = assms(1) [unfolded link_inv_def]
  note r = replacesD [OF assms(3)]
  note e = exec_new_frames [OF assms(2)]
  have "(p, c) \<in> L" if "c \<in> set (tk_children s' p)" for p c
    using exec_children(1) [OF assms(2) that] old r(1) by blast
  moreover have "(p, c) \<in> L" if "Draining p l \<in> F'" "c \<in> set l" for p l c
    using r(3) [OF that(1)] e(4) [of p l] that(2) old r(1) by (metis list.set_intros(2))
  moreover have "(p, c) \<in> L" if "CancelWith c p \<in> F'" "c \<noteq> p" for p c
    using r(3) [OF that(1)] e(5) [of c p] that(2) old by blast
  moreover have "(p, c) \<in> L" if "Check c p \<in> F' \<or> Register c p \<in> F'" for p c
    using r(3) e(6) [of c p] e(7) [of c p] that old r(1) by metis
  ultimately show ?thesis unfolding link_inv_def using old by blast
qed

lemma flag_inv_exec:
  assumes "flag_inv F s" "exec_top t f s = Some (new, s')" "replaces F f new F'"
  shows "flag_inv F' s'"
proof -
  note old = assms(1) [unfolded flag_inv_def]
  note r = replacesD [OF assms(3)]
  note e = exec_new_frames [OF assms(2)]
  note c = exec_cancelled [OF assms(2)]
  have "is_cancelled s' x" if "Wake x \<in> F'" for x
    using r(3) [OF that] e(2) [of x] old c [of x] by blast
  moreover have "is_cancelled s' x" if "LockDrain x \<in> F'" for x
    using r(3) [OF that] e(3) [of x] old r(1) c [of x] by blast
  moreover have "is_cancelled s' x" if "Draining x l \<in> F'" for x l
    using r(3) [OF that] e(4) [of x l] old r(1) c [of x] by blast
  moreover have "is_cancelled s' x" if "Unlock x \<in> F'" for x
    using r(3) [OF that] e(8) [of x] old c [of x] by blast
  ultimately show ?thesis unfolding flag_inv_def by blast
qed

lemma isolated_exec:
  assumes "isolated F s L R" "link_inv F s L" "flag_inv F s"
    and "exec_top t f s = Some (new, s')" "replaces F f new F'"
  shows "isolated F' s' L R"
  unfolding isolated_def
proof (intro allI impI)
  fix x
  note old = assms(1) [unfolded isolated_def]
  note links = assms(2) [unfolded link_inv_def]
  note r = replacesD [OF assms(5)]
  have below: "x \<in> L\<^sup>* `` R" if "is_cancelled s p" "(p, x) \<in> L" for p
    using old that by (meson Image_iff rtrancl.rtrancl_into_rtrancl)
  assume "is_cancelled s' x \<or> Cancel x \<in> F'"
  then consider "is_cancelled s x \<or> Cancel x \<in> F" | "Cancel x \<in> set new"
    using exec_cancelled [OF assms(4), of x] r(1) r(3) [of "Cancel x"] by blast
  then show "x \<in> L\<^sup>* `` R"
  proof cases
    case 1
    then show ?thesis using old by blast
  next
    case 2
    from exec_new_frames(1) [OF assms(4) this] show ?thesis
    proof
      assume "\<exists>p l. f = Draining p (x # l)"
      then obtain p l where f: "Draining p (x # l) \<in> F" using r(1) by blast
      then have "is_cancelled s p" "(p, x) \<in> L" using assms(3) links by (auto simp: flag_inv_def)
      then show ?thesis by (rule below)
    next
      assume "\<exists>p. f = Check x p \<and> is_cancelled s p"
      then show ?thesis using links r(1) below by blast
    qed
  qed
qed

lemma register_inv_exec:
  assumes "register_inv F s" "exec_top t f s = Some (new, s')" "replaces F f new F'"
    and "\<And>c p. Register c p \<in> F \<Longrightarrow> tk_lock s p \<noteq> None"
  shows "register_inv F' s'"
  unfolding register_inv_def
proof (intro allI impI)
  fix c p assume reg: "Register c p \<in> F'"
  note old = assms(1) [unfolded register_inv_def]
  note r = replacesD [OF assms(3)]
  show "\<not> is_cancelled s' p \<or> Wake p \<in> F' \<or> LockDrain p \<in> F'"
  proof (cases "f = Cancel p \<and> \<not> is_cancelled s p")
    case True
    with assms(2) have "Wake p \<in> set new" by (auto split: if_splits)
    then show ?thesis using r(2) by blast
  next
    case False
    then have same: "is_cancelled s' p \<longleftrightarrow> is_cancelled s p" using exec_cancelled [OF assms(2), of p] by blast
    from r(3) [OF reg] show ?thesis
    proof
      assume old_reg: "Register c p \<in> F"
      have "f \<noteq> LockDrain p" using assms(2) assms(4) [OF old_reg] by auto
      moreover have "f = Wake p \<Longrightarrow> LockDrain p \<in> set new" using assms(2) by auto
      ultimately show ?thesis using old old_reg same r(2,4) by (metis frame.distinct(1,15))
    next
      assume "Register c p \<in> set new"
      then show ?thesis using exec_new_frames(7) [OF assms(2)] same by blast
    qed
  qed
qed

lemma requests_done_exec:
  assumes "requests_done F s R" "exec_top t f s = Some (new, s')" "replaces F f new F'"
  shows "requests_done F' s' R"
  using assms(1) exec_cancelled [OF assms(2)] replacesD(4) [OF assms(3)]
  unfolding requests_done_def by metis

text \<open>What becomes of the frame that had the child ahead of it.\<close>

lemma ahead_exec:
  assumes "ahead F p c" "p \<noteq> c" "c \<in> tk_alive s" "register_inv F s"
    and "exec_top t f s = Some (new, s')" "replaces F f new F'"
  shows "is_cancelled s' c \<or> ahead F' p c \<or> child_kept F' s' p c"
proof -
  note r = replacesD [OF assms(6)]
  have keep: "ahead F' p c" if "g \<in> F" "g \<noteq> f"
      "g \<in> {CancelWith c p, Check c p, Register c p, Cancel c} \<or> (\<exists>l. g = Draining p l \<and> c \<in> set l)" for g
    using r(4) [OF that(1,2)] that(3) unfolding ahead_def by blast
  have new: "ahead F' p c" if "g \<in> set new"
      "g \<in> {CancelWith c p, Check c p, Register c p, Cancel c} \<or> (\<exists>l. g = Draining p l \<and> c \<in> set l)" for g
    using r(2) [OF that(1)] that(2) unfolding ahead_def by blast
  from assms(1) consider "CancelWith c p \<in> F" | "Check c p \<in> F" | "Register c p \<in> F" | "Cancel c \<in> F"
    | l where "Draining p l \<in> F" "c \<in> set l" unfolding ahead_def by blast
  then show ?thesis
  proof cases
    case 1
    show ?thesis
    proof (cases "f = CancelWith c p")
      case True
      then have "Check c p \<in> set new" using assms(2,5) by (auto split: if_splits)
      then show ?thesis using new by blast
    qed (use 1 keep in blast)
  next
    case 2
    show ?thesis
    proof (cases "f = Check c p")
      case True
      then have "Cancel c \<in> set new \<or> Register c p \<in> set new" using assms(5) by (auto split: if_splits)
      then show ?thesis using new by blast
    qed (use 2 keep in blast)
  next
    case 3
    show ?thesis
    proof (cases "f = Register c p")
      case True
      then have "Wake p \<noteq> f" "LockDrain p \<noteq> f" "f \<noteq> Cancel p" by simp_all
      then have "is_cancelled s' p \<longrightarrow> Wake p \<in> F' \<or> LockDrain p \<in> F'"
        using assms(4) 3 exec_cancelled [OF assms(5), of p] r(4) unfolding register_inv_def by blast
      then show ?thesis
        using exec_children(3) [OF assms(5) True assms(3)] unfolding child_kept_def by blast
    qed (use 3 keep in blast)
  next
    case 4
    then show ?thesis using keep exec_cancelled [OF assms(5), of c] by blast
  next
    case (5 l)
    show ?thesis
    proof (cases "f = Draining p l")
      case True
      then have "Cancel c \<in> set new \<or> (\<exists>l'. Draining p l' \<in> set new \<and> c \<in> set l')"
        using assms(3,5) 5(2) by (cases l) (auto split: if_splits)
      then show ?thesis using new by blast
    qed (use 5 keep in blast)
  qed
qed

lemma child_kept_exec:
  assumes "child_kept F s p c" "c \<in> tk_alive s"
    and "exec_top t f s = Some (new, s')" "replaces F f new F'"
  shows "ahead F' p c \<or> child_kept F' s' p c"
proof -
  note r = replacesD [OF assms(4)]
  have child: "c \<in> set (tk_children s p)" using assms(1) by (simp add: child_kept_def)
  from exec_children(2) [OF assms(3) child assms(2)] show ?thesis
  proof
    assume kept: "c \<in> set (tk_children s' p)"
    have "Wake p \<in> F' \<or> LockDrain p \<in> F'" if flag: "is_cancelled s' p"
    proof -
      consider "f = Cancel p \<and> \<not> is_cancelled s p" | "f = Wake p" | "f = LockDrain p"
        | "is_cancelled s p" "f \<noteq> Wake p" "f \<noteq> LockDrain p"
        using flag exec_cancelled [OF assms(3), of p] by blast
      then show ?thesis
      proof cases
        case 1
        then have "Wake p \<in> set new" using assms(3) by (auto split: if_splits)
        then show ?thesis using r(2) by blast
      next
        case 2
        then have "LockDrain p \<in> set new" using assms(3) by auto
        then show ?thesis using r(2) by blast
      next
        case 3
        with assms(3) kept show ?thesis by (auto split: if_splits)
      next
        case 4
        then show ?thesis using assms(1) r(4) unfolding child_kept_def by blast
      qed
    qed
    with kept show ?thesis by (simp add: child_kept_def)
  next
    assume "f = LockDrain p \<and> Draining p (tk_children s p) \<in> set new"
    then show ?thesis using child r(2) unfolding ahead_def by blast
  qed
qed

lemma propagates_exec:
  assumes "propagates F s L" "link_inv F s L" "register_inv F s"
    and "exec_top t f s = Some (new, s')" "replaces F f new F'"
  shows "propagates F' s' L"
  unfolding propagates_def
proof (intro allI impI)
  fix p c assume link: "(p, c) \<in> L" and "c \<in> tk_alive s'"
  then have alive: "c \<in> tk_alive s" using exec_alive [OF assms(4)] by simp
  have ne: "p \<noteq> c" using link assms(2) by (auto simp: link_inv_def)
  have "is_cancelled s c \<or> ahead F p c \<or> child_kept F s p c"
    using assms(1) link alive by (simp add: propagates_def)
  then show "is_cancelled s' c \<or> ahead F' p c \<or> child_kept F' s' p c"
    using exec_cancelled [OF assms(4), of c] ahead_exec [OF _ ne alive assms(3-5)]
      child_kept_exec [OF _ alive assms(4,5)] by blast
qed

lemma exec_notified:
  assumes "exec_top t f s = Some (new, s')"
  shows "tk_notified s x \<le> tk_notified s' x" "f = Wake x \<Longrightarrow> tk_notified s' x = Suc (tk_notified s x)"
  using assms by (cases "(t, f, s)" rule: exec_top.cases; auto simp: Let_def split: if_splits)+

lemma waiter_inv_exec:
  assumes "waiter_inv F s W" "exec_top t f s = Some (new, s')" "replaces F f new F'"
  shows "waiter_inv F' s' W"
proof -
  note old = assms(1) [unfolded waiter_inv_def]
  note r = replacesD [OF assms(3)]
  note n = exec_notified [OF assms(2)]
  have "n \<le> tk_notified s' x" if "W w = Registered x n \<or> W w = Parked x n" for w x n
    using old that n(1) [of x] by (meson le_trans)
  moreover have "n < tk_notified s' x \<or> Wake x \<in> F'" if parked: "W w = Parked x n" and c: "is_cancelled s' x" for w x n
  proof (cases "is_cancelled s x")
    case True
    then have "n < tk_notified s x \<or> Wake x \<in> F" using old parked by blast
    moreover have "n \<le> tk_notified s x" using old parked by blast
    ultimately show ?thesis using n(1) [of x] n(2) [of x] r(4) [of "Wake x"]
      by (cases "f = Wake x") auto
  next
    case False
    then have "f = Cancel x" using c exec_cancelled [OF assms(2), of x] by blast
    then have "Wake x \<in> set new" using assms(2) False by (auto split: if_splits)
    then show ?thesis using r(2) by blast
  qed
  ultimately show ?thesis unfolding waiter_inv_def by blast
qed

section \<open>Locks and stacks\<close>

fun holds :: "frame \<Rightarrow> nat option" where
  "holds (Draining x _) = Some x"
| "holds (Check c p) = Some p"
| "holds (Register c p) = Some p"
| "holds (Unlock p) = Some p"
| "holds _ = None"

fun drains :: "frame \<Rightarrow> nat option" where
  "drains (Wake x) = Some x"
| "drains (LockDrain x) = Some x"
| "drains (Draining x _) = Some x"
| "drains _ = None"

fun is_base :: "frame \<Rightarrow> bool" where
  "is_base (CancelWith c p) = True"
| "is_base (Check c p) = True"
| "is_base (Register c p) = True"
| "is_base _ = False"

text \<open>When a flag was set, as the length of the log before it.\<close>

definition stamp :: "(nat \<times> nat) list \<Rightarrow> nat \<Rightarrow> nat" where
  "stamp lg x = length (takeWhile (\<lambda>e. fst e \<noteq> x) lg)"

text \<open>
  Above a lock that \<open>cancel_with\<close> holds only flags are being drained that were set after
  the parent's.
\<close>

fun ordered_stack :: "(nat \<times> nat) list \<Rightarrow> frame list \<Rightarrow> bool" where
  "ordered_stack lg [] \<longleftrightarrow> True"
| "ordered_stack lg (f # fs) \<longleftrightarrow>
     (\<forall>x p. drains f = Some x \<longrightarrow> Unlock p \<in> set fs \<longrightarrow> stamp lg p < stamp lg x) \<and> ordered_stack lg fs"

definition stack_ok :: "token_state \<Rightarrow> nat \<Rightarrow> frame list \<Rightarrow> bool" where
  "stack_ok s t st \<longleftrightarrow>
     (\<forall>f \<in> set st. strong f \<subseteq> tk_alive s)
     \<and> (\<forall>f \<in> set st. \<forall>x. drains f = Some x \<longrightarrow> (x, t) \<in> set (tk_log s))
     \<and> (\<forall>f \<in> set st. \<forall>p. holds f = Some p \<longrightarrow> tk_lock s p = Some t)
     \<and> (\<forall>p. Unlock p \<in> set st \<longrightarrow> is_cancelled s p)
     \<and> (\<forall>f \<in> set st. is_base f \<longrightarrow> st = [f])
     \<and> distinct (List.map_filter drains st) \<and> distinct (List.map_filter holds st)
     \<and> ordered_stack (tk_log s) st"

lemma stamp_append: "x \<in> fst ` set lg \<Longrightarrow> stamp (lg @ ys) x = stamp lg x"
  by (induction lg) (auto simp: stamp_def)

lemma stamp_less: "x \<in> fst ` set lg \<Longrightarrow> stamp lg x < length lg"
  by (induction lg) (auto simp: stamp_def)

lemma stamp_new: "x \<notin> fst ` set lg \<Longrightarrow> stamp (lg @ [(x, t)]) x = length lg"
  by (induction lg) (auto simp: stamp_def)

lemma map_filter_Cons:
  "List.map_filter g (x # xs) = (case g x of None \<Rightarrow> [] | Some y \<Rightarrow> [y]) @ List.map_filter g xs"
  by (simp split: option.split)

lemma set_map_filter: "set (List.map_filter g xs) = {y. \<exists>x \<in> set xs. g x = Some y}"
  by (induction xs) (auto simp: map_filter_Cons split: option.splits)

lemma ordered_stack_append:
  assumes "ordered_stack lg st" "\<And>f x. f \<in> set st \<Longrightarrow> drains f = Some x \<Longrightarrow> x \<in> fst ` set lg"
    and "\<And>p. Unlock p \<in> set st \<Longrightarrow> p \<in> fst ` set lg"
  shows "ordered_stack (lg @ ys) st"
  using assms
proof (induction st)
  case (Cons f st)
  have "stamp (lg @ ys) p < stamp (lg @ ys) x" if d: "drains f = Some x" and u: "Unlock p \<in> set st" for x p
  proof -
    have "x \<in> fst ` set lg" using Cons.prems(2) [of f x] d by simp
    moreover have "p \<in> fst ` set lg" using Cons.prems(3) [of p] u by simp
    moreover have "stamp lg p < stamp lg x" using Cons.prems(1) d u by simp
    ultimately show ?thesis by (simp only: stamp_append)
  qed
  moreover have "ordered_stack (lg @ ys) st"
  proof (rule Cons.IH)
    show "ordered_stack lg st" using Cons.prems(1) by simp
    show "x \<in> fst ` set lg" if "g \<in> set st" "drains g = Some x" for g x
      using Cons.prems(2) [of g x] that by simp
    show "p \<in> fst ` set lg" if "Unlock p \<in> set st" for p
      using Cons.prems(3) [of p] that by simp
  qed
  ultimately show ?case by simp
qed simp

lemma exec_lock:
  assumes "exec_top t f s = Some (new, s')" "\<And>p. holds f = Some p \<Longrightarrow> tk_lock s p = Some t"
  shows "tk_lock s' p = (if \<exists>g \<in> set new. holds g = Some p then Some t
                         else if holds f = Some p then None else tk_lock s p)"
  using assms by (cases "(t, f, s)" rule: exec_top.cases) (auto simp: Let_def split: if_splits)

lemma exec_lock_taken:
  assumes "exec_top t f s = Some (new, s')" "g \<in> set new" "holds g = Some p"
  shows "holds f = Some p \<or> tk_lock s p = None"
  using assms by (cases "(t, f, s)" rule: exec_top.cases) (auto simp: Let_def split: if_splits)

lemma exec_drains:
  assumes "exec_top t f s = Some (new, s')" "g \<in> set new" "drains g = Some x"
  shows "drains f = Some x \<or> f = Cancel x \<and> \<not> is_cancelled s x \<and> new = [Wake x]"
  using assms by (cases "(t, f, s)" rule: exec_top.cases) (auto simp: Let_def split: if_splits)

lemma exec_log_cases:
  assumes "exec_top t f s = Some (new, s')"
  obtains "tk_log s' = tk_log s" | x where "f = Cancel x" "x \<notin> fst ` set (tk_log s)"
      "tk_log s' = tk_log s @ [(x, t)]" "new = [Wake x]"
  using assms by (cases "(t, f, s)" rule: exec_top.cases)
    (auto simp: is_cancelled_def Let_def split: if_splits)

lemma exec_new_distinct:
  assumes "exec_top t f s = Some (new, s')"
  shows "distinct (List.map_filter drains new)" "distinct (List.map_filter holds new)"
  using assms by (cases "(t, f, s)" rule: exec_top.cases; auto simp: Let_def map_filter_def split: if_splits)+

text \<open>The other threads are not disturbed.\<close>

lemma stack_ok_other:
  assumes "stack_ok s u st" "u \<noteq> t" "exec_top t f s = Some (new, s')"
    and "\<And>p. holds f = Some p \<Longrightarrow> tk_lock s p = Some t"
  shows "stack_ok s' u st"
proof -
  note o = assms(1) [unfolded stack_ok_def]
  have log: "\<exists>ys. tk_log s' = tk_log s @ ys" using exec_log [OF assms(3)] by auto
  then obtain ys where ys: "tk_log s' = tk_log s @ ys" by blast
  have lock: "tk_lock s' p = Some u" if "tk_lock s p = Some u" for p
  proof -
    have "holds f \<noteq> Some p" using assms(4) [of p] that assms(2) by auto
    moreover have "\<not> (\<exists>g \<in> set new. holds g = Some p)"
      using exec_lock_taken [OF assms(3)] calculation that by (metis option.distinct(1))
    ultimately show ?thesis using exec_lock [OF assms(3,4), of p] that by simp
  qed
  have ordered: "ordered_stack (tk_log s') st"
    unfolding ys
  proof (rule ordered_stack_append)
    show "ordered_stack (tk_log s) st" using o by blast
    show "x \<in> fst ` set (tk_log s)" if "g \<in> set st" "drains g = Some x" for g x
    proof -
      have "(x, u) \<in> set (tk_log s)" using o that by blast
      then show ?thesis by (metis fst_conv image_eqI)
    qed
    show "p \<in> fst ` set (tk_log s)" if "Unlock p \<in> set st" for p
      using o that unfolding is_cancelled_def by blast
  qed
  have "\<forall>f \<in> set st. strong f \<subseteq> tk_alive s'" using o exec_alive [OF assms(3)] by simp
  moreover have "\<forall>f \<in> set st. \<forall>x. drains f = Some x \<longrightarrow> (x, u) \<in> set (tk_log s')"
    using o unfolding ys by simp
  moreover have "\<forall>f \<in> set st. \<forall>p. holds f = Some p \<longrightarrow> tk_lock s' p = Some u" using o lock by blast
  moreover have "\<forall>p. Unlock p \<in> set st \<longrightarrow> is_cancelled s' p"
    using o exec_cancelled_mono [OF assms(3)] by blast
  ultimately show ?thesis unfolding stack_ok_def using o ordered by blast
qed

text \<open>And the thread that makes the step keeps its own stack in order.\<close>

lemma exec_strong:
  assumes "exec_top t f s = Some (new, s')" "strong f \<subseteq> tk_alive s" "g \<in> set new"
  shows "strong g \<subseteq> tk_alive s'"
  using assms by (cases "(t, f, s)" rule: exec_top.cases) (auto simp: Let_def split: if_splits)

lemma exec_base:
  assumes "exec_top t f s = Some (new, s')" "g \<in> set new" "is_base g"
  shows "is_base f \<and> new = [g]"
  using assms by (cases "(t, f, s)" rule: exec_top.cases) (auto simp: Let_def split: if_splits)

lemma exec_shape:
  assumes "exec_top t f s = Some (new, s')"
  shows "new = [] \<or> (\<exists>g. new = [g]) \<or> (\<exists>c g. new = [Cancel c, g])"
  using assms by (cases "(t, f, s)" rule: exec_top.cases) (auto simp: Let_def split: if_splits)

lemma exec_ordered:
  assumes "exec_top t f s = Some (new, s')" "ordered_stack lg (f # fs)"
    and "\<And>g x. g \<in> set new \<Longrightarrow> drains g = Some x \<Longrightarrow> drains f = Some x"
  shows "ordered_stack lg (new @ fs)"
proof -
  have one: "ordered_stack lg (g # fs)" if "g \<in> set new" for g
    using assms(2) assms(3) [OF that] by simp
  from exec_shape [OF assms(1)] show ?thesis
  proof (elim disjE exE)
    show ?thesis if "new = []" using assms(2) that by simp
    show ?thesis if "new = [g]" for g using one that by simp
    show ?thesis if "new = [Cancel c, g]" for c g using one [of g] that by simp
  qed
qed

lemma stack_ok_ordered:
  assumes "stack_ok s t (f # fs)" "exec_top t f s = Some (new, s')"
  shows "ordered_stack (tk_log s') (new @ fs)"
proof -
  note o = assms(1) [unfolded stack_ok_def]
  have unlocks: "p \<in> fst ` set (tk_log s)" if "Unlock p \<in> set fs" for p
    using o that unfolding is_cancelled_def by (meson list.set_intros(2))
  from assms(2) show ?thesis
  proof (cases rule: exec_log_cases)
    case 1
    have "drains f = Some x" if "g \<in> set new" "drains g = Some x" for g x
      using exec_drains [OF assms(2) that] assms(2) 1 by auto
    then show ?thesis unfolding 1 using exec_ordered [OF assms(2)] o by blast
  next
    case (2 x)
    have "ordered_stack (tk_log s @ [(x, t)]) fs"
    proof (rule ordered_stack_append)
      show "ordered_stack (tk_log s) fs" using o by simp
      show "y \<in> fst ` set (tk_log s)" if "g \<in> set fs" "drains g = Some y" for g y
      proof -
        have "(y, t) \<in> set (tk_log s)" using o that by (meson list.set_intros(2))
        then show ?thesis by (metis fst_conv image_eqI)
      qed
    qed (rule unlocks)
    moreover have "stamp (tk_log s @ [(x, t)]) p < stamp (tk_log s @ [(x, t)]) x" if "Unlock p \<in> set fs" for p
      unfolding stamp_append [OF unlocks [OF that]] stamp_new [OF 2(2)] by (rule stamp_less [OF unlocks [OF that]])
    ultimately show ?thesis using 2(3,4) by simp
  qed
qed

lemma stack_ok_distinct:
  assumes "stack_ok s t (f # fs)" "exec_top t f s = Some (new, s')"
  shows "distinct (List.map_filter drains (new @ fs))" "distinct (List.map_filter holds (new @ fs))"
proof -
  note o = assms(1) [unfolded stack_ok_def]
  have d: "drains f = Some y \<Longrightarrow> g \<in> set fs \<Longrightarrow> drains g \<noteq> Some y" for g y
    using o by (auto simp: map_filter_Cons set_map_filter)
  have h: "holds f = Some y \<Longrightarrow> g \<in> set fs \<Longrightarrow> holds g \<noteq> Some y" for g y
    using o by (auto simp: map_filter_Cons set_map_filter)
  have append: "List.map_filter k (new @ fs) = List.map_filter k new @ List.map_filter k fs" for k :: "frame \<Rightarrow> nat option"
    by (simp add: map_filter_def)
  have "drains g \<noteq> Some y" if "g' \<in> set new" "drains g' = Some y" "g \<in> set fs" for g g' y
  proof
    assume g: "drains g = Some y"
    have "(y, t) \<in> set (tk_log s)" using o that(3) g by (meson list.set_intros(2))
    then have "is_cancelled s y" unfolding is_cancelled_def by (metis fst_conv image_eqI)
    then have "drains f = Some y" using exec_drains [OF assms(2) that(1,2)] by blast
    then show False using d that(3) g by blast
  qed
  then show "distinct (List.map_filter drains (new @ fs))"
    using exec_new_distinct [OF assms(2)] o unfolding append by (auto simp: set_map_filter map_filter_Cons split: option.splits)
  have "holds g \<noteq> Some y" if "g' \<in> set new" "holds g' = Some y" "g \<in> set fs" for g g' y
  proof
    assume g: "holds g = Some y"
    have "tk_lock s y = Some t" using o that(3) g by (meson list.set_intros(2))
    then have "holds f = Some y" using exec_lock_taken [OF assms(2) that(1,2)] by simp
    then show False using h that(3) g by blast
  qed
  then show "distinct (List.map_filter holds (new @ fs))"
    using exec_new_distinct [OF assms(2)] o unfolding append by (auto simp: set_map_filter map_filter_Cons split: option.splits)
qed

lemma stack_ok_own:
  assumes "stack_ok s t (f # fs)" "exec_top t f s = Some (new, s')"
  shows "stack_ok s' t (new @ fs)"
proof -
  note o = assms(1) [unfolded stack_ok_def]
  have held: "tk_lock s p = Some t" if "holds f = Some p" for p using o that by simp
  have above: "g \<in> set fs \<Longrightarrow> holds g = Some p \<Longrightarrow> holds f \<noteq> Some p" for g p
    using o by (auto simp: map_filter_Cons set_map_filter)
  have log: "set (tk_log s) \<subseteq> set (tk_log s')" using exec_log [OF assms(2)] by auto
  have c1: "strong g \<subseteq> tk_alive s'" if "g \<in> set (new @ fs)" for g
    using that exec_strong [OF assms(2)] o exec_alive [OF assms(2)] by auto
  have c2: "(x, t) \<in> set (tk_log s')" if "g \<in> set (new @ fs)" "drains g = Some x" for g x
  proof (cases "g \<in> set fs")
    case True
    then show ?thesis using o that(2) log by (meson list.set_intros(2) subsetD)
  next
    case False
    then have "g \<in> set new" using that(1) by simp
    from exec_drains [OF assms(2) this that(2)] show ?thesis
    proof
      assume "drains f = Some x"
      then show ?thesis using o log by (meson list.set_intros(1) subsetD)
    qed (use assms(2) in auto)
  qed
  have c3: "tk_lock s' p = Some t" if "g \<in> set (new @ fs)" "holds g = Some p" for g p
  proof (cases "g \<in> set new")
    case True
    then show ?thesis using exec_lock [OF assms(2) held, of p] that(2) by auto
  next
    case False
    then have g: "g \<in> set fs" using that(1) by simp
    then have "tk_lock s p = Some t" using o that(2) by (meson list.set_intros(2))
    then show ?thesis using exec_lock [OF assms(2) held, of p] above [OF g that(2)] by auto
  qed
  have c4: "is_cancelled s' p" if "Unlock p \<in> set (new @ fs)" for p
  proof (cases "Unlock p \<in> set new")
    case True
    then show ?thesis using exec_new_frames(8) [OF assms(2)] exec_cancelled_mono [OF assms(2)] by blast
  next
    case False
    then have "Unlock p \<in> set (f # fs)" using that by simp
    moreover have "\<forall>p. Unlock p \<in> set (f # fs) \<longrightarrow> is_cancelled s p" using o by blast
    ultimately have "is_cancelled s p" by blast
    then show ?thesis by (rule exec_cancelled_mono [OF assms(2)])
  qed
  have c5: "new @ fs = [g]" if "g \<in> set (new @ fs)" "is_base g" for g
  proof (cases "g \<in> set new")
    case True
    from exec_base [OF assms(2) this that(2)] have "is_base f" "new = [g]" by blast+
    then show ?thesis using o by auto
  next
    case False
    then have "g \<in> set fs" using that(1) by simp
    then have "f # fs = [g]" using o that(2) by (meson list.set_intros(2))
    with \<open>g \<in> set fs\<close> show ?thesis by simp
  qed
  show ?thesis
    unfolding stack_ok_def
  proof (intro conjI ballI allI impI)
    show "strong g \<subseteq> tk_alive s'" if "g \<in> set (new @ fs)" for g by (rule c1 [OF that])
    show "(x, t) \<in> set (tk_log s')" if "g \<in> set (new @ fs)" "drains g = Some x" for g x by (rule c2 [OF that])
    show "tk_lock s' p = Some t" if "g \<in> set (new @ fs)" "holds g = Some p" for g p by (rule c3 [OF that])
    show "is_cancelled s' p" if "Unlock p \<in> set (new @ fs)" for p by (rule c4 [OF that])
    show "new @ fs = [g]" if "g \<in> set (new @ fs)" "is_base g" for g by (rule c5 [OF that])
  qed (rule stack_ok_distinct [OF assms] stack_ok_ordered [OF assms])+
qed

section \<open>The invariant of the system\<close>

definition threads_ok :: "token_state \<Rightarrow> frame list list \<Rightarrow> bool" where
  "threads_ok s T \<longleftrightarrow>
     (\<forall>t < length T. stack_ok s t (T ! t))
     \<and> (\<forall>p t. tk_lock s p = Some t \<longrightarrow> t < length T \<and> (\<exists>f \<in> set (T ! t). holds f = Some p))"

definition tokens_ok :: "token_state \<Rightarrow> (nat \<times> nat) set \<Rightarrow> bool" where
  "tokens_ok s L \<longleftrightarrow>
     tk_alive s \<subseteq> {..<tk_next s} \<and> distinct (map fst (tk_log s)) \<and> (\<forall>p c. (p, c) \<in> L \<longrightarrow> c < tk_next s)"

definition frames_ok :: "frame set \<Rightarrow> token_state \<Rightarrow> (nat \<times> nat) set \<Rightarrow> nat set \<Rightarrow> (nat \<Rightarrow> waiter) \<Rightarrow> bool" where
  "frames_ok F s L R W \<longleftrightarrow>
     link_inv F s L \<and> flag_inv F s \<and> isolated F s L R \<and> register_inv F s
     \<and> propagates F s L \<and> requests_done F s R \<and> waiter_inv F s W"

definition cancel_inv :: "cancel_config \<Rightarrow> bool" where
  "cancel_inv c \<longleftrightarrow>
     threads_ok (cc_tokens c) (cc_threads c) \<and> tokens_ok (cc_tokens c) (cc_links c)
     \<and> frames_ok (all_frames c) (cc_tokens c) (cc_links c) (cc_requested c) (cc_waiters c)"

lemma in_all_frames: "g \<in> all_frames c \<longleftrightarrow> (\<exists>i < length (cc_threads c). g \<in> set (cc_threads c ! i))"
  unfolding all_frames_def UN_iff by (metis in_set_conv_nth)

text \<open>What the invariant of a stack says of one frame.\<close>

lemma stack_okD:
  assumes "stack_ok s t st" "g \<in> set st"
  shows "strong g \<subseteq> tk_alive s" "drains g = Some x \<Longrightarrow> (x, t) \<in> set (tk_log s)"
    "holds g = Some p \<Longrightarrow> tk_lock s p = Some t" "is_base g \<Longrightarrow> st = [g]"
  using assms unfolding stack_ok_def by blast+

lemma replaces_update:
  assumes "t < length T" "T ! t = f # fs"
  shows "replaces (\<Union>st \<in> set T. set st) f new (\<Union>st \<in> set (T[t := new @ fs]). set st)"
proof -
  have F: "g \<in> (\<Union>st \<in> set U. set st) \<longleftrightarrow> (\<exists>i < length U. g \<in> set (U ! i))" for g and U :: "frame list list"
    unfolding UN_iff by (metis in_set_conv_nth)
  have sub: "g \<in> (\<Union>st \<in> set (T[t := new @ fs]). set st)" if g: "g \<in> (\<Union>st \<in> set T. set st)" "g \<noteq> f" for g
  proof -
    obtain i where i: "i < length T" "g \<in> set (T ! i)" using g(1) unfolding F by blast
    then have "g \<in> set (T[t := new @ fs] ! i)" using assms g(2) by (cases "i = t") auto
    then show ?thesis unfolding F using i(1) by (metis length_list_update)
  qed
  have new: "g \<in> (\<Union>st \<in> set (T[t := new @ fs]). set st)" if "g \<in> set new" for g
  proof -
    have "g \<in> set (T[t := new @ fs] ! t)" using assms(1) that by simp
    then show ?thesis unfolding F using assms(1) by (metis length_list_update)
  qed
  have old: "g \<in> (\<Union>st \<in> set T. set st) \<or> g \<in> set new" if g: "g \<in> (\<Union>st \<in> set (T[t := new @ fs]). set st)" for g
  proof -
    obtain i where i: "i < length T" "g \<in> set (T[t := new @ fs] ! i)" using g unfolding F by auto
    then have "g \<in> set (T ! i) \<or> g \<in> set new" using assms by (cases "i = t") auto
    then show ?thesis unfolding F using i(1) by blast
  qed
  have "f \<in> (\<Union>st \<in> set T. set st)" unfolding F using assms by (metis list.set_intros(1))
  then show ?thesis unfolding replaces_def using sub new old by blast
qed

lemma threads_ok_exec:
  assumes "threads_ok s T" "t < length T" "T ! t = f # fs" "exec_top t f s = Some (new, s')"
  shows "threads_ok s' (T[t := new @ fs])"
proof -
  note o = assms(1) [unfolded threads_ok_def]
  have own: "stack_ok s t (f # fs)" using o assms(2,3) by metis
  then have held: "tk_lock s p = Some t" if "holds f = Some p" for p using that by (simp add: stack_ok_def)
  have "stack_ok s' u (T[t := new @ fs] ! u)" if "u < length T" for u
  proof (cases "u = t")
    case True
    then show ?thesis using stack_ok_own [OF own assms(4)] assms(2) by simp
  next
    case False
    then show ?thesis using stack_ok_other [OF _ False assms(4) held] o that by simp
  qed
  moreover have "u < length T \<and> (\<exists>g \<in> set (T[t := new @ fs] ! u). holds g = Some p)" if "tk_lock s' p = Some u" for p u
  proof (cases "\<exists>g \<in> set new. holds g = Some p")
    case True
    then have "u = t" using exec_lock [OF assms(4) held, of p] that by simp
    then show ?thesis using True assms(2) by auto
  next
    case False
    then have lock: "tk_lock s p = Some u" "holds f \<noteq> Some p"
      using exec_lock [OF assms(4) held, of p] that by (auto split: if_splits)
    then obtain g where g: "u < length T" "g \<in> set (T ! u)" "holds g = Some p" using o by blast
    then show ?thesis using lock(2) assms(2,3) by (cases "u = t") auto
  qed
  ultimately show ?thesis unfolding threads_ok_def by simp
qed

lemma frames_ok_exec:
  assumes "frames_ok F s L R W" "exec_top t f s = Some (new, s')" "replaces F f new F'"
    and "\<And>c p. Register c p \<in> F \<Longrightarrow> tk_lock s p \<noteq> None"
  shows "frames_ok F' s' L R W"
proof -
  have "register_inv F s" using assms(1) by (simp add: frames_ok_def)
  then have "register_inv F' s'" by (rule register_inv_exec [OF _ assms(2,3)]) (rule assms(4))
  then show ?thesis
  using assms(1) link_inv_exec [OF _ assms(2,3)] flag_inv_exec [OF _ assms(2,3)]
    isolated_exec [OF _ _ _ assms(2,3)]
    propagates_exec [OF _ _ _ assms(2,3)] requests_done_exec [OF _ assms(2,3)]
    waiter_inv_exec [OF _ assms(2,3)]
  unfolding frames_ok_def by blast
qed

lemma tokens_ok_exec:
  assumes "tokens_ok s L" "exec_top t f s = Some (new, s')"
  shows "tokens_ok s' L"
  using assms(1) exec_alive [OF assms(2)] assms(2)
  by (cases rule: exec_log_cases [OF assms(2)]) (simp_all add: tokens_ok_def)

lemma cancel_inv_run:
  assumes "cancel_inv c" "t < length (cc_threads c)" "run_thread t c = Some c'"
  shows "cancel_inv c'"
proof -
  obtain f fs new s' where st: "cc_threads c ! t = f # fs" and e: "exec_top t f (cc_tokens c) = Some (new, s')"
    and c': "c' = c\<lparr>cc_tokens := s', cc_threads := (cc_threads c)[t := new @ fs]\<rparr>"
    using assms(3) by (auto simp: run_thread_def split: list.splits)
  have r: "replaces (all_frames c) f new (all_frames c')"
    using replaces_update [OF assms(2) st, of new] by (simp add: all_frames_def c')
  have lock: "tk_lock (cc_tokens c) p \<noteq> None" if reg: "Register x p \<in> all_frames c" for x p
  proof -
    obtain i where i: "i < length (cc_threads c)" "Register x p \<in> set (cc_threads c ! i)"
      using reg unfolding in_all_frames by blast
    then have "stack_ok (cc_tokens c) i (cc_threads c ! i)"
      using assms(1) unfolding cancel_inv_def threads_ok_def by blast
    from stack_okD(3) [OF this i(2), of p] show ?thesis by simp
  qed
  show ?thesis
    using assms(1) threads_ok_exec [OF _ assms(2) st e] tokens_ok_exec [OF _ e] frames_ok_exec [OF _ e r lock]
    unfolding cancel_inv_def by (simp add: c')
qed

section \<open>The other steps keep it\<close>

lemma all_frames_call:
  assumes "t < length (cc_threads c)" "cc_threads c ! t = []"
  shows "\<Union> (set ` set ((cc_threads c)[t := [g]])) = insert g (all_frames c)"
proof (rule set_eqI)
  fix h
  have nth: "h \<in> \<Union> (set ` set U) \<longleftrightarrow> (\<exists>i < length U. h \<in> set (U ! i))" for U :: "frame list list"
    unfolding UN_iff by (metis in_set_conv_nth)
  have "(\<exists>i < length (cc_threads c). h \<in> set ((cc_threads c)[t := [g]] ! i))
      \<longleftrightarrow> h = g \<or> (\<exists>i < length (cc_threads c). h \<in> set (cc_threads c ! i))"
    using assms by (metis empty_iff list.set(1) nth_list_update_eq nth_list_update_neq set_ConsD list.set_intros(1))
  then show "h \<in> \<Union> (set ` set ((cc_threads c)[t := [g]])) \<longleftrightarrow> h \<in> insert g (all_frames c)"
    unfolding nth in_all_frames insert_iff by simp
qed

lemma threads_ok_call:
  assumes "threads_ok s T" "t < length T" "T ! t = []" "stack_ok s t [g]" "holds g = None"
  shows "threads_ok s (T[t := [g]])"
proof -
  have "stack_ok s u (T[t := [g]] ! u)" if "u < length T" for u
    using assms(1,2,4) that by (cases "u = t") (simp_all add: threads_ok_def)
  moreover have "u < length T \<and> (\<exists>f \<in> set (T[t := [g]] ! u). holds f = Some p)" if "tk_lock s p = Some u" for p u
  proof -
    have u: "u < length T" "\<exists>f \<in> set (T ! u). holds f = Some p"
      using assms(1) that by (auto simp: threads_ok_def)
    then show ?thesis using assms(3) by (cases "u = t") simp_all
  qed
  ultimately show ?thesis by (simp add: threads_ok_def)
qed

lemma frames_ok_cancel_call:
  assumes "frames_ok F s L R W"
  shows "frames_ok (insert (Cancel x) F) s L (insert x R) W"
proof -
  note o = assms [unfolded frames_ok_def]
  have "link_inv (insert (Cancel x) F) s L" using o by (simp add: link_inv_def)
  moreover have "flag_inv (insert (Cancel x) F) s" using o by (simp add: flag_inv_def)
  moreover have "isolated (insert (Cancel x) F) s L (insert x R)" using o by (auto simp: isolated_def)
  moreover have "register_inv (insert (Cancel x) F) s" using o by (simp add: register_inv_def)
  moreover have "propagates (insert (Cancel x) F) s L"
    using o unfolding propagates_def ahead_def child_kept_def by blast
  moreover have "requests_done (insert (Cancel x) F) s (insert x R)"
    using o by (auto simp: requests_done_def)
  moreover have "waiter_inv (insert (Cancel x) F) s W" using o by (simp add: waiter_inv_def)
  ultimately show ?thesis unfolding frames_ok_def by blast
qed

lemma frames_ok_cancel_with_call:
  assumes "frames_ok F s L R W"
  shows "frames_ok (insert (CancelWith x p) F) s (if x = p then L else insert (p, x) L) R W"
proof -
  let ?L = "if x = p then L else insert (p, x) L"
  note o = assms [unfolded frames_ok_def]
  have sub: "L \<subseteq> ?L" by auto
  have "link_inv (insert (CancelWith x p) F) s ?L" using o by (auto simp: link_inv_def)
  moreover have "flag_inv (insert (CancelWith x p) F) s" using o by (simp add: flag_inv_def)
  moreover have "isolated (insert (CancelWith x p) F) s ?L R"
  proof -
    have "L\<^sup>* `` R \<subseteq> ?L\<^sup>* `` R" using rtrancl_mono [OF sub] by blast
    moreover have "is_cancelled s y \<or> Cancel y \<in> F" if "is_cancelled s y \<or> Cancel y \<in> insert (CancelWith x p) F" for y
      using that by simp
    ultimately show ?thesis using o unfolding isolated_def by blast
  qed
  moreover have "register_inv (insert (CancelWith x p) F) s" using o by (simp add: register_inv_def)
  moreover have "propagates (insert (CancelWith x p) F) s ?L"
    using o unfolding propagates_def ahead_def child_kept_def by auto
  moreover have "requests_done (insert (CancelWith x p) F) s R" using o by (simp add: requests_done_def)
  moreover have "waiter_inv (insert (CancelWith x p) F) s W" using o by (simp add: waiter_inv_def)
  ultimately show ?thesis unfolding frames_ok_def by blast
qed

text \<open>Steps that change neither flags, children nor locks.\<close>

definition same_but_alive :: "token_state \<Rightarrow> token_state \<Rightarrow> bool" where
  "same_but_alive s s' \<longleftrightarrow> tk_log s' = tk_log s \<and> tk_children s' = tk_children s \<and> tk_lock s' = tk_lock s
     \<and> tk_notified s' = tk_notified s \<and> tk_next s \<le> tk_next s'"

lemma same_but_aliveD:
  assumes "same_but_alive s s'"
  shows "is_cancelled s' = is_cancelled s" "tk_children s' = tk_children s" "tk_lock s' = tk_lock s"
    "tk_log s' = tk_log s" "tk_notified s' = tk_notified s" "tk_next s \<le> tk_next s'"
  using assms by (auto simp: same_but_alive_def is_cancelled_def fun_eq_iff)

lemma cancel_inv_alive:
  assumes "cancel_inv c" "same_but_alive (cc_tokens c) s'"
    and "\<And>f. f \<in> all_frames c \<Longrightarrow> strong f \<subseteq> tk_alive s'"
    and "tk_alive s' \<subseteq> {..<tk_next s'}"
    and "tk_alive s' \<subseteq> tk_alive (cc_tokens c) \<union> {tk_next (cc_tokens c)..}"
  shows "cancel_inv (c\<lparr>cc_tokens := s'\<rparr>)"
proof -
  let ?s = "cc_tokens c"
  note same = same_but_aliveD [OF assms(2)]
  note o = assms(1) [unfolded cancel_inv_def]
  have F: "all_frames (c\<lparr>cc_tokens := s'\<rparr>) = all_frames c" by (simp add: all_frames_def)
  have stack: "stack_ok s' t (cc_threads c ! t)" if t: "t < length (cc_threads c)" for t
  proof -
    have "\<forall>f \<in> set (cc_threads c ! t). strong f \<subseteq> tk_alive s'"
      using assms(3) t unfolding in_all_frames by blast
    moreover have "stack_ok ?s t (cc_threads c ! t)" using o t by (simp add: threads_ok_def)
    ultimately show ?thesis unfolding stack_ok_def same by blast
  qed
  have "threads_ok s' (cc_threads c)" using o stack unfolding threads_ok_def same by blast
  moreover have "tokens_ok s' (cc_links c)" using o assms(4) same(6) unfolding tokens_ok_def same(4) by fastforce
  moreover have "propagates (all_frames c) s' (cc_links c)"
    unfolding propagates_def
  proof (intro allI impI)
    fix p x assume link: "(p, x) \<in> cc_links c" and "x \<in> tk_alive s'"
    then have "x \<in> tk_alive ?s" using assms(5) o by (fastforce simp: tokens_ok_def)
    then show "is_cancelled s' x \<or> ahead (all_frames c) p x \<or> child_kept (all_frames c) s' p x"
      using o link unfolding frames_ok_def propagates_def child_kept_def same by blast
  qed
  ultimately show ?thesis
    using o unfolding cancel_inv_def F frames_ok_def
    by (simp add: link_inv_def flag_inv_def isolated_def register_inv_def requests_done_def waiter_inv_def same)
qed

lemma stack_ok_call:
  assumes "strong g \<subseteq> tk_alive s" "drains g = None" "holds g = None" "\<And>p. g \<noteq> Unlock p"
  shows "stack_ok s t [g]"
  using assms by (auto simp: stack_ok_def map_filter_Cons)

lemma cancel_inv_step:
  assumes "cancel_step c c'" "cancel_inv c"
  shows "cancel_inv c'"
  using assms(1)
proof cases
  case (run t)
  then show ?thesis using cancel_inv_run [OF assms(2)] by blast
next
  case (cancel_call t x)
  have "threads_ok (cc_tokens c) ((cc_threads c)[t := [Cancel x]])"
    using assms(2) cancel_call
    by (intro threads_ok_call) (auto simp: cancel_inv_def intro!: stack_ok_call)
  then show ?thesis
    using assms(2) cancel_call(1) frames_ok_cancel_call [of "all_frames c" _ _ _ _ x]
      all_frames_call [OF cancel_call(2,3), of "Cancel x"]
    by (simp add: cancel_inv_def call_def all_frames_def)
next
  case (cancel_with_call t x p)
  have "threads_ok (cc_tokens c) ((cc_threads c)[t := [CancelWith x p]])"
    using assms(2) cancel_with_call
    by (intro threads_ok_call) (auto simp: cancel_inv_def intro!: stack_ok_call)
  moreover have "tokens_ok (cc_tokens c) (if x = p then cc_links c else insert (p, x) (cc_links c))"
    using assms(2) cancel_with_call(4) by (auto simp: cancel_inv_def tokens_ok_def)
  ultimately show ?thesis
    using assms(2) cancel_with_call(1) frames_ok_cancel_with_call [of "all_frames c" _ _ _ _ x p]
      all_frames_call [OF cancel_with_call(2,3), of "CancelWith x p"]
    by (simp add: cancel_inv_def call_def all_frames_def del: if_split)
next
  case create
  have "strong f \<subseteq> tk_alive (cc_tokens c)" if "f \<in> all_frames c" for f
    using that assms(2) stack_okD(1) unfolding in_all_frames cancel_inv_def threads_ok_def by blast
  then show ?thesis
    using assms(2) unfolding create new_token_def
    by (intro cancel_inv_alive) (auto simp: same_but_alive_def cancel_inv_def tokens_ok_def)
next
  case (drop x)
  have "strong f \<subseteq> tk_alive (cc_tokens c)" if "f \<in> all_frames c" for f
    using that assms(2) stack_okD(1) unfolding in_all_frames cancel_inv_def threads_ok_def by blast
  then show ?thesis
    using assms(2) drop(2) unfolding drop(1)
    by (intro cancel_inv_alive) (auto simp: same_but_alive_def cancel_inv_def tokens_ok_def)
next
  case (wait_begin w x)
  have "waiter_inv (all_frames c) (cc_tokens c) ((cc_waiters c)(w := Registered x (tk_notified (cc_tokens c) x)))"
    using assms(2) by (auto simp: cancel_inv_def frames_ok_def waiter_inv_def)
  then show ?thesis using assms(2) unfolding wait_begin
    by (simp add: cancel_inv_def frames_ok_def all_frames_def)
next
  case (wait_step w v)
  have "waiter_inv (all_frames c) (cc_tokens c) ((cc_waiters c)(w := v))"
    using assms(2) wait_step(2)
    by (cases "cc_waiters c w") (auto simp: cancel_inv_def frames_ok_def waiter_inv_def split: if_splits)
  then show ?thesis using assms(2) unfolding wait_step(1)
    by (simp add: cancel_inv_def frames_ok_def all_frames_def)
qed

lemma cancel_inv_initial: "cancel_inv (initial_cancel n)"
proof -
  have F: "all_frames (initial_cancel n) = {}" by (auto simp: all_frames_def initial_cancel_def)
  show ?thesis unfolding cancel_inv_def F
    by (simp add: initial_cancel_def threads_ok_def stack_ok_def tokens_ok_def frames_ok_def link_inv_def
        flag_inv_def isolated_def register_inv_def propagates_def requests_done_def waiter_inv_def
        is_cancelled_def map_filter_def)
qed

lemma reachable_cancel_inv: "reachable_cancel n c \<Longrightarrow> cancel_inv c"
  unfolding reachable_cancel_def
  by (induction rule: rtranclp_induct) (auto intro: cancel_inv_initial cancel_inv_step)

section \<open>No deadlock\<close>

lemma exec_blocked:
  "exec_top t f s = None \<longleftrightarrow>
     (\<exists>x. f = LockDrain x \<and> tk_lock s x \<noteq> None) \<or> (\<exists>c p. f = CancelWith c p \<and> c \<noteq> p \<and> tk_lock s p \<noteq> None)"
  by (cases "(t, f, s)" rule: exec_top.cases) (auto simp: Let_def)

lemma ordered_stack_head:
  "ordered_stack lg (f # fs) \<Longrightarrow> drains f = Some x \<Longrightarrow> Unlock p \<in> set fs \<Longrightarrow> stamp lg p < stamp lg x"
  by simp

text \<open>
  A thread at the top of which a drain waits: the lock is held under a drain that waits for a
  flag set later.
\<close>

lemma blocked_drain_later:
  assumes "cancel_inv c" "t < length (cc_threads c)" "cc_threads c ! t = LockDrain x # fs"
    and "tk_lock (cc_tokens c) x \<noteq> None"
    and "\<And>u. u < length (cc_threads c) \<Longrightarrow> run_thread u c = None"
  shows "\<exists>u y gs. u < length (cc_threads c) \<and> cc_threads c ! u = LockDrain y # gs
    \<and> stamp (tk_log (cc_tokens c)) x < stamp (tk_log (cc_tokens c)) y"
proof -
  let ?s = "cc_tokens c" and ?T = "cc_threads c"
  have ok: "\<And>u. u < length ?T \<Longrightarrow> stack_ok ?s u (?T ! u)"
    and locks: "\<And>p u. tk_lock ?s p = Some u \<Longrightarrow> u < length ?T \<and> (\<exists>f \<in> set (?T ! u). holds f = Some p)"
    and once: "distinct (map fst (tk_log ?s))"
    using assms(1) by (auto simp: cancel_inv_def threads_ok_def tokens_ok_def)
  obtain u where "tk_lock ?s x = Some u" using assms(4) by blast
  then obtain g where u: "u < length ?T" "g \<in> set (?T ! u)" "holds g = Some x" using locks by blast
  obtain f gs where st: "?T ! u = f # gs" using u(2) by (cases "?T ! u") auto
  have blocked: "exec_top u f ?s = None"
    using assms(5) [OF u(1)] by (simp add: run_thread_def st)
  note own = ok [OF u(1)]
  have not_base: "\<not> is_base g"
  proof
    assume "is_base g"
    then have "f = g" using stack_okD(4) [OF own u(2)] st by simp
    with u(3) blocked show False unfolding exec_blocked by auto
  qed
  have "f \<noteq> g" using u(3) blocked unfolding exec_blocked by auto
  then have gs: "g \<in> set gs" using u(2) st by simp
  have "\<not> is_base f"
  proof
    assume "is_base f"
    then have "f # gs = [f]" using stack_okD(4) [OF own, of f] st by simp
    with gs show False by simp
  qed
  then obtain y where f: "f = LockDrain y" using blocked unfolding exec_blocked by auto
  have not_draining: "g \<noteq> Draining x l" for l
  proof
    assume g: "g = Draining x l"
    have "(x, u) \<in> set (tk_log ?s)" using stack_okD(2) [OF own u(2), of x] g by simp
    moreover have "(x, t) \<in> set (tk_log ?s)"
      using stack_okD(2) [OF ok [OF assms(2)], of "LockDrain x" x] assms(3) by simp
    ultimately have "u = t" using once by (meson eq_key_imp_eq_value)
    then have "LockDrain x # fs = f # gs" using assms(3) st by simp
    then have "drains f = Some x" using f by simp
    moreover have "distinct (List.map_filter drains (f # gs))" using own st by (simp add: stack_ok_def)
    ultimately show False using gs g by (auto simp: map_filter_Cons set_map_filter)
  qed
  have "g = Unlock x" using u(3) not_base not_draining by (cases g) auto
  then have "stamp (tk_log ?s) x < stamp (tk_log ?s) y"
    using own gs f st ordered_stack_head [of "tk_log ?s" f gs y x] by (simp add: stack_ok_def)
  then show ?thesis using u(1) st f by blast
qed

lemma some_thread_runs:
  assumes "cancel_inv c" "t < length (cc_threads c)" "cc_threads c ! t \<noteq> []"
  shows "\<exists>u < length (cc_threads c). run_thread u c \<noteq> None"
proof (rule ccontr)
  assume "\<not> ?thesis"
  then have stuck: "\<And>u. u < length (cc_threads c) \<Longrightarrow> run_thread u c = None" by blast
  let ?s = "cc_tokens c" and ?T = "cc_threads c"
  have blocked: "exec_top u f ?s = None" if "u < length ?T" "?T ! u = f # fs" for u f fs
    using stuck [OF that(1)] by (simp add: run_thread_def that(2))
  let ?B = "{x. \<exists>u fs. u < length ?T \<and> ?T ! u = LockDrain x # fs}"
  have ok: "\<And>u. u < length ?T \<Longrightarrow> stack_ok ?s u (?T ! u)"
    and locks: "\<And>p u. tk_lock ?s p = Some u \<Longrightarrow> u < length ?T \<and> (\<exists>f \<in> set (?T ! u). holds f = Some p)"
    using assms(1) by (auto simp: cancel_inv_def threads_ok_def)
  have later: "\<exists>y \<in> ?B. stamp (tk_log ?s) x < stamp (tk_log ?s) y" if x: "x \<in> ?B" for x
  proof -
    obtain u fs where u: "u < length ?T" "?T ! u = LockDrain x # fs" using x by blast
    have "tk_lock ?s x \<noteq> None" using blocked [OF u] unfolding exec_blocked by simp
    from blocked_drain_later [OF assms(1) u this stuck] show ?thesis by blast
  qed
  have "?B \<subseteq> fst ` set (tk_log ?s)"
  proof
    fix x assume "x \<in> ?B"
    then obtain u fs where u: "u < length ?T" "?T ! u = LockDrain x # fs" by blast
    have "(x, u) \<in> set (tk_log ?s)" using stack_okD(2) [OF ok [OF u(1)], of "LockDrain x" x] u(2) by simp
    then show "x \<in> fst ` set (tk_log ?s)" by (metis fst_conv image_eqI)
  qed
  then have finite: "finite ?B" by (rule finite_subset) simp
  have empty: "?B = {}"
  proof (rule ccontr)
    assume "?B \<noteq> {}"
    then have "Max (stamp (tk_log ?s) ` ?B) \<in> stamp (tk_log ?s) ` ?B" using finite by simp
    then obtain x where x: "x \<in> ?B" "Max (stamp (tk_log ?s) ` ?B) = stamp (tk_log ?s) x" by blast
    obtain y where y: "y \<in> ?B" "stamp (tk_log ?s) x < stamp (tk_log ?s) y" using later [OF x(1)] by blast
    have "stamp (tk_log ?s) y \<le> Max (stamp (tk_log ?s) ` ?B)" using finite y(1) by simp
    with x(2) y(2) show False by simp
  qed
  have base: "\<exists>a p. f = CancelWith a p \<and> tk_lock ?s p \<noteq> None" if "u < length ?T" "?T ! u = f # fs" for u f fs
    using blocked [OF that] empty that unfolding exec_blocked by blast
  obtain f fs where st: "?T ! t = f # fs" using assms(3) by (cases "?T ! t") auto
  obtain a p where "tk_lock ?s p \<noteq> None" using base [OF assms(2) st] by blast
  then obtain u g where u: "u < length ?T" "g \<in> set (?T ! u)" "holds g = Some p" using locks by blast
  obtain h hs where hs: "?T ! u = h # hs" using u(2) by (cases "?T ! u") auto
  obtain a' p' where h: "h = CancelWith a' p'" using base [OF u(1) hs] by blast
  then have "h # hs = [h]" using stack_okD(4) [OF ok [OF u(1)], of h] hs by simp
  then have "g = h" using u(2) hs by simp
  with h u(3) show False by simp
qed

section \<open>Every call returns\<close>

fun weight :: "frame \<Rightarrow> nat" where
  "weight (Cancel x) = 1"
| "weight (Wake x) = 4"
| "weight (LockDrain x) = 3"
| "weight (Draining x l) = 1 + 3 * length l"
| "weight (CancelWith c p) = 7"
| "weight (Check c p) = 6"
| "weight (Register c p) = 5"
| "weight (Unlock p) = 1"

definition token_work :: "token_state \<Rightarrow> nat" where
  "token_work s = 5 * card ({..<tk_next s} - fst ` set (tk_log s))
     + 3 * (\<Sum>p<tk_next s. length (tk_children s p))"

definition frames_work :: "frame list \<Rightarrow> nat" where
  "frames_work st = sum_list (map weight st)"

text \<open>How many steps the threads can still make without a new call.\<close>

definition work :: "cancel_config \<Rightarrow> nat" where
  "work c = token_work (cc_tokens c) + sum_list (map frames_work (cc_threads c))"

definition runs :: "cancel_config \<Rightarrow> cancel_config \<Rightarrow> bool" where
  "runs c c' \<longleftrightarrow> (\<exists>t < length (cc_threads c). run_thread t c = Some c')"

definition all_returned :: "cancel_config \<Rightarrow> bool" where
  "all_returned c \<longleftrightarrow> (\<forall>st \<in> set (cc_threads c). st = [])"

lemma sum_children_update:
  assumes "p < (n::nat)"
  shows "(\<Sum>q<n. length ((ch(p := l)) q)) + length (ch p) = (\<Sum>q<n. length (ch q)) + length l"
proof -
  have "(\<Sum>q<n. length ((ch(p := l)) q)) = length l + (\<Sum>q \<in> {..<n} - {p}. length ((ch(p := l)) q))"
    using assms by (subst sum.remove [of _ p]) simp_all
  moreover have "(\<Sum>q \<in> {..<n} - {p}. length ((ch(p := l)) q)) = (\<Sum>q \<in> {..<n} - {p}. length (ch q))"
    by (rule sum.cong) simp_all
  moreover have "(\<Sum>q<n. length (ch q)) = length (ch p) + (\<Sum>q \<in> {..<n} - {p}. length (ch q))"
    using assms by (subst sum.remove [of _ p]) simp_all
  ultimately show ?thesis by simp
qed

lemma token_work_lock [simp]: "token_work (s\<lparr>tk_lock := l\<rparr>) = token_work s"
  by (simp add: token_work_def)

lemma token_work_notified [simp]: "token_work (s\<lparr>tk_notified := l\<rparr>) = token_work s"
  by (simp add: token_work_def)

lemma token_work_children:
  assumes "p < tk_next s"
  shows "token_work (s\<lparr>tk_children := (tk_children s)(p := l), tk_lock := k\<rparr>) + 3 * length (tk_children s p)
    = token_work s + 3 * length l"
proof -
  have "3 * (\<Sum>q<tk_next s. length (((tk_children s)(p := l)) q)) + 3 * length (tk_children s p)
      = 3 * (\<Sum>q<tk_next s. length (tk_children s q)) + 3 * length l"
    using sum_children_update [OF assms, of "tk_children s" l] by presburger
  then show ?thesis by (simp add: token_work_def)
qed

lemma token_work_flag:
  assumes "x < tk_next s" "\<not> is_cancelled s x"
  shows "token_work (s\<lparr>tk_log := tk_log s @ [(x, t)]\<rparr>) + 5 = token_work s"
proof -
  let ?A = "{..<tk_next s} - fst ` set (tk_log s)"
  have x: "x \<in> ?A" using assms by (simp add: is_cancelled_def)
  have "{..<tk_next s} - fst ` set (tk_log s @ [(x, t)]) = ?A - {x}" by auto
  moreover have "card ?A = Suc (card (?A - {x}))" using x by (intro card.remove) simp_all
  ultimately show ?thesis by (simp add: token_work_def)
qed

lemma exec_work:
  assumes "exec_top t f s = Some (new, s')" "strong f \<subseteq> {..<tk_next s}"
  shows "frames_work new + token_work s' < weight f + token_work s"
proof (cases f)
  case (Cancel x)
  then show ?thesis using assms token_work_flag [of x s t] by (auto simp: frames_work_def split: if_splits)
next
  case (LockDrain x)
  then have x: "x < tk_next s" using assms(2) by simp
  have "token_work s' + 3 * length (tk_children s x) = token_work s" "new = [Draining x (tk_children s x)]"
    using token_work_children [OF x, where l = "[]" and k = "(tk_lock s)(x := Some t)"] assms(1) LockDrain
    by (auto split: if_splits simp: token_work_def)
  then show ?thesis using LockDrain by (simp add: frames_work_def)
next
  case (Register c p)
  then have p: "p < tk_next s" using assms(2) by simp
  let ?kept = "filter (\<lambda>x. x \<in> tk_alive s) (tk_children s p)"
  have "new = []" "s' = s\<lparr>tk_children := (tk_children s)(p := if c \<in> set ?kept then ?kept else ?kept @ [c]),
      tk_lock := (tk_lock s)(p := None)\<rparr>" using assms(1) Register by (simp_all add: Let_def)
  moreover have "length (if c \<in> set ?kept then ?kept else ?kept @ [c]) \<le> Suc (length (tk_children s p))"
    using length_filter_le [of "\<lambda>x. x \<in> tk_alive s" "tk_children s p"] by (auto intro: le_SucI)
  ultimately show ?thesis
    using token_work_children [OF p, where l = "if c \<in> set ?kept then ?kept else ?kept @ [c]" and k = "(tk_lock s)(p := None)"]
      Register by (simp add: frames_work_def del: if_split)
next
  case (Draining x l)
  then show ?thesis using assms(1) by (cases l) (auto simp: frames_work_def split: if_splits)
qed (use assms(1) in \<open>auto simp: frames_work_def split: if_splits\<close>)

lemma run_work:
  assumes "cancel_inv c" "t < length (cc_threads c)" "run_thread t c = Some c'"
  shows "work c' < work c"
proof -
  obtain f fs new s' where st: "cc_threads c ! t = f # fs" and e: "exec_top t f (cc_tokens c) = Some (new, s')"
    and c': "c' = c\<lparr>cc_tokens := s', cc_threads := (cc_threads c)[t := new @ fs]\<rparr>"
    using assms(3) by (auto simp: run_thread_def split: list.splits)
  have "stack_ok (cc_tokens c) t (f # fs)"
    using assms(1,2) st by (metis cancel_inv_def threads_ok_def)
  then have "strong f \<subseteq> tk_alive (cc_tokens c)" by (rule stack_okD(1)) simp
  then have "strong f \<subseteq> {..<tk_next (cc_tokens c)}"
    using assms(1) by (auto simp: cancel_inv_def tokens_ok_def)
  note less = exec_work [OF e this]
  let ?W = "map frames_work (cc_threads c)"
  have "sum_list ?W \<ge> ?W ! t" using assms(2) by (intro elem_le_sum_list) simp
  then have le: "frames_work (f # fs) \<le> sum_list ?W" using assms(2) st by simp
  have "sum_list (map frames_work ((cc_threads c)[t := new @ fs]))
      = sum_list ?W + frames_work (new @ fs) - frames_work (f # fs)"
    using assms(2) st by (simp add: map_update sum_list_update)
  moreover have "frames_work (new @ fs) = frames_work new + frames_work fs"
    "frames_work (f # fs) = weight f + frames_work fs" by (simp_all add: frames_work_def)
  ultimately show ?thesis using less le by (simp add: work_def c')
qed

lemma runs_inv: "runs c c' \<Longrightarrow> cancel_inv c \<Longrightarrow> cancel_inv c' \<and> work c' < work c"
  using cancel_inv_run run_work unfolding runs_def by blast

lemma runs_bound: "(runs ^^ k) c c' \<Longrightarrow> cancel_inv c \<Longrightarrow> cancel_inv c' \<and> k + work c' \<le> work c"
proof (induction k arbitrary: c')
  case (Suc k)
  then obtain d where d: "(runs ^^ k) c d" "runs d c'" by auto
  with Suc.IH [OF d(1) Suc.prems(2)] runs_inv [OF d(2)] show ?case by fastforce
qed simp

lemma stuck_returned:
  assumes "cancel_inv c" "\<And>c'. \<not> runs c c'"
  shows "all_returned c"
proof (rule ccontr)
  assume "\<not> ?thesis"
  then obtain t where "t < length (cc_threads c)" "cc_threads c ! t \<noteq> []"
    unfolding all_returned_def by (metis in_set_conv_nth)
  from some_thread_runs [OF assms(1) this] show False using assms(2) unfolding runs_def by blast
qed

section \<open>Properties\<close>

text \<open>C6: no call of \<open>cancel\<close> or \<open>cancel_with\<close> hangs, although they take locks while they
  hold others and the tokens may form any graph: from every reachable state, however the
  threads are scheduled, at most \<open>work\<close> steps are possible without a new call, and when no
  thread can make a step every call has returned.\<close>

theorem cancellation_returns:
  assumes "reachable_cancel n c"
  shows "((runs ^^ k) c c' \<longrightarrow> k \<le> work c)
    \<and> ((runs ^^ k) c c' \<and> (\<forall>c''. \<not> runs c' c'') \<longrightarrow> all_returned c')"
proof -
  note inv = reachable_cancel_inv [OF assms]
  show ?thesis using runs_bound [OF _ inv, of k c'] stuck_returned [of c'] by fastforce
qed

lemma links_cancelled:
  assumes "propagates F s L" "\<And>p c. \<not> ahead F p c" "\<And>x. Wake x \<notin> F" "\<And>x. LockDrain x \<notin> F"
    and "(r, x) \<in> {(p, c) \<in> L. c \<in> tk_alive s}\<^sup>*" "is_cancelled s r"
  shows "is_cancelled s x"
  using assms(5)
proof (induction rule: rtrancl_induct)
  case (step y z)
  then show ?case using assms(1-4) unfolding propagates_def child_kept_def by blast
qed (rule assms(6))

text \<open>C5: cancellation reaches the descendants and nothing else. At any moment a cancelled
  token is a descendant, over registered children, of one that a client cancelled; when all
  calls have returned, every descendant of such a token over children that are still
  referenced is cancelled, and a task parked on a cancelled token can return.\<close>

theorem cancelled_exactly_descendants:
  assumes "reachable_cancel n c"
  shows "(is_cancelled (cc_tokens c) x \<longrightarrow> (\<exists>r \<in> cc_requested c. (r, x) \<in> (cc_links c)\<^sup>*))
    \<and> (all_returned c \<and> (\<exists>r \<in> cc_requested c. (r, x) \<in> {(p, y) \<in> cc_links c. y \<in> tk_alive (cc_tokens c)}\<^sup>*)
         \<longrightarrow> is_cancelled (cc_tokens c) x)
    \<and> (all_returned c \<and> is_cancelled (cc_tokens c) x \<and> cc_waiters c w = Parked x m
         \<longrightarrow> waiter_step (cc_tokens c) (cc_waiters c w) = Some (Returned x))"
proof -
  have inv: "frames_ok (all_frames c) (cc_tokens c) (cc_links c) (cc_requested c) (cc_waiters c)"
    using reachable_cancel_inv [OF assms] by (simp add: cancel_inv_def)
  note o = inv [unfolded frames_ok_def]
  have empty: "all_frames c = {}" if "all_returned c" using that by (simp add: all_frames_def all_returned_def)
  have "\<exists>r \<in> cc_requested c. (r, x) \<in> (cc_links c)\<^sup>*" if "is_cancelled (cc_tokens c) x"
    using o that unfolding isolated_def by blast
  moreover have "is_cancelled (cc_tokens c) x"
    if idle: "all_returned c" and r: "r \<in> cc_requested c"
      "(r, x) \<in> {(p, y) \<in> cc_links c. y \<in> tk_alive (cc_tokens c)}\<^sup>*" for r
  proof -
    have "is_cancelled (cc_tokens c) r" using o r(1) empty [OF idle] by (simp add: requests_done_def)
    with o show ?thesis
      using links_cancelled [OF _ _ _ _ r(2), of "all_frames c"] empty [OF idle] by (simp add: ahead_def)
  qed
  moreover have "waiter_step (cc_tokens c) (cc_waiters c w) = Some (Returned x)"
    if "all_returned c" "is_cancelled (cc_tokens c) x" "cc_waiters c w = Parked x m"
    using o that empty by (simp add: waiter_inv_def)
  ultimately show ?thesis by blast
qed

text \<open>Two tokens, the second registered under the first, by one thread; then the first is cancelled.\<close>

fun run_for :: "nat \<Rightarrow> cancel_config \<Rightarrow> cancel_config option" where
  "run_for 0 c = Some c"
| "run_for (Suc k) c = Option.bind (run_thread 0 c) (run_for k)"

definition sample_linking :: cancel_config where
  "sample_linking =
     (call 0 (CancelWith 1 0) (new_token (new_token (initial_cancel 1))))\<lparr>cc_links := {(0, 1)}\<rparr>"

definition sample_cancelling :: cancel_config where
  "sample_cancelling = (let c = the (run_for 3 sample_linking) in (call 0 (Cancel 0) c)\<lparr>cc_requested := {0}\<rparr>)"

definition sample_done :: cancel_config where
  "sample_done = the (run_for 9 sample_cancelling)"

lemma run_thread_threads: "run_thread t c = Some c' \<Longrightarrow> length (cc_threads c') = length (cc_threads c)
    \<and> cc_links c' = cc_links c \<and> cc_requested c' = cc_requested c"
  by (auto simp: run_thread_def split: list.splits)

lemma run_for_runs:
  "run_for k c = Some c' \<Longrightarrow> 0 < length (cc_threads c) \<Longrightarrow>
     (runs ^^ k) c c' \<and> length (cc_threads c') = length (cc_threads c)
     \<and> cc_links c' = cc_links c \<and> cc_requested c' = cc_requested c"
proof (induction k arbitrary: c)
  case (Suc k)
  then obtain d where d: "run_thread 0 c = Some d" "run_for k d = Some c'" by (auto simp: bind_eq_Some_conv)
  have "runs c d" using d(1) Suc.prems(2) by (auto simp: runs_def)
  moreover note same = run_thread_threads [OF d(1)]
  moreover have "0 < length (cc_threads d)" using same Suc.prems(2) by simp
  note IH = Suc.IH [OF d(2) this]
  ultimately have "(runs ^^ Suc k) c c'" by (blast intro: relpowp_Suc_I2)
  with IH same show ?case by simp
qed simp

lemma runs_reachable: "(runs ^^ k) c c' \<Longrightarrow> reachable_cancel n c \<Longrightarrow> reachable_cancel n c'"
proof (induction k arbitrary: c')
  case (Suc k)
  then obtain d where "(runs ^^ k) c d" "runs d c'" by auto
  then have "reachable_cancel n d" using Suc.IH Suc.prems(2) by blast
  moreover have "cancel_step d c'" using \<open>runs d c'\<close> unfolding runs_def by (blast intro: run)
  ultimately show ?case unfolding reachable_cancel_def by (rule rtranclp.rtrancl_into_rtrancl)
qed simp

lemma sample_linking_reachable: "reachable_cancel 1 sample_linking"
proof -
  let ?c = "new_token (new_token (initial_cancel 1))"
  have "reachable_cancel 1 ?c"
    unfolding reachable_cancel_def by (meson create rtranclp.rtrancl_into_rtrancl rtranclp.rtrancl_refl)
  moreover have "cancel_step ?c ((call 0 (CancelWith 1 0) ?c)
      \<lparr>cc_links := (if (1::nat) = 0 then cc_links ?c else insert (0, 1) (cc_links ?c))\<rparr>)"
    by (rule cancel_with_call) (simp_all add: new_token_def initial_cancel_def)
  moreover have "cc_links ?c = {}" by (simp add: new_token_def initial_cancel_def)
  ultimately show ?thesis
    unfolding sample_linking_def reachable_cancel_def by (simp add: rtranclp.rtrancl_into_rtrancl)
qed

lemma sample_linked:
  "\<not> Option.is_none (run_for 3 sample_linking) \<and> cc_threads (the (run_for 3 sample_linking)) = [[]]"
  by code_simp

lemma sample_ran: "\<not> Option.is_none (run_for 9 sample_cancelling) \<and> cc_threads sample_done = [[]]"
  by code_simp

lemma sample_cancelling_reachable:
  "reachable_cancel 1 sample_cancelling \<and> length (cc_threads sample_cancelling) = 1
   \<and> cc_links sample_cancelling = {(0, 1)}"
proof -
  let ?c = "the (run_for 3 sample_linking)"
  have some: "run_for 3 sample_linking = Some ?c" using sample_linked by (cases "run_for 3 sample_linking") auto
  have c: "reachable_cancel 1 ?c" "cc_links ?c = {(0, 1)}" "cc_requested ?c = {}"
    using run_for_runs [OF some] runs_reachable [OF _ sample_linking_reachable]
    by (auto simp: sample_linking_def call_def new_token_def initial_cancel_def)
  have alive: "0 \<in> tk_alive (cc_tokens ?c)" by code_simp
  have "cancel_step ?c ((call 0 (Cancel 0) ?c)\<lparr>cc_requested := insert 0 (cc_requested ?c)\<rparr>)"
    using sample_linked alive by (intro cancel_call) simp_all
  then have "reachable_cancel 1 sample_cancelling"
    using c(1,3) unfolding reachable_cancel_def sample_cancelling_def Let_def
    by (simp add: rtranclp.rtrancl_into_rtrancl)
  then show ?thesis using c(2) sample_linked by (simp add: sample_cancelling_def call_def)
qed

lemma sample_done_runs: "(runs ^^ 9) sample_cancelling sample_done \<and> cc_links sample_done = {(0, 1)}
    \<and> cc_requested sample_done = {0}"
proof -
  have some: "run_for 9 sample_cancelling = Some sample_done"
    using sample_ran unfolding sample_done_def by (cases "run_for 9 sample_cancelling") auto
  have "cc_requested sample_cancelling = {0}" by (simp add: sample_cancelling_def Let_def)
  then show ?thesis using run_for_runs [OF some] sample_cancelling_reachable by simp
qed

theorem cancellation_returns_witness: "all_returned sample_done \<and> 9 \<le> work sample_cancelling"
proof -
  have "\<not> runs sample_done c" for c using sample_ran by (simp add: runs_def run_thread_def)
  moreover have "(runs ^^ 9) sample_cancelling sample_done" using sample_done_runs by blast
  moreover have "reachable_cancel 1 sample_cancelling" using sample_cancelling_reachable by blast
  note cancellation_returns [OF this, of 9 sample_done]
  ultimately show ?thesis by blast
qed

theorem cancelled_exactly_descendants_witness: "is_cancelled (cc_tokens sample_done) 1"
proof -
  note facts = conjunct1 [OF sample_done_runs] conjunct1 [OF sample_cancelling_reachable]
  note exact = cancelled_exactly_descendants [OF runs_reachable [OF facts], of 1,
      THEN conjunct2, THEN conjunct1, THEN mp]
  have links: "cc_links sample_done = {(0, 1)}" "cc_requested sample_done = {0}"
    using sample_done_runs by simp_all
  have "1 \<in> tk_alive (cc_tokens sample_done)" by code_simp
  then have "(0, 1) \<in> {(p, y) \<in> cc_links sample_done. y \<in> tk_alive (cc_tokens sample_done)}\<^sup>*"
    using links by (intro r_into_rtrancl) simp
  moreover have "all_returned sample_done" using sample_ran by (simp add: all_returned_def)
  moreover have "0 \<in> cc_requested sample_done" using links by simp
  ultimately show ?thesis by (intro exact conjI bexI)
qed

end
