(* ===== verification/RedactionText.thy ===== *)
theory RedactionText
  imports Identifier "HOL-Library.Sublist" "HOL-Library.List_Lexorder" "HOL-Library.Product_Lexorder"
begin

text \<open>
  Credential protection on one text (\<open>stravia-credential-protection/src\<close>): the syntax of a
  reference (\<open>marker.rs\<close>), the strength of a secret (\<open>strength.rs\<close>), the rules in force
  (\<open>policy.rs\<close>) and the replacement of secrets by references and back (\<open>text.rs\<close>). A text
  is the list of its Unicode scalar values, since the code walks it by \<open>char\<close>; positions
  count them, which is the same on every slice the code takes (all at char boundaries).
\<close>

section \<open>Texts\<close>

type_synonym ustr = "nat list"

definition ascii :: "string \<Rightarrow> ustr" where
  "ascii s = map of_char s"

definition len_utf8 :: "nat \<Rightarrow> nat" where
  "len_utf8 c = (if c < 0x80 then 1 else if c < 0x800 then 2 else if c < 0x10000 then 3 else 4)"

text \<open>\<open>str::len\<close>.\<close>

definition byte_len :: "ustr \<Rightarrow> nat" where
  "byte_len s = sum_list (map len_utf8 s)"

definition lowercase :: "nat \<Rightarrow> bool" where
  "lowercase c = (97 \<le> c \<and> c \<le> 122)"

definition uppercase :: "nat \<Rightarrow> bool" where
  "uppercase c = (65 \<le> c \<and> c \<le> 90)"

definition decimal_digit :: "nat \<Rightarrow> bool" where
  "decimal_digit c = (48 \<le> c \<and> c \<le> 57)"

section \<open>References\<close>

definition marker_prefix :: ustr where
  "marker_prefix = ascii ''<!--sr:''"

definition marker_suffix :: ustr where
  "marker_suffix = ascii ''-->''"

definition reference_len :: nat where
  "reference_len = length marker_prefix + id_len + length marker_suffix"

definition matches_byte :: "nat \<Rightarrow> nat \<Rightarrow> bool" where
  "matches_byte index byte =
     (if index < length marker_prefix then byte = marker_prefix ! index
      else if index < length marker_prefix + id_len then lowercase byte
      else let i = index - length marker_prefix - id_len
           in i < length marker_suffix \<and> byte = marker_suffix ! i)"

definition valid_reference :: "ustr \<Rightarrow> bool" where
  "valid_reference v =
     (byte_len v = reference_len \<and> list_all (\<lambda>(index, byte). matches_byte index byte) (enumerate 0 v))"

definition reference_prefix :: "ustr \<Rightarrow> ustr option" where
  "reference_prefix v =
     (let reference = take reference_len v in if valid_reference reference then Some reference else None)"

text \<open>\<open>value.match_indices(PREFIX).find_map(..)\<close>; the offset is in bytes.\<close>

function find_reference_from :: "nat \<Rightarrow> ustr \<Rightarrow> (nat \<times> ustr) option" where
  "find_reference_from start v =
     (if v = [] then None
      else if prefix marker_prefix v
      then (case reference_prefix v of
              Some reference \<Rightarrow> Some (start, reference)
            | None \<Rightarrow> find_reference_from (start + byte_len marker_prefix) (drop (length marker_prefix) v))
      else find_reference_from (start + len_utf8 (hd v)) (tl v))"
  by pat_completeness auto
termination
  by (relation "measure (\<lambda>(_, v). length v)") (auto simp: marker_prefix_def ascii_def)

definition find_reference :: "ustr \<Rightarrow> (nat \<times> ustr) option" where
  "find_reference v = find_reference_from 0 v"

text \<open>\<open>new_reference\<close>, with the random letters of the identifier as an argument.\<close>

definition new_reference :: "(nat \<Rightarrow> u8) \<Rightarrow> ustr" where
  "new_reference samples = marker_prefix @ ascii (new_id samples) @ marker_suffix"

section \<open>Strength of a secret\<close>

definition weak_below :: nat where "weak_below = 8"
definition strong_from :: nat where "strong_from = 16"
definition strong_classes :: nat where "strong_classes = 3"

definition is_weak :: "ustr \<Rightarrow> bool" where
  "is_weak secret =
     (if strong_from - 1 < length secret then False
      else if \<not> weak_below - 1 < length secret then True
      else length (filter id
             [\<exists>c \<in> set secret. lowercase c,
              \<exists>c \<in> set secret. uppercase c,
              \<exists>c \<in> set secret. decimal_digit c,
              \<exists>c \<in> set secret. \<not> lowercase c \<and> \<not> uppercase c \<and> \<not> decimal_digit c]) < strong_classes)"

definition is_word_char :: "nat \<Rightarrow> bool" where
  "is_word_char c = (lowercase c \<or> uppercase c \<or> decimal_digit c \<or> c = 95)"

text \<open>\<open>next().is_some_and(p)\<close> and \<open>next_back().is_some_and(p)\<close> of \<open>chars()\<close>.\<close>

definition first_is :: "(nat \<Rightarrow> bool) \<Rightarrow> ustr \<Rightarrow> bool" where
  "first_is p s = (case s of [] \<Rightarrow> False | c # _ \<Rightarrow> p c)"

definition last_is :: "(nat \<Rightarrow> bool) \<Rightarrow> ustr \<Rightarrow> bool" where
  "last_is p s = first_is p (rev s)"

definition at_word_boundary :: "ustr \<Rightarrow> nat \<Rightarrow> nat \<Rightarrow> bool" where
  "at_word_boundary t start stop =
     (let matched = take (stop - start) (drop start t);
          touches_before = first_is is_word_char matched \<and> last_is is_word_char (take start t);
          touches_after = last_is is_word_char matched \<and> first_is is_word_char (drop stop t)
      in \<not> touches_before \<and> \<not> touches_after)"

section \<open>Mappings and the rules in force\<close>

record mapping =
  mp_reference :: ustr
  mp_secret :: ustr
  mp_rule_ids :: "string list"

definition active :: "mapping \<Rightarrow> bool" where
  "active m = valid_reference (mp_reference m)"

record rule_scope =
  rs_disabled :: "string set"
  rs_custom_enabled :: "string set"

text \<open>\<open>custom::ID_PREFIX\<close>.\<close>

definition custom_id_prefix :: string where
  "custom_id_prefix = ''custom.''"

definition rule_enabled :: "rule_scope \<Rightarrow> string \<Rightarrow> bool" where
  "rule_enabled scope rule_id =
     (if prefix custom_id_prefix rule_id then rule_id \<in> rs_custom_enabled scope
      else rule_id \<notin> rs_disabled scope)"

definition scope_allows :: "rule_scope \<Rightarrow> mapping \<Rightarrow> bool" where
  "scope_allows scope m = (mp_rule_ids m = [] \<or> (\<exists>r \<in> set (mp_rule_ids m). rule_enabled scope r))"

section \<open>Replacement\<close>

record needle_candidate =
  cn_mapping :: mapping
  cn_needle :: ustr
  cn_weak :: bool

record candidates =
  cs_restore :: bool
  cs_entries :: "needle_candidate list"

text \<open>
  \<open>Candidates::build\<close>. \<open>sort_by\<close> is stable and compares by length in bytes (longest
  first), needle and reference; the order of UTF-8 texts is that of their scalar values.
\<close>

definition build_candidates :: "mapping list \<Rightarrow> bool \<Rightarrow> (mapping \<Rightarrow> bool) \<Rightarrow> candidates" where
  "build_candidates mappings restore incl =
     \<lparr>cs_restore = restore,
      cs_entries = sort_key (\<lambda>c. (- int (byte_len (cn_needle c)), cn_needle c, mp_reference (cn_mapping c)))
        (map (\<lambda>m. \<lparr>cn_mapping = m, cn_needle = (if restore then mp_reference m else mp_secret m),
                   cn_weak = (\<not> restore \<and> is_weak (mp_secret m))\<rparr>)
          (filter (\<lambda>m. incl m \<and> mp_secret m \<noteq> []) mappings))\<rparr>"

definition outbound :: "mapping list \<Rightarrow> (mapping \<Rightarrow> bool) \<Rightarrow> candidates" where
  "outbound mappings incl = build_candidates mappings False incl"

definition restoring :: "mapping list \<Rightarrow> candidates" where
  "restoring mappings = build_candidates mappings True active"

definition find_candidate :: "candidates \<Rightarrow> ustr \<Rightarrow> nat \<Rightarrow> needle_candidate option" where
  "find_candidate cs t position =
     find (\<lambda>c. prefix (cn_needle c) (drop position t)
        \<and> (\<not> cn_weak c \<or> at_word_boundary t position (position + length (cn_needle c))))
       (cs_entries cs)"

text \<open>
  The loop of \<open>replace\<close>: \<open>result\<close>, \<open>copied\<close>, \<open>position\<close> and \<open>used\<close> as in the code. An empty
  needle would not advance; the loop is partial, and the candidates the code builds have none.
\<close>

partial_function (option) replace_loop ::
    "candidates \<Rightarrow> ustr \<Rightarrow> ustr \<Rightarrow> nat \<Rightarrow> nat \<Rightarrow> ustr set \<Rightarrow> (ustr \<times> nat \<times> ustr set) option" where
  "replace_loop cs t result copied position used =
     (if \<not> position < length t then Some (result, copied, used)
      else case (if cs_restore cs then None else reference_prefix (drop position t)) of
        Some reference \<Rightarrow> replace_loop cs t result copied (position + length reference) used
      | None \<Rightarrow>
          (case find_candidate cs t position of
             Some c \<Rightarrow>
               let m = cn_mapping c;
                   (from, to) = (if cs_restore cs then (mp_reference m, mp_secret m) else (mp_secret m, mp_reference m));
                   position' = position + length from
               in replace_loop cs t (result @ take (position - copied) (drop copied t) @ to)
                    position' position' (insert (mp_reference m) used)
           | None \<Rightarrow> replace_loop cs t result copied (position + 1) used))"

declare replace_loop.simps [code]

text \<open>\<open>replace\<close>: \<open>None\<close> inside is \<open>Cow::Borrowed\<close>, an unchanged text.\<close>

definition replace :: "ustr \<Rightarrow> candidates \<Rightarrow> ustr set \<Rightarrow> (ustr option \<times> ustr set) option" where
  "replace t cs used =
     (if t = [] \<or> cs_entries cs = [] then Some (None, used)
      else map_option (\<lambda>(result, copied, used').
             (if copied = 0 then None else Some (result @ drop copied t), used'))
        (replace_loop cs t [] 0 0 used))"

text \<open>The text a \<open>Cow\<close> stands for.\<close>

definition cow :: "ustr \<Rightarrow> ustr option \<Rightarrow> ustr" where
  "cow t c = (case c of None \<Rightarrow> t | Some s \<Rightarrow> s)"

section \<open>The shape of a reference\<close>

lemma marker_lengths: "length marker_prefix = 7" "length marker_suffix = 3" "reference_len = 38"
  by (simp_all add: marker_prefix_def marker_suffix_def reference_len_def ascii_def id_len_def)

lemma nth_enum: "list_all (\<lambda>(i, b). P i b) (enumerate n v) \<longleftrightarrow> (\<forall>i < length v. P (n + i) (v ! i))"
proof (induction v arbitrary: n)
  case (Cons b v)
  have "(\<forall>i < length (b # v). P (n + i) ((b # v) ! i)) \<longleftrightarrow> P n b \<and> (\<forall>i < length v. P (Suc n + i) (v ! i))"
    by (auto simp: nth_Cons split: nat.splits)
  then show ?case using Cons [of "Suc n"] by simp
qed simp

lemma nth_ascii_prefix: "i < 7 \<Longrightarrow> marker_prefix ! i \<in> {33, 45, 58, 60, 114, 115} \<and> (marker_prefix ! i = 60 \<longleftrightarrow> i = 0)"
  by (auto simp: marker_prefix_def ascii_def numeral_eq_Suc less_Suc_eq)

lemma nth_ascii_suffix: "i < 3 \<Longrightarrow> marker_suffix ! i \<in> {45, 62}"
  by (auto simp: marker_suffix_def ascii_def numeral_eq_Suc less_Suc_eq)

lemma matches_byte_facts:
  assumes "matches_byte i b"
  shows "b < 128 \<and> (b = 60 \<longleftrightarrow> i = 0) \<and> i < 38"
proof -
  consider "i < 7" "b = marker_prefix ! i" | "7 \<le> i" "i < 35" "lowercase b"
    | j where "i = 35 + j" "j < 3" "b = marker_suffix ! j"
    using assms unfolding matches_byte_def marker_lengths id_len_def Let_def
    by (cases "i < 7"; cases "i < 35") (auto intro: le_Suc_ex simp: not_less dest: le_Suc_ex)
  then show ?thesis
  proof cases
    case 1 then show ?thesis using nth_ascii_prefix [of i] by auto
  next
    case 2 then show ?thesis by (auto simp: lowercase_def)
  next
    case 3 then show ?thesis using nth_ascii_suffix [of j] by auto
  qed
qed

lemma matches_byte_0 [simp]: "matches_byte 0 b \<longleftrightarrow> b = 60"
  by (simp add: matches_byte_def marker_prefix_def ascii_def)

lemma byte_len_ascii: "(\<And>c. c \<in> set v \<Longrightarrow> c < 128) \<Longrightarrow> byte_len v = length v"
  by (induction v) (simp_all add: byte_len_def len_utf8_def)

lemma valid_reference_iff:
  "valid_reference v \<longleftrightarrow> length v = 38 \<and> (\<forall>i < 38. matches_byte i (v ! i))"
proof -
  have "byte_len v = length v" if "\<forall>i < length v. matches_byte i (v ! i)"
    using that matches_byte_facts by (intro byte_len_ascii) (metis in_set_conv_nth)
  then show ?thesis
    by (auto simp: valid_reference_def nth_enum marker_lengths)
qed

lemma valid_reference_length: "valid_reference v \<Longrightarrow> length v = 38"
  by (simp add: valid_reference_iff)

text \<open>The only \<open><\<close> of a reference is its first character.\<close>

lemma valid_reference_open:
  assumes "valid_reference v"
  obtains w where "v = 60 # w" "60 \<notin> set w" "length w = 37"
proof (cases v)
  case Nil
  then show ?thesis using assms by (simp add: valid_reference_iff)
next
  case (Cons c w)
  have m: "\<And>i. i < 38 \<Longrightarrow> matches_byte i (v ! i)" and l: "length v = 38"
    using assms by (simp_all add: valid_reference_iff)
  have "c = 60" using m [of 0] Cons by simp
  moreover have "60 \<notin> set w"
  proof
    assume "60 \<in> set w"
    then obtain i where i: "i < length w" "w ! i = 60" by (auto simp: in_set_conv_nth)
    with m [of "Suc i"] l Cons have "matches_byte (Suc i) 60" by simp
    with matches_byte_facts [of "Suc i" 60] show False by simp
  qed
  moreover have "length w = 37" using l Cons by simp
  ultimately show ?thesis using that Cons by blast
qed

lemma reference_prefix_Some: "reference_prefix v = Some r \<longleftrightarrow> valid_reference r \<and> prefix r v"
proof
  assume "reference_prefix v = Some r"
  then show "valid_reference r \<and> prefix r v"
    by (auto simp: reference_prefix_def Let_def take_is_prefix split: if_splits)
next
  assume r: "valid_reference r \<and> prefix r v"
  then obtain s where "v = r @ s" by (auto simp: prefix_def)
  with r show "reference_prefix v = Some r"
    by (simp add: reference_prefix_def Let_def marker_lengths valid_reference_iff)
qed

lemma new_reference_valid:
  assumes "\<And>i. 97 \<le> samples i \<and> samples i \<le> 122"
  shows "valid_reference (new_reference samples)"
proof -
  have "lowercase (of_char (char_of (unat (samples i)) :: char))" for i
    using assms [of i] unat_lt256 [of "samples i"]
    by (simp add: lowercase_def word_le_nat_alt)
  moreover have "length (new_reference samples) = 38"
    by (simp add: new_reference_def new_id_def ascii_def marker_prefix_def marker_suffix_def id_len_def)
  ultimately show ?thesis
    unfolding valid_reference_iff
    by (auto simp: matches_byte_def new_reference_def marker_lengths nth_append id_len_def new_id_def
        ascii_def Let_def)
qed

section \<open>The pieces of a replacement\<close>

text \<open>
  The loop cuts the text into pieces: kept text (one character, or a whole reference that is
  stepped over) and needles that are swapped. \<open>piece_in\<close> is what a piece reads, \<open>piece_out\<close>
  what it leaves.
\<close>

datatype piece = Keep ustr | Swap mapping

definition swap_from :: "candidates \<Rightarrow> mapping \<Rightarrow> ustr" where
  "swap_from cs m = (if cs_restore cs then mp_reference m else mp_secret m)"

definition swap_to :: "candidates \<Rightarrow> mapping \<Rightarrow> ustr" where
  "swap_to cs m = (if cs_restore cs then mp_secret m else mp_reference m)"

fun piece_in :: "candidates \<Rightarrow> piece \<Rightarrow> ustr" where
  "piece_in cs (Keep x) = x"
| "piece_in cs (Swap m) = swap_from cs m"

fun piece_out :: "candidates \<Rightarrow> piece \<Rightarrow> ustr" where
  "piece_out cs (Keep x) = x"
| "piece_out cs (Swap m) = swap_to cs m"

definition piece_at :: "candidates \<Rightarrow> ustr \<Rightarrow> nat \<Rightarrow> piece" where
  "piece_at cs t p =
     (case (if cs_restore cs then None else reference_prefix (drop p t)) of
        Some r \<Rightarrow> Keep r
      | None \<Rightarrow> (case find_candidate cs t p of Some c \<Rightarrow> Swap (cn_mapping c) | None \<Rightarrow> Keep [t ! p]))"

definition wf_candidates :: "candidates \<Rightarrow> bool" where
  "wf_candidates cs \<longleftrightarrow>
     (\<forall>c \<in> set (cs_entries cs). cn_needle c \<noteq> [] \<and> cn_needle c = swap_from cs (cn_mapping c))"

function pieces :: "candidates \<Rightarrow> ustr \<Rightarrow> nat \<Rightarrow> piece list" where
  "pieces cs t p =
     (if \<not> p < length t then []
      else piece_at cs t p # pieces cs t (p + max 1 (length (piece_in cs (piece_at cs t p)))))"
  by pat_completeness auto
termination by (relation "measure (\<lambda>(_, t, p). length t - p)") auto

declare pieces.simps [simp del]

definition swapped :: "piece list \<Rightarrow> mapping set" where
  "swapped ps = {m. Swap m \<in> set ps}"

lemma swapped_simps [simp]:
  "swapped [] = {}" "swapped (Keep x # ps) = swapped ps" "swapped (Swap m # ps) = insert m (swapped ps)"
  by (auto simp: swapped_def)

lemma find_candidate_Some:
  "find_candidate cs t p = Some c \<Longrightarrow>
     c \<in> set (cs_entries cs) \<and> prefix (cn_needle c) (drop p t)
     \<and> (\<not> cn_weak c \<or> at_word_boundary t p (p + length (cn_needle c)))"
  unfolding find_candidate_def find_Some_iff by (metis nth_mem)

lemma piece_at_cases:
  assumes "p < length t" "wf_candidates cs"
  obtains (atom) r where "piece_at cs t p = Keep r" "valid_reference r" "prefix r (drop p t)"
      "reference_prefix (drop p t) = Some r" "\<not> cs_restore cs"
  | (swap) c where "piece_at cs t p = Swap (cn_mapping c)" "c \<in> set (cs_entries cs)"
      "find_candidate cs t p = Some c" "prefix (swap_from cs (cn_mapping c)) (drop p t)"
      "swap_from cs (cn_mapping c) \<noteq> []" "cs_restore cs \<or> reference_prefix (drop p t) = None"
  | (keep) "piece_at cs t p = Keep [t ! p]" "find_candidate cs t p = None"
      "cs_restore cs \<or> reference_prefix (drop p t) = None"
proof (cases "if cs_restore cs then None else reference_prefix (drop p t)")
  case (Some r)
  then show ?thesis
    by (intro atom [of r]) (auto simp: piece_at_def reference_prefix_Some split: if_splits)
next
  case None
  then have none: "cs_restore cs \<or> reference_prefix (drop p t) = None" by (auto split: if_splits)
  show ?thesis
  proof (cases "find_candidate cs t p")
    case (Some c)
    note c = find_candidate_Some [OF Some]
    with assms(2) have "cn_needle c \<noteq> []" "cn_needle c = swap_from cs (cn_mapping c)"
      unfolding wf_candidates_def by blast+
    with c Some \<open>_ = None\<close> none show ?thesis by (intro swap [of c]) (simp_all add: piece_at_def)
  qed (use keep none None in \<open>simp add: piece_at_def\<close>)
qed

lemma piece_in_prefix:
  assumes "p < length t" "wf_candidates cs"
  shows "prefix (piece_in cs (piece_at cs t p)) (drop p t) \<and> piece_in cs (piece_at cs t p) \<noteq> []"
  using assms(1,2)
proof (cases rule: piece_at_cases)
  case (atom r)
  then show ?thesis using valid_reference_length [of r] by auto
next
  case keep
  then show ?thesis using assms(1) by (simp add: Cons_nth_drop_Suc [symmetric])
qed simp

lemma pieces_Nil [simp]: "length t \<le> p \<Longrightarrow> pieces cs t p = []"
  by (simp add: pieces.simps)

lemma pieces_Cons:
  assumes "p < length t" "wf_candidates cs"
  shows "pieces cs t p = piece_at cs t p # pieces cs t (p + length (piece_in cs (piece_at cs t p)))"
    and "p + length (piece_in cs (piece_at cs t p)) \<le> length t"
proof -
  have n: "piece_in cs (piece_at cs t p) \<noteq> []" "prefix (piece_in cs (piece_at cs t p)) (drop p t)"
    using piece_in_prefix [OF assms] by simp_all
  then show "p + length (piece_in cs (piece_at cs t p)) \<le> length t"
    using prefix_length_le [OF n(2)] assms(1) by simp
  from n(1) have "0 < length (piece_in cs (piece_at cs t p))" by simp
  then have "max 1 (length (piece_in cs (piece_at cs t p))) = length (piece_in cs (piece_at cs t p))"
    by (simp add: max_def Suc_le_eq)
  with assms show "pieces cs t p = piece_at cs t p # pieces cs t (p + length (piece_in cs (piece_at cs t p)))"
    by (simp add: pieces.simps [of cs t p])
qed

text \<open>Induction along the pieces of a text.\<close>

lemma pieces_induct [consumes 1, case_names Nil Cons]:
  assumes "wf_candidates cs"
    and "\<And>p. length t \<le> p \<Longrightarrow> P p"
    and "\<And>p. p < length t \<Longrightarrow> P (p + length (piece_in cs (piece_at cs t p))) \<Longrightarrow> P p"
  shows "P p"
proof (induction "length t - p" arbitrary: p rule: less_induct)
  case less
  show ?case
  proof (cases "p < length t")
    case True
    have "0 < length (piece_in cs (piece_at cs t p))"
      using piece_in_prefix [OF True assms(1)] by blast
    with True have "length t - (p + length (piece_in cs (piece_at cs t p))) < length t - p"
      by (intro diff_less_mono2) simp_all
    with less have "P (p + length (piece_in cs (piece_at cs t p)))" by blast
    with True show ?thesis by (rule assms(3))
  qed (simp add: assms(2))
qed

lemma pieces_in:
  assumes "wf_candidates cs"
  shows "concat (map (piece_in cs) (pieces cs t p)) = drop p t"
  using assms
proof (induction p rule: pieces_induct [where t = t])
  case (Cons p)
  obtain rest where "drop p t = piece_in cs (piece_at cs t p) @ rest"
    using piece_in_prefix [OF Cons(1) assms] by (auto simp: prefix_def)
  moreover from this have "drop (p + length (piece_in cs (piece_at cs t p))) t = rest"
    using drop_drop [of "length (piece_in cs (piece_at cs t p))" p t] by (simp only: add.commute) simp
  ultimately show ?case using Cons pieces_Cons(1) [OF Cons(1) assms] by simp
qed simp

lemma replace_loop_pieces:
  assumes "wf_candidates cs" "copied \<le> p" "p \<le> length t"
  shows "\<exists>res cop. replace_loop cs t result copied p used
      = Some (res, cop, used \<union> mp_reference ` swapped (pieces cs t p))
    \<and> res @ drop cop t = result @ take (p - copied) (drop copied t) @ concat (map (piece_out cs) (pieces cs t p))
    \<and> (cop = 0 \<longleftrightarrow> copied = 0 \<and> swapped (pieces cs t p) = {}) \<and> (cop = 0 \<longrightarrow> res = result)"
  using assms(1) assms(2,3)
proof (induction p arbitrary: result copied used rule: pieces_induct [where t = t])
  case (Nil p)
  then show ?case
    by (intro exI [of _ result] exI [of _ copied]) (simp add: replace_loop.simps drop_drop [symmetric] del: drop_drop)
next
  case (Cons p)
  let ?x = "piece_in cs (piece_at cs t p)" and ?p' = "p + length (piece_in cs (piece_at cs t p))"
  note cons = pieces_Cons [OF Cons(1) assms(1)]
  have x: "prefix ?x (drop p t)" "?x \<noteq> []" using piece_in_prefix [OF Cons(1) assms(1)] by simp_all
  have step: "take (?p' - copied) (drop copied t) = take (p - copied) (drop copied t) @ ?x"
  proof -
    have "?p' - copied = (p - copied) + length ?x" using Cons.prems by simp
    moreover have "take (length ?x) (drop p t) = ?x" using x(1) by (auto simp: prefix_def)
    ultimately show ?thesis using Cons.prems by (simp only: take_add drop_drop) simp
  qed
  from Cons(1) assms(1) show ?case
  proof (cases rule: piece_at_cases)
    case (atom r)
    then have loop: "replace_loop cs t result copied p used = replace_loop cs t result copied ?p' used"
      using Cons(1) by (subst replace_loop.simps) simp
    show ?thesis using Cons.IH [of copied result used] Cons.prems cons step atom unfolding loop by simp
  next
    case (swap c)
    let ?m = "cn_mapping c" and ?res = "result @ take (p - copied) (drop copied t) @ swap_to cs (cn_mapping c)"
    have loop: "replace_loop cs t result copied p used
        = replace_loop cs t ?res ?p' ?p' (insert (mp_reference ?m) used)"
      using Cons(1) swap by (subst replace_loop.simps) (auto simp: swap_from_def swap_to_def Let_def)
    from Cons.IH [of ?p' ?res "insert (mp_reference ?m) used"] cons swap x(2)
    show ?thesis unfolding loop by (auto simp: Un_insert_left Un_insert_right)
  next
    case keep
    then have loop: "replace_loop cs t result copied p used = replace_loop cs t result copied ?p' used"
      using Cons(1) by (subst replace_loop.simps) auto
    show ?thesis using Cons.IH [of copied result used] Cons.prems cons step keep unfolding loop by simp
  qed
qed

lemma replace_pieces:
  assumes "wf_candidates cs"
  shows "\<exists>r. replace t cs used = Some (r, used \<union> mp_reference ` swapped (pieces cs t 0))
    \<and> cow t r = concat (map (piece_out cs) (pieces cs t 0))
    \<and> (r = None \<longleftrightarrow> swapped (pieces cs t 0) = {})"
proof (cases "t = [] \<or> cs_entries cs = []")
  case True
  have "swapped (pieces cs t 0) = {} \<and> concat (map (piece_out cs) (pieces cs t 0)) = t" if "cs_entries cs = []"
  proof -
    have "swapped (pieces cs t p) = {} \<and> map (piece_out cs) (pieces cs t p) = map (piece_in cs) (pieces cs t p)" for p
      using assms
    proof (induction p rule: pieces_induct [where t = t])
      case (Cons p)
      from Cons(1) assms show ?case
        by (cases rule: piece_at_cases)
          (use Cons that pieces_Cons(1) [OF Cons(1) assms] in \<open>simp_all add: find_candidate_def\<close>)
    qed simp
    from this [of 0] show ?thesis using pieces_in [OF assms, of t 0] by (simp only:) simp
  qed
  with True show ?thesis by (auto simp: replace_def cow_def)
next
  case False
  with replace_loop_pieces [OF assms, of 0 0 t "[]" used] show ?thesis
    by (auto simp: replace_def cow_def split: option.splits)
qed

section \<open>What restoring and redacting do\<close>

lemma wf_outbound [simp]: "wf_candidates (outbound ms incl)"
  by (auto simp: wf_candidates_def outbound_def build_candidates_def swap_from_def)

lemma wf_restoring [simp]: "wf_candidates (restoring ms)"
  by (auto simp: wf_candidates_def restoring_def build_candidates_def swap_from_def active_def
      valid_reference_iff)

lemma cs_restore_simps [simp]: "cs_restore (restoring ms)" "\<not> cs_restore (outbound ms incl)"
  by (simp_all add: restoring_def outbound_def build_candidates_def)

text \<open>Restoring needs no context: it is a left-to-right rewriting of known references.\<close>

definition lookup_reference :: "mapping list \<Rightarrow> ustr \<Rightarrow> mapping option" where
  "lookup_reference ms r = find (\<lambda>m. mp_reference m = r \<and> active m \<and> mp_secret m \<noteq> []) ms"

function restore_text :: "mapping list \<Rightarrow> ustr \<Rightarrow> ustr" where
  "restore_text ms s =
     (if s = [] then [] else case lookup_reference ms (take 38 s) of
        Some m \<Rightarrow> mp_secret m @ restore_text ms (drop 38 s)
      | None \<Rightarrow> hd s # restore_text ms (tl s))"
  by pat_completeness auto
termination by (relation "measure (\<lambda>(_, s). length s)") auto

function restored_refs :: "mapping list \<Rightarrow> ustr \<Rightarrow> ustr set" where
  "restored_refs ms s =
     (if s = [] then {} else case lookup_reference ms (take 38 s) of
        Some m \<Rightarrow> insert (mp_reference m) (restored_refs ms (drop 38 s))
      | None \<Rightarrow> restored_refs ms (tl s))"
  by pat_completeness auto
termination by (relation "measure (\<lambda>(_, s). length s)") auto

declare restore_text.simps [simp del] restored_refs.simps [simp del]

lemma lookup_reference_Some:
  "lookup_reference ms r = Some m \<Longrightarrow>
     m \<in> set ms \<and> mp_reference m = r \<and> active m \<and> mp_secret m \<noteq> [] \<and> valid_reference r"
  by (auto simp: lookup_reference_def find_Some_iff active_def)

lemma lookup_reference_None:
  "lookup_reference ms r = None \<longleftrightarrow> (\<forall>m \<in> set ms. \<not> (mp_reference m = r \<and> active m \<and> mp_secret m \<noteq> []))"
  by (auto simp: lookup_reference_def find_None_iff)

lemma find_filter: "find P xs = (case filter P xs of [] \<Rightarrow> None | x # _ \<Rightarrow> Some x)"
  by (induction xs) auto

lemma filter_sort_key_const:
  assumes "\<And>x. x \<in> set xs \<Longrightarrow> P x \<Longrightarrow> f x = k"
  shows "filter P (sort_key f xs) = filter P xs"
proof -
  have "filter P ys = filter P (filter (\<lambda>x. f x = k) ys)" if "set ys = set xs" for ys
    using that assms by (simp add: filter_filter) (metis (mono_tags, lifting) filter_cong)
  from this [of "sort_key f xs"] this [of xs] show ?thesis by (simp only: sort_key_stable set_sort)
qed

lemma find_restoring:
  "map_option cn_mapping (find_candidate (restoring ms) t p) = lookup_reference ms (take 38 (drop p t))"
proof -
  let ?mk = "\<lambda>m. \<lparr>cn_mapping = m, cn_needle = mp_reference m, cn_weak = False\<rparr>"
  let ?P = "\<lambda>c. prefix (cn_needle c) (drop p t)
        \<and> (\<not> cn_weak c \<or> at_word_boundary t p (p + length (cn_needle c)))"
  let ?xs = "map ?mk (filter (\<lambda>m. active m \<and> mp_secret m \<noteq> []) ms)"
  let ?f = "\<lambda>c. (- int (byte_len (cn_needle c)), cn_needle c, mp_reference (cn_mapping c))"
  let ?r = "take 38 (drop p t)"
  have pre: "prefix (mp_reference m) (drop p t) \<longleftrightarrow> mp_reference m = ?r" if "active m" for m
  proof
    assume "prefix (mp_reference m) (drop p t)"
    then show "mp_reference m = ?r"
      using valid_reference_length [of "mp_reference m"] that by (auto simp: active_def prefix_def)
  next
    assume "mp_reference m = ?r"
    then show "prefix (mp_reference m) (drop p t)" by (simp only: take_is_prefix)
  qed
  have "filter ?P (sort_key ?f ?xs) = filter ?P ?xs"
    by (rule filter_sort_key_const [where k = "(- int (byte_len ?r), ?r, ?r)"]) (auto simp: pre)
  also have "filter ?P ?xs = map ?mk (filter (\<lambda>m. mp_reference m = ?r \<and> active m \<and> mp_secret m \<noteq> []) ms)"
  proof -
    have "filter (\<lambda>x. active x \<and> mp_secret x \<noteq> [] \<and> prefix (mp_reference x) (drop p t)) ms
        = filter (\<lambda>m. mp_reference m = ?r \<and> active m \<and> mp_secret m \<noteq> []) ms"
      by (intro filter_cong) (use pre in blast)+
    then show ?thesis by (simp add: filter_map o_def)
  qed
  finally show ?thesis
    by (simp add: find_candidate_def find_filter [of ?P] lookup_reference_def find_filter restoring_def
        build_candidates_def split: list.splits)
qed

lemma restore_Nil [simp]: "restore_text ms [] = []" "restored_refs ms [] = {}"
  by (simp_all add: restore_text.simps restored_refs.simps)

lemma restore_known:
  assumes "lookup_reference ms r = Some m"
  shows "restore_text ms (r @ s) = mp_secret m @ restore_text ms s"
    and "restored_refs ms (r @ s) = insert r (restored_refs ms s)"
proof -
  have r: "length r = 38" "mp_reference m = r"
    using lookup_reference_Some [OF assms] valid_reference_length by auto
  then obtain c w where w: "r = c # w" "length w = 37" by (cases r) auto
  with assms r show "restore_text ms (r @ s) = mp_secret m @ restore_text ms s"
    and "restored_refs ms (r @ s) = insert r (restored_refs ms s)"
    by (simp_all add: restore_text.simps [of ms "c # w @ s"] restored_refs.simps [of ms "c # w @ s"])
qed

lemma restore_unknown:
  assumes "lookup_reference ms (c # take 37 s) = None"
  shows "restore_text ms (c # s) = c # restore_text ms s" "restored_refs ms (c # s) = restored_refs ms s"
  using assms by (simp_all add: restore_text.simps [of ms "c # s"] restored_refs.simps [of ms "c # s"])

lemma restoring_pieces:
  "concat (map (piece_out (restoring ms)) (pieces (restoring ms) t p)) = restore_text ms (drop p t)
   \<and> mp_reference ` swapped (pieces (restoring ms) t p) = restored_refs ms (drop p t)"
  using wf_restoring [of ms]
proof (induction p rule: pieces_induct [where t = t])
  case (Nil p)
  then show ?case by (simp add: restore_text.simps restored_refs.simps)
next
  case (Cons p)
  let ?cs = "restoring ms"
  have d: "drop p t = t ! p # drop (Suc p) t" using Cons(1) by (rule Cons_nth_drop_Suc [symmetric])
  note cons = pieces_Cons(1) [OF Cons(1) wf_restoring, of ms]
  show ?case
  proof (cases "find_candidate ?cs t p")
    case None
    then have "piece_at ?cs t p = Keep [t ! p]" by (simp add: piece_at_def)
    moreover have "lookup_reference ms (t ! p # take 37 (drop (Suc p) t)) = None"
      using find_restoring [of ms t p] None d by simp
    note restore_unknown [OF this]
    ultimately show ?thesis using Cons.IH cons d by simp
  next
    case (Some c)
    then have at: "piece_at ?cs t p = Swap (cn_mapping c)" by (simp add: piece_at_def)
    have l: "lookup_reference ms (take 38 (drop p t)) = Some (cn_mapping c)"
      using find_restoring [of ms t p] Some by simp
    then have "length (mp_reference (cn_mapping c)) = 38"
      by (auto dest!: lookup_reference_Some valid_reference_length)
    then have "drop (p + length (piece_in ?cs (piece_at ?cs t p))) t = drop 38 (drop p t)"
      using at by (simp add: swap_from_def add.commute)
    moreover note restore_known [OF l, of "drop 38 (drop p t)", unfolded append_take_drop_id]
    moreover have "mp_reference (cn_mapping c) = take 38 (drop p t)" using lookup_reference_Some [OF l] by simp
    ultimately show ?thesis using Cons.IH cons at by (simp add: swap_to_def)
  qed
qed

text \<open>Restoring terminates and is the rewriting.\<close>

lemma replace_restoring:
  obtains r where "replace t (restoring ms) used = Some (r, used \<union> restored_refs ms t)"
    "cow t r = restore_text ms t"
  using replace_pieces [OF wf_restoring, of t ms used] restoring_pieces [of ms t 0] by auto

text \<open>Characters at which no reference can start are kept.\<close>

lemma not_open_unknown: "c \<noteq> 60 \<Longrightarrow> lookup_reference ms (c # s) = None"
proof (rule ccontr)
  assume "c \<noteq> 60" "lookup_reference ms (c # s) \<noteq> None"
  then have "valid_reference (c # s)" using lookup_reference_Some by blast
  from valid_reference_open [OF this] \<open>c \<noteq> 60\<close> show False by auto
qed

lemma restore_skip:
  "60 \<notin> set w \<Longrightarrow> restore_text ms (w @ s) = w @ restore_text ms s \<and> restored_refs ms (w @ s) = restored_refs ms s"
proof (induction w)
  case (Cons c w)
  then have "lookup_reference ms (c # take 37 (w @ s)) = None" by (intro not_open_unknown) simp
  from restore_unknown [OF this] Cons show ?case by simp
qed simp

lemma restore_open_skip:
  assumes "60 \<notin> set w" "lookup_reference ms (60 # take 37 (w @ s)) = None"
  shows "restore_text ms ((60 # w) @ s) = (60 # w) @ restore_text ms s"
    and "restored_refs ms ((60 # w) @ s) = restored_refs ms s"
  using restore_unknown [OF assms(2)] restore_skip [OF assms(1), of ms s] by simp_all

section \<open>Redaction can be undone\<close>

lemma outbound_entry:
  "c \<in> set (cs_entries (outbound ms incl)) \<Longrightarrow>
     cn_mapping c \<in> set ms \<and> incl (cn_mapping c) \<and> mp_secret (cn_mapping c) \<noteq> []
     \<and> cn_needle c = mp_secret (cn_mapping c)"
  by (auto simp: outbound_def build_candidates_def)

abbreviation redacted_from :: "mapping list \<Rightarrow> (mapping \<Rightarrow> bool) \<Rightarrow> ustr \<Rightarrow> nat \<Rightarrow> ustr" where
  "redacted_from ms incl t p \<equiv>
     concat (map (piece_out (outbound ms incl)) (pieces (outbound ms incl) t p))"

text \<open>What the pieces of an outbound text begin with: a reference, or a kept character.\<close>

lemma outbound_cases:
  assumes "p < length t" "\<forall>m \<in> set ms. active m"
  obtains (reference) r p' where "valid_reference r" "redacted_from ms incl t p = r @ redacted_from ms incl t p'"
      "p < p'" "p' = p + length (piece_in (outbound ms incl) (piece_at (outbound ms incl) t p))"
      "piece_at (outbound ms incl) t p = Keep r \<and> prefix r (drop p t) \<and> drop p t = r @ drop p' t
       \<or> (\<exists>m \<in> set ms. piece_at (outbound ms incl) t p = Swap m \<and> mp_secret m \<noteq> [] \<and> mp_reference m = r
            \<and> drop p t = mp_secret m @ drop p' t)"
  | (kept) "redacted_from ms incl t p = t ! p # redacted_from ms incl t (Suc p)"
      "piece_at (outbound ms incl) t p = Keep [t ! p]" "find_candidate (outbound ms incl) t p = None"
proof -
  let ?cs = "outbound ms incl"
  let ?p' = "p + length (piece_in ?cs (piece_at ?cs t p))"
  note wf = wf_outbound [of ms incl]
  note cons = pieces_Cons(1) [OF assms(1) wf]
  have pre: "drop p t = piece_in ?cs (piece_at ?cs t p) @ drop ?p' t" "p < ?p'"
  proof -
    obtain rest where "drop p t = piece_in ?cs (piece_at ?cs t p) @ rest"
      using piece_in_prefix [OF assms(1) wf] by (auto simp: prefix_def)
    moreover from this have "drop ?p' t = rest"
      using drop_drop [of "length (piece_in ?cs (piece_at ?cs t p))" p t] by (simp only: add.commute) simp
    ultimately show "drop p t = piece_in ?cs (piece_at ?cs t p) @ drop ?p' t" by simp
    show "p < ?p'" using piece_in_prefix [OF assms(1) wf] by simp
  qed
  from assms(1) wf show ?thesis
  proof (cases rule: piece_at_cases)
    case (atom r)
    with cons pre show ?thesis by (intro reference [of r ?p']) simp_all
  next
    case (swap c)
    let ?m = "cn_mapping c"
    have m: "?m \<in> set ms" "mp_secret ?m \<noteq> []" using outbound_entry [OF swap(2)] by simp_all
    moreover have "valid_reference (mp_reference ?m)" using m assms(2) by (simp add: active_def)
    ultimately show ?thesis using cons pre swap(1)
      by (intro reference [of "mp_reference ?m" ?p']) (auto simp: swap_to_def swap_from_def)
  next
    case keep
    with cons show ?thesis by (intro kept) simp_all
  qed
qed

text \<open>A word without an opening \<open><\<close> can only come from kept text.\<close>

lemma tail_kept:
  assumes "\<forall>m \<in> set ms. active m"
  shows "60 \<notin> set w \<Longrightarrow> prefix w (redacted_from ms incl t p) \<Longrightarrow> prefix w (drop p t)"
  using wf_outbound [of ms incl]
proof (induction p arbitrary: w rule: pieces_induct [where t = t])
  case (Nil p)
  then show ?case by simp
next
  case (Cons p)
  from Cons(1) assms show ?case
  proof (cases rule: outbound_cases [where incl = incl])
    case (reference r p')
    show ?thesis
    proof (cases w)
      case (Cons c w')
      with reference(1,2) Cons.prems show ?thesis by (auto elim!: valid_reference_open)
    qed simp
  next
    case kept
    show ?thesis
    proof (cases w)
      case (Cons c w')
      with kept Cons.prems Cons.IH [of w'] have "c = t ! p" "prefix w' (drop (Suc p) t)" by simp_all
      with Cons Cons.hyps show ?thesis by (simp add: Cons_nth_drop_Suc [symmetric])
    qed simp
  qed
qed

lemma prefix_drop_sublist: "prefix r (drop p t) \<Longrightarrow> sublist r t"
  unfolding prefix_def sublist_def by (metis append_take_drop_id)

lemma redacted_restores:
  assumes act: "\<forall>m \<in> set ms. active m" and dist: "distinct (map mp_reference ms)"
    and new: "\<forall>m \<in> set ms. \<not> sublist (mp_reference m) t"
  shows "restore_text ms (redacted_from ms incl t p) = drop p t
    \<and> restored_refs ms (redacted_from ms incl t p) = mp_reference ` swapped (pieces (outbound ms incl) t p)"
  using wf_outbound [of ms incl]
proof (induction p rule: pieces_induct [where t = t])
  case (Nil p)
  then show ?case by simp
next
  case (Cons p)
  note cons = pieces_Cons(1) [OF Cons(1) wf_outbound, of ms incl]
  from Cons(1) act show ?case
  proof (cases rule: outbound_cases [where incl = incl])
    case (reference r p')
    from reference(5) show ?thesis
    proof (elim disjE bexE conjE)
      assume k: "piece_at (outbound ms incl) t p = Keep r" "prefix r (drop p t)" "drop p t = r @ drop p' t"
      have "lookup_reference ms r = None"
        unfolding lookup_reference_None using new prefix_drop_sublist [OF k(2)] by auto
      moreover obtain w where w: "r = 60 # w" "60 \<notin> set w" "length w = 37"
        using valid_reference_open [OF reference(1)] by blast
      ultimately have "lookup_reference ms (60 # take 37 (w @ redacted_from ms incl t p')) = None" by simp
      from restore_open_skip [OF w(2) this] show ?thesis
        using Cons.IH cons k w(1) reference(2,4) by simp
    next
      fix m assume m: "m \<in> set ms" "piece_at (outbound ms incl) t p = Swap m" "mp_secret m \<noteq> []"
        "mp_reference m = r" "drop p t = mp_secret m @ drop p' t"
      have "lookup_reference ms r = Some m"
      proof (cases "lookup_reference ms r")
        case None
        with m act show ?thesis by (auto simp: lookup_reference_None)
      next
        case (Some m')
        with m(1,4) dist lookup_reference_Some [OF Some] show ?thesis
          by (auto simp: distinct_map dest: inj_onD)
      qed
      from restore_known [OF this, of "redacted_from ms incl t p'"] show ?thesis
        using Cons.IH cons m reference(2,4) by simp
    qed
  next
    case kept
    let ?out = "redacted_from ms incl t (Suc p)"
    have "lookup_reference ms (t ! p # take 37 ?out) = None"
    proof (rule ccontr)
      assume "lookup_reference ms (t ! p # take 37 ?out) \<noteq> None"
      then obtain m where m: "m \<in> set ms" "mp_reference m = t ! p # take 37 ?out"
          "valid_reference (t ! p # take 37 ?out)"
        using lookup_reference_Some by blast
      from m(3) have "60 \<notin> set (take 37 ?out)" by (auto elim!: valid_reference_open)
      from tail_kept [OF act this take_is_prefix] have "prefix (take 37 ?out) (drop (Suc p) t)" .
      with Cons(1) m(2) have "prefix (mp_reference m) (drop p t)"
        by (simp add: Cons_nth_drop_Suc [symmetric])
      with new m(1) prefix_drop_sublist show False by blast
    qed
    note restore_unknown [OF this]
    with Cons.IH cons kept Cons(1) show ?thesis by (simp add: Cons_nth_drop_Suc)
  qed
qed

text \<open>
  C9: Redaction is reversible: if the text does not mention a reference already known,
  replacing secrets and restoring references both terminate, restoring gives the text back,
  and it uses exactly the references that were put in.
\<close>

theorem redaction_reversible:
  assumes "\<forall>m \<in> set ms. active m" "distinct (map mp_reference ms)"
    and "\<forall>m \<in> set ms. \<not> sublist (mp_reference m) t"
  shows "\<exists>r used r'. replace t (outbound ms incl) {} = Some (r, used)
    \<and> replace (cow t r) (restoring ms) {} = Some (r', used) \<and> cow (cow t r) r' = t"
proof -
  obtain r where r: "replace t (outbound ms incl) {} = Some (r, mp_reference ` swapped (pieces (outbound ms incl) t 0))"
      "cow t r = redacted_from ms incl t 0"
    using replace_pieces [OF wf_outbound, of t ms incl "{}"] by auto
  obtain r' where "replace (cow t r) (restoring ms) {} = Some (r', restored_refs ms (cow t r))"
      "cow (cow t r) r' = restore_text ms (cow t r)"
    using replace_restoring [of "cow t r" ms "{}"] by auto
  with r redacted_restores [OF assms, of incl 0] show ?thesis by simp
qed

section \<open>A redacted text does not show a strong secret\<close>

text \<open>An occurrence of \<open>n\<close> characters at \<open>i\<close> shares a character with a reference.\<close>

definition meets_reference :: "ustr \<Rightarrow> nat \<Rightarrow> nat \<Rightarrow> bool" where
  "meets_reference out i n \<longleftrightarrow>
     (\<exists>a r b. valid_reference r \<and> out = a @ r @ b \<and> length a < i + n \<and> i < length a + reference_len)"

lemma meets_reference_shift:
  assumes "meets_reference out i n"
  shows "meets_reference (z @ out) (length z + i) n"
proof -
  obtain a r b where "valid_reference r" "out = a @ r @ b" "length a < i + n" "i < length a + reference_len"
    using assms by (auto simp: meets_reference_def)
  then show ?thesis unfolding meets_reference_def
    by (intro exI [of _ "z @ a"] exI [of _ r] exI [of _ b]) simp
qed

lemma meets_reference_head:
  "valid_reference r \<Longrightarrow> i < reference_len \<Longrightarrow> 0 < i + n \<Longrightarrow> meets_reference (r @ b) i n"
  unfolding meets_reference_def by (intro exI [of _ "[]"] exI [of _ r] exI [of _ b]) simp

lemma prefix_redacted:
  assumes "\<forall>m \<in> set ms. active m"
  shows "prefix s (redacted_from ms incl t p) \<Longrightarrow>
    prefix s (drop p t) \<or> meets_reference (redacted_from ms incl t p) 0 (length s)"
  using wf_outbound [of ms incl]
proof (induction p arbitrary: s rule: pieces_induct [where t = t])
  case (Nil p)
  then show ?case by simp
next
  case (Cons p)
  from Cons(1) assms show ?case
  proof (cases rule: outbound_cases [where incl = incl])
    case (reference r p')
    show ?thesis
    proof (cases "s = []")
      case False
      with reference(1,2) show ?thesis by (simp add: meets_reference_head marker_lengths)
    qed simp
  next
    case kept
    show ?thesis
    proof (cases s)
      case (Cons c s')
      with kept Cons.prems have c: "c = t ! p" "prefix s' (redacted_from ms incl t (Suc p))" by simp_all
      from Cons.IH [of s'] kept c(2) consider "prefix s' (drop (Suc p) t)"
        | "meets_reference (redacted_from ms incl t (Suc p)) 0 (length s')" by auto
      then show ?thesis
      proof cases
        case 1
        with Cons c(1) Cons.hyps show ?thesis by (simp add: Cons_nth_drop_Suc [symmetric])
      next
        case 2
        then obtain a r b where "valid_reference r" "redacted_from ms incl t (Suc p) = a @ r @ b" "length a < length s'"
          by (auto simp: meets_reference_def)
        with kept(1) Cons c(1) show ?thesis unfolding meets_reference_def
          by (intro disjI2 exI [of _ "t ! p # a"] exI [of _ r] exI [of _ b]) (simp add: marker_lengths)
      qed
    qed simp
  qed
qed

lemma strong_secret_found:
  assumes "m \<in> set ms" "incl m" "mp_secret m \<noteq> []" "\<not> is_weak (mp_secret m)" "prefix (mp_secret m) (drop p t)"
  shows "find_candidate (outbound ms incl) t p \<noteq> None"
proof -
  let ?c = "\<lparr>cn_mapping = m, cn_needle = mp_secret m, cn_weak = False\<rparr>"
  have "?c \<in> set (cs_entries (outbound ms incl))"
    using assms(1-4) by (simp add: outbound_def build_candidates_def image_iff)
  with assms(5) show ?thesis unfolding find_candidate_def find_None_iff by force
qed

lemma redacted_meets:
  assumes act: "\<forall>m \<in> set ms. active m"
    and m: "m \<in> set ms" "incl m" "mp_secret m \<noteq> []" "\<not> is_weak (mp_secret m)"
  shows "redacted_from ms incl t p = xs @ mp_secret m @ ys \<Longrightarrow>
    meets_reference (redacted_from ms incl t p) (length xs) (length (mp_secret m))"
  using wf_outbound [of ms incl]
proof (induction p arbitrary: xs rule: pieces_induct [where t = t])
  case (Nil p)
  with m(3) show ?case by simp
next
  case (Cons p)
  from Cons(1) act show ?case
  proof (cases rule: outbound_cases [where incl = incl])
    case (reference r p')
    show ?thesis
    proof (cases "length xs < reference_len")
      case True
      with reference(1,2) m(3) show ?thesis by (simp add: meets_reference_head)
    next
      case False
      then have "length r \<le> length xs" using valid_reference_length [OF reference(1)] by (simp add: marker_lengths)
      with reference(2) Cons.prems obtain xs' where "xs = r @ xs'" "redacted_from ms incl t p' = xs' @ mp_secret m @ ys"
        by (auto simp: append_eq_append_conv2)
      with Cons.IH [of xs'] reference(2,4) meets_reference_shift [of "redacted_from ms incl t p'" "length xs'" _ r]
      show ?thesis by simp
    qed
  next
    case kept
    show ?thesis
    proof (cases xs)
      case Nil
      with Cons.prems have "prefix (mp_secret m) (redacted_from ms incl t p)" by simp
      with prefix_redacted [OF act] strong_secret_found [where incl = incl and p = p and t = t, OF m] kept(3) Nil show ?thesis by auto
    next
      case (Cons x xs')
      with kept Cons.prems have "redacted_from ms incl t (Suc p) = xs' @ mp_secret m @ ys" by simp
      with Cons.IH [of xs'] kept Cons
        meets_reference_shift [of "redacted_from ms incl t (Suc p)" "length xs'" _ "[t ! p]"]
      show ?thesis by simp
    qed
  qed
qed

text \<open>
  C11: No strong secret that is to be replaced is left in a redacted text: wherever its
  characters still stand in a row, they share a character with a reference.
\<close>

theorem strong_secret_replaced:
  assumes "\<forall>m \<in> set ms. active m" "m \<in> set ms" "incl m" "mp_secret m \<noteq> []" "\<not> is_weak (mp_secret m)"
    and "replace t (outbound ms incl) used = Some (r, used')" "cow t r = xs @ mp_secret m @ ys"
  shows "meets_reference (cow t r) (length xs) (length (mp_secret m))"
proof -
  have "cow t r = redacted_from ms incl t 0"
    using replace_pieces [OF wf_outbound, of t ms incl used] assms(6) by auto
  with redacted_meets [where incl = incl and xs = xs and ys = ys and t = t and p = 0 and m = m and ms = ms] assms show ?thesis by simp
qed

section \<open>Witnesses\<close>

definition sample_mapping :: mapping where
  "sample_mapping =
     \<lparr>mp_reference = ascii ''<!--sr:abcdefghijklmnopqrstuvwxyzab-->'',
      mp_secret = ascii ''sk-proj-Qz8Xv2Lm'', mp_rule_ids = []\<rparr>"

definition sample_text :: ustr where
  "sample_text = ascii ''key=sk-proj-Qz8Xv2Lm!''"

lemma sample_active: "active sample_mapping"
  by code_simp

lemma sample_strong: "mp_secret sample_mapping \<noteq> [] \<and> \<not> is_weak (mp_secret sample_mapping)"
  by code_simp

lemma sample_new: "\<not> sublist (mp_reference sample_mapping) sample_text"
  by code_simp

theorem redaction_reversible_witness:
  "\<exists>r used r'. replace sample_text (outbound [sample_mapping] (\<lambda>_. True)) {} = Some (r, used)
    \<and> replace (cow sample_text r) (restoring [sample_mapping]) {} = Some (r', used)
    \<and> cow (cow sample_text r) r' = sample_text"
  using redaction_reversible [of "[sample_mapping]" sample_text "\<lambda>_. True"] sample_active sample_new by simp

text \<open>A text whose kept characters spell the secret together with an inserted reference.\<close>

definition odd_mapping :: mapping where
  "odd_mapping = \<lparr>mp_reference = ascii ''<!--sr:bbbbbbbbbbbbbbbbbbbbbbbbbbbb-->'',
     mp_secret = ascii ''-->0123456789abc'', mp_rule_ids = []\<rparr>"

definition odd_text :: ustr where
  "odd_text = ascii ''sk-proj-Qz8Xv2Lm0123456789abc''"

lemma odd_out:
  "redacted_from [sample_mapping, odd_mapping] (\<lambda>_. True) odd_text 0
     = ascii ''<!--sr:abcdefghijklmnopqrstuvwxyzab'' @ mp_secret odd_mapping @ []"
  by code_simp

theorem strong_secret_replaced_witness:
  "\<exists>r used. replace odd_text (outbound [sample_mapping, odd_mapping] (\<lambda>_. True)) {} = Some (r, used)
     \<and> meets_reference (cow odd_text r) 35 (length (mp_secret odd_mapping))"
proof -
  obtain r used where r: "replace odd_text (outbound [sample_mapping, odd_mapping] (\<lambda>_. True)) {} = Some (r, used)"
      "cow odd_text r = redacted_from [sample_mapping, odd_mapping] (\<lambda>_. True) odd_text 0"
    using replace_pieces [OF wf_outbound, of odd_text "[sample_mapping, odd_mapping]" "\<lambda>_. True" "{}"] by auto
  have "active odd_mapping" "mp_secret odd_mapping \<noteq> []" "\<not> is_weak (mp_secret odd_mapping)" by code_simp+
  with sample_active have "\<forall>m \<in> set [sample_mapping, odd_mapping]. active m" by simp
  from strong_secret_replaced [where incl = "\<lambda>_. True" and m = odd_mapping, OF this _ _ _ _ r(1),
      where xs = "ascii ''<!--sr:abcdefghijklmnopqrstuvwxyzab''" and ys = "[]"] r
    \<open>mp_secret odd_mapping \<noteq> []\<close> \<open>\<not> is_weak _\<close> odd_out
  have "meets_reference (cow odd_text r) (length (ascii ''<!--sr:abcdefghijklmnopqrstuvwxyzab''))
      (length (mp_secret odd_mapping))" by simp
  moreover have "length (ascii ''<!--sr:abcdefghijklmnopqrstuvwxyzab'') = 35" by code_simp
  ultimately show ?thesis using r(1) by (simp only:) blast
qed

end
