(* ===== verification/RedactionStream.thy ===== *)
theory RedactionStream
  imports RedactionText
begin

text \<open>
  Incremental restoration (\<open>stravia-credential-protection/src/stream.rs\<close>): the scanner that
  looks for references in text arriving in fragments, and the scanner that does so inside the
  string values of a JSON document. \<open>serde_json\<close>'s encoding and decoding of one string are
  arguments.
\<close>

section \<open>Output\<close>

datatype redaction_error = Detection | Storage | InvalidText | AmbiguousToolResult

text \<open>The input stays borrowed until emitted text differs from it.\<close>

record output_buffer =
  out_input :: ustr
  out_unchanged :: nat
  out_changed :: "ustr option"

definition output_new :: "ustr \<Rightarrow> output_buffer" where
  "output_new input = \<lparr>out_input = input, out_unchanged = 0, out_changed = None\<rparr>"

definition push_str :: "ustr \<Rightarrow> output_buffer \<Rightarrow> output_buffer" where
  "push_str t out =
     (case out_changed out of
        Some s \<Rightarrow> out\<lparr>out_changed := Some (s @ t)\<rparr>
      | None \<Rightarrow>
          if prefix t (drop (out_unchanged out) (out_input out))
          then out\<lparr>out_unchanged := out_unchanged out + length t\<rparr>
          else out\<lparr>out_changed := Some (take (out_unchanged out) (out_input out) @ t)\<rparr>)"

definition output_finish :: "output_buffer \<Rightarrow> ustr option" where
  "output_finish out =
     (case out_changed out of
        Some s \<Rightarrow> Some s
      | None \<Rightarrow> if out_unchanged out = length (out_input out) then None
                else Some (take (out_unchanged out) (out_input out)))"

section \<open>The reference scanner\<close>

record scanner =
  sc_pending :: ustr
  sc_spelling :: ustr

definition scanner_default :: scanner where
  "scanner_default = \<lparr>sc_pending = [], sc_spelling = []\<rparr>"

text \<open>\<open>serde_json::to_string\<close> and \<open>serde_json::from_str\<close> at type \<open>String\<close>; \<open>None\<close> is an error.\<close>

record json_strings =
  jl_to_string :: "ustr \<Rightarrow> ustr option"
  jl_from_str :: "ustr \<Rightarrow> ustr option"

type_synonym scan_state = "scanner \<times> ustr set \<times> output_buffer"

definition flush :: "scanner \<times> output_buffer \<Rightarrow> scanner \<times> output_buffer" where
  "flush so = (scanner_default, push_str (sc_spelling (fst so)) (snd so))"

definition scanner_push ::
    "json_strings \<Rightarrow> mapping list \<Rightarrow> nat \<Rightarrow> ustr \<Rightarrow> bool \<Rightarrow> scan_state \<Rightarrow> redaction_error + scan_state" where
  "scanner_push jl mappings ch raw json sc =
     (case sc of (s, used, out) \<Rightarrow>
        let position = length (sc_pending s)
        in if ch < 0x80 \<and> matches_byte position ch
           then let s1 = s\<lparr>sc_pending := sc_pending s @ [ch], sc_spelling := sc_spelling s @ raw\<rparr>
                in if length (sc_pending s1) = reference_len
                   then (case find (\<lambda>m. mp_reference m = sc_pending s1 \<and> active m) mappings of
                           Some m \<Rightarrow>
                             res_bind
                               (if json
                                then map_err (\<lambda>_. InvalidText)
                                  (case jl_to_string jl (mp_secret m) of
                                     None \<Rightarrow> Inl () | Some escaped \<Rightarrow> Inr (butlast (tl escaped)))
                                else Inr (mp_secret m))
                               (\<lambda>shown. Inr (scanner_default, insert (mp_reference m) used, push_str shown out))
                         | None \<Rightarrow> let (s2, out2) = flush (s1, out) in Inr (s2, used, out2))
                   else Inr (s1, used, out)
           else let (s1, out1) = flush (s, out)
                in if ch = 60 then Inr (\<lparr>sc_pending = [ch], sc_spelling = raw\<rparr>, used, out1)
                   else Inr (s1, used, push_str raw out1))"

text \<open>The loop of \<open>ReferenceScanner::text\<close>, over what is left of the input.\<close>

function text_loop :: "json_strings \<Rightarrow> mapping list \<Rightarrow> ustr \<Rightarrow> scan_state \<Rightarrow> redaction_error + scan_state" where
  "text_loop jl mappings rest (s, used, out) =
     (if rest = [] then Inr (s, used, out)
      else let (out1, rest1) =
                 (if sc_pending s = []
                  then (push_str (takeWhile (\<lambda>c. c \<noteq> 60) rest) out, dropWhile (\<lambda>c. c \<noteq> 60) rest)
                  else (out, rest))
           in case rest1 of
                [] \<Rightarrow> Inr (s, used, out1)
              | ch # rest2 \<Rightarrow>
                  (case scanner_push jl mappings ch [ch] False (s, used, out1) of
                     Inl e \<Rightarrow> Inl e
                   | Inr sc \<Rightarrow> text_loop jl mappings rest2 sc))"
  by pat_completeness auto
termination
proof (relation "measure (\<lambda>(jl, ms, rest, sc). length rest)", goal_cases)
  case (2 jl ms rest s used out x out1 rest1 ch rest2 sc)
  then have "length (ch # rest2) \<le> length rest"
    by (auto split: if_splits) (metis length_Cons length_dropWhile_le)
  then show ?case by simp
qed simp

text \<open>\<open>ReferenceScanner::text\<close>: the text that replaces the input.\<close>

definition scanner_text ::
    "json_strings \<Rightarrow> mapping list \<Rightarrow> ustr \<Rightarrow> scanner \<times> ustr set \<Rightarrow> redaction_error + (scanner \<times> ustr set \<times> ustr)" where
  "scanner_text jl mappings input su =
     (if sc_pending (fst su) = [] \<and> 60 \<notin> set input then Inr (fst su, snd su, input)
      else map_sum id (\<lambda>(s, used, out). (s, used, cow input (output_finish out)))
        (text_loop jl mappings input (fst su, snd su, output_new input)))"

section \<open>The JSON scanner\<close>

text \<open>\<open>js_objects\<close> is the stack of open brackets, the innermost first, true for an object.\<close>

record json_scanner =
  js_inside :: bool
  js_key :: bool
  js_expect_key :: bool
  js_objects :: "bool list"
  js_escape :: ustr
  js_references :: scanner

definition json_default :: json_scanner where
  "json_default =
     \<lparr>js_inside = False, js_key = False, js_expect_key = False, js_objects = [], js_escape = [],
      js_references = scanner_default\<rparr>"

text \<open>\<open>char::is_control\<close>.\<close>

definition is_control :: "nat \<Rightarrow> bool" where
  "is_control c = (c < 0x20 \<or> (0x7f \<le> c \<and> c \<le> 0x9f))"

text \<open>\<open>u16::from_str_radix(s, 16)\<close>.\<close>

definition to_digit16 :: "nat \<Rightarrow> nat option" where
  "to_digit16 c =
     (if decimal_digit c then Some (c - 48)
      else if 97 \<le> c \<and> c \<le> 102 then Some (c - 87)
      else if 65 \<le> c \<and> c \<le> 70 then Some (c - 55) else None)"

fun hex_from :: "nat \<Rightarrow> ustr \<Rightarrow> nat option" where
  "hex_from a [] = Some a"
| "hex_from a (c # cs) =
     (case to_digit16 c of None \<Rightarrow> None
      | Some d \<Rightarrow> if 16 * a + d \<le> 0xffff then hex_from (16 * a + d) cs else None)"

definition from_str_radix16 :: "ustr \<Rightarrow> nat option" where
  "from_str_radix16 s =
     (if s = [] \<or> s = [43] then None else hex_from 0 (if hd s = 43 then tl s else s))"

text \<open>One character outside a string.\<close>

definition json_outside :: "nat \<Rightarrow> json_scanner \<Rightarrow> redaction_error + json_scanner" where
  "json_outside ch j =
     (if ch = 34 then Inr (j\<lparr>js_inside := True, js_key := js_expect_key j\<rparr>)
      else if ch = 123 \<or> ch = 91
      then (if 128 \<le> length (js_objects j) then Inl InvalidText
            else Inr (j\<lparr>js_objects := (ch = 123) # js_objects j, js_expect_key := (ch = 123)\<rparr>))
      else if ch = 125 \<or> ch = 93 then Inr (j\<lparr>js_objects := tl (js_objects j), js_expect_key := False\<rparr>)
      else if ch = 44 then Inr (j\<lparr>js_expect_key := (case js_objects j of [] \<Rightarrow> False | b # _ \<Rightarrow> b)\<rparr>)
      else if ch = 58 then Inr (j\<lparr>js_expect_key := False\<rparr>)
      else Inr j)"

text \<open>
  One character of an escape sequence: \<open>Inr None\<close> if it is not complete, otherwise the
  decoded character.
\<close>

definition escape_decoded :: "json_strings \<Rightarrow> ustr \<Rightarrow> redaction_error + nat option" where
  "escape_decoded jl escape =
     (let expected = (if 1 < length escape \<and> escape ! 1 = 117 then 6 else 2)
      in if length escape < expected then Inr None
         else res_bind
           (if expected = 6
            then res_bind (ok_or InvalidText (from_str_radix16 (take 4 (drop 2 escape))))
              (\<lambda>high. Inr (0xd800 \<le> high \<and> high \<le> 0xdbff \<and> length escape < 12))
            else Inr False)
           (\<lambda>wait. if wait then Inr None
             else res_bind (ok_or InvalidText (jl_from_str jl (34 # escape @ [34])))
               (\<lambda>decoded. case decoded of [] \<Rightarrow> Inl InvalidText | d # _ \<Rightarrow> Inr (Some d))))"

type_synonym json_scan = "json_scanner \<times> ustr set \<times> output_buffer"

text \<open>What a decoded character of a string does, spelled \<open>raw\<close>: keys are copied.\<close>

definition json_decoded ::
    "json_strings \<Rightarrow> mapping list \<Rightarrow> nat \<Rightarrow> ustr \<Rightarrow> json_scan \<Rightarrow> redaction_error + json_scan" where
  "json_decoded jl mappings decoded raw js =
     (case js of (j, used, out) \<Rightarrow>
        if js_key j then Inr (j, used, push_str raw out)
        else map_sum id (\<lambda>(s, used', out'). (j\<lparr>js_references := s\<rparr>, used', out'))
          (scanner_push jl mappings decoded raw True (js_references j, used, out)))"

definition json_char ::
    "json_strings \<Rightarrow> mapping list \<Rightarrow> nat \<Rightarrow> json_scan \<Rightarrow> redaction_error + json_scan" where
  "json_char jl mappings ch js =
     (case js of (j, used, out) \<Rightarrow>
        if \<not> js_inside j
        then res_bind (json_outside ch j) (\<lambda>j'. Inr (j', used, push_str [ch] out))
        else if js_escape j \<noteq> []
        then (if \<not> ch < 0x80 then Inl InvalidText
              else let escape = js_escape j @ [ch]; j1 = j\<lparr>js_escape := escape\<rparr>
                   in res_bind (escape_decoded jl escape) (\<lambda>d.
                      case d of
                        None \<Rightarrow> Inr (j1, used, out)
                      | Some decoded \<Rightarrow>
                          res_bind (json_decoded jl mappings decoded escape (j1, used, out))
                            (\<lambda>(j2, used2, out2). Inr (j2\<lparr>js_escape := []\<rparr>, used2, out2))))
        else if ch = 92 then Inr (j\<lparr>js_escape := [ch]\<rparr>, used, out)
        else if ch = 34
        then let (s, out1) = flush (js_references j, out)
             in Inr (j\<lparr>js_references := s, js_inside := False\<rparr>, used, push_str [ch] out1)
        else if is_control ch then Inl InvalidText
        else json_decoded jl mappings ch [ch] (j, used, out))"

fun json_chars ::
    "json_strings \<Rightarrow> mapping list \<Rightarrow> ustr \<Rightarrow> json_scan \<Rightarrow> redaction_error + json_scan" where
  "json_chars jl mappings [] js = Inr js"
| "json_chars jl mappings (ch # input) js =
     res_bind (json_char jl mappings ch js) (json_chars jl mappings input)"

text \<open>\<open>JsonScanner::push\<close> and \<open>JsonScanner::finish\<close>.\<close>

definition json_push ::
    "json_strings \<Rightarrow> mapping list \<Rightarrow> ustr \<Rightarrow> json_scanner \<times> ustr set
      \<Rightarrow> redaction_error + (json_scanner \<times> ustr set \<times> ustr option)" where
  "json_push jl mappings input ju =
     map_sum id (\<lambda>(j, used, out). (j, used, output_finish out))
       (json_chars jl mappings input (fst ju, snd ju, output_new input))"

definition json_finish :: "json_scanner \<Rightarrow> json_scanner \<times> ustr" where
  "json_finish j =
     (j\<lparr>js_references := scanner_default, js_escape := []\<rparr>,
      sc_spelling (js_references j) @ js_escape j)"

section \<open>The output is what was pushed\<close>

definition output_text :: "output_buffer \<Rightarrow> ustr" where
  "output_text out =
     (case out_changed out of Some s \<Rightarrow> s | None \<Rightarrow> take (out_unchanged out) (out_input out))"

definition wf_output :: "output_buffer \<Rightarrow> bool" where
  "wf_output out \<longleftrightarrow> out_unchanged out \<le> length (out_input out)"

lemma output_new [simp]: "wf_output (output_new input)" "output_text (output_new input) = []"
    "out_input (output_new input) = input"
  by (simp_all add: output_new_def wf_output_def output_text_def)

lemma push_str [simp]:
  assumes "wf_output out"
  shows "output_text (push_str t out) = output_text out @ t" "wf_output (push_str t out)"
    "out_input (push_str t out) = out_input out"
proof -
  have "take (out_unchanged out + length t) (out_input out) = take (out_unchanged out) (out_input out) @ t
      \<and> out_unchanged out + length t \<le> length (out_input out)"
    if pre: "prefix t (drop (out_unchanged out) (out_input out))"
  proof -
    obtain rest where "drop (out_unchanged out) (out_input out) = t @ rest"
      using pre by (auto simp: prefix_def)
    then have "out_input out = take (out_unchanged out) (out_input out) @ t @ rest"
      by (metis append_take_drop_id)
    moreover have "length (take (out_unchanged out) (out_input out)) = out_unchanged out"
      using assms by (simp add: wf_output_def)
    ultimately obtain a where "out_input out = a @ t @ rest" "length a = out_unchanged out" by blast
    then show ?thesis by simp
  qed
  with assms show "output_text (push_str t out) = output_text out @ t" "wf_output (push_str t out)"
    "out_input (push_str t out) = out_input out"
    by (auto simp: push_str_def output_text_def wf_output_def split: option.splits)
qed

lemma output_finish: "wf_output out \<Longrightarrow> cow (out_input out) (output_finish out) = output_text out"
  by (auto simp: output_finish_def output_text_def cow_def split: option.splits)

section \<open>Spelled characters\<close>

text \<open>
  A character with the way it is spelled: itself in plain text, possibly an escape sequence
  in JSON. \<open>restore_tokens\<close> is \<open>restore_text\<close> on such characters; \<open>esc\<close> spells a secret.
\<close>

type_synonym token = "ustr \<times> nat"

abbreviation spelled :: "token list \<Rightarrow> ustr" where
  "spelled ts \<equiv> concat (map fst ts)"

function restore_tokens :: "(ustr \<Rightarrow> ustr) \<Rightarrow> mapping list \<Rightarrow> token list \<Rightarrow> ustr" where
  "restore_tokens esc ms ts =
     (if ts = [] then [] else case lookup_reference ms (map snd (take 38 ts)) of
        Some m \<Rightarrow> esc (mp_secret m) @ restore_tokens esc ms (drop 38 ts)
      | None \<Rightarrow> fst (hd ts) @ restore_tokens esc ms (tl ts))"
  by pat_completeness auto
termination by (relation "measure (\<lambda>(_, _, ts). length ts)") auto

declare restore_tokens.simps [simp del]

lemma restore_tokens_Nil [simp]: "restore_tokens esc ms [] = []"
  by (simp add: restore_tokens.simps)

lemma restore_tokens_known:
  assumes "lookup_reference ms (map snd q) = Some m"
  shows "restore_tokens esc ms (q @ zs) = esc (mp_secret m) @ restore_tokens esc ms zs"
proof -
  have "length q = 38" using lookup_reference_Some [OF assms] valid_reference_length by force
  then obtain x w where w: "q = x # w" "length w = 37" by (cases q) auto
  with assms show ?thesis by (simp add: restore_tokens.simps [of esc ms "x # w @ zs"])
qed

lemma restore_tokens_unknown:
  assumes "lookup_reference ms (snd x # map snd (take 37 zs)) = None"
  shows "restore_tokens esc ms (x # zs) = fst x @ restore_tokens esc ms zs"
  using assms by (simp add: restore_tokens.simps [of esc ms "x # zs"])

lemma restore_tokens_skip:
  "60 \<notin> snd ` set w \<Longrightarrow> restore_tokens esc ms (w @ zs) = spelled w @ restore_tokens esc ms zs"
proof (induction w)
  case (Cons x w)
  then have "lookup_reference ms (snd x # map snd (take 37 (w @ zs))) = None"
    by (intro not_open_unknown) auto
  from restore_tokens_unknown [OF this] Cons show ?case by simp
qed simp

text \<open>In plain text a character spells itself.\<close>

abbreviation plain :: "ustr \<Rightarrow> token list" where
  "plain s \<equiv> map (\<lambda>c. ([c], c)) s"

lemma restore_plain: "restore_tokens (\<lambda>s. s) ms (plain s) = restore_text ms s"
proof (induction ms s rule: restore_text.induct)
  case (1 ms s)
  show ?case
  proof (cases s)
    case (Cons c s')
    have "map snd (take 38 (plain s)) = take 38 s" by (simp add: take_map o_def)
    with 1 Cons show ?thesis
      by (simp add: restore_tokens.simps [of _ ms "([c], c) # plain s'"] restore_text.simps [of ms "c # s'"]
          drop_map split: option.splits)
  qed simp
qed

section \<open>The scanner refines the rewriting\<close>

text \<open>A run of characters that could begin a reference.\<close>

definition shaped :: "token list \<Rightarrow> bool" where
  "shaped p \<longleftrightarrow> (\<forall>i < length p. matches_byte i (snd (p ! i)))"

definition scanner_of :: "token list \<Rightarrow> scanner" where
  "scanner_of p = \<lparr>sc_pending = map snd p, sc_spelling = spelled p\<rparr>"

lemma scanner_of_Nil: "scanner_of [] = scanner_default"
  by (simp add: scanner_of_def scanner_default_def)

lemma shaped_Nil [simp]: "shaped []"
  by (simp add: shaped_def)

lemma shaped_snoc: "shaped (p @ [x]) \<longleftrightarrow> shaped p \<and> matches_byte (length p) (snd x)"
  by (auto simp: shaped_def nth_append less_Suc_eq)

lemma shaped_Cons:
  assumes "shaped p" "p \<noteq> []"
  obtains x w where "p = x # w" "snd x = 60" "60 \<notin> snd ` set w"
proof -
  from assms(2) obtain x w where p: "p = x # w" by (cases p) auto
  with assms(1) have m: "\<And>i. i < Suc (length w) \<Longrightarrow> matches_byte i (snd ((x # w) ! i))"
    by (simp add: shaped_def)
  from m [of 0] have "snd x = 60" by simp
  moreover have "60 \<notin> snd ` set w"
  proof
    assume "60 \<in> snd ` set w"
    then obtain i where "i < length w" "snd (w ! i) = 60" by (auto simp: in_set_conv_nth)
    with m [of "Suc i"] have "matches_byte (Suc i) 60" by simp
    with matches_byte_facts [of "Suc i" 60] show False by simp
  qed
  ultimately show ?thesis using that p by blast
qed

lemma flush_shaped:
  assumes "shaped p" "p \<noteq> [] \<Longrightarrow> lookup_reference ms (take 38 (map snd p @ map snd zs)) = None"
  shows "restore_tokens esc ms (p @ zs) = spelled p @ restore_tokens esc ms zs"
    and "restored_refs ms (map snd (p @ zs)) = restored_refs ms (map snd zs)"
proof -
  have "restore_tokens esc ms (p @ zs) = spelled p @ restore_tokens esc ms zs
      \<and> restored_refs ms (map snd (p @ zs)) = restored_refs ms (map snd zs)"
  proof (cases "p = []")
    case False
    with assms(1) obtain x w where p: "p = x # w" "snd x = 60" "60 \<notin> snd ` set w"
      by (rule shaped_Cons)
    with False assms(2) have none: "lookup_reference ms (60 # take 37 (map snd w @ map snd zs)) = None" by simp
    have "restore_tokens esc ms (x # w @ zs) = fst x @ restore_tokens esc ms (w @ zs)"
      by (rule restore_tokens_unknown) (use none p(2) in \<open>simp add: take_map [symmetric]\<close>)
    moreover have "restored_refs ms ((60 # map snd w) @ map snd zs) = restored_refs ms (map snd zs)"
      using none p(3) by (intro restore_open_skip) auto
    ultimately show ?thesis using p restore_tokens_skip [OF p(3), of esc ms zs] by simp
  qed simp
  then show "restore_tokens esc ms (p @ zs) = spelled p @ restore_tokens esc ms zs"
    and "restored_refs ms (map snd (p @ zs)) = restored_refs ms (map snd zs)" by simp_all
qed

text \<open>A short run is not a reference, nor is one that the next character breaks.\<close>

lemma short_unknown: "length v \<noteq> 38 \<Longrightarrow> lookup_reference ms v = None"
  by (rule ccontr) (auto dest!: lookup_reference_Some valid_reference_length)

lemma broken_unknown:
  assumes "length p < 38" "\<not> matches_byte (length p) c"
  shows "lookup_reference ms (take 38 (map snd p @ c # zs)) = None"
proof (rule ccontr)
  let ?r = "take 38 (map snd p @ c # zs)"
  assume "lookup_reference ms ?r \<noteq> None"
  then have "valid_reference ?r" using lookup_reference_Some by blast
  then have "matches_byte (length p) (?r ! length p)" using assms(1) by (simp add: valid_reference_iff)
  with assms show False by (simp add: nth_append)
qed

text \<open>
  \<open>p\<close> is held back, \<open>ts\<close> is read: \<open>shown\<close> is emitted, \<open>refs\<close> are used and \<open>p'\<close> is held back,
  whatever follows.
\<close>

definition emits ::
    "(ustr \<Rightarrow> ustr) \<Rightarrow> mapping list \<Rightarrow> token list \<Rightarrow> token list \<Rightarrow> ustr \<Rightarrow> ustr set \<Rightarrow> token list \<Rightarrow> bool" where
  "emits esc ms p ts shown refs p' \<longleftrightarrow>
     shaped p' \<and> length p' < 38
     \<and> (\<forall>zs. restore_tokens esc ms (p @ ts @ zs) = shown @ restore_tokens esc ms (p' @ zs)
          \<and> restored_refs ms (map snd (p @ ts @ zs)) = refs \<union> restored_refs ms (map snd (p' @ zs)))"

lemma emits_Nil: "shaped p \<Longrightarrow> length p < 38 \<Longrightarrow> emits esc ms p [] [] {} p"
  by (simp add: emits_def)

lemma emits_trans:
  assumes "emits esc ms p ts shown refs p'" "emits esc ms p' ts' shown' refs' p''"
  shows "emits esc ms p (ts @ ts') (shown @ shown') (refs \<union> refs') p''"
  using assms unfolding emits_def by (metis Un_assoc append_assoc)

text \<open>At the end what is held back is emitted as it was spelled.\<close>

lemma emits_flush:
  assumes "emits esc ms [] ts shown refs p"
  shows "restore_tokens esc ms ts = shown @ spelled p" "restored_refs ms (map snd ts) = refs"
proof -
  have p: "shaped p" "length p < 38" using assms by (simp_all add: emits_def)
  then have "lookup_reference ms (take 38 (map snd p @ map snd [])) = None" by (intro short_unknown) simp
  then have "restore_tokens esc ms (p @ []) = spelled p @ restore_tokens esc ms []"
      "restored_refs ms (map snd (p @ [])) = restored_refs ms (map snd ([] :: token list))"
    by (intro flush_shaped p(1); simp)+
  moreover have "restore_tokens esc ms ts = shown @ restore_tokens esc ms p"
      "restored_refs ms (map snd ts) = refs \<union> restored_refs ms (map snd p)"
    using assms unfolding emits_def by (metis append_Nil append_Nil2)+
  ultimately show "restore_tokens esc ms ts = shown @ spelled p" "restored_refs ms (map snd ts) = refs"
    by simp_all
qed

text \<open>How a secret is shown: as it is, or inside a JSON string.\<close>

definition shown_as :: "json_strings \<Rightarrow> bool \<Rightarrow> ustr \<Rightarrow> ustr" where
  "shown_as jl json secret = (if json then butlast (tl (the (jl_to_string jl secret))) else secret)"

text \<open>Every secret has characters, and in JSON the library can spell it.\<close>

definition usable :: "json_strings \<Rightarrow> bool \<Rightarrow> mapping list \<Rightarrow> bool" where
  "usable jl json ms \<longleftrightarrow>
     (\<forall>m \<in> set ms. mp_secret m \<noteq> [] \<and> (json \<longrightarrow> jl_to_string jl (mp_secret m) \<noteq> None))"

lemma usable_lookup:
  "usable jl json ms \<Longrightarrow> find (\<lambda>m. mp_reference m = r \<and> active m) ms = lookup_reference ms r"
  unfolding lookup_reference_def usable_def by (rule find_cong) auto

lemma shown_as_result:
  assumes "usable jl json ms" "m \<in> set ms"
  shows "(if json then map_err (\<lambda>_. InvalidText)
            (case jl_to_string jl (mp_secret m) of None \<Rightarrow> Inl () | Some escaped \<Rightarrow> Inr (butlast (tl escaped)))
          else Inr (mp_secret m)) = (Inr (shown_as jl json (mp_secret m)) :: redaction_error + ustr)"
  using assms by (auto simp: usable_def shown_as_def split: option.splits)

lemma scanner_step:
  assumes us: "usable jl json ms" and p: "shaped p" "length p < 38" and out: "wf_output out"
  obtains p' shown refs out' where
    "scanner_push jl ms ch raw json (scanner_of p, used, out) = Inr (scanner_of p', used \<union> refs, out')"
    "wf_output out'" "out_input out' = out_input out" "output_text out' = output_text out @ shown"
    "emits (shown_as jl json) ms p [(raw, ch)] shown refs p'"
proof (cases "matches_byte (length p) ch")
  case match: True
  let ?q = "p @ [(raw, ch)]"
  have ch: "ch < 0x80" using matches_byte_facts [OF match] by simp
  have q: "shaped ?q" using p(1) match by (simp add: shaped_snoc)
  have s1: "(scanner_of p)\<lparr>sc_pending := sc_pending (scanner_of p) @ [ch],
      sc_spelling := sc_spelling (scanner_of p) @ raw\<rparr> = scanner_of ?q"
    by (simp add: scanner_of_def)
  show ?thesis
  proof (cases "length ?q = 38")
    case False
    then have "length ?q < 38" using p(2) by simp
    moreover have "scanner_push jl ms ch raw json (scanner_of p, used, out) = Inr (scanner_of ?q, used \<union> {}, out)"
      using match ch False by (simp add: scanner_push_def Let_def scanner_of_def marker_lengths)
    ultimately show ?thesis using that [of ?q "{}" out "[]"] q out by (simp add: emits_def)
  next
    case full: True
    have find: "find (\<lambda>m. mp_reference m = map snd p @ [ch] \<and> active m) ms = lookup_reference ms (map snd ?q)"
      using usable_lookup [OF us] by simp
    show ?thesis
    proof (cases "lookup_reference ms (map snd ?q)")
      case None
      let ?out = "push_str (spelled ?q) out"
      have push: "scanner_push jl ms ch raw json (scanner_of p, used, out) = Inr (scanner_of [], used \<union> {}, ?out)"
        using match ch full find None
        by (simp add: scanner_push_def Let_def scanner_of_def marker_lengths flush_def scanner_default_def)
      have "lookup_reference ms (take 38 (map snd ?q @ map snd zs)) = None" for zs :: "token list"
        using None full by simp
      note flush_shaped [OF q this]
      then have "emits (shown_as jl json) ms p [(raw, ch)] (spelled ?q) {} []"
        unfolding emits_def by simp
      with push out show ?thesis using that [of "[]" "{}" ?out "spelled ?q"] by simp
    next
      case (Some m)
      have m: "m \<in> set ms" "mp_reference m = map snd ?q" using lookup_reference_Some [OF Some] by simp_all
      let ?shown = "shown_as jl json (mp_secret m)"
      have push: "scanner_push jl ms ch raw json (scanner_of p, used, out)
          = Inr (scanner_of [], used \<union> {mp_reference m}, push_str ?shown out)"
        using match ch full find Some shown_as_result [OF us m(1)]
        by (simp add: scanner_push_def Let_def scanner_of_def marker_lengths scanner_default_def)
      have "emits (shown_as jl json) ms p [(raw, ch)] ?shown {mp_reference m} []"
        unfolding emits_def
        using restore_tokens_known [OF Some, of "shown_as jl json"] restore_known(2) [OF Some] m(2) by simp
      with push out show ?thesis using that [of "[]" "{mp_reference m}" "push_str ?shown out" ?shown] by simp
    qed
  qed
next
  case False
  have rest: "restore_tokens (shown_as jl json) ms (p @ (raw, ch) # zs)
        = spelled p @ restore_tokens (shown_as jl json) ms ((raw, ch) # zs)"
      "restored_refs ms (map snd (p @ (raw, ch) # zs)) = restored_refs ms (map snd ((raw, ch) # zs))" for zs
    using broken_unknown [OF p(2) False] by (intro flush_shaped p(1); simp)+
  have nomatch: "\<not> (ch < 0x80 \<and> matches_byte (length p) ch)" using False by simp
  show ?thesis
  proof (cases "ch = 60")
    case True
    have "scanner_push jl ms ch raw json (scanner_of p, used, out)
        = Inr (scanner_of [(raw, ch)], used \<union> {}, push_str (spelled p) out)"
      using nomatch True by (simp add: scanner_push_def Let_def scanner_of_def flush_def)
    moreover have "emits (shown_as jl json) ms p [(raw, ch)] (spelled p) {} [(raw, ch)]"
      unfolding emits_def using rest True by (simp add: shaped_def)
    ultimately show ?thesis
      using that [of "[(raw, ch)]" "{}" "push_str (spelled p) out" "spelled p"] out by simp
  next
    case other: False
    have "scanner_push jl ms ch raw json (scanner_of p, used, out)
        = Inr (scanner_of [], used \<union> {}, push_str raw (push_str (spelled p) out))"
      using nomatch other by (auto simp add: scanner_push_def Let_def scanner_of_def flush_def scanner_default_def)
    moreover have "emits (shown_as jl json) ms p [(raw, ch)] (spelled p @ raw) {} []"
      unfolding emits_def
    proof (intro conjI allI)
      fix zs :: "token list"
      have "restore_tokens (shown_as jl json) ms ([(raw, ch)] @ zs)
          = spelled [(raw, ch)] @ restore_tokens (shown_as jl json) ms zs"
        using other by (intro restore_tokens_skip) simp
      with rest(1) [of zs] show "restore_tokens (shown_as jl json) ms (p @ [(raw, ch)] @ zs)
          = (spelled p @ raw) @ restore_tokens (shown_as jl json) ms ([] @ zs)" by simp
      have "restored_refs ms ([ch] @ map snd zs) = restored_refs ms (map snd zs)"
        using restore_skip [of "[ch]"] other by simp
      with rest(2) [of zs] show "restored_refs ms (map snd (p @ [(raw, ch)] @ zs))
          = {} \<union> restored_refs ms (map snd ([] @ zs))" by simp
    qed simp_all
    ultimately show ?thesis
      using that [of "[]" "{}" "push_str raw (push_str (spelled p) out)" "spelled p @ raw"] out by simp
  qed
qed

section \<open>Plain text\<close>

lemma emits_skip:
  assumes "60 \<notin> set s"
  shows "emits (\<lambda>x. x) ms [] (plain s) s {} []"
proof -
  have "60 \<notin> snd ` set (plain s)" using assms by auto
  moreover have "spelled (plain s) = s" by (induction s) simp_all
  ultimately show ?thesis using assms
    by (simp add: emits_def restore_tokens_skip restore_skip o_def)
qed

lemma shown_as_plain: "shown_as jl False = (\<lambda>x. x)"
  by (simp add: shown_as_def fun_eq_iff)

lemma text_loop_emits:
  assumes us: "usable jl False ms"
  shows "shaped p \<Longrightarrow> length p < 38 \<Longrightarrow> wf_output out \<Longrightarrow>
    \<exists>p' shown refs out'. text_loop jl ms rest (scanner_of p, used, out) = Inr (scanner_of p', used \<union> refs, out')
      \<and> wf_output out' \<and> out_input out' = out_input out \<and> output_text out' = output_text out @ shown
      \<and> emits (\<lambda>x. x) ms p (plain rest) shown refs p'"
proof (induction rest arbitrary: p used out rule: length_induct)
  case (1 rest)
  show ?case
  proof (cases "rest = []")
    case True
    with "1.prems" emits_Nil show ?thesis
      by (intro exI [of _ p] exI [of _ "[]"] exI [of _ "{}"] exI [of _ out]) simp
  next
    case False
    define skip where "skip = (if p = [] then takeWhile (\<lambda>c. c \<noteq> 60) rest else [])"
    define rest1 where "rest1 = (if p = [] then dropWhile (\<lambda>c. c \<noteq> 60) rest else rest)"
    define out1 where "out1 = (if p = [] then push_str skip out else out)"
    have split: "rest = skip @ rest1" by (simp add: skip_def rest1_def)
    have out1: "wf_output out1" "out_input out1 = out_input out" "output_text out1 = output_text out @ skip"
      using "1.prems"(3) by (auto simp: out1_def skip_def)
    have em: "emits (\<lambda>x. x) ms p (plain skip) skip {} p"
    proof (cases "p = []")
      case True
      have "60 \<notin> set skip" by (auto simp: skip_def dest: set_takeWhileD)
      from emits_skip [OF this] True show ?thesis by simp
    next
      case False
      with "1.prems" show ?thesis using emits_Nil by (simp add: skip_def)
    qed
    have pend: "sc_pending (scanner_of p) = [] \<longleftrightarrow> p = []" by (simp add: scanner_of_def)
    have loop: "text_loop jl ms rest (scanner_of p, used, out) =
        (case rest1 of [] \<Rightarrow> Inr (scanner_of p, used, out1)
         | ch # rest2 \<Rightarrow> (case scanner_push jl ms ch [ch] False (scanner_of p, used, out1) of
             Inl e \<Rightarrow> Inl e | Inr sc \<Rightarrow> text_loop jl ms rest2 sc))"
      using False unfolding out1_def rest1_def skip_def
      by (subst text_loop.simps, cases "p = []") (simp_all add: pend scanner_of_def del: dropWhile_eq_Nil_conv split: list.split)
    show ?thesis
    proof (cases rest1)
      case Nil
      with loop out1 em split show ?thesis
        by (intro exI [of _ p] exI [of _ skip] exI [of _ "{}"] exI [of _ out1]) simp
    next
      case (Cons ch rest2)
      obtain p1 shown1 refs1 out2 where push:
          "scanner_push jl ms ch [ch] False (scanner_of p, used, out1) = Inr (scanner_of p1, used \<union> refs1, out2)"
          "wf_output out2" "out_input out2 = out_input out1" "output_text out2 = output_text out1 @ shown1"
          "emits (\<lambda>x. x) ms p [([ch], ch)] shown1 refs1 p1"
        by (rule scanner_step [OF us "1.prems"(1,2) out1(1), of ch "[ch]" used, unfolded shown_as_plain])
      have len: "length rest2 < length rest" using split Cons by simp
      have p1: "shaped p1" "length p1 < 38" using push(5) by (simp_all add: emits_def)
      obtain p' shown refs out' where rec:
          "text_loop jl ms rest2 (scanner_of p1, used \<union> refs1, out2) = Inr (scanner_of p', used \<union> refs1 \<union> refs, out')"
          "wf_output out'" "out_input out' = out_input out2" "output_text out' = output_text out2 @ shown"
          "emits (\<lambda>x. x) ms p1 (plain rest2) shown refs p'"
        using "1.IH" [rule_format, OF len p1 push(2), of "used \<union> refs1"] by (elim exE conjE) (rule that)
      have "emits (\<lambda>x. x) ms p (plain skip @ [([ch], ch)] @ plain rest2) (skip @ shown1 @ shown) ({} \<union> (refs1 \<union> refs)) p'"
        by (intro emits_trans [OF em] emits_trans [OF push(5)] rec(5))
      then show ?thesis using loop push rec out1 split Cons
        by (intro exI [of _ p'] exI [of _ "skip @ shown1 @ shown"] exI [of _ "refs1 \<union> refs"] exI [of _ out'])
          (simp add: Un_assoc)
    qed
  qed
qed

lemma scanner_text_emits:
  assumes "usable jl False ms" "shaped p" "length p < 38"
  obtains p' shown refs where
    "scanner_text jl ms input (scanner_of p, used) = Inr (scanner_of p', used \<union> refs, shown)"
    "emits (\<lambda>x. x) ms p (plain input) shown refs p'"
proof (cases "p = [] \<and> 60 \<notin> set input")
  case True
  then show ?thesis using that [of "[]" "{}" input] emits_skip [of input ms]
    by (simp add: scanner_text_def scanner_of_def)
next
  case False
  obtain p' shown refs out' where loop:
      "text_loop jl ms input (scanner_of p, used, output_new input) = Inr (scanner_of p', used \<union> refs, out')"
      "wf_output out'" "out_input out' = input" "output_text out' = shown"
      "emits (\<lambda>x. x) ms p (plain input) shown refs p'"
    using text_loop_emits [OF assms output_new(1), of input used input] by auto
  have "cow input (output_finish out') = shown" using output_finish [OF loop(2)] loop(3,4) by simp
  with False loop(1) have "scanner_text jl ms input (scanner_of p, used) = Inr (scanner_of p', used \<union> refs, shown)"
    by (auto simp: scanner_text_def scanner_of_def)
  then show ?thesis using that loop(5) by blast
qed

section \<open>Fragments do not matter\<close>

text \<open>
  What a run of the JSON scanner emits, as a function of its state alone: the output buffer
  only collects it.
\<close>

definition emits_as ::
    "(json_scan \<Rightarrow> redaction_error + json_scan) \<Rightarrow> json_scanner \<Rightarrow> ustr set
      \<Rightarrow> redaction_error + (json_scanner \<times> ustr set \<times> ustr) \<Rightarrow> bool" where
  "emits_as f j used result \<longleftrightarrow>
     (\<forall>out. wf_output out \<longrightarrow>
        (case result of
           Inl e \<Rightarrow> f (j, used, out) = Inl e
         | Inr (j', used', shown) \<Rightarrow>
             (\<exists>out'. f (j, used, out) = Inr (j', used', out') \<and> wf_output out'
                \<and> out_input out' = out_input out \<and> output_text out' = output_text out @ shown)))"

lemma emits_asD:
  assumes "emits_as f j used (Inr (j', used', shown))" "wf_output out"
  shows "\<exists>out'. f (j, used, out) = Inr (j', used', out') \<and> wf_output out'
    \<and> out_input out' = out_input out \<and> output_text out' = output_text out @ shown"
  using assms(1) [unfolded emits_as_def, rule_format, OF assms(2)] by simp

lemma emits_as_Inl: "(\<And>out. f (j, used, out) = Inl e) \<Longrightarrow> emits_as f j used (Inl e)"
  by (simp add: emits_as_def)

lemma emits_as_push:
  "(\<And>out. f (j, used, out) = Inr (j', used', push_str shown out)) \<Longrightarrow> emits_as f j used (Inr (j', used', shown))"
  by (simp add: emits_as_def)

lemma emits_as_id: "(\<And>out. f (j, used, out) = Inr (j', used', out)) \<Longrightarrow> emits_as f j used (Inr (j', used', []))"
  by (simp add: emits_as_def)

lemma emits_as_bind:
  assumes "emits_as f j used (Inr (j', used', shown))" "emits_as g j' used' r"
  shows "emits_as (\<lambda>js. res_bind (f js) g) j used
    (map_sum id (\<lambda>(j'', used'', shown'). (j'', used'', shown @ shown')) r)"
  unfolding emits_as_def
proof (intro allI impI)
  fix out assume "wf_output out"
  with assms(1) obtain out' where f: "f (j, used, out) = Inr (j', used', out')" "wf_output out'"
      "out_input out' = out_input out" "output_text out' = output_text out @ shown"
    by (fastforce simp: emits_as_def)
  from assms(2) f(2) have "case r of
      Inl e \<Rightarrow> g (j', used', out') = Inl e
    | Inr (j'', used'', s) \<Rightarrow>
        \<exists>out''. g (j', used', out') = Inr (j'', used'', out'') \<and> wf_output out''
          \<and> out_input out'' = out_input out' \<and> output_text out'' = output_text out' @ s"
    unfolding emits_as_def by blast
  with f show "case map_sum id (\<lambda>(j'', used'', shown'). (j'', used'', shown @ shown')) r of
      Inl e \<Rightarrow> res_bind (f (j, used, out)) g = Inl e
    | Inr (j'', used'', s) \<Rightarrow>
        \<exists>out''. res_bind (f (j, used, out)) g = Inr (j'', used'', out'') \<and> wf_output out''
          \<and> out_input out'' = out_input out \<and> output_text out'' = output_text out @ s"
    by (cases r) auto
qed

lemma emits_as_bind_Inl:
  assumes "emits_as f j used (Inl e)"
  shows "emits_as (\<lambda>js. res_bind (f js) g) j used (Inl e)"
  using assms by (simp add: emits_as_def)

lemma scanner_push_uniform:
  "\<exists>r. \<forall>out. wf_output out \<longrightarrow>
     (case r of
        Inl e \<Rightarrow> scanner_push jl ms ch raw json (s, used, out) = Inl e
      | Inr (s', used', shown) \<Rightarrow>
          (\<exists>out'. scanner_push jl ms ch raw json (s, used, out) = Inr (s', used', out') \<and> wf_output out'
             \<and> out_input out' = out_input out \<and> output_text out' = output_text out @ shown))"
proof (cases "ch < 0x80 \<and> matches_byte (length (sc_pending s)) ch")
  case match: True
  let ?s1 = "s\<lparr>sc_pending := sc_pending s @ [ch], sc_spelling := sc_spelling s @ raw\<rparr>"
  let ?m = "find (\<lambda>m. mp_reference m = sc_pending ?s1 \<and> active m) ms"
  show ?thesis
  proof (cases "length (sc_pending ?s1) = reference_len")
    case False
    with match show ?thesis
      by (intro exI [of _ "Inr (?s1, used, [])"]) (simp add: scanner_push_def Let_def)
  next
    case full: True
    show ?thesis
    proof (cases ?m)
      case None
      with match full show ?thesis
        by (intro exI [of _ "Inr (scanner_default, used, sc_spelling ?s1)"])
          (simp add: scanner_push_def Let_def flush_def)
    next
      case (Some m)
      let ?sh = "if json then map_err (\<lambda>_. InvalidText)
            (case jl_to_string jl (mp_secret m) of None \<Rightarrow> Inl () | Some escaped \<Rightarrow> Inr (butlast (tl escaped)))
          else (Inr (mp_secret m) :: redaction_error + ustr)"
      show ?thesis
      proof (cases ?sh)
        case (Inl e)
        with match full Some show ?thesis
          by (intro exI [of _ "Inl e"]) (simp add: scanner_push_def Let_def)
      next
        case (Inr shown)
        with match full Some show ?thesis
          by (intro exI [of _ "Inr (scanner_default, insert (mp_reference m) used, shown)"])
            (simp add: scanner_push_def Let_def)
      qed
    qed
  qed
next
  case False
  show ?thesis
  proof (cases "ch = 60")
    case True
    with False show ?thesis
      by (intro exI [of _ "Inr (\<lparr>sc_pending = [ch], sc_spelling = raw\<rparr>, used, sc_spelling s)"])
        (auto simp add: scanner_push_def Let_def flush_def)
  next
    case other: False
    with False show ?thesis
      by (intro exI [of _ "Inr (scanner_default, used, sc_spelling s @ raw)"])
        (auto simp add: scanner_push_def Let_def flush_def)
  qed
qed

lemma json_decoded_uniform: "\<exists>r. emits_as (json_decoded jl ms decoded raw) j used r"
proof (cases "js_key j")
  case True
  then show ?thesis by (intro exI [of _ "Inr (j, used, raw)"] emits_as_push) (simp add: json_decoded_def)
next
  case False
  obtain r where r: "\<And>out. wf_output out \<Longrightarrow>
     (case r of
        Inl e \<Rightarrow> scanner_push jl ms decoded raw True (js_references j, used, out) = Inl e
      | Inr (s', used', shown) \<Rightarrow>
          (\<exists>out'. scanner_push jl ms decoded raw True (js_references j, used, out) = Inr (s', used', out') \<and> wf_output out'
             \<and> out_input out' = out_input out \<and> output_text out' = output_text out @ shown))"
    using scanner_push_uniform [of jl ms decoded raw True "js_references j" used] by blast
  show ?thesis
  proof (cases r)
    case (Inl e)
    with r False show ?thesis
      by (intro exI [of _ "Inl e"]) (simp add: emits_as_def json_decoded_def)
  next
    case (Inr x)
    obtain s' used' shown where x: "x = (s', used', shown)" by (cases x) auto
    have "emits_as (json_decoded jl ms decoded raw) j used (Inr (j\<lparr>js_references := s'\<rparr>, used', shown))"
      unfolding emits_as_def
    proof (intro allI impI)
      fix out assume "wf_output out"
      from r [OF this] Inr x obtain out' where
          "scanner_push jl ms decoded raw True (js_references j, used, out) = Inr (s', used', out')"
          "wf_output out'" "out_input out' = out_input out" "output_text out' = output_text out @ shown" by auto
      with False show "case Inr (j\<lparr>js_references := s'\<rparr>, used', shown) of
          Inl e \<Rightarrow> json_decoded jl ms decoded raw (j, used, out) = Inl e
        | Inr (j', used', shown) \<Rightarrow>
            \<exists>out'. json_decoded jl ms decoded raw (j, used, out) = Inr (j', used', out') \<and> wf_output out'
              \<and> out_input out' = out_input out \<and> output_text out' = output_text out @ shown"
        by (simp add: json_decoded_def)
    qed
    then show ?thesis by blast
  qed
qed

text \<open>Parts of \<open>json_char\<close> as functions of the whole scan.\<close>

lemma emits_as_cong:
  assumes "emits_as f j1 used r" "\<And>out. g (j, used, out) = f (j1, used, out)"
  shows "emits_as g j used r"
  using assms(1) unfolding emits_as_def assms(2) .

lemma emits_as_Inr_map:
  assumes "emits_as f j used r"
  shows "emits_as (\<lambda>js. res_bind (f js) (\<lambda>(j, used, out). Inr (h j, used, out))) j used
    (map_sum id (\<lambda>(j, used, shown). (h j, used, shown)) r)"
  unfolding emits_as_def
proof (intro allI impI)
  fix out assume "wf_output out"
  with assms have "case r of
      Inl e \<Rightarrow> f (j, used, out) = Inl e
    | Inr (j', used', s) \<Rightarrow>
        \<exists>out'. f (j, used, out) = Inr (j', used', out') \<and> wf_output out'
          \<and> out_input out' = out_input out \<and> output_text out' = output_text out @ s"
    unfolding emits_as_def by blast
  then show "case map_sum id (\<lambda>(j, used, shown). (h j, used, shown)) r of
      Inl e \<Rightarrow> res_bind (f (j, used, out)) (\<lambda>(j, used, out). Inr (h j, used, out)) = Inl e
    | Inr (j', used', s) \<Rightarrow>
        \<exists>out'. res_bind (f (j, used, out)) (\<lambda>(j, used, out). Inr (h j, used, out)) = Inr (j', used', out')
          \<and> wf_output out' \<and> out_input out' = out_input out \<and> output_text out' = output_text out @ s"
    by (cases r) auto
qed

lemma json_char_uniform: "\<exists>r. emits_as (json_char jl ms ch) j used r"
proof (cases "js_inside j")
  case False
  show ?thesis
  proof (cases "json_outside ch j")
    case (Inl e)
    with False show ?thesis by (intro exI [of _ "Inl e"] emits_as_Inl) (simp add: json_char_def)
  next
    case (Inr j')
    with False show ?thesis
      by (intro exI [of _ "Inr (j', used, [ch])"] emits_as_push) (simp add: json_char_def)
  qed
next
  case inside: True
  show ?thesis
  proof (cases "js_escape j = []")
    case False
    let ?escape = "js_escape j @ [ch]"
    let ?j1 = "j\<lparr>js_escape := ?escape\<rparr>"
    show ?thesis
    proof (cases "ch < 0x80")
      case ascii: True
      show ?thesis
      proof (cases "escape_decoded jl ?escape")
        case (Inl e)
        with inside False ascii show ?thesis
          by (intro exI [of _ "Inl e"] emits_as_Inl) (simp add: json_char_def Let_def)
      next
        case (Inr d)
        show ?thesis
        proof (cases d)
          case None
          with Inr inside False ascii show ?thesis
            by (intro exI [of _ "Inr (?j1, used, [])"] emits_as_id) (simp add: json_char_def Let_def)
        next
          case (Some decoded)
          obtain r where r: "emits_as (json_decoded jl ms decoded ?escape) ?j1 used r"
            using json_decoded_uniform by blast
          let ?g = "\<lambda>js. res_bind (json_decoded jl ms decoded ?escape js)
              (\<lambda>(j2, used2, out2). Inr (j2\<lparr>js_escape := []\<rparr>, used2, out2))"
          note g = emits_as_Inr_map [OF r, of "\<lambda>j. j\<lparr>js_escape := []\<rparr>"]
          have "json_char jl ms ch (j, used, out) = ?g (?j1, used, out)" for out
            using Inr Some inside False ascii by (simp add: json_char_def Let_def)
          from emits_as_cong [of ?g, OF g this] show ?thesis by blast
        qed
      qed
    next
      case other: False
      with inside False show ?thesis
        by (intro exI [of _ "Inl InvalidText"] emits_as_Inl) (simp add: json_char_def)
    qed
  next
    case True
    consider "ch = 92" | "ch = 34" | "ch \<noteq> 92" "ch \<noteq> 34" "is_control ch"
      | "ch \<noteq> 92" "ch \<noteq> 34" "\<not> is_control ch" by blast
    then show ?thesis
    proof cases
      case 1
      with inside True show ?thesis
        by (intro exI [of _ "Inr (j\<lparr>js_escape := [ch]\<rparr>, used, [])"] emits_as_id) (simp add: json_char_def)
    next
      case 2
      have "emits_as (json_char jl ms ch) j used
          (Inr (j\<lparr>js_references := scanner_default, js_inside := False\<rparr>, used, sc_spelling (js_references j) @ [ch]))"
        using inside True 2 by (simp add: emits_as_def json_char_def flush_def Let_def)
      then show ?thesis by blast
    next
      case 3
      with inside True show ?thesis
        by (intro exI [of _ "Inl InvalidText"] emits_as_Inl) (simp add: json_char_def)
    next
      case 4
      with inside True have "json_char jl ms ch (j, used, out) = json_decoded jl ms ch [ch] (j, used, out)" for out
        by (simp add: json_char_def)
      then show ?thesis using json_decoded_uniform emits_as_cong [of "json_decoded jl ms ch [ch]"] by metis
    qed
  qed
qed

lemma json_chars_uniform: "\<exists>r. emits_as (json_chars jl ms input) j used r"
proof (induction input arbitrary: j used)
  case Nil
  then show ?case by (intro exI [of _ "Inr (j, used, [])"] emits_as_id) simp
next
  case (Cons ch input)
  obtain r where r: "emits_as (json_char jl ms ch) j used r" using json_char_uniform by blast
  have eq: "json_chars jl ms (ch # input) = (\<lambda>js. res_bind (json_char jl ms ch js) (json_chars jl ms input))"
    by (rule ext) simp
  show ?case
  proof (cases r)
    case (Inl e)
    with emits_as_bind_Inl r show ?thesis unfolding eq by blast
  next
    case (Inr x)
    obtain j' used' shown where x: "x = (j', used', shown)" by (cases x) auto
    obtain r' where "emits_as (json_chars jl ms input) j' used' r'" using Cons by blast
    with emits_as_bind r Inr x show ?thesis unfolding eq by blast
  qed
qed

lemma json_chars_append:
  "json_chars jl ms (a @ b) js = res_bind (json_chars jl ms a js) (json_chars jl ms b)"
  by (induction a arbitrary: js) (simp_all add: res_bind_def split: sum.splits)

lemma bind_json_chars_Nil [simp]: "res_bind r (json_chars jl ms []) = r"
  by (cases r) simp_all

text \<open>A document pushed in fragments: the state after them and what they were replaced by.\<close>

fun push_fragments ::
    "json_strings \<Rightarrow> mapping list \<Rightarrow> ustr list \<Rightarrow> json_scanner \<times> ustr set
      \<Rightarrow> redaction_error + (json_scanner \<times> ustr set \<times> ustr)" where
  "push_fragments jl ms [] (j, used) = Inr (j, used, [])"
| "push_fragments jl ms (input # inputs) (j, used) =
     res_bind (json_push jl ms input (j, used)) (\<lambda>(j', used', r).
     res_bind (push_fragments jl ms inputs (j', used')) (\<lambda>(j'', used'', shown).
     Inr (j'', used'', cow input r @ shown)))"

lemma json_push_emits:
  assumes "emits_as (json_chars jl ms input) j used (Inr (j', used', shown))"
  obtains r where "json_push jl ms input (j, used) = Inr (j', used', r)" "cow input r = shown"
proof -
  obtain out' where "json_chars jl ms input (j, used, output_new input) = Inr (j', used', out')"
      "wf_output out'" "out_input out' = input" "output_text out' = shown"
    using assms output_new(1) [of input] by (force simp: emits_as_def)
  then show ?thesis using that [of "output_finish out'"] output_finish [of out'] by (simp add: json_push_def)
qed

lemma push_fragments_emits:
  assumes "emits_as (json_chars jl ms (concat inputs)) j used (Inr (j', used', shown))"
  shows "push_fragments jl ms inputs (j, used) = Inr (j', used', shown)"
  using assms
proof (induction inputs arbitrary: j used shown)
  case Nil
  then obtain out' where "json_chars jl ms [] (j, used, output_new []) = Inr (j', used', out')"
      "output_text out' = output_text (output_new []) @ shown"
    using emits_asD [OF _ output_new(1) [of "[]"]] by (metis concat.simps(1))
  then show ?case by auto
next
  case (Cons input inputs)
  let ?all = "json_chars jl ms (input @ concat inputs)"
  obtain r where r: "emits_as (json_chars jl ms input) j used r" using json_chars_uniform by blast
  have out: "wf_output (output_new [])" by simp
  from Cons.prems out obtain out' where all: "?all (j, used, output_new []) = Inr (j', used', out')"
      "output_text out' = shown" by (force simp: emits_as_def)
  show ?case
  proof (cases r)
    case (Inl e)
    with r out have "json_chars jl ms input (j, used, output_new []) = Inl e" by (force simp: emits_as_def)
    with all show ?thesis by (simp add: json_chars_append)
  next
    case (Inr x)
    obtain j1 used1 shown1 where x: "x = (j1, used1, shown1)" by (cases x) auto
    obtain r2 where r2: "emits_as (json_chars jl ms (concat inputs)) j1 used1 r2"
      using json_chars_uniform by blast
    obtain out1 where o1: "json_chars jl ms input (j, used, output_new []) = Inr (j1, used1, out1)"
        "wf_output out1" "output_text out1 = shown1"
      using r Inr x out by (force simp: emits_as_def)
    show ?thesis
    proof (cases r2)
      case (Inl e)
      with r2 o1(2) have "json_chars jl ms (concat inputs) (j1, used1, out1) = Inl e"
        by (force simp: emits_as_def)
      with all o1 show ?thesis by (simp add: json_chars_append)
    next
      case r2': (Inr y)
      obtain j2 used2 shown2 where y: "y = (j2, used2, shown2)" by (cases y) auto
      obtain out2 where o2: "json_chars jl ms (concat inputs) (j1, used1, out1) = Inr (j2, used2, out2)"
          "output_text out2 = shown1 @ shown2"
        using r2 r2' y o1(2,3) by (force simp: emits_as_def)
      with all o1 have eq: "j2 = j'" "used2 = used'" "shown = shown1 @ shown2"
        by (auto simp: json_chars_append)
      have "push_fragments jl ms inputs (j1, used1) = Inr (j', used', shown2)"
        using Cons.IH r2 r2' y eq by simp
      moreover obtain rr where "json_push jl ms input (j, used) = Inr (j1, used1, rr)" "cow input rr = shown1"
        using r Inr x by (auto elim: json_push_emits)
      ultimately show ?thesis using eq by simp
    qed
  qed
qed

section \<open>String literals\<close>

text \<open>
  How a character may be spelled in a JSON string: by itself, or by an escape sequence of
  ASCII characters that the library decodes to it. \<open>escape_length\<close> is the length the code
  waits for: two, six for \<open>\u\<close>, twelve if that is a high surrogate.
\<close>

definition escape_length :: "ustr \<Rightarrow> nat option" where
  "escape_length raw =
     (if raw ! 1 = 117
      then map_option (\<lambda>high. if 0xd800 \<le> high \<and> high \<le> 0xdbff then 12 else 6)
        (from_str_radix16 (take 4 (drop 2 raw)))
      else Some 2)"

definition good_token :: "json_strings \<Rightarrow> token \<Rightarrow> bool" where
  "good_token jl t \<longleftrightarrow> (case t of (raw, ch) \<Rightarrow>
     (raw = [ch] \<and> ch \<noteq> 34 \<and> ch \<noteq> 92 \<and> \<not> is_control ch)
     \<or> (2 \<le> length raw \<and> hd raw = 92 \<and> (\<forall>c \<in> set raw. c < 0x80)
        \<and> escape_length raw = Some (length raw)
        \<and> (case jl_from_str jl (34 # raw @ [34]) of Some (d # _) \<Rightarrow> d = ch | _ \<Rightarrow> False)))"

lemma escape_decoded_prefix:
  assumes "escape_length raw = Some (length raw)" "2 \<le> k" "k < length raw"
  shows "escape_decoded jl (take k raw) = Inr None"
proof -
  have nth: "take k raw ! 1 = raw ! 1" using assms(2) by simp
  show ?thesis
  proof (cases "raw ! 1 = 117")
    case False
    with assms show ?thesis by (simp add: escape_length_def)
  next
    case True
    with assms(1) obtain high where h: "from_str_radix16 (take 4 (drop 2 raw)) = Some high"
        "length raw = (if 0xd800 \<le> high \<and> high \<le> 0xdbff then 12 else 6)"
      by (auto simp: escape_length_def split: if_splits)
    show ?thesis
    proof (cases "k < 6")
      case True
      with nth \<open>raw ! 1 = 117\<close> assms(2,3) show ?thesis by (simp add: escape_decoded_def)
    next
      case False
      then have "take 4 (drop 2 (take k raw)) = take 4 (drop 2 raw)"
        by (simp add: drop_take min_def)
      moreover have "length raw = 12 \<and> 0xd800 \<le> high \<and> high \<le> 0xdbff"
        using h(2) assms(3) False by (auto split: if_splits)
      ultimately show ?thesis using nth True h(1) False assms(2,3)
        by (simp add: escape_decoded_def Let_def ok_or_def)
    qed
  qed
qed

lemma escape_decoded_full:
  assumes "escape_length raw = Some (length raw)" "2 \<le> length raw"
    and "jl_from_str jl (34 # raw @ [34]) = Some (ch # ds)"
  shows "escape_decoded jl raw = Inr (Some ch)"
proof (cases "raw ! 1 = 117")
  case False
  with assms show ?thesis by (simp add: escape_decoded_def ok_or_def)
next
  case True
  with assms(1) obtain high where h: "from_str_radix16 (take 4 (drop 2 raw)) = Some high"
      "length raw = (if 0xd800 \<le> high \<and> high \<le> 0xdbff then 12 else 6)"
    by (auto simp: escape_length_def split: if_splits)
  with True assms show ?thesis by (auto simp: escape_decoded_def ok_or_def Let_def)
qed

text \<open>Reading an escape sequence, from the backslash on.\<close>

lemma json_chars_escape:
  assumes "\<forall>c \<in> set raw. c < 0x80" "escape_length raw = Some (length raw)"
    and "jl_from_str jl (34 # raw @ [34]) = Some (ch # ds)"
    and "js_inside j" "1 \<le> k" "k < length raw"
  shows "json_chars jl ms (drop k raw) (j\<lparr>js_escape := take k raw\<rparr>, used, out) =
    res_bind (json_decoded jl ms ch raw (j\<lparr>js_escape := raw\<rparr>, used, out))
      (\<lambda>(j2, used2, out2). Inr (j2\<lparr>js_escape := []\<rparr>, used2, out2))"
  using assms(5,6)
proof (induction "length raw - k" arbitrary: k)
  case (Suc n)
  let ?c = "raw ! k"
  have d: "drop k raw = ?c # drop (Suc k) raw" using Suc.prems by (simp add: Cons_nth_drop_Suc)
  have t: "take k raw @ [?c] = take (Suc k) raw" using Suc.prems by (simp add: take_Suc_conv_app_nth)
  have ne: "take k raw \<noteq> []" using Suc.prems by auto
  have ascii: "?c < 0x80" using assms(1) Suc.prems by simp
  show ?case
  proof (cases "Suc k = length raw")
    case False
    then have "escape_decoded jl (take (Suc k) raw) = Inr None"
      using Suc.prems by (intro escape_decoded_prefix assms(2)) simp_all
    then have "json_char jl ms ?c (j\<lparr>js_escape := take k raw\<rparr>, used, out)
        = Inr (j\<lparr>js_escape := take (Suc k) raw\<rparr>, used, out)"
      using assms(4) ne ascii t by (simp add: json_char_def Let_def)
    moreover have "json_chars jl ms (drop (Suc k) raw) (j\<lparr>js_escape := take (Suc k) raw\<rparr>, used, out) =
        res_bind (json_decoded jl ms ch raw (j\<lparr>js_escape := raw\<rparr>, used, out))
          (\<lambda>(j2, used2, out2). Inr (j2\<lparr>js_escape := []\<rparr>, used2, out2))"
      using Suc.hyps(2) Suc.prems False by (intro Suc.hyps(1)) simp_all
    ultimately show ?thesis unfolding d by simp
  next
    case True
    then have full: "take (Suc k) raw = raw" by simp
    have "escape_decoded jl raw = Inr (Some ch)"
      using True Suc.prems by (intro escape_decoded_full [OF assms(2) _ assms(3)]) simp
    then have "json_char jl ms ?c (j\<lparr>js_escape := take k raw\<rparr>, used, out) =
        res_bind (json_decoded jl ms ch raw (j\<lparr>js_escape := raw\<rparr>, used, out))
          (\<lambda>(j2, used2, out2). Inr (j2\<lparr>js_escape := []\<rparr>, used2, out2))"
      using assms(4) ne ascii t full by (simp add: json_char_def Let_def)
    then show ?thesis unfolding d using True
      by (simp add: res_bind_def split: sum.splits)
  qed
qed simp

lemma json_chars_token:
  assumes "good_token jl (raw, ch)" "js_inside j" "js_escape j = []"
  shows "json_chars jl ms raw (j, used, out) =
    res_bind (json_decoded jl ms ch raw (j, used, out))
      (\<lambda>(j2, used2, out2). Inr (j2\<lparr>js_escape := []\<rparr>, used2, out2))"
proof -
  have esc: "js_escape j2 = []" if "json_decoded jl ms ch raw' (j, used, out) = Inr (j2, used2, out2)"
    for raw' j2 used2 out2
    using that assms(3) by (cases "scanner_push jl ms ch raw' True (js_references j, used, out)")
      (auto simp: json_decoded_def split: if_splits)
  have reset: "j2\<lparr>js_escape := []\<rparr> = j2" if "js_escape j2 = []" for j2 :: json_scanner
    using that by simp
  from assms(1) consider (self) "raw = [ch]" "ch \<noteq> 34" "ch \<noteq> 92" "\<not> is_control ch"
    | (escape) ds where "2 \<le> length raw" "hd raw = 92" "\<forall>c \<in> set raw. c < 0x80"
        "escape_length raw = Some (length raw)" "jl_from_str jl (34 # raw @ [34]) = Some (ch # ds)"
    by (auto simp: good_token_def split: option.splits list.splits)
  then show ?thesis
  proof cases
    case self
    then have "json_chars jl ms raw (j, used, out) = res_bind (json_decoded jl ms ch [ch] (j, used, out)) Inr"
      using assms(2,3) by (simp add: json_char_def res_bind_def split: sum.splits)
    with esc [of "[ch]"] reset self(1) show ?thesis
      by (cases "json_decoded jl ms ch [ch] (j, used, out)") auto
  next
    case escape
    then have "raw = 92 # tl raw" by (cases raw) simp_all
    then obtain rest where raw: "raw = 92 # rest" by blast
    have "json_chars jl ms (drop 1 raw) (j\<lparr>js_escape := take 1 raw\<rparr>, used, out) =
        res_bind (json_decoded jl ms ch raw (j\<lparr>js_escape := raw\<rparr>, used, out))
          (\<lambda>(j2, used2, out2). Inr (j2\<lparr>js_escape := []\<rparr>, used2, out2))"
      using escape assms(2) by (intro json_chars_escape) simp_all
    moreover have "json_chars jl ms raw (j, used, out)
        = json_chars jl ms (drop 1 raw) (j\<lparr>js_escape := take 1 raw\<rparr>, used, out)"
      using assms(2,3) raw by (simp add: json_char_def)
    moreover have "res_bind (json_decoded jl ms ch raw (j\<lparr>js_escape := raw\<rparr>, used, out))
          (\<lambda>(j2, used2, out2). Inr (j2\<lparr>js_escape := []\<rparr>, used2, out2)) =
        res_bind (json_decoded jl ms ch raw (j, used, out))
          (\<lambda>(j2, used2, out2). Inr (j2\<lparr>js_escape := []\<rparr>, used2, out2))"
      by (cases "scanner_push jl ms ch raw True (js_references j, used, out)")
        (auto simp: json_decoded_def)
    ultimately show ?thesis by simp
  qed
qed

text \<open>The characters of a string value.\<close>

lemma json_chars_value:
  assumes us: "usable jl True ms" and "\<forall>t \<in> set ts. good_token jl t" "js_inside j" "\<not> js_key j"
    "js_escape j = []" "shaped p" "length p < 38" "js_references j = scanner_of p"
  shows "\<exists>p' shown refs. emits_as (json_chars jl ms (spelled ts)) j used
      (Inr (j\<lparr>js_references := scanner_of p'\<rparr>, used \<union> refs, shown))
    \<and> emits (shown_as jl True) ms p ts shown refs p'"
  using assms(2-)
proof (induction ts arbitrary: j p used)
  case Nil
  then have "emits_as (json_chars jl ms (spelled [])) j used (Inr (j\<lparr>js_references := scanner_of p\<rparr>, used \<union> {}, []))"
    by (intro emits_as_id) simp
  with Nil emits_Nil show ?case by blast
next
  case (Cons t ts)
  obtain raw ch where t: "t = (raw, ch)" by (cases t) auto
  note key = Cons.prems(3)
  \<comment> \<open>the first character\<close>
  have "\<exists>p1 shown1 refs1. emits_as (json_chars jl ms raw) j used
      (Inr (j\<lparr>js_references := scanner_of p1\<rparr>, used \<union> refs1, shown1))
    \<and> emits (shown_as jl True) ms p [(raw, ch)] shown1 refs1 p1"
  proof -
    have chars: "json_chars jl ms raw (j, used, out) =
        res_bind (json_decoded jl ms ch raw (j, used, out))
          (\<lambda>(j2, used2, out2). Inr (j2\<lparr>js_escape := []\<rparr>, used2, out2))" for out
      using Cons.prems(1,2,4) t by (intro json_chars_token) simp_all
    obtain r where r: "emits_as (json_decoded jl ms ch raw) j used r" using json_decoded_uniform by blast
    obtain p1 shown1 refs1 out1 where step:
        "scanner_push jl ms ch raw True (scanner_of p, used, output_new []) = Inr (scanner_of p1, used \<union> refs1, out1)"
        "wf_output out1" "out_input out1 = out_input (output_new [])"
        "output_text out1 = output_text (output_new []) @ shown1"
        "emits (shown_as jl True) ms p [(raw, ch)] shown1 refs1 p1"
      by (rule scanner_step [OF us Cons.prems(5,6) output_new(1), of ch raw used "[]"])
    have dec: "json_decoded jl ms ch raw (j, used, output_new [])
        = Inr (j\<lparr>js_references := scanner_of p1\<rparr>, used \<union> refs1, out1)"
      using step(1) Cons.prems(7) key by (simp add: json_decoded_def)
    have "r = Inr (j\<lparr>js_references := scanner_of p1\<rparr>, used \<union> refs1, shown1)"
    proof (cases r)
      case (Inl e)
      with r dec show ?thesis using output_new(1) [of "[]"] by (force simp: emits_as_def)
    next
      case (Inr x)
      obtain j2 used2 shown2 where x: "x = (j2, used2, shown2)" by (cases x) auto
      from emits_asD [OF r [unfolded Inr x] output_new(1) [of "[]"]] dec step(4) Inr x show ?thesis by auto
    qed
    with emits_as_Inr_map [OF r, of "\<lambda>j. j\<lparr>js_escape := []\<rparr>"] Cons.prems(4)
    have "emits_as (\<lambda>js. res_bind (json_decoded jl ms ch raw js)
          (\<lambda>(j2, used2, out2). Inr (j2\<lparr>js_escape := []\<rparr>, used2, out2))) j used
        (Inr (j\<lparr>js_references := scanner_of p1, js_escape := []\<rparr>, used \<union> refs1, shown1))" by simp
    from emits_as_cong [OF this chars] have "emits_as (json_chars jl ms raw) j used
        (Inr (j\<lparr>js_references := scanner_of p1, js_escape := []\<rparr>, used \<union> refs1, shown1))" .
    moreover have "j\<lparr>js_references := scanner_of p1, js_escape := []\<rparr> = j\<lparr>js_references := scanner_of p1\<rparr>"
      using Cons.prems(4) by (cases j) simp
    ultimately show ?thesis using step(5) by auto
  qed
  then obtain p1 shown1 refs1 where one:
      "emits_as (json_chars jl ms raw) j used (Inr (j\<lparr>js_references := scanner_of p1\<rparr>, used \<union> refs1, shown1))"
      "emits (shown_as jl True) ms p [(raw, ch)] shown1 refs1 p1" by blast
  \<comment> \<open>the rest\<close>
  have p1: "shaped p1" "length p1 < 38" using one(2) by (simp_all add: emits_def)
  obtain p' shown refs where rest:
      "emits_as (json_chars jl ms (spelled ts)) (j\<lparr>js_references := scanner_of p1\<rparr>) (used \<union> refs1)
        (Inr (j\<lparr>js_references := scanner_of p1\<rparr>\<lparr>js_references := scanner_of p'\<rparr>, used \<union> refs1 \<union> refs, shown))"
      "emits (shown_as jl True) ms p1 ts shown refs p'"
    using Cons.IH [of "j\<lparr>js_references := scanner_of p1\<rparr>" p1 "used \<union> refs1"] Cons.prems p1 by auto
  have eq: "json_chars jl ms (spelled (t # ts)) = (\<lambda>js. res_bind (json_chars jl ms raw js) (json_chars jl ms (spelled ts)))"
    by (rule ext) (simp add: t json_chars_append)
  have "emits_as (json_chars jl ms (spelled (t # ts))) j used
      (Inr (j\<lparr>js_references := scanner_of p'\<rparr>, used \<union> (refs1 \<union> refs), shown1 @ shown))"
    using emits_as_bind [OF one(1) rest(1)] unfolding eq by (simp add: Un_assoc)
  moreover have "emits (shown_as jl True) ms p (t # ts) (shown1 @ shown) (refs1 \<union> refs) p'"
    using emits_trans [OF one(2) rest(2)] t by simp
  ultimately show ?case by blast
qed

text \<open>The characters of a key.\<close>

lemma json_chars_key:
  assumes "\<forall>t \<in> set ts. good_token jl t" "js_inside j" "js_key j" "js_escape j = []"
  shows "emits_as (json_chars jl ms (spelled ts)) j used (Inr (j, used, spelled ts))"
  using assms
proof (induction ts arbitrary: used)
  case Nil
  show ?case by (simp add: emits_as_id)
next
  case (Cons t ts)
  obtain raw ch where t: "t = (raw, ch)" by (cases t) auto
  have "json_chars jl ms raw (j, used, out) = Inr (j, used, push_str raw out)" for out
    using Cons.prems t by (subst json_chars_token [where ch = ch]) (simp_all add: json_decoded_def)
  then have one: "emits_as (json_chars jl ms raw) j used (Inr (j, used, raw))" by (intro emits_as_push)
  have eq: "json_chars jl ms (spelled (t # ts)) = (\<lambda>js. res_bind (json_chars jl ms raw js) (json_chars jl ms (spelled ts)))"
    by (rule ext) (simp add: t json_chars_append)
  show ?case using emits_as_bind [OF one Cons.IH] Cons.prems t unfolding eq by simp
qed

section \<open>Documents\<close>

text \<open>A document is a sequence of string literals and of characters between them.\<close>

datatype segment = Syntax nat | Literal "token list"

fun segment_text :: "segment \<Rightarrow> ustr" where
  "segment_text (Syntax c) = [c]"
| "segment_text (Literal ts) = 34 # spelled ts @ [34]"

fun wf_segments :: "json_strings \<Rightarrow> json_scanner \<Rightarrow> segment list \<Rightarrow> bool" where
  "wf_segments jl j [] \<longleftrightarrow> True"
| "wf_segments jl j (Syntax c # ss) \<longleftrightarrow>
     c \<noteq> 34 \<and> (case json_outside c j of Inl e \<Rightarrow> False | Inr j' \<Rightarrow> wf_segments jl j' ss)"
| "wf_segments jl j (Literal ts # ss) \<longleftrightarrow>
     (\<forall>t \<in> set ts. good_token jl t) \<and> wf_segments jl (j\<lparr>js_key := js_expect_key j\<rparr>) ss"

text \<open>
  \<open>restored_segments ms j ss ss'\<close>: the second document is the first one with every string
  value restored; what stands between literals and the keys of objects are the same. Whether a
  literal is a key is the scanner's own notion, \<open>js_expect_key\<close>.
\<close>

fun restored_segments :: "mapping list \<Rightarrow> json_scanner \<Rightarrow> segment list \<Rightarrow> segment list \<Rightarrow> bool" where
  "restored_segments ms j [] [] \<longleftrightarrow> True"
| "restored_segments ms j (Syntax c # ss) (Syntax c' # ss') \<longleftrightarrow>
     c' = c \<and> (case json_outside c j of Inl e \<Rightarrow> False | Inr j' \<Rightarrow> restored_segments ms j' ss ss')"
| "restored_segments ms j (Literal ts # ss) (Literal ts' # ss') \<longleftrightarrow>
     (if js_expect_key j then ts' = ts else map snd ts' = restore_text ms (map snd ts))
     \<and> restored_segments ms (j\<lparr>js_key := js_expect_key j\<rparr>) ss ss'"
| "restored_segments ms j _ _ \<longleftrightarrow> False"

text \<open>
  What \<open>serde_json\<close> documents of \<open>to_string\<close>: a quoted string that spells the secret with
  characters and escape sequences it also reads.
\<close>

definition spells_secrets :: "json_strings \<Rightarrow> mapping list \<Rightarrow> bool" where
  "spells_secrets jl ms \<longleftrightarrow>
     (\<forall>m \<in> set ms. mp_secret m \<noteq> []
        \<and> (\<exists>ts. jl_to_string jl (mp_secret m) = Some (34 # spelled ts @ [34])
             \<and> (\<forall>t \<in> set ts. good_token jl t) \<and> map snd ts = mp_secret m))"

lemma spells_usable: "spells_secrets jl ms \<Longrightarrow> usable jl True ms"
  by (auto simp: spells_secrets_def usable_def)

lemma spells_shown:
  assumes "spells_secrets jl ms" "m \<in> set ms"
  obtains ts where "shown_as jl True (mp_secret m) = spelled ts" "\<forall>t \<in> set ts. good_token jl t"
    "map snd ts = mp_secret m"
  using assms by (fastforce simp: spells_secrets_def shown_as_def)

text \<open>The restored literal reads as the restored string.\<close>

lemma restore_tokens_reads:
  assumes "spells_secrets jl ms"
  shows "\<forall>t \<in> set ts. good_token jl t \<Longrightarrow>
    \<exists>ts'. (\<forall>t \<in> set ts'. good_token jl t) \<and> spelled ts' = restore_tokens (shown_as jl True) ms ts
      \<and> map snd ts' = restore_text ms (map snd ts)"
proof (induction ts rule: length_induct)
  case (1 ts)
  show ?case
  proof (cases ts)
    case Nil
    then show ?thesis by (intro exI [of _ "[]"]) simp
  next
    case (Cons t rest)
    let ?q = "take 38 ts" and ?rest = "drop 38 ts"
    show ?thesis
    proof (cases "lookup_reference ms (map snd ?q)")
      case None
      obtain ts' where ts': "\<forall>t \<in> set ts'. good_token jl t"
          "spelled ts' = restore_tokens (shown_as jl True) ms rest" "map snd ts' = restore_text ms (map snd rest)"
        using "1.IH" "1.prems" Cons by auto
      have none: "lookup_reference ms (snd t # map snd (take 37 rest)) = None" using None Cons by simp
      have "restore_tokens (shown_as jl True) ms (t # rest) = fst t @ restore_tokens (shown_as jl True) ms rest"
        using none by (rule restore_tokens_unknown)
      moreover have "restore_text ms (snd t # map snd rest) = snd t # restore_text ms (map snd rest)"
        using none by (intro restore_unknown) (simp add: take_map)
      ultimately show ?thesis using ts' "1.prems" Cons by (intro exI [of _ "t # ts'"]) simp
    next
      case (Some m)
      obtain s where s: "shown_as jl True (mp_secret m) = spelled s" "\<forall>t \<in> set s. good_token jl t"
          "map snd s = mp_secret m"
        using spells_shown [OF assms] lookup_reference_Some [OF Some] by blast
      obtain ts' where ts': "\<forall>t \<in> set ts'. good_token jl t"
          "spelled ts' = restore_tokens (shown_as jl True) ms ?rest" "map snd ts' = restore_text ms (map snd ?rest)"
      proof -
        have "length ?rest < length ts" using Cons by simp
        moreover have "\<forall>t \<in> set ?rest. good_token jl t" using "1.prems" by (auto dest: in_set_dropD)
        ultimately show thesis using "1.IH" that by blast
      qed
      have "restore_tokens (shown_as jl True) ms (?q @ ?rest) = spelled s @ restore_tokens (shown_as jl True) ms ?rest"
        using restore_tokens_known [OF Some, of "shown_as jl True" ?rest] s(1) by (simp only:)
      moreover have "restore_text ms (map snd ?q @ map snd ?rest) = mp_secret m @ restore_text ms (map snd ?rest)"
        by (rule restore_known(1) [OF Some])
      ultimately have "restore_tokens (shown_as jl True) ms ts = spelled s @ spelled ts'"
          "restore_text ms (map snd ts) = map snd s @ map snd ts'"
        using ts'(2,3) s(3) by (simp_all only: append_take_drop_id map_append [symmetric])
      with s(2) ts'(1) show ?thesis by (intro exI [of _ "s @ ts'"]) auto
    qed
  qed
qed

lemma json_chars_literal:
  assumes "usable jl True ms" "\<forall>t \<in> set ts. good_token jl t" "\<not> js_inside j" "js_escape j = []"
    "js_references j = scanner_default"
  shows "\<exists>refs. emits_as (json_chars jl ms (segment_text (Literal ts))) j used
    (Inr (j\<lparr>js_key := js_expect_key j\<rparr>, used \<union> refs,
      34 # (if js_expect_key j then spelled ts else restore_tokens (shown_as jl True) ms ts) @ [34]))"
proof -
  let ?j1 = "j\<lparr>js_inside := True, js_key := js_expect_key j\<rparr>"
  let ?j2 = "j\<lparr>js_key := js_expect_key j\<rparr>"
  have eq: "json_chars jl ms (segment_text (Literal ts)) = (\<lambda>js. res_bind (json_chars jl ms [34] js)
      (\<lambda>js. res_bind (json_chars jl ms (spelled ts) js) (json_chars jl ms [34])))"
  proof (rule ext)
    fix js
    have "segment_text (Literal ts) = [34] @ (spelled ts @ [34])" by simp
    then show "json_chars jl ms (segment_text (Literal ts)) js = res_bind (json_chars jl ms [34] js)
        (\<lambda>js. res_bind (json_chars jl ms (spelled ts) js) (json_chars jl ms [34]))"
      by (cases "json_chars jl ms [34] js") (simp_all only: json_chars_append [of jl ms "[34]"] json_chars_append res_bind_simps)
  qed
  have opened: "emits_as (json_chars jl ms [34]) j used (Inr (?j1, used, [34]))"
    using assms(3) by (intro emits_as_push) (simp add: json_char_def json_outside_def)
  have closed: "emits_as (json_chars jl ms [34]) (?j1\<lparr>js_references := s\<rparr>) u (Inr (?j2, u, sc_spelling s @ [34]))"
    for s u
    using assms(3-5) by (cases j) (simp add: emits_as_def json_char_def flush_def Let_def)
  show ?thesis
  proof (cases "js_expect_key j")
    case True
    have "emits_as (json_chars jl ms (spelled ts)) ?j1 used (Inr (?j1, used, spelled ts))"
      using True assms by (intro json_chars_key) simp_all
    moreover have same: "?j1\<lparr>js_references := scanner_default\<rparr> = ?j1" using assms(5) by (cases j) simp
    have "sc_spelling scanner_default = []" by (simp add: scanner_default_def)
    with closed [of scanner_default used] have "emits_as (json_chars jl ms [34]) ?j1 used (Inr (?j2, used, [34]))"
      unfolding same by simp
    ultimately have "emits_as (json_chars jl ms (segment_text (Literal ts))) j used
        (map_sum id (\<lambda>(j'', used'', shown'). (j'', used'', [34] @ shown'))
          (map_sum id (\<lambda>(j'', used'', shown'). (j'', used'', spelled ts @ shown')) (Inr (?j2, used, [34]))))"
      unfolding eq by (intro emits_as_bind [OF opened] emits_as_bind)
    with True show ?thesis by (intro exI [of _ "{}"]) simp
  next
    case False
    obtain p' shown refs where body:
        "emits_as (json_chars jl ms (spelled ts)) ?j1 used (Inr (?j1\<lparr>js_references := scanner_of p'\<rparr>, used \<union> refs, shown))"
        "emits (shown_as jl True) ms [] ts shown refs p'"
      using json_chars_value [OF assms(1,2), of ?j1 "[]" used] False assms(3-5)
      by (auto simp: scanner_of_Nil)
    have "sc_spelling (scanner_of p') = spelled p'" by (simp add: scanner_of_def)
    with emits_as_bind [OF opened emits_as_bind [OF body(1) closed]] emits_flush(1) [OF body(2)] False
    show ?thesis unfolding eq by (intro exI [of _ refs]) simp
  qed
qed

lemma json_outside_frame:
  "json_outside c j = Inr j' \<Longrightarrow> c \<noteq> 34 \<Longrightarrow>
     js_inside j' = js_inside j \<and> js_escape j' = js_escape j \<and> js_references j' = js_references j"
  by (auto simp: json_outside_def split: if_splits list.splits)

lemma json_document:
  assumes "spells_secrets jl ms"
  shows "wf_segments jl j segs \<Longrightarrow> \<not> js_inside j \<Longrightarrow> js_escape j = [] \<Longrightarrow> js_references j = scanner_default \<Longrightarrow>
    \<exists>j' refs segs'. emits_as (json_chars jl ms (concat (map segment_text segs))) j used
        (Inr (j', used \<union> refs, concat (map segment_text segs')))
      \<and> js_escape j' = [] \<and> js_references j' = scanner_default
      \<and> wf_segments jl j segs' \<and> restored_segments ms j segs segs'"
proof (induction segs arbitrary: j used)
  case Nil
  have "emits_as (json_chars jl ms (concat (map segment_text []))) j used (Inr (j, used \<union> {}, []))"
    by (simp add: emits_as_id)
  then show ?case by (intro exI [of _ j] exI [of _ "{}"] exI [of _ "[]"]) (use Nil in \<open>simp_all only: wf_segments.simps restored_segments.simps list.map concat.simps simp_thms\<close>)
next
  case (Cons seg segs)
  have eq: "json_chars jl ms (concat (map segment_text (seg # segs))) =
      (\<lambda>js. res_bind (json_chars jl ms (segment_text seg) js) (json_chars jl ms (concat (map segment_text segs))))"
    by (rule ext) (simp add: json_chars_append)
  show ?case
  proof (cases seg)
    case (Syntax c)
    with Cons.prems obtain j1 where j1: "json_outside c j = Inr j1" "c \<noteq> 34" "wf_segments jl j1 segs"
      by (auto split: sum.splits)
    note frame = json_outside_frame [OF j1(1,2)]
    have one: "emits_as (json_chars jl ms (segment_text seg)) j used (Inr (j1, used, [c]))"
      using Cons.prems(2) j1(1) Syntax by (intro emits_as_push) (simp add: json_char_def)
    obtain j' refs segs' where rest:
        "emits_as (json_chars jl ms (concat (map segment_text segs))) j1 used
          (Inr (j', used \<union> refs, concat (map segment_text segs')))"
        "js_escape j' = []" "js_references j' = scanner_default" "wf_segments jl j1 segs'"
        "restored_segments ms j1 segs segs'"
      using Cons.IH [OF j1(3), of used] frame Cons.prems by auto
    show ?thesis
      by (intro exI [of _ j'] exI [of _ refs] exI [of _ "Syntax c # segs'"])
        (use emits_as_bind [OF one rest(1)] rest j1 Syntax in \<open>simp add: eq\<close>)
  next
    case (Literal ts)
    let ?j1 = "j\<lparr>js_key := js_expect_key j\<rparr>"
    have good: "\<forall>t \<in> set ts. good_token jl t" "wf_segments jl ?j1 segs" using Cons.prems(1) Literal by simp_all
    obtain ts' where ts': "\<forall>t \<in> set ts'. good_token jl t"
        "spelled ts' = (if js_expect_key j then spelled ts else restore_tokens (shown_as jl True) ms ts)"
        "if js_expect_key j then ts' = ts else map snd ts' = restore_text ms (map snd ts)"
      using restore_tokens_reads [OF assms good(1)] good(1) by (cases "js_expect_key j") auto
    obtain refs1 where one: "emits_as (json_chars jl ms (segment_text seg)) j used
        (Inr (?j1, used \<union> refs1, segment_text (Literal ts')))"
      using json_chars_literal [OF spells_usable [OF assms] good(1) Cons.prems(2-4), of used] Literal ts'(2)
      by auto
    obtain j' refs segs' where rest:
        "emits_as (json_chars jl ms (concat (map segment_text segs))) ?j1 (used \<union> refs1)
          (Inr (j', used \<union> refs1 \<union> refs, concat (map segment_text segs')))"
        "js_escape j' = []" "js_references j' = scanner_default" "wf_segments jl ?j1 segs'"
        "restored_segments ms ?j1 segs segs'"
      using Cons.IH [OF good(2), of "used \<union> refs1"] Cons.prems by auto
    have "emits_as (json_chars jl ms (concat (map segment_text (seg # segs)))) j used
        (Inr (j', used \<union> (refs1 \<union> refs), concat (map segment_text (Literal ts' # segs'))))"
      unfolding eq using emits_as_bind [OF one rest(1)] by (simp del: segment_text.simps add: Un_assoc)
    moreover have "wf_segments jl j (Literal ts' # segs')" "restored_segments ms j (seg # segs) (Literal ts' # segs')"
      using rest(4,5) ts'(1,3) Literal by simp_all
    ultimately show ?thesis using rest(2,3) by blast
  qed
qed


section \<open>Text in fragments\<close>

fun text_fragments ::
    "json_strings \<Rightarrow> mapping list \<Rightarrow> ustr list \<Rightarrow> scanner \<times> ustr set
      \<Rightarrow> redaction_error + (scanner \<times> ustr set \<times> ustr)" where
  "text_fragments jl ms [] (s, used) = Inr (s, used, [])"
| "text_fragments jl ms (input # inputs) (s, used) =
     res_bind (scanner_text jl ms input (s, used)) (\<lambda>(s', used', shown).
     res_bind (text_fragments jl ms inputs (s', used')) (\<lambda>(s'', used'', more).
     Inr (s'', used'', shown @ more)))"

lemma text_fragments_emit:
  assumes "usable jl False ms"
  shows "shaped p \<Longrightarrow> length p < 38 \<Longrightarrow>
    \<exists>p' shown refs. text_fragments jl ms inputs (scanner_of p, used) = Inr (scanner_of p', used \<union> refs, shown)
      \<and> emits (\<lambda>x. x) ms p (plain (concat inputs)) shown refs p'"
proof (induction inputs arbitrary: p used)
  case Nil
  with emits_Nil show ?case by (intro exI [of _ p] exI [of _ "[]"] exI [of _ "{}"]) simp
next
  case (Cons input inputs)
  obtain p1 shown1 refs1 where one:
      "scanner_text jl ms input (scanner_of p, used) = Inr (scanner_of p1, used \<union> refs1, shown1)"
      "emits (\<lambda>x. x) ms p (plain input) shown1 refs1 p1"
    by (rule scanner_text_emits [OF assms Cons.prems, of input used])
  then have "shaped p1" "length p1 < 38" by (simp_all add: emits_def)
  from Cons.IH [OF this, of "used \<union> refs1"] obtain p' shown refs where rest:
      "text_fragments jl ms inputs (scanner_of p1, used \<union> refs1) = Inr (scanner_of p', used \<union> refs1 \<union> refs, shown)"
      "emits (\<lambda>x. x) ms p1 (plain (concat inputs)) shown refs p'" by blast
  have "emits (\<lambda>x. x) ms p (plain (concat (input # inputs))) (shown1 @ shown) (refs1 \<union> refs) p'"
    using emits_trans [OF one(2) rest(2)] by simp
  with one(1) rest(1) show ?case
    by (intro exI [of _ p'] exI [of _ "shown1 @ shown"] exI [of _ "refs1 \<union> refs"]) (simp add: Un_assoc)
qed

text \<open>
  Text that arrives in any fragments is restored as if it were one text: what was emitted
  and what is still held back make the text that one call of \<open>replace\<close> gives, and the same
  references are recorded as used.
\<close>

theorem text_stream_restored:
  assumes "\<forall>m \<in> set ms. mp_secret m \<noteq> []"
  shows "\<exists>s used shown r. text_fragments jl ms inputs (scanner_default, {}) = Inr (s, used, shown)
    \<and> replace (concat inputs) (restoring ms) {} = Some (r, used)
    \<and> shown @ sc_spelling s = cow (concat inputs) r"
proof -
  have us: "usable jl False ms" using assms by (simp add: usable_def)
  obtain p shown refs where run:
      "text_fragments jl ms inputs (scanner_of [], {}) = Inr (scanner_of p, {} \<union> refs, shown)"
      "emits (\<lambda>x. x) ms [] (plain (concat inputs)) shown refs p"
    using text_fragments_emit [OF us shaped_Nil, of inputs "{}"] by auto
  have "map snd (plain (concat inputs)) = concat inputs" by (simp add: o_def)
  then have "refs = restored_refs ms (concat inputs)" using emits_flush(2) [OF run(2)] by simp
  moreover have "shown @ spelled p = restore_text ms (concat inputs)"
    using emits_flush(1) [OF run(2)] by (simp add: restore_plain)
  moreover obtain r where "replace (concat inputs) (restoring ms) {} = Some (r, {} \<union> restored_refs ms (concat inputs))"
      "cow (concat inputs) r = restore_text ms (concat inputs)"
    by (rule replace_restoring)
  ultimately show ?thesis using run(1) by (auto simp: scanner_of_Nil) (auto simp: scanner_of_def)
qed

section \<open>Witnesses\<close>

text \<open>The reference of the sample, its \<open><\<close> escaped in JSON and cut in two.\<close>

definition sample_json :: json_strings where
  "sample_json =
     \<lparr>jl_to_string = (\<lambda>s. Some (34 # s @ [34])),
      jl_from_str = (\<lambda>s. if s = [34, 92, 117, 48, 48, 51, 99, 34] then Some [60] else None)\<rparr>"

definition sample_value :: "token list" where
  "sample_value = ([92, 117, 48, 48, 51, 99], 60) # plain (tl (mp_reference sample_mapping))"

definition sample_document :: "segment list" where
  "sample_document = [Syntax 123, Literal (plain [97]), Syntax 58, Literal sample_value, Syntax 125]"

definition unescaped :: "ustr \<Rightarrow> bool" where
  "unescaped s = list_all (\<lambda>c. c \<noteq> 34 \<and> c \<noteq> 92 \<and> \<not> is_control c) s"

lemma good_plain: "unescaped s \<Longrightarrow> \<forall>t \<in> set (plain s). good_token jl t"
  by (auto simp: good_token_def unescaped_def list_all_iff)

lemma spelled_plain: "spelled (plain s) = s" "map snd (plain s) = s"
  by (induction s) simp_all

lemma sample_spells: "spells_secrets sample_json [sample_mapping]"
proof -
  have "unescaped (mp_secret sample_mapping)" by code_simp
  from good_plain [OF this] have "\<exists>ts. jl_to_string sample_json (mp_secret sample_mapping) = Some (34 # spelled ts @ [34])
      \<and> (\<forall>t \<in> set ts. good_token sample_json t) \<and> map snd ts = mp_secret sample_mapping"
    by (intro exI [of _ "plain (mp_secret sample_mapping)"] conjI)
      (simp_all only: spelled_plain sample_json_def json_strings.select_convs)
  with sample_strong show ?thesis by (simp add: spells_secrets_def)
qed

lemma sample_escape: "good_token sample_json ([92, 117, 48, 48, 51, 99], 60)"
  by (simp add: good_token_def escape_length_def sample_json_def from_str_radix16_def to_digit16_def decimal_digit_def)

lemma sample_wf: "wf_segments sample_json json_default sample_document"
proof -
  have "unescaped (tl (mp_reference sample_mapping))" by code_simp
  from good_plain [OF this] sample_escape have vals: "\<forall>t \<in> set sample_value. good_token sample_json t"
    by (auto simp: sample_value_def)
  have "unescaped [97]" by code_simp
  note key = good_plain [OF this]
  show ?thesis unfolding sample_document_def wf_segments.simps
    by (simp add: json_default_def json_outside_def vals key [simplified])
qed


theorem text_stream_restored_witness:
  "\<exists>s used shown r. text_fragments sample_json [sample_mapping]
        [take 9 (mp_reference sample_mapping), drop 9 (mp_reference sample_mapping)] (scanner_default, {})
        = Inr (s, used, shown)
    \<and> replace (mp_reference sample_mapping) (restoring [sample_mapping]) {} = Some (r, used)
    \<and> shown @ sc_spelling s = cow (mp_reference sample_mapping) r"
  using text_stream_restored [of "[sample_mapping]" sample_json
      "[take 9 (mp_reference sample_mapping), drop 9 (mp_reference sample_mapping)]"] sample_strong by simp

end
