(* ===== verification/RedactionSurface.thy ===== *)
theory RedactionSurface
  imports RedactionStream "HOL-Library.AList"
begin

text \<open>
  The readable surface of requests and responses (\<open>stravia-credential-protection/src/text.rs\<close>):
  which texts of the canonical representation
  (\<open>stravia-runtime-contract/src/protocol/ir/request.rs\<close>, \<open>native_tools.rs\<close>) a visitor sees and
  may rewrite, and the operations built on it. The macro \<open>readable_surface!\<close> is a group of
  definitions over the primitives it is expanded with. Parsing and printing of JSON is an
  argument; fields the surface never looks at are left out of the data.
\<close>

section \<open>JSON kvs and positions\<close>

text \<open>An object is the list of its entries in the order of iteration.\<close>

datatype json =
    JNull
  | JBool bool
  | JNumber string
  | JString ustr
  | JArray "json list"
  | JObject "(ustr \<times> json) list"

definition json_get :: "ustr \<Rightarrow> json \<Rightarrow> json option" where
  "json_get key value = (case value of JObject kvs \<Rightarrow> map_of kvs key | _ \<Rightarrow> None)"

definition json_str :: "json \<Rightarrow> ustr option" where
  "json_str value = (case value of JString t \<Rightarrow> Some t | _ \<Rightarrow> None)"

datatype content_kind = JsonResult | ContentBlocksResult

text \<open>
  \<open>serde_json\<close>: is a text JSON, its value, the text of a value, and a value read as
  \<open>ToolResultContentKind\<close>.
\<close>

record json_lib = json_strings +
  jl_is_json :: "ustr \<Rightarrow> bool"
  jl_parse :: "ustr \<Rightarrow> json option"
  jl_print :: "json \<Rightarrow> ustr option"
  jl_result_kind :: "json \<Rightarrow> content_kind option"

record origin =
  og_source :: string
  og_tool_id :: "ustr option"
  og_latest_input :: "bool option"
  og_fresh :: bool

definition origin_of :: "string \<Rightarrow> origin" where
  "origin_of source_name = \<lparr>og_source = source_name, og_tool_id = None, og_latest_input = None, og_fresh = True\<rparr>"

definition with_source :: "string \<Rightarrow> origin \<Rightarrow> origin" where
  "with_source source_name og =
     og\<lparr>og_source := source_name, og_tool_id := (if og_source og = source_name then og_tool_id og else None)\<rparr>"

definition with_tool :: "string \<Rightarrow> ustr \<Rightarrow> origin \<Rightarrow> origin" where
  "with_tool source_name i og = og\<lparr>og_source := source_name, og_tool_id := Some i\<rparr>"

definition with_tool_if_known :: "string \<Rightarrow> ustr option \<Rightarrow> origin \<Rightarrow> origin" where
  "with_tool_if_known source_name i og =
     (case i of Some x \<Rightarrow> with_tool source_name x og | None \<Rightarrow> og\<lparr>og_source := source_name, og_tool_id := None\<rparr>)"

section \<open>Visitors\<close>

text \<open>A visitor may fail, keep a state, and rewrite the text (\<open>Cow::Owned\<close>).\<close>

type_synonym 's visitor =
  "ustr \<Rightarrow> ustr option \<Rightarrow> origin \<Rightarrow> 's \<Rightarrow> redaction_error + ('s \<times> ustr option)"

type_synonym ('s, 'a) rewriting = "'a \<Rightarrow> 's \<Rightarrow> redaction_error + ('s \<times> 'a)"

definition then_map :: "('a \<Rightarrow> 'b) \<Rightarrow> redaction_error + ('s \<times> 'a) \<Rightarrow> redaction_error + ('s \<times> 'b)" where
  "then_map f r = map_sum id (\<lambda>(s, x). (s, f x)) r"

definition keep :: "('s, 'a) rewriting" where
  "keep x s = Inr (s, x)"

fun traverse :: "('s, 'a) rewriting \<Rightarrow> ('s, 'a list) rewriting" where
  "traverse f [] s = Inr (s, [])"
| "traverse f (x # xs) s =
     res_bind (f x s) (\<lambda>(s1, y). res_bind (traverse f xs s1) (\<lambda>(s2, ys). Inr (s2, y # ys)))"

definition traverse_opt :: "('s, 'a) rewriting \<Rightarrow> ('s, 'a option) rewriting" where
  "traverse_opt f x s = (case x of None \<Rightarrow> Inr (s, None) | Some y \<Rightarrow> then_map Some (f y s))"

definition traverse_values :: "(ustr \<Rightarrow> ('s, 'a) rewriting) \<Rightarrow> ('s, (ustr \<times> 'a) list) rewriting" where
  "traverse_values f = traverse (\<lambda>(k, v) s. then_map (Pair k) (f k v s))"

text \<open>\<open>if let Some(value) = kvs.get_mut(key) { f(value) }\<close>.\<close>

definition at_field :: "ustr \<Rightarrow> ('s, json) rewriting \<Rightarrow> ('s, (ustr \<times> json) list) rewriting" where
  "at_field key f kvs s =
     (case map_of kvs key of
        None \<Rightarrow> Inr (s, kvs)
      | Some v \<Rightarrow> then_map (\<lambda>v'. AList.update key v' kvs) (f v s))"

definition at_key :: "ustr \<Rightarrow> ('s, json) rewriting \<Rightarrow> ('s, json) rewriting" where
  "at_key key f value s =
     (case value of JObject kvs \<Rightarrow> then_map JObject (at_field key f kvs s) | _ \<Rightarrow> Inr (s, value))"

definition on_string :: "('s, ustr) rewriting \<Rightarrow> ('s, json) rewriting" where
  "on_string f value s = (case value of JString t \<Rightarrow> then_map JString (f t s) | _ \<Rightarrow> Inr (s, value))"

lemma traverse_cong [fundef_cong]:
  "xs = ys \<Longrightarrow> s = t \<Longrightarrow> (\<And>x u. x \<in> set ys \<Longrightarrow> f x u = g x u) \<Longrightarrow> traverse f xs s = traverse g ys t"
proof (induction xs arbitrary: ys s t)
  case (Cons x xs)
  from Cons.prems have "f x s = g x s" by auto
  moreover have "traverse f xs u = traverse g xs u" for u using Cons.prems by (intro Cons.IH) auto
  ultimately show ?case using Cons.prems by auto
qed auto

lemma traverse_values_cong [fundef_cong]:
  "xs = ys \<Longrightarrow> s = t \<Longrightarrow> (\<And>k v u. (k, v) \<in> set ys \<Longrightarrow> f k v u = g k v u) \<Longrightarrow>
     traverse_values f xs s = traverse_values g ys t"
  unfolding traverse_values_def by (rule traverse_cong) auto

lemma traverse_opt_cong [fundef_cong]:
  "x = y \<Longrightarrow> s = t \<Longrightarrow> (\<And>z u. y = Some z \<Longrightarrow> f z u = g z u) \<Longrightarrow> traverse_opt f x s = traverse_opt g y t"
  by (auto simp: traverse_opt_def split: option.splits)

lemma at_field_cong [fundef_cong]:
  "xs = ys \<Longrightarrow> s = t \<Longrightarrow> (\<And>v u. (key, v) \<in> set ys \<Longrightarrow> f v u = g v u) \<Longrightarrow>
     at_field key f xs s = at_field key g ys t"
  by (auto simp: at_field_def dest: map_of_SomeD split: option.splits)

lemma at_key_cong [fundef_cong]:
  "x = y \<Longrightarrow> s = t \<Longrightarrow> (\<And>kvs v u. y = JObject kvs \<Longrightarrow> (key, v) \<in> set kvs \<Longrightarrow> f v u = g v u) \<Longrightarrow>
     at_key key f x s = at_key key g y t"
  by (auto simp: at_key_def split: json.splits intro!: arg_cong [where f = "then_map JObject"] at_field_cong)

lemma size_field:
  "(k, v) \<in> set kvs \<Longrightarrow> size v \<le> size_list (size_prod (\<lambda>_. 0) size) kvs"
  by (induction kvs) auto

lemma size_object [termination_simp]: "(k, v) \<in> set kvs \<Longrightarrow> size v < size (JObject kvs)"
  by (induction kvs) (auto)

lemma size_array [termination_simp]: "v \<in> set kvs \<Longrightarrow> size v < size (JArray kvs)"
  by (induction kvs) auto

section \<open>JSON trees\<close>

definition apply_write :: "'s visitor \<Rightarrow> origin \<Rightarrow> ustr option \<Rightarrow> ('s, ustr) rewriting" where
  "apply_write visit location context t s = then_map (cow t) (visit t context location s)"

fun json_values :: "'s visitor \<Rightarrow> origin \<Rightarrow> ustr option \<Rightarrow> ('s, json) rewriting" where
  "json_values visit location context (JString t) s = then_map JString (apply_write visit location context t s)"
| "json_values visit location context (JArray vs) s =
     then_map JArray (traverse (json_values visit location context) vs s)"
| "json_values visit location context (JObject kvs) s =
     then_map JObject (traverse_values (\<lambda>k. json_values visit location (Some k)) kvs s)"
| "json_values visit location context value s = Inr (s, value)"

text \<open>What the macro is expanded with, as far as one JSON value needs it.\<close>

record 's wire_ops =
  wo_json :: "origin \<Rightarrow> ustr option \<Rightarrow> ('s, json) rewriting"
  wo_arguments :: "origin \<Rightarrow> ('s, ustr) rewriting"
  wo_apply :: "origin \<Rightarrow> ustr option \<Rightarrow> ('s, ustr) rewriting"

definition names :: "string list \<Rightarrow> ustr set" where
  "names ks = ascii ` set ks"

definition is_container :: "json \<Rightarrow> bool" where
  "is_container value = (case value of JObject _ \<Rightarrow> True | JArray _ \<Rightarrow> True | _ \<Rightarrow> False)"

fun schema :: "'s wire_ops \<Rightarrow> origin \<Rightarrow> ('s, json) rewriting" where
  "schema ops location (JObject kvs) s =
     then_map JObject (traverse_values (\<lambda>k v s.
       if k \<in> names [''description'', ''title'', ''$comment'', ''default'', ''examples'', ''example'', ''const'', ''enum'']
       then wo_json ops location (Some k) v s
       else if k \<in> names [''properties'', ''patternProperties'', ''$defs'', ''definitions'', ''dependentSchemas'']
       then (case v of JObject entries \<Rightarrow> then_map JObject (traverse_values (\<lambda>_. schema ops location) entries s)
             | _ \<Rightarrow> Inr (s, v))
       else if is_container v then schema ops location v s
       else Inr (s, v)) kvs s)"
| "schema ops location (JArray vs) s = then_map JArray (traverse (schema ops location) vs s)"
| "schema ops location value s = Inr (s, value)"

definition opaque_kinds :: "string list" where
  "opaque_kinds = [''image'', ''image_url'', ''input_image'', ''audio'', ''input_audio'', ''video'', ''file'',
     ''input_file'', ''redacted_thinking'', ''compaction'', ''compaction_trigger'']"

definition kind_of :: "(ustr \<times> json) list \<Rightarrow> ustr" where
  "kind_of kvs =
     (case map_of kvs (ascii ''type'') of Some v \<Rightarrow> (case json_str v of Some t \<Rightarrow> t | None \<Rightarrow> []) | None \<Rightarrow> [])"

definition wire_location :: "(ustr \<times> json) list \<Rightarrow> origin \<Rightarrow> origin" where
  "wire_location kvs location =
     (if kind_of kvs \<in> names [''tool_use'', ''server_tool_use''] then with_source ''tool_arguments'' location
      else if kind_of kvs \<in> names [''tool_result'', ''server_tool_result'', ''codeExecutionResult'']
      then with_source ''tool_result'' location
      else case Option.bind (map_of kvs (ascii ''role'')) json_str of
             None \<Rightarrow> location
           | Some role \<Rightarrow>
               if role = ascii ''user'' then with_source ''user_message'' location
               else if role = ascii ''tool'' then with_source ''tool_result'' location
               else if role \<in> names [''assistant'', ''system'', ''developer'']
               then with_source ''system_or_history'' location
               else location)"

text \<open>
  \<open>wire_text\<close>: a message, block or item in a provider's own format. The value
  of \<open>source\<close> is rewritten first; the loop leaves it alone.
\<close>

function wire_text :: "'s wire_ops \<Rightarrow> origin \<Rightarrow> ('s, json) rewriting" where
  "wire_text ops location0 (JArray vs) s = then_map JArray (traverse (wire_text ops location0) vs s)"
| "wire_text ops location0 (JString t) s = then_map JString (wo_apply ops location0 None t s)"
| "wire_text ops location0 (JObject kvs) s =
     (if kind_of kvs \<in> names opaque_kinds then Inr (s, JObject kvs)
      else
        let location = wire_location kvs location0;
            tool_input = (kind_of kvs \<in> names [''tool_use'', ''server_tool_use''])
        in res_bind
          (traverse_opt (\<lambda>src s.
             if kind_of kvs = ascii ''search_result'' then on_string (wo_apply ops location None) src s
             else if kind_of kvs = ascii ''document''
             then (case Option.bind (json_get (ascii ''type'') src) json_str of
                     None \<Rightarrow> Inr (s, src)
                   | Some t \<Rightarrow>
                       if t \<in> names [''text'', ''plain_text'']
                       then at_key (ascii ''data'') (on_string (wo_apply ops location None)) src s
                       else if t \<in> names [''content'', ''blocks'']
                       then at_key (ascii ''content'') (wire_text ops location) src s
                       else Inr (s, src))
             else Inr (s, src)) (map_of kvs (ascii ''source'')) s)
          (\<lambda>(s1, src). then_map (\<lambda>kvs'. JObject (case src of
                 Some v' \<Rightarrow> AList.update (ascii ''source'') v' kvs' | None \<Rightarrow> kvs'))
            (traverse_values (\<lambda>key v s.
               if key \<in> names [''text'', ''refusal'', ''thinking'', ''cited_text'', ''title'', ''description'',
                   ''code'', ''stdout'', ''stderr'', ''query'', ''queries'', ''prompt'']
               then wo_json ops location (Some key) v s
               else if key = ascii ''arguments''
               then (case v of
                       JString t \<Rightarrow> then_map JString (wo_arguments ops location t s)
                     | _ \<Rightarrow> wo_json ops (with_source ''tool_arguments'' location) None v s)
               else if key \<in> names [''input'', ''output'', ''variables'', ''json''] then wo_json ops location None v s
               else if key = ascii ''functionCall''
               then at_key (ascii ''args'') (wo_json ops (with_source ''tool_arguments'' location) None) v s
               else if key = ascii ''functionResponse''
               then at_key (ascii ''response'') (wo_json ops (with_source ''tool_result'' location) None) v s
               else if key = ascii ''resource'' \<and> kind_of kvs = ascii ''resource''
               then at_key (ascii ''text'') (on_string (wo_apply ops location None)) v s
               else if key \<in> names [''format'', ''json_schema'', ''parts'', ''functionDeclarations'',
                   ''executableCode'', ''codeExecutionResult'', ''citations'']
               then wire_text ops location v s
               else if key \<in> names [''content'', ''summary'', ''results'', ''context'']
               then (case v of JString t \<Rightarrow> then_map JString (wo_apply ops location (Some key) t s)
                     | _ \<Rightarrow> wire_text ops location v s)
               else if key \<in> names [''schema'', ''parameters'', ''input_schema'', ''responseSchema'', ''responseJsonSchema'']
               then schema ops location v s
               else if key = ascii ''input_examples'' then wo_json ops location None v s
               else Inr (s, v)) kvs s1)))"
| "wire_text ops location0 JNull s = Inr (s, JNull)"
| "wire_text ops location0 (JBool b) s = Inr (s, JBool b)"
| "wire_text ops location0 (JNumber n) s = Inr (s, JNumber n)"
  by pat_completeness auto
termination
proof (relation "measure (\<lambda>(_, _, v, _). size v)", goal_cases)
  case (2 ops location0 vs s v)
  then show ?case using size_array [of v vs] by simp
qed (auto dest!: map_of_SomeD size_field simp del: size_object)

section \<open>Tool arguments\<close>

text \<open>The characters of the Unicode property \<open>White_Space\<close>, which \<open>trim_start\<close> strips.\<close>

definition white_space :: "nat \<Rightarrow> bool" where
  "white_space c =
     ((9 \<le> c \<and> c \<le> 13) \<or> c \<in> {0x20, 0x85, 0xA0, 0x1680} \<or> (0x2000 \<le> c \<and> c \<le> 0x200A)
      \<or> c \<in> {0x2028, 0x2029, 0x202F, 0x205F, 0x3000})"

definition colon_follows :: "ustr \<Rightarrow> bool" where
  "colon_follows after = prefix [58] (dropWhile white_space after)"

text \<open>
  The inner loop over a string: the cursor behind the closing quote. An escape at the very
  end leaves the cursor behind the text.
\<close>

fun skip_string :: "nat \<Rightarrow> ustr \<Rightarrow> nat" where
  "skip_string cursor [] = cursor"
| "skip_string cursor [c] = (if c = 92 then cursor + 2 else cursor + 1)"
| "skip_string cursor (c # d # cs) =
     (if c = 92 then skip_string (cursor + 2) cs
      else if c = 34 then cursor + 1
      else skip_string (cursor + 1) (d # cs))"

lemma skip_string_ge: "cursor \<le> skip_string cursor cs"
proof (induction cursor cs rule: skip_string.induct)
  case (3 cursor c d cs)
  then show ?case by (cases "c = 92"; cases "c = 34") simp_all
qed simp_all

lemma skip_string_measure [termination_simp]:
  "cursor < n \<Longrightarrow> n - skip_string (Suc cursor) cs < n - cursor"
  using skip_string_ge [of "Suc cursor" cs] by simp

definition decode_string :: "json_lib \<Rightarrow> ustr \<Rightarrow> redaction_error + ustr" where
  "decode_string jl raw = ok_or InvalidText (jl_from_str (json_strings.truncate jl) raw)"

definition json_text :: "json_lib \<Rightarrow> ustr \<Rightarrow> redaction_error + ustr" where
  "json_text jl t = ok_or InvalidText (jl_to_string (json_strings.truncate jl) t)"

text \<open>The loop of \<open>arguments_text\<close> over valid JSON; \<open>context\<close> is the last key.\<close>

function arguments_loop ::
    "json_lib \<Rightarrow> 's visitor \<Rightarrow> origin \<Rightarrow> ustr \<Rightarrow> nat \<Rightarrow> ustr \<Rightarrow> nat \<Rightarrow> ustr option \<Rightarrow> 's
      \<Rightarrow> redaction_error + ('s \<times> ustr \<times> nat)" where
  "arguments_loop jl visit location arguments cursor out copied context s =
     (if \<not> cursor < length arguments then Inr (s, out, copied)
      else if arguments ! cursor \<noteq> 34
      then arguments_loop jl visit location arguments (cursor + 1) out copied context s
      else
        let stop = skip_string (cursor + 1) (drop (cursor + 1) arguments);
            raw = take (stop - cursor) (drop cursor arguments)
        in res_bind (decode_string jl raw) (\<lambda>decoded.
           if colon_follows (drop stop arguments)
           then arguments_loop jl visit location arguments stop out copied (Some decoded) s
           else res_bind (visit decoded context location s) (\<lambda>(s1, r).
             case r of
               None \<Rightarrow> arguments_loop jl visit location arguments stop out copied context s1
             | Some replaced \<Rightarrow>
                 res_bind (json_text jl replaced) (\<lambda>encoded.
                 arguments_loop jl visit location arguments stop
                   (out @ take (cursor - copied) (drop copied arguments) @ encoded) stop context s1))))"
  by pat_completeness auto
termination
  by (relation "measure (\<lambda>(_, _, _, arguments, cursor, _). length arguments - cursor)")
    (auto simp: skip_string_measure)

text \<open>
  \<open>closed_string_tokens\<close>: the closed strings with their decoded values, and where the first
  string that is not closed begins.
\<close>

function closed_string_tokens ::
    "json_lib \<Rightarrow> ustr \<Rightarrow> nat \<Rightarrow> (nat \<times> nat \<times> ustr option) list \<times> nat option" where
  "closed_string_tokens jl raw cursor =
     (if \<not> cursor < length raw then ([], None)
      else if raw ! cursor \<noteq> 34 then closed_string_tokens jl raw (cursor + 1)
      else
        let next_cursor = skip_string (cursor + 1) (drop (cursor + 1) raw);
            stop = min next_cursor (length raw);
            token = take (stop - cursor) (drop cursor raw)
        in if length token < 2 \<or> last token \<noteq> 34 then ([], Some cursor)
           else let (tokens, open_at) = closed_string_tokens jl raw next_cursor
                in ((cursor, stop, jl_from_str (json_strings.truncate jl) token) # tokens, open_at))"
  by pat_completeness auto
termination
  by (relation "measure (\<lambda>(_, raw, cursor). length raw - cursor)") (auto simp: skip_string_measure)

declare arguments_loop.simps [simp del] closed_string_tokens.simps [simp del]

definition decode_unterminated :: "json_lib \<Rightarrow> ustr \<Rightarrow> redaction_error + ustr" where
  "decode_unterminated jl content =
     (if 92 \<notin> set content
      then (if \<exists>c \<in> set content. c < 0x20 then Inl InvalidText else Inr content)
      else decode_string jl (34 # content @ [34]))"

text \<open>The loop over the closed tokens: edits, residual spans, the last key and the last end.\<close>

type_synonym edit = "nat \<times> nat \<times> ustr"

fun malformed_tokens ::
    "json_lib \<Rightarrow> 's visitor \<Rightarrow> origin \<Rightarrow> ustr \<Rightarrow> (nat \<times> nat \<times> ustr option) list
      \<Rightarrow> edit list \<times> (nat \<times> nat) list \<times> ustr option \<times> nat \<times> 's
      \<Rightarrow> redaction_error + (edit list \<times> (nat \<times> nat) list \<times> ustr option \<times> nat \<times> 's)" where
  "malformed_tokens jl visit location arguments [] st = Inr st"
| "malformed_tokens jl visit location arguments ((start, stop, decoded) # tokens) (edits, residuals, context, last_end, s) =
     (let residuals1 = (if last_end < start then residuals @ [(last_end, start)] else residuals)
      in case decoded of
           None \<Rightarrow> Inl InvalidText
         | Some t \<Rightarrow>
             if colon_follows (drop stop arguments)
             then malformed_tokens jl visit location arguments tokens (edits, residuals1, Some t, stop, s)
             else res_bind (visit t context location s) (\<lambda>(s1, r).
               case r of
                 None \<Rightarrow> malformed_tokens jl visit location arguments tokens (edits, residuals1, context, stop, s1)
               | Some replaced \<Rightarrow>
                   res_bind (json_text jl replaced) (\<lambda>encoded.
                   malformed_tokens jl visit location arguments tokens
                     (edits @ [(start, stop, encoded)], residuals1, context, stop, s1))))"

fun residual_edits ::
    "'s visitor \<Rightarrow> origin \<Rightarrow> ustr \<Rightarrow> (nat \<times> nat) list \<Rightarrow> edit list \<Rightarrow> 's \<Rightarrow> redaction_error + ('s \<times> edit list)" where
  "residual_edits visit location arguments [] edits s = Inr (s, edits)"
| "residual_edits visit location arguments ((start, stop) # residuals) edits s =
     (if stop \<le> start then residual_edits visit location arguments residuals edits s
      else res_bind (visit (take (stop - start) (drop start arguments)) None location s) (\<lambda>(s1, r).
        residual_edits visit location arguments residuals
          (case r of None \<Rightarrow> edits | Some after \<Rightarrow> edits @ [(start, stop, after)]) s1))"

fun apply_edits :: "ustr \<Rightarrow> nat \<Rightarrow> edit list \<Rightarrow> ustr" where
  "apply_edits arguments pos [] = drop pos arguments"
| "apply_edits arguments pos ((start, stop, replacement) # edits) =
     take (start - pos) (drop pos arguments) @ replacement @ apply_edits arguments stop edits"

definition malformed_arguments_text :: "json_lib \<Rightarrow> 's visitor \<Rightarrow> origin \<Rightarrow> ('s, ustr) rewriting" where
  "malformed_arguments_text jl visit location arguments s =
     (let (tokens, unterminated_from) = closed_string_tokens jl arguments 0
      in res_bind (malformed_tokens jl visit location arguments tokens ([], [], None, 0, s))
         (\<lambda>(edits, residuals, context, last_end, s1). res_bind
           (case unterminated_from of
              Some open_at \<Rightarrow>
                res_bind (decode_unterminated jl (drop (open_at + 1) arguments)) (\<lambda>decoded.
                res_bind (visit decoded context location s1) (\<lambda>(s2, r).
                case r of
                  None \<Rightarrow> Inr (s2, edits, residuals @ [(last_end, open_at + 1)])
                | Some replaced \<Rightarrow>
                    res_bind (json_text jl replaced) (\<lambda>encoded.
                    Inr (s2, edits @ [(open_at + 1, length arguments, butlast (tl encoded))],
                         residuals @ [(last_end, open_at + 1)]))))
            | None \<Rightarrow> Inr (s1, edits, residuals @ [(last_end, length arguments)]))
         (\<lambda>(s2, edits2, residuals2). res_bind (residual_edits visit location arguments residuals2 edits2 s2)
         (\<lambda>(s3, edits3). Inr (s3, if edits3 = [] then arguments
                             else apply_edits arguments 0 (sort_key fst edits3))))))"

definition arguments_text :: "json_lib \<Rightarrow> 's visitor \<Rightarrow> origin \<Rightarrow> ('s, ustr) rewriting" where
  "arguments_text jl visit location arguments s =
     (if arguments = [] then Inr (s, arguments)
      else if \<not> jl_is_json jl arguments then malformed_arguments_text jl visit location arguments s
      else map_sum id (\<lambda>(s', out, copied). (s', if copied = 0 then arguments else out @ drop copied arguments))
        (arguments_loop jl visit location arguments 0 [] 0 None s))"

section \<open>Tool results\<close>

definition content_result_type :: "ustr option \<Rightarrow> bool" where
  "content_result_type kind =
     (case kind of None \<Rightarrow> False
      | Some k \<Rightarrow> k \<in> names [''text'', ''input_text'', ''output_text'', ''image'', ''image_url'', ''input_image'',
          ''audio'', ''input_audio'', ''video'', ''file'', ''input_file'', ''redacted_thinking'', ''thinking'',
          ''reasoning'', ''document'', ''search_result''])"

definition compound_array :: "json \<Rightarrow> bool" where
  "compound_array value = (case value of JArray vs \<Rightarrow> list_ex is_container vs | _ \<Rightarrow> False)"

definition encoded_compound_array :: "json_lib \<Rightarrow> ustr \<Rightarrow> bool" where
  "encoded_compound_array jl t =
     (prefix [91] (dropWhile white_space t)
      \<and> (case jl_parse jl t of None \<Rightarrow> False | Some value \<Rightarrow> compound_array value))"

definition result_kind :: "json_lib \<Rightarrow> json \<Rightarrow> content_kind option \<Rightarrow> bool \<Rightarrow> redaction_error + content_kind option" where
  "result_kind jl value kind reject_ambiguous =
     (case kind of
        Some k \<Rightarrow> Inr (Some k)
      | None \<Rightarrow>
          if compound_array value
             \<or> (case json_str value of None \<Rightarrow> False | Some t \<Rightarrow> encoded_compound_array jl t)
          then (if reject_ambiguous then Inl AmbiguousToolResult else Inr None)
          else Inr (Some JsonResult))"

text \<open>The primitives of \<open>write_surface\<close>.\<close>

definition write_wire :: "json_lib \<Rightarrow> 's visitor \<Rightarrow> 's wire_ops" where
  "write_wire jl visit =
     \<lparr>wo_json = json_values visit,
      wo_arguments = (\<lambda>location. arguments_text jl visit (with_source ''tool_arguments'' location)),
      wo_apply = apply_write visit\<rparr>"

text \<open>Inside a tool result every text has the origin of the result.\<close>

definition at_origin :: "'s visitor \<Rightarrow> origin \<Rightarrow> 's visitor" where
  "at_origin visit location = (\<lambda>t context _ s. visit t context location s)"

definition tool_result ::
    "json_lib \<Rightarrow> 's visitor \<Rightarrow> content_kind option \<Rightarrow> bool \<Rightarrow> origin \<Rightarrow> ('s, json) rewriting" where
  "tool_result jl visit kind reject_ambiguous location value s =
     res_bind (result_kind jl value kind reject_ambiguous) (\<lambda>k.
     case k of
       Some JsonResult \<Rightarrow> json_values visit location None value s
     | Some ContentBlocksResult \<Rightarrow>
         wire_text (write_wire jl (at_origin visit location)) (origin_of ''tool_result'') value s
     | None \<Rightarrow> Inr (s, value))"

text \<open>\<open>encoded_tool_result_replacement\<close> keeps the text if the visitor changed nothing.\<close>

definition tracking :: "'s visitor \<Rightarrow> (bool \<times> 's) visitor" where
  "tracking visit t context location cs =
     map_sum id (\<lambda>(s, r). ((fst cs \<or> r \<noteq> None, s), r)) (visit t context location (snd cs))"

definition encoded_tool_result ::
    "json_lib \<Rightarrow> 's visitor \<Rightarrow> content_kind \<Rightarrow> origin \<Rightarrow> ('s, ustr) rewriting" where
  "encoded_tool_result jl visit kind location t s =
     res_bind (ok_or InvalidText (jl_parse jl t)) (\<lambda>value.
     res_bind (tool_result jl (tracking visit) (Some kind) True location value (False, s)) (\<lambda>((changed, s1), value').
     if changed then res_bind (ok_or InvalidText (jl_print jl value')) (\<lambda>t'. Inr (s1, t'))
     else Inr (s1, t)))"

text \<open>
  What the macro \<open>readable_surface\<close> is expanded with, and the expansion \<open>write_surface\<close>.
\<close>

record 's surface_ops = "'s wire_ops" +
  so_tool_result :: "content_kind option \<Rightarrow> bool \<Rightarrow> origin \<Rightarrow> ('s, json) rewriting"
  so_encoded :: "content_kind \<Rightarrow> origin \<Rightarrow> ('s, ustr) rewriting"

definition write_surface :: "json_lib \<Rightarrow> 's visitor \<Rightarrow> 's surface_ops" where
  "write_surface jl visit =
     \<lparr>wo_json = json_values visit,
      wo_arguments = (\<lambda>location. arguments_text jl visit (with_source ''tool_arguments'' location)),
      wo_apply = apply_write visit,
      so_tool_result = (\<lambda>kind reject location.
        tool_result jl visit kind reject (with_source ''tool_result'' location)),
      so_encoded = (\<lambda>kind location.
        encoded_tool_result jl visit kind (with_source ''tool_result'' location))\<rparr>"

section \<open>The canonical representation\<close>

text \<open>
  \<open>ContentBlock\<close>; the type variable stands for the fields the surface never touches (media,
  signatures, cache control, names), \<open>OpaqueBlock\<close> for the variants it never enters.
\<close>

datatype 'o block =
    TextBlock ustr 'o
  | Thinking ustr 'o
  | Reasoning "ustr list" "ustr list" 'o
  | ToolUse ustr json 'o
  | ServerToolUse ustr json 'o
  | ToolResult ustr json "content_kind option" 'o
  | ServerToolResult ustr json "content_kind option" 'o
  | Document "'o document_source" "ustr option" "ustr option" 'o
  | SearchResult "'o block list" ustr ustr 'o
  | Citation ustr 'o
  | ExecutableCode ustr 'o
  | CodeExecutionResult ustr ustr 'o
  | Refusal ustr
  | Unknown json
  | OpaqueBlock 'o
and 'o document_source = PlainText ustr | Blocks "'o block list" | OpaqueSource 'o

datatype role = System | Developer | User | Assistant | Tool

datatype 'o message_content = TextContent ustr | BlockContent "'o block list"

record 'o tool_call =
  cl_id :: ustr
  cl_arguments :: ustr
  cl_rest :: 'o

text \<open>\<open>it_result_kind\<close> is the value under \<open>TOOL_RESULT_CONTENT_KIND_META\<close> in the item's metadata.\<close>

record 'o item =
  it_role :: role
  it_content :: "'o message_content"
  it_tool_calls :: "'o tool_call list option"
  it_tool_call_id :: "ustr option"
  it_result_kind :: "json option"
  it_rest :: 'o

section \<open>Blocks and items\<close>

fun blocks_text :: "'s surface_ops \<Rightarrow> bool \<Rightarrow> origin \<Rightarrow> ('s, 'o block) rewriting"
  and source_text :: "'s surface_ops \<Rightarrow> bool \<Rightarrow> origin \<Rightarrow> ('s, 'o document_source) rewriting" where
  "blocks_text ops reject location (TextBlock t x) s =
     then_map (\<lambda>t. TextBlock t x) (wo_apply ops location None t s)"
| "blocks_text ops reject location (Thinking t x) s =
     then_map (\<lambda>t. Thinking t x) (wo_apply ops location None t s)"
| "blocks_text ops reject location (Reasoning summary content x) s =
     res_bind (traverse (wo_apply ops location None) summary s) (\<lambda>(s1, summary').
     then_map (\<lambda>content'. Reasoning summary' content' x) (traverse (wo_apply ops location None) content s1))"
| "blocks_text ops reject location (ToolUse i input x) s =
     then_map (\<lambda>v. ToolUse i v x) (wo_json ops (with_tool ''tool_arguments'' i location) None input s)"
| "blocks_text ops reject location (ServerToolUse i input x) s =
     then_map (\<lambda>v. ServerToolUse i v x) (wo_json ops (with_tool ''tool_arguments'' i location) None input s)"
| "blocks_text ops reject location (ToolResult i content kind x) s =
     then_map (\<lambda>v. ToolResult i v kind x)
       (so_tool_result ops kind reject (with_tool ''tool_result'' i location) content s)"
| "blocks_text ops reject location (ServerToolResult i content kind x) s =
     then_map (\<lambda>v. ServerToolResult i v kind x)
       (so_tool_result ops kind reject (with_tool ''tool_result'' i location) content s)"
| "blocks_text ops reject location (Document src title context x) s =
     res_bind (traverse_opt (wo_apply ops location None) title s) (\<lambda>(s1, title').
     res_bind (traverse_opt (wo_apply ops location None) context s1) (\<lambda>(s2, context').
     then_map (\<lambda>src'. Document src' title' context' x) (source_text ops reject location src s2)))"
| "blocks_text ops reject location (SearchResult content src title x) s =
     res_bind (wo_apply ops location None title s) (\<lambda>(s1, title').
     res_bind (wo_apply ops location None src s1) (\<lambda>(s2, src').
     then_map (\<lambda>content'. SearchResult content' src' title' x)
       (traverse (blocks_text ops reject location) content s2)))"
| "blocks_text ops reject location (Citation t x) s =
     then_map (\<lambda>t. Citation t x) (wo_apply ops location None t s)"
| "blocks_text ops reject location (ExecutableCode t x) s =
     then_map (\<lambda>t. ExecutableCode t x) (wo_apply ops location None t s)"
| "blocks_text ops reject location (CodeExecutionResult stdout stderr x) s =
     res_bind (wo_apply ops (with_source ''tool_result'' location) None stdout s) (\<lambda>(s1, stdout').
     then_map (\<lambda>stderr'. CodeExecutionResult stdout' stderr' x)
       (wo_apply ops (with_source ''tool_result'' location) None stderr s1))"
| "blocks_text ops reject location (Refusal t) s = then_map Refusal (wo_apply ops location None t s)"
| "blocks_text ops reject location (Unknown raw) s = then_map Unknown (wire_text (wire_ops.truncate ops) location raw s)"
| "blocks_text ops reject location (OpaqueBlock x) s = Inr (s, OpaqueBlock x)"
| "source_text ops reject location (PlainText t) s = then_map PlainText (wo_apply ops location None t s)"
| "source_text ops reject location (Blocks content) s =
     then_map Blocks (traverse (blocks_text ops reject location) content s)"
| "source_text ops reject location (OpaqueSource x) s = Inr (s, OpaqueSource x)"

definition item_location :: "'o item \<Rightarrow> origin \<Rightarrow> origin" where
  "item_location item location =
     (case it_role item of
        User \<Rightarrow> with_source ''user_message'' location
      | Tool \<Rightarrow> with_tool_if_known ''tool_result'' (it_tool_call_id item) location
      | _ \<Rightarrow> with_source ''system_or_history'' location)"

definition encoded_kind :: "json_lib \<Rightarrow> 'o item \<Rightarrow> redaction_error + content_kind option" where
  "encoded_kind jl item =
     (if it_role item = Tool
      then (case it_result_kind item of
              None \<Rightarrow> Inr None
              | Some v \<Rightarrow> res_bind (ok_or InvalidText (jl_result_kind jl v)) (\<lambda>k. Inr (Some k)))
      else Inr None)"

text \<open>One block of a tool item.\<close>

definition tool_block ::
    "json_lib \<Rightarrow> 's surface_ops \<Rightarrow> bool \<Rightarrow> origin \<Rightarrow> content_kind option \<Rightarrow> ('s, 'o block) rewriting" where
  "tool_block jl ops reject location kind b s =
     (case (kind, b) of
        (Some k, ToolResult i (JString t) ck x) \<Rightarrow>
          then_map (\<lambda>t. ToolResult i (JString t) ck x)
            (case k of
               ContentBlocksResult \<Rightarrow> so_encoded ops k location t s
             | JsonResult \<Rightarrow> wo_apply ops location None t s)
      | (Some k, ServerToolResult i (JString t) ck x) \<Rightarrow>
          then_map (\<lambda>t. ServerToolResult i (JString t) ck x)
            (case k of
               ContentBlocksResult \<Rightarrow> so_encoded ops k location t s
             | JsonResult \<Rightarrow> wo_apply ops location None t s)
      | (_, Unknown raw) \<Rightarrow>
          if content_result_type (Option.bind (json_get (ascii ''type'') raw) json_str)
          then (if reject then Inl AmbiguousToolResult else Inr (s, b))
          else then_map Unknown (so_tool_result ops None reject location raw s)
      | _ \<Rightarrow> blocks_text ops reject location b s)"

definition item_content_text ::
    "json_lib \<Rightarrow> 's surface_ops \<Rightarrow> bool \<Rightarrow> origin \<Rightarrow> role \<Rightarrow> content_kind option \<Rightarrow> ('s, 'o message_content) rewriting" where
  "item_content_text jl ops reject location r kind content s =
     (case content of
        TextContent t \<Rightarrow>
          if r = Tool
          then (case kind of
                  Some ContentBlocksResult \<Rightarrow>
                    then_map TextContent
                      (so_encoded ops ContentBlocksResult location t s)
                | Some JsonResult \<Rightarrow> then_map TextContent (wo_apply ops location None t s)
                | None \<Rightarrow>
                    if encoded_compound_array jl t
                    then (if reject then Inl AmbiguousToolResult else Inr (s, TextContent t))
                    else then_map TextContent (wo_apply ops location None t s))
          else then_map TextContent (wo_apply ops location None t s)
      | BlockContent bs \<Rightarrow>
          then_map BlockContent
            (if r = Tool then traverse (tool_block jl ops reject location kind) bs s
             else traverse (blocks_text ops reject location) bs s))"

definition item_text :: "json_lib \<Rightarrow> 's surface_ops \<Rightarrow> bool \<Rightarrow> origin \<Rightarrow> ('s, 'o item) rewriting" where
  "item_text jl ops reject location0 item s =
     (let location = item_location item location0
      in res_bind (encoded_kind jl item) (\<lambda>kind.
         res_bind (item_content_text jl ops reject location (it_role item) kind (it_content item) s) (\<lambda>(s1, content).
         then_map (\<lambda>calls. item\<lparr>it_content := content, it_tool_calls := calls\<rparr>)
           (traverse_opt (traverse (\<lambda>c s. then_map (\<lambda>a. c\<lparr>cl_arguments := a\<rparr>)
              (wo_arguments ops (with_tool ''tool_arguments'' (cl_id c) location)
                 (cl_arguments c) s)))
            (it_tool_calls item) s1))))"

section \<open>Requests\<close>

record tool_spec =
  tl_description :: "ustr option"
  tl_parameters :: json

record custom_tool =
  ct_description :: "ustr option"
  ct_grammar_definition :: "ustr option"

datatype namespace_member = FunctionMember tool_spec | CustomMember custom_tool

datatype 'o native_tool =
    ToolSearch "ustr option" "json option"
  | CustomNative custom_tool
  | Namespace "ustr option" "namespace_member list"
  | OtherNative 'o

datatype 'o embedding_input = EmbeddingText ustr | EmbeddingTexts "ustr list" | EmbeddingOther 'o

record 'o ai_request =
  rq_instructions :: "ustr option"
  rq_items :: "'o item list"
  rq_embedding :: "'o embedding_input option"
  rq_tools :: "tool_spec list option"
  rq_json_schema :: "(json \<times> ustr option) option"
  rq_ingress :: "(ustr \<times> json) list"
  rq_metadata :: "(ustr \<times> ustr) list option"
  rq_native_tools :: "'o native_tool list"

definition function_tool_text :: "'s surface_ops \<Rightarrow> origin \<Rightarrow> ('s, tool_spec) rewriting" where
  "function_tool_text ops location t s =
     res_bind (traverse_opt (wo_apply ops location None) (tl_description t) s) (\<lambda>(s1, d).
     then_map (\<lambda>p. t\<lparr>tl_description := d, tl_parameters := p\<rparr>)
       (schema (wire_ops.truncate ops) location (tl_parameters t) s1))"

definition custom_tool_text :: "'s surface_ops \<Rightarrow> origin \<Rightarrow> ('s, custom_tool) rewriting" where
  "custom_tool_text ops location t s =
     res_bind (traverse_opt (wo_apply ops location None) (ct_description t) s) (\<lambda>(s1, d).
     then_map (\<lambda>g. t\<lparr>ct_description := d, ct_grammar_definition := g\<rparr>)
       (traverse_opt (wo_apply ops location None) (ct_grammar_definition t) s1))"

definition member_text :: "'s surface_ops \<Rightarrow> origin \<Rightarrow> ('s, namespace_member) rewriting" where
  "member_text ops location m s =
     (case m of
        FunctionMember t \<Rightarrow> then_map FunctionMember (function_tool_text ops location t s)
      | CustomMember t \<Rightarrow> then_map CustomMember (custom_tool_text ops location t s))"

definition native_tool_text :: "'s surface_ops \<Rightarrow> origin \<Rightarrow> ('s, 'o native_tool) rewriting" where
  "native_tool_text ops location t s =
     (case t of
        ToolSearch description parameters \<Rightarrow>
          res_bind (traverse_opt (wo_apply ops location None) description s) (\<lambda>(s1, d).
          then_map (ToolSearch d) (traverse_opt (schema (wire_ops.truncate ops) location) parameters s1))
      | CustomNative c \<Rightarrow> then_map CustomNative (custom_tool_text ops location c s)
      | Namespace description members \<Rightarrow>
          res_bind (traverse_opt (wo_apply ops location None) description s) (\<lambda>(s1, d).
          then_map (Namespace d) (traverse (member_text ops location) members s1))
      | OtherNative x \<Rightarrow> Inr (s, OtherNative x))"

text \<open>\<open>Iterator::rposition\<close>.\<close>

definition rposition :: "('a \<Rightarrow> bool) \<Rightarrow> 'a list \<Rightarrow> nat option" where
  "rposition p xs = (case filter (\<lambda>i. p (xs ! i)) (rev [0..<length xs]) of [] \<Rightarrow> None | i # _ \<Rightarrow> Some i)"

definition history_end :: "'o item list \<Rightarrow> nat option" where
  "history_end items =
     Option.bind (rposition (\<lambda>i. it_role i \<noteq> Assistant) items) (\<lambda>stop.
     map_option Suc (rposition (\<lambda>i. it_role i = Assistant) (take stop items)))"

definition item_origin :: "'o item list \<Rightarrow> nat \<Rightarrow> origin \<Rightarrow> origin" where
  "item_origin items index location =
     location\<lparr>og_latest_input := Some (Some index = rposition (\<lambda>i. it_role i = User) items),
       og_fresh := ((case history_end items of None \<Rightarrow> 0 | Some h \<Rightarrow> h) \<le> index)\<rparr>"

definition ingress_text :: "'s surface_ops \<Rightarrow> origin \<Rightarrow> ustr \<Rightarrow> ('s, json) rewriting" where
  "ingress_text ops location key value s =
     (if key \<in> names [''__anthropic_raw_system'', ''__google_raw_system_instruction'']
      then wire_text (wire_ops.truncate ops) (with_source ''system_or_history'' location) value s
      else if key \<in> names [''__anthropic_raw_messages'', ''__anthropic_raw_tools'', ''__google_raw_tools'',
          ''__google_generation_config'', ''prediction'', ''response_format'']
      then wire_text (wire_ops.truncate ops) location value s
      else Inr (s, value))"

definition embedding_text :: "'s surface_ops \<Rightarrow> origin \<Rightarrow> ('s, 'o embedding_input) rewriting" where
  "embedding_text ops location e s =
     (case e of
        EmbeddingText t \<Rightarrow> then_map EmbeddingText (wo_apply ops location None t s)
      | EmbeddingTexts ts \<Rightarrow> then_map EmbeddingTexts (traverse (wo_apply ops location None) ts s)
      | EmbeddingOther x \<Rightarrow> Inr (s, EmbeddingOther x))"

definition json_schema_text :: "'s surface_ops \<Rightarrow> origin \<Rightarrow> ('s, json \<times> ustr option) rewriting" where
  "json_schema_text ops location f s =
     res_bind (schema (wire_ops.truncate ops) location (fst f) s) (\<lambda>(s1, v).
     then_map (Pair v) (traverse_opt (wo_apply ops location None) (snd f) s1))"

definition request_text :: "json_lib \<Rightarrow> 's surface_ops \<Rightarrow> bool \<Rightarrow> origin \<Rightarrow> ('s, 'o ai_request) rewriting" where
  "request_text jl ops reject location0 q s =
     (let location = location0\<lparr>og_fresh := (history_end (rq_items q) = None)\<rparr>
      in res_bind (traverse_opt (wo_apply ops (with_source ''system_or_history'' location) None) (rq_instructions q) s)
           (\<lambda>(s1, instructions).
         res_bind (traverse (\<lambda>(index, item) s. then_map (Pair index)
             (item_text jl ops reject (item_origin (rq_items q) index location) item s)) (enumerate 0 (rq_items q)) s1)
           (\<lambda>(s2, items).
         res_bind (traverse_opt (embedding_text ops location) (rq_embedding q) s2) (\<lambda>(s3, embedding).
         res_bind (traverse_opt (traverse (function_tool_text ops location)) (rq_tools q) s3) (\<lambda>(s4, tools).
         res_bind (traverse_opt (json_schema_text ops location) (rq_json_schema q) s4) (\<lambda>(s5, json_schema).
         res_bind (traverse_values (ingress_text ops location) (rq_ingress q) s5) (\<lambda>(s6, ingress).
         res_bind (traverse_opt (traverse_values (\<lambda>key. wo_apply ops location (Some key))) (rq_metadata q) s6)
           (\<lambda>(s7, metadata).
         then_map (\<lambda>native.
             \<lparr>rq_instructions = instructions, rq_items = map snd items, rq_embedding = embedding,
              rq_tools = tools, rq_json_schema = json_schema, rq_ingress = ingress, rq_metadata = metadata,
              rq_native_tools = native\<rparr>)
           (traverse (native_tool_text ops location) (rq_native_tools q) s7)))))))))"

section \<open>Redacting and restoring\<close>

text \<open>\<open>replace\<close> as a visitor: it collects the references it used.\<close>

definition replacing :: "candidates \<Rightarrow> ustr set visitor" where
  "replacing cs t context location used =
     (case replace t cs used of Some (r, used') \<Rightarrow> Inr (used', r) | None \<Rightarrow> Inl InvalidText)"

text \<open>
  The visitor of \<open>redact_request\<close>: \<open>used\<close> and, for fresh texts, the placements of each
  reference.
\<close>

type_synonym placements = "ustr \<Rightarrow> origin set"

definition placing :: "candidates \<Rightarrow> (ustr set \<times> placements) visitor" where
  "placing cs t context location st =
     (case st of (used, placed) \<Rightarrow>
        map_sum id (\<lambda>(here, r).
          ((used \<union> here,
            if og_fresh location then (\<lambda>ref. if ref \<in> here then insert location (placed ref) else placed ref)
            else placed), r)) (replacing cs t context location {}))"

definition redact_request ::
    "json_lib \<Rightarrow> 'o ai_request \<Rightarrow> mapping list \<Rightarrow> (mapping \<Rightarrow> bool)
      \<Rightarrow> redaction_error + ('o ai_request \<times> ustr set \<times> placements)" where
  "redact_request jl value mappings incl =
     res_bind (request_text jl (write_surface jl (placing (outbound mappings incl))) True (origin_of ''other_text'') value ({}, \<lambda>_. {}))
       (\<lambda>((used, placed), value').
       if \<exists>m \<in> set mappings. mp_reference m \<in> used \<and> \<not> active m then Inl InvalidText
       else Inr (value', used, placed))"

definition restore_item :: "json_lib \<Rightarrow> mapping list \<Rightarrow> (ustr set, 'o item) rewriting" where
  "restore_item jl mappings =
     item_text jl (write_surface jl (replacing (restoring mappings))) False (origin_of ''other_text'')"

definition restore_arguments :: "json_lib \<Rightarrow> mapping list \<Rightarrow> (ustr set, ustr) rewriting" where
  "restore_arguments jl mappings =
     arguments_text jl (replacing (restoring mappings)) (origin_of ''other_text'')"

text \<open>The result says whether the accumulator starts a new item.\<close>

definition restore_unknown ::
    "json_lib \<Rightarrow> mapping list \<Rightarrow> ustr \<Rightarrow> ustr set \<Rightarrow> redaction_error + (ustr set \<times> ustr \<times> bool)" where
  "restore_unknown jl mappings raw used =
     (case jl_parse jl raw of
        None \<Rightarrow> Inr (used, raw, False)
      | Some value \<Rightarrow>
          if json_get (ascii ''__open_responses_event'') value \<noteq> None then Inr (used, raw, False)
          else
            let response_metadata =
                  (case json_get (ascii ''__google_response_metadata'') value of
                     Some (JObject _) \<Rightarrow> True | _ \<Rightarrow> False)
            in res_bind (wire_text (write_wire jl (tracking (replacing (restoring mappings))))
                  (origin_of ''other_text'') value (False, used)) (\<lambda>((changed, used'), value').
               res_bind (if changed then ok_or InvalidText (jl_print jl value') else Inr raw) (\<lambda>raw'.
               Inr (used', raw', \<not> response_metadata))))"

text \<open>
  \<open>tool_calls\<close> of \<open>Restored\<close>: the references restored in the arguments of each call.
  \<open>entry(key).or_default().extend(here)\<close> on a map with sets as values:
\<close>

definition extend_entry :: "ustr \<Rightarrow> ustr set \<Rightarrow> (ustr \<times> ustr set) list \<Rightarrow> (ustr \<times> ustr set) list" where
  "extend_entry key here entries =
     AList.update key ((case map_of entries key of None \<Rightarrow> {} | Some refs \<Rightarrow> refs) \<union> here) entries"

definition noting_calls :: "candidates \<Rightarrow> (ustr set \<times> (ustr \<times> ustr set) list) visitor" where
  "noting_calls cs t context location st =
     (case st of (used, calls) \<Rightarrow>
        map_sum id (\<lambda>(here, r).
          ((used \<union> here,
            case og_tool_id location of
              Some i \<Rightarrow> if og_source location = ''tool_arguments'' then extend_entry i here calls else calls
            | None \<Rightarrow> calls), r)) (replacing cs t context location {}))"

definition restore_response ::
    "json_lib \<Rightarrow> mapping list \<Rightarrow> 'o item list \<Rightarrow> redaction_error + ((ustr set \<times> (ustr \<times> ustr set) list) \<times> 'o item list)" where
  "restore_response jl mappings items =
     traverse (item_text jl (write_surface jl (noting_calls (restoring mappings))) False (origin_of ''other_text'')) items ({}, [])"

text \<open>\<open>restore_compaction\<close>: the items and the \<open>output\<close> array of the wire form.\<close>

definition restore_compaction ::
    "json_lib \<Rightarrow> mapping list \<Rightarrow> 'o item list \<Rightarrow> json \<Rightarrow> redaction_error + (ustr set \<times> 'o item list \<times> json)" where
  "restore_compaction jl mappings items wire =
     res_bind (traverse (restore_item jl mappings) items {}) (\<lambda>(used, items').
     then_map (Pair items')
       (at_key (ascii ''output'') (\<lambda>v s.
          case v of
            JArray vs \<Rightarrow> then_map JArray
              (traverse (wire_text (write_wire jl (replacing (restoring mappings))) (origin_of ''other_text'')) vs s)
          | _ \<Rightarrow> Inr (s, v)) wire used))"

end
