(* ===== verification/RedactionAccount.thy ===== *)
theory RedactionAccount
  imports RedactionSurface
begin

text \<open>
  What holds of every visit holds of a whole traversal: the traversals of \<open>RedactionSurface\<close>
  compose the state changes of the visitor and change nothing else. The contract is a locale,
  with one instance for each thing the code records about a traversal.
\<close>

section \<open>The contract\<close>

text \<open>
  \<open>T s s' c\<close>: the state may go from \<open>s\<close> to \<open>s'\<close> in a step that changed something (\<open>c\<close>) or not.
  A computation obeys it if its result differs from \<open>x\<close> only in a step that may change.
\<close>

definition obeys :: "('s \<Rightarrow> 's \<Rightarrow> bool \<Rightarrow> bool) \<Rightarrow> ('s \<Rightarrow> redaction_error + ('s \<times> 'a)) \<Rightarrow> 'a \<Rightarrow> bool" where
  "obeys T m x \<longleftrightarrow> (\<forall>s s' x'. m s = Inr (s', x') \<longrightarrow> T s s' (x' \<noteq> x))"

definition visits :: "('s \<Rightarrow> 's \<Rightarrow> bool \<Rightarrow> bool) \<Rightarrow> 's visitor \<Rightarrow> bool" where
  "visits T visit \<longleftrightarrow> (\<forall>t context location s s' r. visit t context location s = Inr (s', r) \<longrightarrow> T s s' (r \<noteq> None))"

lemma obeysD: "obeys T m x \<Longrightarrow> m s = Inr (s', x') \<Longrightarrow> T s s' (x' \<noteq> x)"
  by (simp add: obeys_def)

lemma visitsD: "visits T visit \<Longrightarrow> visit t context location s = Inr (s', r) \<Longrightarrow> T s s' (r \<noteq> None)"
  by (simp add: visits_def)

lemma then_map_Inr: "then_map f r = Inr (s, y) \<longleftrightarrow> (\<exists>x. r = Inr (s, x) \<and> y = f x)"
  by (cases r) (auto simp: then_map_def)

lemma map_sum_Inr: "map_sum id f r = Inr y \<longleftrightarrow> (\<exists>x. r = Inr x \<and> y = f x)"
  by (cases r) auto

lemma bind_Inr: "res_bind r f = Inr y \<longleftrightarrow> (\<exists>s x. r = Inr (s, x) \<and> f (s, x) = Inr y)"
  by (cases r) auto

lemma bind_InrE:
  assumes "res_bind r f = Inr y"
  obtains s x where "r = Inr (s, x)" "f (s, x) = Inr y"
  using assms unfolding bind_Inr by blast

lemma bind3_InrE:
  assumes "res_bind r f = Inr y"
  obtains s x z where "r = Inr (s, x, z)" "f (s, x, z) = Inr y"
  using assms by (cases r) auto

lemma update_same: "map_of kvs key = Some v \<Longrightarrow> AList.update key v kvs = kvs"
  by (induction kvs) (auto split: if_splits)

text \<open>A traversal that also notes whether the visitor changed anything.\<close>

definition tracked :: "('s \<Rightarrow> 's \<Rightarrow> bool \<Rightarrow> bool) \<Rightarrow> bool \<times> 's \<Rightarrow> bool \<times> 's \<Rightarrow> bool \<Rightarrow> bool" where
  "tracked T cs cs' c \<longleftrightarrow>
     T (snd cs) (snd cs') (fst cs' \<and> \<not> fst cs \<or> c) \<and> (fst cs \<longrightarrow> fst cs') \<and> (c \<longrightarrow> fst cs')"

locale accounting =
  fixes T :: "'s \<Rightarrow> 's \<Rightarrow> bool \<Rightarrow> bool"
  assumes stay: "T s s False"
    and step: "T s s' c \<Longrightarrow> T s' s'' d \<Longrightarrow> T s s'' (c \<or> d)"
    and weaken: "T s s' True \<Longrightarrow> T s s' False"
begin

lemma mono: "T s s' c \<Longrightarrow> (d \<Longrightarrow> c) \<Longrightarrow> T s s' d"
  using weaken by (cases c; cases d) auto

lemma step_mono: "T s s' c \<Longrightarrow> T s' s'' d \<Longrightarrow> (e \<Longrightarrow> c \<or> d) \<Longrightarrow> T s s'' e"
  by (rule mono [OF step])

lemma tracked_accounting: "accounting (tracked T)"
proof
  show "tracked T cs cs False" for cs by (simp add: tracked_def stay)
next
  fix cs cs' cs'' c d assume t: "tracked T cs cs' c" "tracked T cs' cs'' d"
  then have "T (snd cs) (snd cs'') (fst cs'' \<and> \<not> fst cs \<or> c \<or> d)"
    unfolding tracked_def by (elim conjE) (rule step_mono, assumption, assumption, blast)
  with t show "tracked T cs cs'' (c \<or> d)" unfolding tracked_def by blast
next
  fix cs cs' assume "tracked T cs cs' True"
  then show "tracked T cs cs' False"
    unfolding tracked_def by (elim conjE) (auto intro: mono)
qed

lemma tracking_visits: "visits T visit \<Longrightarrow> visits (tracked T) (tracking visit)"
  unfolding visits_def tracked_def
proof (intro allI impI)
  fix t c1 location and cs cs' :: "bool \<times> 's" and r
  assume v: "\<forall>t context location s s' r. visit t context location s = Inr (s', r) \<longrightarrow> T s s' (r \<noteq> None)"
    and "tracking visit t c1 location cs = Inr (cs', r)"
  then obtain s' where s': "visit t c1 location (snd cs) = Inr (s', r)" "cs' = (fst cs \<or> r \<noteq> None, s')"
    by (auto simp: tracking_def map_sum_Inr)
  with v have "T (snd cs) s' (r \<noteq> None)" by blast
  then have "T (snd cs) s' ((fst cs \<or> r \<noteq> None) \<and> \<not> fst cs \<or> r \<noteq> None)" by (rule mono) blast
  with s' show "T (snd cs) (snd cs') (fst cs' \<and> \<not> fst cs \<or> r \<noteq> None) \<and> (fst cs \<longrightarrow> fst cs') \<and> (r \<noteq> None \<longrightarrow> fst cs')"
    by simp
qed

lemma obeys_keep [intro]: "obeys T (\<lambda>s. Inr (s, x)) x"
  by (simp add: obeys_def stay)

lemma obeys_fail [intro]: "obeys T (\<lambda>s. Inl e) x"
  by (simp add: obeys_def)

lemma obeys_map: "obeys T m x \<Longrightarrow> obeys T (\<lambda>s. then_map f (m s)) (f x)"
  unfolding obeys_def then_map_Inr by (blast intro: mono)

lemma obeys_if: "(b \<Longrightarrow> obeys T m x) \<Longrightarrow> (\<not> b \<Longrightarrow> obeys T n x) \<Longrightarrow> obeys T (\<lambda>s. if b then m s else n s) x"
  by (cases b) simp_all

lemma obeys_bind:
  assumes "obeys T m x" "\<And>x'. obeys T (k x') (f x')"
  shows "obeys T (\<lambda>s. res_bind (m s) (\<lambda>(s1, x'). k x' s1)) (f x)"
  unfolding obeys_def bind_Inr
proof (intro allI impI, elim exE conjE)
  fix s s' y s1 x' assume m: "m s = Inr (s1, x')" and k: "(case (s1, x') of (s1, x') \<Rightarrow> k x' s1) = Inr (s', y)"
  from obeysD [OF assms(1) m] obeysD [OF assms(2)] k show "T s s' (y \<noteq> f x)"
    by (auto intro!: step_mono [of s s1 "x' \<noteq> x" s' "y \<noteq> f x'"])
qed

lemma obeys_traverse: "(\<And>x. x \<in> set xs \<Longrightarrow> obeys T (f x) x) \<Longrightarrow> obeys T (traverse f xs) xs"
proof (induction xs)
  case Nil
  show ?case by (simp add: obeys_def stay)
next
  case (Cons x xs)
  have "obeys T (f x) x" "obeys T (traverse f xs) xs" using Cons by auto
  then have "obeys T (\<lambda>s. res_bind (f x s) (\<lambda>(s1, y).
      res_bind (traverse f xs s1) (\<lambda>(s2, ys). Inr (s2, y # ys)))) (x # xs)"
    by (intro obeys_bind [where f = "\<lambda>y. y # xs"] obeys_bind [where f = "\<lambda>ys. _ # ys"] obeys_keep)
  then show ?case by (simp add: obeys_def)
qed

lemma obeys_traverse_values:
  assumes "\<And>k v. (k, v) \<in> set kvs \<Longrightarrow> obeys T (f k v) v"
  shows "obeys T (traverse_values f kvs) kvs"
proof -
  have "obeys T (case kv of (k, v) \<Rightarrow> \<lambda>s. then_map (Pair k) (f k v s)) kv" if "kv \<in> set kvs" for kv
  proof (cases kv)
    case (Pair k v)
    with that have "obeys T (\<lambda>s. then_map (Pair k) (f k v s)) (k, v)" by (intro obeys_map assms) simp
    with Pair show ?thesis by simp
  qed
  then show ?thesis unfolding traverse_values_def by (rule obeys_traverse)
qed

lemma obeys_traverse_opt:
  "(\<And>y. x = Some y \<Longrightarrow> obeys T (f y) y) \<Longrightarrow> obeys T (traverse_opt f x) x"
proof (cases x)
  case (Some y)
  assume "\<And>y. x = Some y \<Longrightarrow> obeys T (f y) y"
  with Some have "obeys T (\<lambda>s. then_map Some (f y s)) (Some y)" by (intro obeys_map) simp
  with Some show ?thesis by (simp add: obeys_def traverse_opt_def)
qed (simp add: obeys_def traverse_opt_def stay)

lemma obeys_at_field:
  assumes "\<And>v. (key, v) \<in> set kvs \<Longrightarrow> obeys T (f v) v"
  shows "obeys T (at_field key f kvs) kvs"
proof (cases "map_of kvs key")
  case None
  then show ?thesis by (simp add: obeys_def at_field_def stay)
next
  case (Some v)
  then have "obeys T (f v) v" by (intro assms map_of_SomeD)
  from obeys_map [OF this, of "\<lambda>v'. AList.update key v' kvs"] Some update_same [OF Some] show ?thesis
    by (simp add: obeys_def at_field_def)
qed

lemma obeys_at_key:
  assumes "\<And>kvs v. x = JObject kvs \<Longrightarrow> (key, v) \<in> set kvs \<Longrightarrow> obeys T (f v) v"
  shows "obeys T (at_key key f x) x"
proof (cases x)
  case (JObject kvs)
  then have "obeys T (at_field key f kvs) kvs" by (intro obeys_at_field assms)
  from obeys_map [OF this, of JObject] JObject show ?thesis by (simp add: obeys_def at_key_def)
qed (simp_all add: obeys_def at_key_def stay)

lemma obeys_on_string: "(\<And>t. obeys T (f t) t) \<Longrightarrow> obeys T (on_string f x) x"
proof (cases x)
  case (JString t)
  assume "\<And>t. obeys T (f t) t"
  from obeys_map [OF this, of JString t] JString show ?thesis by (simp add: obeys_def on_string_def)
qed (simp_all add: obeys_def on_string_def stay)

lemma obeys_apply_write:
  assumes "visits T visit"
  shows "obeys T (apply_write visit location context t) t"
  unfolding obeys_def apply_write_def then_map_Inr
proof (intro allI impI, elim exE conjE)
  fix s s' t' r assume v: "visit t context location s = Inr (s', r)" and t': "t' = cow t r"
  from visitsD [OF assms v] show "T s s' (t' \<noteq> t)" by (rule mono) (cases r; simp add: t' cow_def)
qed

text \<open>JSON trees.\<close>

lemma obeys_json_values:
  assumes "visits T visit"
  shows "obeys T (json_values visit location ctx v0) v0"
proof (induction v0 arbitrary: ctx rule: measure_induct_rule [where f = size])
  case (less v)
  show ?case
  proof (cases v)
    case (JString t)
    with obeys_map [OF obeys_apply_write [OF assms], of JString] show ?thesis by (simp add: obeys_def)
  next
    case (JArray vs)
    have "obeys T (traverse (json_values visit location ctx) vs) vs"
      using less size_array JArray by (intro obeys_traverse) blast
    from obeys_map [OF this, of JArray] JArray show ?thesis by (simp add: obeys_def)
  next
    case (JObject kvs)
    have "obeys T (traverse_values (\<lambda>k. json_values visit location (Some k)) kvs) kvs"
      using less size_object JObject by (intro obeys_traverse_values) blast
    from obeys_map [OF this, of JObject] JObject show ?thesis by (simp add: obeys_def)
  qed (simp_all add: obeys_def stay)
qed

text \<open>The primitives of one expansion of the macro.\<close>

definition ops_obey :: "'s wire_ops \<Rightarrow> bool" where
  "ops_obey ops \<longleftrightarrow>
     (\<forall>location context v. obeys T (wo_json ops location context v) v)
     \<and> (\<forall>location t. obeys T (wo_arguments ops location t) t)
     \<and> (\<forall>location context t. obeys T (wo_apply ops location context t) t)"

lemma obeys_schema:
  assumes "ops_obey ops"
  shows "obeys T (schema ops location v0) v0"
proof (induction v0 rule: measure_induct_rule [where f = size])
  case (less v)
  show ?case
  proof (cases v)
    case (JArray vs)
    have "obeys T (traverse (schema ops location) vs) vs"
      using less size_array JArray by (intro obeys_traverse) blast
    from obeys_map [OF this, of JArray] JArray show ?thesis by (simp add: obeys_def)
  next
    case (JObject kvs)
    have props: "obeys T (\<lambda>s. case w of JObject entries \<Rightarrow> then_map JObject (traverse_values (\<lambda>_. schema ops location) entries s)
             | _ \<Rightarrow> Inr (s, w)) w" if "(k, w) \<in> set kvs" for k w
    proof (cases w)
      case inner: (JObject entries)
      have "obeys T (schema ops location u) u" if "(k', u) \<in> set entries" for k' u
        using less size_object [OF that] size_object [OF \<open>(k, w) \<in> set kvs\<close>] inner JObject by simp
      then have "obeys T (traverse_values (\<lambda>_. schema ops location) entries) entries"
        by (rule obeys_traverse_values)
      from obeys_map [OF this, of JObject] inner show ?thesis by simp
    qed (auto)
    have rec: "obeys T (schema ops location w) w" if "(k, w) \<in> set kvs" for k w
      using less size_object [OF that] JObject by simp
    have "obeys T (traverse_values (\<lambda>k w s.
       if k \<in> names [''description'', ''title'', ''$comment'', ''default'', ''examples'', ''example'', ''const'', ''enum'']
       then wo_json ops location (Some k) w s
       else if k \<in> names [''properties'', ''patternProperties'', ''$defs'', ''definitions'', ''dependentSchemas'']
       then (case w of JObject entries \<Rightarrow> then_map JObject (traverse_values (\<lambda>_. schema ops location) entries s)
             | _ \<Rightarrow> Inr (s, w))
       else if is_container w then schema ops location w s
       else Inr (s, w)) kvs) kvs"
      by (intro obeys_traverse_values obeys_if obeys_keep; (erule props | erule rec)?)
        (use assms in \<open>simp add: ops_obey_def\<close>)
    from obeys_map [OF this, of JObject] JObject show ?thesis by (simp add: obeys_def)
  qed (simp_all add: obeys_def stay)
qed

lemma obeys_wire_text:
  assumes ops: "ops_obey ops"
  shows "obeys T (wire_text ops location0 v0) v0"
proof (induction v0 arbitrary: location0 rule: measure_induct_rule [where f = size])
  case (less v)
  have app: "obeys T (wo_apply ops location ctx t) t" and args: "obeys T (wo_arguments ops location t) t"
    and json: "obeys T (wo_json ops location ctx w) w" for location ctx t w
    using ops by (simp_all add: ops_obey_def)
  show ?case
  proof (cases v)
    case (JString t)
    with obeys_map [OF app, of JString] show ?thesis by (simp add: obeys_def)
  next
    case (JArray vs)
    have "obeys T (traverse (wire_text ops location0) vs) vs"
      using less size_array JArray by (intro obeys_traverse) blast
    from obeys_map [OF this, of JArray] JArray show ?thesis by (simp add: obeys_def)
  next
    case (JObject kvs)
    let ?location = "wire_location kvs location0"
    have rec: "obeys T (wire_text ops location w) w" if "(k, w) \<in> set kvs" for k w location
      using less size_object [OF that] JObject by simp
    have str: "obeys T (on_string (wo_apply ops location ctx) w) w" for location ctx w
      by (intro obeys_on_string app)
    define src_step where "src_step = (\<lambda>src s.
             if kind_of kvs = ascii ''search_result'' then on_string (wo_apply ops ?location None) src s
             else if kind_of kvs = ascii ''document''
             then (case Option.bind (json_get (ascii ''type'') src) json_str of
                     None \<Rightarrow> Inr (s, src)
                   | Some t \<Rightarrow>
                       if t \<in> names [''text'', ''plain_text'']
                       then at_key (ascii ''data'') (on_string (wo_apply ops ?location None)) src s
                       else if t \<in> names [''content'', ''blocks'']
                       then at_key (ascii ''content'') (wire_text ops ?location) src s
                       else Inr (s, src))
             else Inr (s, src))"
    define entry where "entry = (\<lambda>key v s.
               if key \<in> names [''text'', ''refusal'', ''thinking'', ''cited_text'', ''title'', ''description'',
                   ''code'', ''stdout'', ''stderr'', ''query'', ''queries'', ''prompt'']
               then wo_json ops ?location (Some key) v s
               else if key = ascii ''arguments''
               then (case v of
                       JString t \<Rightarrow> then_map JString (wo_arguments ops ?location t s)
                     | _ \<Rightarrow> wo_json ops (with_source ''tool_arguments'' ?location) None v s)
               else if key \<in> names [''input'', ''output'', ''variables'', ''json''] then wo_json ops ?location None v s
               else if key = ascii ''functionCall''
               then at_key (ascii ''args'') (wo_json ops (with_source ''tool_arguments'' ?location) None) v s
               else if key = ascii ''functionResponse''
               then at_key (ascii ''response'') (wo_json ops (with_source ''tool_result'' ?location) None) v s
               else if key = ascii ''resource'' \<and> kind_of kvs = ascii ''resource''
               then at_key (ascii ''text'') (on_string (wo_apply ops ?location None)) v s
               else if key \<in> names [''format'', ''json_schema'', ''parts'', ''functionDeclarations'',
                   ''executableCode'', ''codeExecutionResult'', ''citations'']
               then wire_text ops ?location v s
               else if key \<in> names [''content'', ''summary'', ''results'', ''context'']
               then (case v of JString t \<Rightarrow> then_map JString (wo_apply ops ?location (Some key) t s)
                     | _ \<Rightarrow> wire_text ops ?location v s)
               else if key \<in> names [''schema'', ''parameters'', ''input_schema'', ''responseSchema'', ''responseJsonSchema'']
               then schema ops ?location v s
               else if key = ascii ''input_examples'' then wo_json ops ?location None v s
               else Inr (s, v))"
    have src: "obeys T (src_step w) w" if w: "map_of kvs (ascii ''source'') = Some w" for w
    proof -
      have "obeys T (wire_text ops ?location u) u" if "w = JObject es" "(k, u) \<in> set es" for es k u
        using less size_object [OF that(2)] size_object [OF map_of_SomeD [OF w]] that(1) JObject by simp
      then have content: "obeys T (at_key (ascii ''content'') (wire_text ops ?location) w) w"
        by (rule obeys_at_key)
      show ?thesis unfolding src_step_def
        by (cases "Option.bind (json_get (ascii ''type'') w) json_str")
          (auto intro!: obeys_if obeys_keep str content obeys_at_key)
    qed
    have entry: "obeys T (entry k w) w" if w: "(k, w) \<in> set kvs" for k w
    proof -
      have arguments: "obeys T (\<lambda>s. case w of
            JString t \<Rightarrow> then_map JString (wo_arguments ops location t s)
          | _ \<Rightarrow> wo_json ops location2 None w s) w" for location location2
        using json [of location2 None w] by (cases w) (auto intro: obeys_map args)
      have content: "obeys T (\<lambda>s. case w of
            JString t \<Rightarrow> then_map JString (wo_apply ops location ctx t s)
          | _ \<Rightarrow> wire_text ops location w s) w" for location ctx
        using rec [OF w, of location] by (cases w) (auto intro: obeys_map app simp del: wire_text.simps)
      show ?thesis unfolding entry_def
        by (intro obeys_if obeys_keep arguments content rec [OF w] obeys_schema ops json obeys_at_key str)
    qed
    have loop: "obeys T (traverse_values entry kvs) kvs" by (intro obeys_traverse_values entry)
    define put where "put = (\<lambda>src kvs'. JObject (case src of
        Some v' \<Rightarrow> AList.update (ascii ''source'') v' kvs' | None \<Rightarrow> kvs'))"
    have "obeys T (\<lambda>s. res_bind (traverse_opt src_step (map_of kvs (ascii ''source'')) s)
        (\<lambda>(s1, src). then_map (put src) (traverse_values entry kvs s1)))
        (put (map_of kvs (ascii ''source'')) kvs)"
      by (rule obeys_bind [where f = "\<lambda>src. put src kvs"])
        (auto intro!: obeys_traverse_opt src obeys_map loop)
    moreover have "put (map_of kvs (ascii ''source'')) kvs = JObject kvs"
      by (cases "map_of kvs (ascii ''source'')") (simp_all add: put_def update_same)
    ultimately have "obeys T (\<lambda>s. if kind_of kvs \<in> names opaque_kinds then Inr (s, JObject kvs)
        else res_bind (traverse_opt src_step (map_of kvs (ascii ''source'')) s)
          (\<lambda>(s1, src). then_map (put src) (traverse_values entry kvs s1))) (JObject kvs)"
      by (intro obeys_if obeys_keep) simp
    moreover have "wire_text ops location0 (JObject kvs) = (\<lambda>s. if kind_of kvs \<in> names opaque_kinds then Inr (s, JObject kvs)
        else res_bind (traverse_opt src_step (map_of kvs (ascii ''source'')) s)
          (\<lambda>(s1, src). then_map (put src) (traverse_values entry kvs s1)))"
      by (rule ext) (simp only: wire_text.simps Let_def src_step_def entry_def put_def)
    ultimately show ?thesis unfolding JObject by (simp only:)
  qed (simp_all add: obeys_def stay)
qed

text \<open>Tool arguments.\<close>

lemma arguments_loop_obeys:
  assumes vis: "visits T visit"
  shows "arguments_loop jl visit location arguments cursor out copied ctx s = Inr (s', out', copied') \<Longrightarrow>
    T s s' (copied' \<noteq> copied)"
proof (induction "length arguments - cursor" arbitrary: cursor out copied ctx s rule: less_induct)
  case less
  let ?loop = "arguments_loop jl visit location arguments"
  consider (stop) "\<not> cursor < length arguments" | (other) "cursor < length arguments" "arguments ! cursor \<noteq> 34"
    | (string) "cursor < length arguments" "arguments ! cursor = 34" by blast
  then show ?case
  proof cases
    case stop
    with less.prems show ?thesis by (simp add: arguments_loop.simps [of jl visit location arguments cursor] stay)
  next
    case other
    with less.prems have "?loop (cursor + 1) out copied ctx s = Inr (s', out', copied')"
      by (simp add: arguments_loop.simps [of jl visit location arguments cursor])
    moreover have "length arguments - (cursor + 1) < length arguments - cursor" using other by simp
    ultimately show ?thesis using less.hyps by blast
  next
    case string
    define stop_at where "stop_at = skip_string (cursor + 1) (drop (cursor + 1) arguments)"
    have smaller: "length arguments - stop_at < length arguments - cursor"
      using skip_string_measure [OF string(1)] by (simp add: stop_at_def)
    have eq: "?loop cursor out copied ctx s =
        res_bind (decode_string jl (take (stop_at - cursor) (drop cursor arguments))) (\<lambda>decoded.
           if colon_follows (drop stop_at arguments) then ?loop stop_at out copied (Some decoded) s
           else res_bind (visit decoded ctx location s) (\<lambda>(s1, r).
             case r of
               None \<Rightarrow> ?loop stop_at out copied ctx s1
             | Some replaced \<Rightarrow>
                 res_bind (json_text jl replaced) (\<lambda>encoded.
                 ?loop stop_at (out @ take (cursor - copied) (drop copied arguments) @ encoded) stop_at ctx s1)))"
      unfolding arguments_loop.simps [of jl visit location arguments cursor] stop_at_def Let_def
      by (simp only: string if_True not_True_eq_False if_False simp_thms)
    from less.prems obtain decoded where d: "(if colon_follows (drop stop_at arguments)
          then ?loop stop_at out copied (Some decoded) s
          else res_bind (visit decoded ctx location s) (\<lambda>(s1, r).
             case r of
               None \<Rightarrow> ?loop stop_at out copied ctx s1
             | Some replaced \<Rightarrow>
                 res_bind (json_text jl replaced) (\<lambda>encoded.
                 ?loop stop_at (out @ take (cursor - copied) (drop copied arguments) @ encoded) stop_at ctx s1)))
        = Inr (s', out', copied')"
      unfolding eq res_bind_Inr_iff by blast
    show ?thesis
    proof (cases "colon_follows (drop stop_at arguments)")
      case True
      with d less.hyps [OF smaller] show ?thesis by simp
    next
      case False
      with d obtain s1 r where v: "visit decoded ctx location s = Inr (s1, r)"
        and k: "(case r of None \<Rightarrow> ?loop stop_at out copied ctx s1
             | Some replaced \<Rightarrow>
                 res_bind (json_text jl replaced) (\<lambda>encoded.
                 ?loop stop_at (out @ take (cursor - copied) (drop copied arguments) @ encoded) stop_at ctx s1))
          = Inr (s', out', copied')"
        by (auto simp: bind_Inr)
      note first = visitsD [OF vis v]
      show ?thesis
      proof (cases r)
        case None
        with k less.hyps [OF smaller] have "T s1 s' (copied' \<noteq> copied)" by simp
        from step_mono [OF first this] None show ?thesis by blast
      next
        case (Some replaced)
        with k obtain encoded where
            "?loop stop_at (out @ take (cursor - copied) (drop copied arguments) @ encoded) stop_at ctx s1 = Inr (s', out', copied')"
          by (auto simp: res_bind_Inr_iff)
        from less.hyps [OF smaller this] have "T s1 s' (copied' \<noteq> stop_at)" .
        from step_mono [OF first this] Some show ?thesis by blast
      qed
    qed
  qed
qed

lemma malformed_tokens_obeys:
  assumes vis: "visits T visit"
  shows "malformed_tokens jl visit location arguments tokens (edits, residuals, ctx, last_end, s)
      = Inr (edits', residuals', ctx', last_end', s') \<Longrightarrow> T s s' (edits' \<noteq> edits)"
proof (induction tokens arbitrary: edits residuals ctx last_end s)
  case Nil
  then show ?case by (simp add: stay)
next
  case (Cons token tokens)
  obtain start stop decoded where token: "token = (start, stop, decoded)" by (cases token) auto
  define residuals1 where "residuals1 = (if last_end < start then residuals @ [(last_end, start)] else residuals)"
  from Cons.prems token obtain t where t: "decoded = Some t" by (cases decoded) (simp_all add: Let_def)
  show ?case
  proof (cases "colon_follows (drop stop arguments)")
    case True
    with Cons.prems token t have "malformed_tokens jl visit location arguments tokens (edits, residuals1, Some t, stop, s)
        = Inr (edits', residuals', ctx', last_end', s')" by (simp add: Let_def residuals1_def)
    then show ?thesis by (rule Cons.IH)
  next
    case False
    have "res_bind (visit t ctx location s) (\<lambda>(s1, r).
               case r of
                 None \<Rightarrow> malformed_tokens jl visit location arguments tokens (edits, residuals1, ctx, stop, s1)
               | Some replaced \<Rightarrow>
                   res_bind (json_text jl replaced) (\<lambda>encoded.
                   malformed_tokens jl visit location arguments tokens
                     (edits @ [(start, stop, encoded)], residuals1, ctx, stop, s1)))
          = Inr (edits', residuals', ctx', last_end', s')"
      using Cons.prems False
      unfolding token t malformed_tokens.simps residuals1_def [symmetric] Let_def option.case by simp
    then obtain s1 r where v: "visit t ctx location s = Inr (s1, r)"
      and k: "(case r of
                 None \<Rightarrow> malformed_tokens jl visit location arguments tokens (edits, residuals1, ctx, stop, s1)
               | Some replaced \<Rightarrow>
                   res_bind (json_text jl replaced) (\<lambda>encoded.
                   malformed_tokens jl visit location arguments tokens
                     (edits @ [(start, stop, encoded)], residuals1, ctx, stop, s1)))
          = Inr (edits', residuals', ctx', last_end', s')"
      by (rule bind_InrE) simp
    note first = visitsD [OF vis v]
    show ?thesis
    proof (cases r)
      case None
      with k have "T s1 s' (edits' \<noteq> edits)" by (intro Cons.IH) simp
      from step_mono [OF first this] None show ?thesis by blast
    next
      case (Some replaced)
      with k obtain encoded where "malformed_tokens jl visit location arguments tokens
          (edits @ [(start, stop, encoded)], residuals1, ctx, stop, s1) = Inr (edits', residuals', ctx', last_end', s')"
        by (auto simp: res_bind_Inr_iff)
      from Cons.IH [OF this] have "T s1 s' (edits' \<noteq> edits @ [(start, stop, encoded)])" .
      from step_mono [OF first this] Some show ?thesis by blast
    qed
  qed
qed

lemma residual_edits_obeys:
  assumes vis: "visits T visit"
  shows "residual_edits visit location arguments residuals edits s = Inr (s', edits') \<Longrightarrow> T s s' (edits' \<noteq> edits)"
proof (induction residuals arbitrary: edits s)
  case Nil
  then show ?case by (simp add: stay)
next
  case (Cons span residuals)
  obtain start stop where span: "span = (start, stop)" by (cases span) auto
  show ?case
  proof (cases "stop \<le> start")
    case True
    with Cons.prems span show ?thesis by (intro Cons.IH) simp
  next
    case False
    with Cons.prems span obtain s1 r where
        v: "visit (take (stop - start) (drop start arguments)) None location s = Inr (s1, r)"
      and k: "residual_edits visit location arguments residuals
          (case r of None \<Rightarrow> edits | Some after \<Rightarrow> edits @ [(start, stop, after)]) s1 = Inr (s', edits')"
      by (auto simp: bind_Inr)
    from Cons.IH [OF k] have "T s1 s' (edits' \<noteq> (case r of None \<Rightarrow> edits | Some after \<Rightarrow> edits @ [(start, stop, after)]))" .
    from step_mono [OF visitsD [OF vis v] this] show ?thesis by (cases r) simp_all
  qed
qed

lemma malformed_arguments_obeys:
  assumes vis: "visits T visit"
  shows "obeys T (malformed_arguments_text jl visit location arguments) arguments"
  unfolding obeys_def
proof (intro allI impI)
  fix s s' x'
  assume run: "malformed_arguments_text jl visit location arguments s = Inr (s', x')"
  obtain tokens open_from where tok: "closed_string_tokens jl arguments 0 = (tokens, open_from)" by (cases "closed_string_tokens jl arguments 0")
  from run tok obtain edits residuals ctx last_end s1 where
      m: "malformed_tokens jl visit location arguments tokens ([], [], None, 0, s) = Inr (edits, residuals, ctx, last_end, s1)"
    and rest: "res_bind
           (case open_from of
              Some open_at \<Rightarrow>
                res_bind (decode_unterminated jl (drop (open_at + 1) arguments)) (\<lambda>decoded.
                res_bind (visit decoded ctx location s1) (\<lambda>(s2, r).
                case r of
                  None \<Rightarrow> Inr (s2, edits, residuals @ [(last_end, open_at + 1)])
                | Some replaced \<Rightarrow>
                    res_bind (json_text jl replaced) (\<lambda>encoded.
                    Inr (s2, edits @ [(open_at + 1, length arguments, butlast (tl encoded))],
                         residuals @ [(last_end, open_at + 1)]))))
            | None \<Rightarrow> Inr (s1, edits, residuals @ [(last_end, length arguments)]))
         (\<lambda>(s2, edits2, residuals2). res_bind (residual_edits visit location arguments residuals2 edits2 s2)
         (\<lambda>(s3, edits3). Inr (s3, if edits3 = [] then arguments
                             else apply_edits arguments 0 (sort_key fst edits3)))) = Inr (s', x')"
    by (auto simp: malformed_arguments_text_def res_bind_Inr_iff)
  from rest obtain s2 edits2 residuals2 where
      u: "(case open_from of
              Some open_at \<Rightarrow>
                res_bind (decode_unterminated jl (drop (open_at + 1) arguments)) (\<lambda>decoded.
                res_bind (visit decoded ctx location s1) (\<lambda>(s2, r).
                case r of
                  None \<Rightarrow> Inr (s2, edits, residuals @ [(last_end, open_at + 1)])
                | Some replaced \<Rightarrow>
                    res_bind (json_text jl replaced) (\<lambda>encoded.
                    Inr (s2, edits @ [(open_at + 1, length arguments, butlast (tl encoded))],
                         residuals @ [(last_end, open_at + 1)]))))
            | None \<Rightarrow> Inr (s1, edits, residuals @ [(last_end, length arguments)])) = Inr (s2, edits2, residuals2)"
    and w: "res_bind (residual_edits visit location arguments residuals2 edits2 s2)
         (\<lambda>(s3, edits3). Inr (s3, if edits3 = [] then arguments
                             else apply_edits arguments 0 (sort_key fst edits3))) = Inr (s', x')"
    by (rule bind3_InrE) simp
  from w obtain edits3 where r: "residual_edits visit location arguments residuals2 edits2 s2 = Inr (s', edits3)"
      "x' = (if edits3 = [] then arguments else apply_edits arguments 0 (sort_key fst edits3))"
    by (auto simp: bind_Inr)
  have "T s1 s2 (edits2 \<noteq> edits)"
  proof (cases open_from)
    case None
    with u show ?thesis by (simp add: stay)
  next
    case (Some open_at)
    from u [unfolded Some option.case] obtain decoded where
        "res_bind (visit decoded ctx location s1) (\<lambda>(s2, r).
                case r of
                  None \<Rightarrow> Inr (s2, edits, residuals @ [(last_end, open_at + 1)])
                | Some replaced \<Rightarrow>
                    res_bind (json_text jl replaced) (\<lambda>encoded.
                    Inr (s2, edits @ [(open_at + 1, length arguments, butlast (tl encoded))],
                         residuals @ [(last_end, open_at + 1)]))) = Inr (s2, edits2, residuals2)"
      unfolding res_bind_Inr_iff [of "decode_unterminated jl c" for c] by blast
    then obtain s2' ro where v: "visit decoded ctx location s1 = Inr (s2', ro)"
      and k: "(case ro of
                  None \<Rightarrow> Inr (s2', edits, residuals @ [(last_end, open_at + 1)])
                | Some replaced \<Rightarrow>
                    res_bind (json_text jl replaced) (\<lambda>encoded.
                    Inr (s2', edits @ [(open_at + 1, length arguments, butlast (tl encoded))],
                         residuals @ [(last_end, open_at + 1)]))) = Inr (s2, edits2, residuals2)"
      by (rule bind_InrE) (simp only: prod.case)
    from visitsD [OF vis v] k show ?thesis
      by (cases ro) (auto simp: res_bind_Inr_iff elim: mono)
  qed
  with malformed_tokens_obeys [OF vis m] have "T s s2 (edits2 \<noteq> [])" by (rule step_mono) blast
  from step_mono [OF this residual_edits_obeys [OF vis r(1)]] r(2) show "T s s' (x' \<noteq> arguments)"
    by (cases "edits3 = []") auto
qed

lemma obeys_arguments_text:
  assumes vis: "visits T visit"
  shows "obeys T (arguments_text jl visit location arguments) arguments"
proof -
  have loop: "obeys T (\<lambda>s. map_sum id (\<lambda>(s', out, copied).
        (s', if copied = 0 then arguments else out @ drop copied arguments))
        (arguments_loop jl visit location arguments 0 [] 0 None s)) arguments"
    unfolding obeys_def map_sum_Inr
  proof (intro allI impI, elim exE conjE)
    fix s s' x' y assume run: "arguments_loop jl visit location arguments 0 [] 0 None s = Inr y"
      "(s', x') = (case y of (s', out, copied) \<Rightarrow> (s', if copied = 0 then arguments else out @ drop copied arguments))"
    obtain s'' out copied where y: "y = (s'', out, copied)" by (cases y) auto
    with run(2) have "s'' = s'" by simp
    with arguments_loop_obeys [OF vis run(1) [unfolded y]] have "T s s' (copied \<noteq> 0)" by simp
    then show "T s s' (x' \<noteq> arguments)" by (rule mono) (use run(2) y in \<open>auto split: if_splits\<close>)
  qed
  have "obeys T (\<lambda>s. if arguments = [] then Inr (s, arguments)
      else if \<not> jl_is_json jl arguments then malformed_arguments_text jl visit location arguments s
      else map_sum id (\<lambda>(s', out, copied). (s', if copied = 0 then arguments else out @ drop copied arguments))
        (arguments_loop jl visit location arguments 0 [] 0 None s)) arguments"
    by (intro obeys_if obeys_keep malformed_arguments_obeys vis loop)
  moreover have "arguments_text jl visit location arguments = (\<lambda>s. if arguments = [] then Inr (s, arguments)
      else if \<not> jl_is_json jl arguments then malformed_arguments_text jl visit location arguments s
      else map_sum id (\<lambda>(s', out, copied). (s', if copied = 0 then arguments else out @ drop copied arguments))
        (arguments_loop jl visit location arguments 0 [] 0 None s))"
    by (rule ext) (simp only: arguments_text_def)
  ultimately show ?thesis by (simp only:)
qed

lemma write_wire_obey: "visits T visit \<Longrightarrow> ops_obey (write_wire jl visit)"
  by (simp add: ops_obey_def write_wire_def obeys_json_values obeys_arguments_text obeys_apply_write)

lemma at_origin_visits: "visits T visit \<Longrightarrow> visits T (at_origin visit location)"
  by (auto simp: visits_def at_origin_def)

lemma obeys_tool_result:
  assumes vis: "visits T visit"
  shows "obeys T (tool_result jl visit kind reject location v) v"
proof (cases "result_kind jl v kind reject")
  case (Inl e)
  then show ?thesis by (simp add: obeys_def tool_result_def)
next
  case (Inr k)
  have "obeys T (json_values visit location None v) v" by (rule obeys_json_values [OF vis])
  moreover have "obeys T (wire_text (write_wire jl (at_origin visit location)) (origin_of ''tool_result'') v) v"
    by (intro obeys_wire_text write_wire_obey at_origin_visits vis)
  ultimately show ?thesis using Inr unfolding obeys_def tool_result_def
    by (auto simp: stay split: option.splits content_kind.splits)
qed

lemma obeys_encoded_tool_result:
  assumes vis: "visits T visit"
  shows "obeys T (encoded_tool_result jl visit kind location t) t"
  unfolding obeys_def
proof (intro allI impI)
  fix s s' x' assume run: "encoded_tool_result jl visit kind location t s = Inr (s', x')"
  then obtain v changed s1 v' where
      r: "tool_result jl (tracking visit) (Some kind) True location v (False, s) = Inr ((changed, s1), v')"
    and k: "(if changed then res_bind (ok_or InvalidText (jl_print jl v')) (\<lambda>t'. Inr (s1, t')) else Inr (s1, t)) = Inr (s', x')"
    unfolding encoded_tool_result_def res_bind_Inr_iff [of "ok_or InvalidText (jl_parse jl t)"]
    by (elim exE conjE bind_InrE) auto
  from k have s': "s' = s1" and x': "x' \<noteq> t \<Longrightarrow> changed" by (auto split: if_splits simp: res_bind_Inr_iff)
  from accounting.obeys_tool_result [OF tracked_accounting tracking_visits [OF vis]] r
  have "tracked T (False, s) (changed, s1) (v' \<noteq> v)" by (rule obeysD)
  then have "T s s1 (changed \<or> v' \<noteq> v)" by (simp add: tracked_def)
  then show "T s s' (x' \<noteq> t)" unfolding s' by (rule mono) (use x' in blast)
qed

text \<open>Content blocks and items.\<close>

lemma obeys_cong: "(\<And>s. m s = n s) \<Longrightarrow> obeys T n x \<Longrightarrow> obeys T m x"
  by (simp add: obeys_def)

lemma obeys_eq: "obeys T m x \<Longrightarrow> x = y \<Longrightarrow> obeys T m y"
  by simp

lemma obeys_pair:
  "obeys T m x \<Longrightarrow> obeys T n y
    \<Longrightarrow> obeys T (\<lambda>s. res_bind (m s) (\<lambda>(s1, a). then_map (f a) (n s1))) (f x y)"
  by (rule obeys_bind [where f = "\<lambda>a. f a y"]) (auto intro: obeys_map)

lemma obeys_triple:
  "obeys T m x \<Longrightarrow> obeys T n y \<Longrightarrow> obeys T k z
    \<Longrightarrow> obeys T (\<lambda>s. res_bind (m s) (\<lambda>(s1, a). res_bind (n s1) (\<lambda>(s2, b). then_map (f a b) (k s2)))) (f x y z)"
  by (rule obeys_bind [where f = "\<lambda>a. f a y z"]) (auto intro: obeys_pair)

definition surface_obeys :: "'s surface_ops \<Rightarrow> bool" where
  "surface_obeys ops \<longleftrightarrow>
     ops_obey (wire_ops.truncate ops)
     \<and> (\<forall>kind reject location v. obeys T (so_tool_result ops kind reject location v) v)
     \<and> (\<forall>kind location t. obeys T (so_encoded ops kind location t) t)"

lemma write_surface_obeys: "visits T visit \<Longrightarrow> surface_obeys (write_surface jl visit)"
  using write_wire_obey [of visit jl]
  by (simp add: surface_obeys_def write_surface_def wire_ops.defs write_wire_def obeys_tool_result obeys_encoded_tool_result)

lemma surface_obeysD:
  assumes "surface_obeys ops"
  shows "obeys T (wo_apply ops location context1 t) t" "obeys T (wo_json ops location context1 v) v"
    "obeys T (wo_arguments ops location t) t" "obeys T (so_tool_result ops kind reject location v) v"
    "obeys T (so_encoded ops k location t) t" "ops_obey (wire_ops.truncate ops)"
  using assms by (simp_all add: surface_obeys_def ops_obey_def wire_ops.defs)

lemma obeys_shareds: "surface_obeys ops \<Longrightarrow> obeys T (traverse (wo_apply ops location None) ts) ts"
  by (intro obeys_traverse surface_obeysD)

lemma obeys_shared_opt: "surface_obeys ops \<Longrightarrow> obeys T (traverse_opt (wo_apply ops location None) ot) ot"
  by (intro obeys_traverse_opt surface_obeysD)

lemmas obeys_texts = surface_obeysD obeys_shareds obeys_shared_opt obeys_wire_text obeys_schema

lemma obeys_blocks:
  fixes b :: "'o block" and src :: "'o document_source"
  assumes sur: "surface_obeys ops"
  shows "obeys T (blocks_text ops reject location b) b"
    and "obeys T (source_text ops reject location src) src"
proof (induction b and src arbitrary: location and location)
  case (TextBlock t x)
  show ?case by (rule obeys_cong [OF blocks_text.simps(1)]) (intro obeys_map obeys_texts sur)
next
  case (Thinking t x)
  show ?case by (rule obeys_cong [OF blocks_text.simps(2)]) (intro obeys_map obeys_texts sur)
next
  case (Reasoning summary content x)
  show ?case by (rule obeys_cong [OF blocks_text.simps(3)]) (intro obeys_pair obeys_texts sur)
next
  case (ToolUse i v0 x)
  show ?case by (rule obeys_cong [OF blocks_text.simps(4)]) (intro obeys_map obeys_texts sur)
next
  case (ServerToolUse i v0 x)
  show ?case by (rule obeys_cong [OF blocks_text.simps(5)]) (intro obeys_map obeys_texts sur)
next
  case (ToolResult i v0 kind x)
  show ?case by (rule obeys_cong [OF blocks_text.simps(6)]) (intro obeys_map obeys_texts sur)
next
  case (ServerToolResult i v0 kind x)
  show ?case by (rule obeys_cong [OF blocks_text.simps(7)]) (intro obeys_map obeys_texts sur)
next
  case (Document src title ctx x)
  show ?case by (rule obeys_cong [OF blocks_text.simps(8)]) (intro obeys_triple obeys_texts sur Document)
next
  case (SearchResult content src title x)
  show ?case by (rule obeys_cong [OF blocks_text.simps(9)]) (intro obeys_triple obeys_texts sur obeys_traverse SearchResult)
next
  case (Citation t x)
  show ?case by (rule obeys_cong [OF blocks_text.simps(10)]) (intro obeys_map obeys_texts sur)
next
  case (ExecutableCode t x)
  show ?case by (rule obeys_cong [OF blocks_text.simps(11)]) (intro obeys_map obeys_texts sur)
next
  case (CodeExecutionResult out err x)
  show ?case by (rule obeys_cong [OF blocks_text.simps(12)]) (intro obeys_pair obeys_texts sur)
next
  case (Refusal t)
  show ?case by (rule obeys_cong [OF blocks_text.simps(13)]) (intro obeys_map obeys_texts sur)
next
  case (Unknown raw)
  show ?case by (rule obeys_cong [OF blocks_text.simps(14)]) (intro obeys_map obeys_texts sur)
next
  case (OpaqueBlock x)
  show ?case by (rule obeys_cong [OF blocks_text.simps(15)]) (rule obeys_keep)
next
  case (PlainText t)
  show ?case by (rule obeys_cong [OF source_text.simps(1)]) (intro obeys_map obeys_texts sur)
next
  case (Blocks content)
  show ?case by (rule obeys_cong [OF source_text.simps(2)]) (intro obeys_map obeys_traverse Blocks)
next
  case (OpaqueSource x)
  show ?case by (rule obeys_cong [OF source_text.simps(3)]) (rule obeys_keep)
qed

lemma obeys_encoded_text:
  assumes sur: "surface_obeys ops"
  shows "obeys T (\<lambda>s. case k of
      ContentBlocksResult \<Rightarrow> so_encoded ops k1 location1 t s
    | JsonResult \<Rightarrow> wo_apply ops location None t s) t"
  by (cases k) (simp_all add: obeys_texts sur)

lemma obeys_tool_block:
  assumes sur: "surface_obeys ops"
  shows "obeys T (tool_block jl ops reject location kind b) b"
proof (rule obeys_cong [OF tool_block_def])
  let ?m = "\<lambda>s. case (kind, b) of
        (Some k, ToolResult i (JString t) ck x) \<Rightarrow>
          then_map (\<lambda>t. ToolResult i (JString t) ck x)
            (case k of
               ContentBlocksResult \<Rightarrow> so_encoded ops k location t s
             | JsonResult \<Rightarrow> wo_apply ops location None t s)
      | (Some k, ServerToolResult i (JString t) ck x) \<Rightarrow>
          then_map (\<lambda>t. ServerToolResult i (JString t) ck x)
            (case k of
               ContentBlocksResult \<Rightarrow> so_encoded ops k location t s
             | JsonResult \<Rightarrow> wo_apply ops location None t s)
      | (_, Unknown raw) \<Rightarrow>
          if content_result_type (Option.bind (json_get (ascii ''type'') raw) json_str)
          then (if reject then Inl AmbiguousToolResult else Inr (s, b))
          else then_map Unknown (so_tool_result ops None reject location raw s)
      | _ \<Rightarrow> blocks_text ops reject location b s"
  note here = obeys_blocks(1) [OF sur]
  have results: "obeys T ?m b" if that_is: "b = ToolResult i v0 ck x \<or> b = ServerToolResult i v0 ck x" for i v0 ck x
  proof (cases "\<exists>k t. kind = Some k \<and> v0 = JString t")
    case True
    then obtain k t where kt: "kind = Some k" "v0 = JString t" by blast
    from that_is show ?thesis
      by (elim disjE; simp only: kt prod.case option.case block.case json.case)
        (rule obeys_map [OF obeys_encoded_text [OF sur]])+
  next
    case False
    from that_is have "?m = blocks_text ops reject location b"
      by (elim disjE; cases kind; cases v0) (use False in \<open>simp_all del: blocks_text.simps\<close>)
    with here show ?thesis by simp
  qed
  have unknown: "obeys T ?m b" if that_is: "b = Unknown raw" for raw
  proof -
    have "obeys T (\<lambda>s. if content_result_type (Option.bind (json_get (ascii ''type'') raw) json_str)
          then (if reject then Inl AmbiguousToolResult else Inr (s, b))
          else then_map Unknown (so_tool_result ops None reject location raw s)) b"
      unfolding that_is by (intro obeys_if obeys_map obeys_texts obeys_keep obeys_fail sur)
    then show ?thesis by (cases kind) (simp_all add: that_is)
  qed
  show "obeys T ?m b"
  proof (cases b)
    case (ToolResult i v0 ck x)
    then show ?thesis by (intro results) blast
  next
    case (ServerToolResult i v0 ck x)
    then show ?thesis by (intro results) blast
  next
    case (Unknown raw)
    then show ?thesis by (rule unknown)
  qed (cases kind; simp add: here del: blocks_text.simps)+
qed

lemma obeys_item_content:
  assumes sur: "surface_obeys ops"
  shows "obeys T (item_content_text jl ops reject location r kind c) c"
proof (cases c)
  case (TextContent t)
  have "obeys T (\<lambda>s. if r = Tool
          then (case kind of
                  Some ContentBlocksResult \<Rightarrow>
                    then_map TextContent
                      (so_encoded ops ContentBlocksResult location t s)
                | Some JsonResult \<Rightarrow> then_map TextContent (wo_apply ops location None t s)
                | None \<Rightarrow>
                    if encoded_compound_array jl t
                    then (if reject then Inl AmbiguousToolResult else Inr (s, TextContent t))
                    else then_map TextContent (wo_apply ops location None t s))
          else then_map TextContent (wo_apply ops location None t s)) (TextContent t)"
    by (cases kind rule: option.exhaust; (cases "the kind")?;
      simp only: option.case content_kind.case option.sel;
      intro obeys_if obeys_map obeys_texts obeys_keep obeys_fail sur)
  then show ?thesis
    by (intro obeys_cong [OF item_content_text_def]) (simp add: TextContent)
next
  case (BlockContent bs)
  have "obeys T (\<lambda>s. then_map BlockContent (if r = Tool then traverse (tool_block jl ops reject location kind) bs s
       else traverse (blocks_text ops reject location) bs s)) (BlockContent bs)"
    by (intro obeys_map obeys_if obeys_traverse obeys_tool_block obeys_blocks sur)
  then show ?thesis
    by (intro obeys_cong [OF item_content_text_def]) (simp add: BlockContent)
qed

lemma obeys_item_text:
  assumes sur: "surface_obeys ops"
  shows "obeys T (item_text jl ops reject location0 item) item"
proof (rule obeys_cong [OF item_text_def [unfolded Let_def]])
  let ?location = "item_location item location0"
  let ?call = "\<lambda>c s. then_map (\<lambda>a. c\<lparr>cl_arguments := a\<rparr>)
      (wo_arguments ops (with_tool ''tool_arguments'' (cl_id c) ?location)
        (cl_arguments c) s)"
  have call: "obeys T (?call c) c" for c
    by (rule obeys_eq [OF obeys_map [OF surface_obeysD(3) [OF sur]]]) simp
  have "obeys T (\<lambda>s. res_bind (item_content_text jl ops reject ?location (it_role item) kind (it_content item) s)
      (\<lambda>(s1, c). then_map (\<lambda>calls. item\<lparr>it_content := c, it_tool_calls := calls\<rparr>)
        (traverse_opt (traverse ?call) (it_tool_calls item) s1))) item" for kind
    by (rule obeys_eq [OF obeys_pair [OF obeys_item_content [OF sur] obeys_traverse_opt]])
      (auto intro: obeys_traverse call)
  then show "obeys T (\<lambda>s. res_bind (encoded_kind jl item) (\<lambda>kind.
      res_bind (item_content_text jl ops reject ?location (it_role item) kind (it_content item) s)
      (\<lambda>(s1, c). then_map (\<lambda>calls. item\<lparr>it_content := c, it_tool_calls := calls\<rparr>)
        (traverse_opt (traverse ?call) (it_tool_calls item) s1)))) item"
    by (cases "encoded_kind jl item") (simp_all add: obeys_fail)
qed

text \<open>Tools.\<close>

lemma obeys_function_tool:
  assumes sur: "surface_obeys ops"
  shows "obeys T (function_tool_text ops location t) t"
  by (rule obeys_cong [OF function_tool_text_def])
    (rule obeys_eq [OF obeys_pair [OF obeys_shared_opt [OF sur] obeys_schema [OF surface_obeysD(6) [OF sur]]]], simp)

lemma obeys_custom_tool:
  assumes sur: "surface_obeys ops"
  shows "obeys T (custom_tool_text ops location t) t"
  by (rule obeys_cong [OF custom_tool_text_def])
    (rule obeys_eq [OF obeys_pair [OF obeys_shared_opt [OF sur] obeys_shared_opt [OF sur]]], simp)

lemma obeys_member:
  assumes sur: "surface_obeys ops"
  shows "obeys T (member_text ops location m) m"
  by (rule obeys_cong [OF member_text_def])
    (cases m; simp only: namespace_member.case; intro obeys_map obeys_function_tool obeys_custom_tool sur)

lemma obeys_native_tool:
  assumes sur: "surface_obeys ops"
  shows "obeys T (native_tool_text ops location t) t"
  by (rule obeys_cong [OF native_tool_text_def])
    (cases t; simp only: native_tool.case;
      intro obeys_pair obeys_map obeys_traverse obeys_traverse_opt obeys_member obeys_custom_tool obeys_keep obeys_texts sur)

text \<open>The whole request.\<close>

lemma obeys_ingress:
  assumes sur: "surface_obeys ops"
  shows "obeys T (ingress_text ops location key v0) v0"
  by (rule obeys_cong [OF ingress_text_def]) (intro obeys_if obeys_keep obeys_texts sur)

lemma obeys_embedding:
  assumes sur: "surface_obeys ops"
  shows "obeys T (embedding_text ops location e) e"
  by (rule obeys_cong [OF embedding_text_def])
    (cases e; simp only: embedding_input.case; intro obeys_map obeys_keep obeys_texts sur)

lemma obeys_json_schema:
  assumes sur: "surface_obeys ops"
  shows "obeys T (json_schema_text ops location f) f"
  by (rule obeys_cong [OF json_schema_text_def])
    (rule obeys_eq [OF obeys_pair [OF obeys_schema [OF surface_obeysD(6) [OF sur]] obeys_shared_opt [OF sur]]], simp)

lemma obeys_steps:
  assumes "obeys T m1 x1" "obeys T m2 x2" "obeys T m3 x3" "obeys T m4 x4"
    and "obeys T m5 x5" "obeys T m6 x6" "obeys T m7 x7" "obeys T m8 x8"
  shows "obeys T (\<lambda>s. res_bind (m1 s) (\<lambda>(s1, a). res_bind (m2 s1) (\<lambda>(s2, b). res_bind (m3 s2)
    (\<lambda>(s3, c). res_bind (m4 s3) (\<lambda>(s4, d). res_bind (m5 s4) (\<lambda>(s5, e). res_bind (m6 s5) (\<lambda>(s6, g).
     res_bind (m7 s6) (\<lambda>(s7, h). then_map (f a b c d e g h) (m8 s7))))))))) (f x1 x2 x3 x4 x5 x6 x7 x8)"
  by (rule obeys_bind [OF assms(1)], rule obeys_bind [OF assms(2)], rule obeys_bind [OF assms(3)],
    rule obeys_bind [OF assms(4)], rule obeys_bind [OF assms(5)], rule obeys_bind [OF assms(6)],
    rule obeys_bind [OF assms(7)], rule obeys_map [OF assms(8)])

lemma obeys_request_text:
  fixes q :: "'o ai_request"
  assumes sur: "surface_obeys ops"
  shows "obeys T (request_text jl ops reject location0 q) q"
proof (rule obeys_cong [OF request_text_def [unfolded Let_def]])
  let ?L = "location0\<lparr>og_fresh := (history_end (rq_items q) = None)\<rparr>"
  define R :: "_ \<Rightarrow> (nat \<times> 'o item) list \<Rightarrow> _ \<Rightarrow> _ \<Rightarrow> _ \<Rightarrow> _ \<Rightarrow> _ \<Rightarrow> _ \<Rightarrow> 'o ai_request" where "R = (\<lambda>i it e t js ig md n.
      \<lparr>rq_instructions = i, rq_items = map snd it, rq_embedding = e, rq_tools = t, rq_json_schema = js, rq_ingress = ig,
       rq_metadata = md, rq_native_tools = n\<rparr>)"
  define item :: "nat \<times> 'o item \<Rightarrow> _" where "item = (\<lambda>(index, item) s. then_map (Pair index)
             (item_text jl ops reject (item_origin (rq_items q) index ?L) item s))"
  have items: "obeys T (item p) p" for p
    by (cases p) (simp add: item_def obeys_map obeys_item_text sur)
  note steps = obeys_shared_opt [OF sur] obeys_traverse obeys_traverse_opt obeys_embedding [OF sur]
    obeys_function_tool [OF sur] obeys_json_schema [OF sur] obeys_traverse_values obeys_ingress [OF sur]
    surface_obeysD(1) [OF sur] obeys_map obeys_native_tool [OF sur] items
  have main: "obeys T (\<lambda>s. res_bind (traverse_opt (wo_apply ops (with_source ''system_or_history'' ?L) None) (rq_instructions q) s)
           (\<lambda>(s1, a). res_bind (traverse item (enumerate 0 (rq_items q)) s1)
           (\<lambda>(s2, b). res_bind (traverse_opt (embedding_text ops ?L) (rq_embedding q) s2)
           (\<lambda>(s3, c). res_bind (traverse_opt (traverse (function_tool_text ops ?L)) (rq_tools q) s3)
           (\<lambda>(s4, d). res_bind (traverse_opt (json_schema_text ops ?L) (rq_json_schema q) s4)
           (\<lambda>(s5, e). res_bind (traverse_values (ingress_text ops ?L) (rq_ingress q) s5)
           (\<lambda>(s6, f). res_bind (traverse_opt (traverse_values (\<lambda>key. wo_apply ops ?L (Some key))) (rq_metadata q) s6)
           (\<lambda>(s7, g). then_map (R a b c d e f g) (traverse (native_tool_text ops ?L) (rq_native_tools q) s7)))))))))
     (R (rq_instructions q) (enumerate 0 (rq_items q)) (rq_embedding q) (rq_tools q) (rq_json_schema q) (rq_ingress q)
       (rq_metadata q) (rq_native_tools q))"
    unfolding item_def [symmetric]
    by (rule obeys_steps) (auto intro!: steps)
  have R_q: "R (rq_instructions q) (enumerate 0 (rq_items q)) (rq_embedding q) (rq_tools q) (rq_json_schema q) (rq_ingress q)
       (rq_metadata q) (rq_native_tools q) = q"
    by (simp add: R_def)
  show "obeys T (\<lambda>s. res_bind (traverse_opt (wo_apply ops (with_source ''system_or_history'' ?L) None) (rq_instructions q) s)
           (\<lambda>(s1, instructions).
         res_bind (traverse (\<lambda>(index, item) s. then_map (Pair index)
             (item_text jl ops reject (item_origin (rq_items q) index ?L) item s)) (enumerate 0 (rq_items q)) s1)
           (\<lambda>(s2, items).
         res_bind (traverse_opt (embedding_text ops ?L) (rq_embedding q) s2) (\<lambda>(s3, embedding).
         res_bind (traverse_opt (traverse (function_tool_text ops ?L)) (rq_tools q) s3) (\<lambda>(s4, tools).
         res_bind (traverse_opt (json_schema_text ops ?L) (rq_json_schema q) s4) (\<lambda>(s5, json_schema).
         res_bind (traverse_values (ingress_text ops ?L) (rq_ingress q) s5) (\<lambda>(s6, ingress).
         res_bind (traverse_opt (traverse_values (\<lambda>key. wo_apply ops ?L (Some key))) (rq_metadata q) s6)
           (\<lambda>(s7, metadata).
         then_map (\<lambda>native.
             \<lparr>rq_instructions = instructions, rq_items = map snd items, rq_embedding = embedding,
              rq_tools = tools, rq_json_schema = json_schema, rq_ingress = ingress, rq_metadata = metadata,
              rq_native_tools = native\<rparr>)
           (traverse (native_tool_text ops ?L) (rq_native_tools q) s7))))))))) q"
    using main unfolding R_q unfolding R_def item_def .
qed

end

section \<open>What redacting and restoring report\<close>

lemma swapped_entries: "m \<in> swapped (pieces cs t p) \<Longrightarrow> \<exists>c \<in> set (cs_entries cs). cn_mapping c = m"
proof (induction cs t p rule: pieces.induct)
  case (1 cs t p)
  show ?case
  proof (cases "p < length t")
    case True
    show ?thesis
    proof (cases "piece_at cs t p = Swap m")
      case True
      then obtain c where "find_candidate cs t p = Some c" "cn_mapping c = m"
        by (auto simp: piece_at_def split: option.splits if_splits)
      then show ?thesis using find_candidate_Some(1) by blast
    next
      case False
      have "pieces cs t p = piece_at cs t p # pieces cs t (p + max 1 (length (piece_in cs (piece_at cs t p))))"
        using True by (subst pieces.simps) simp
      with 1(2) False have "m \<in> swapped (pieces cs t (p + max 1 (length (piece_in cs (piece_at cs t p)))))"
        by (simp add: swapped_def)
      with 1(1) True show ?thesis by blast
    qed
  qed (use 1(2) in \<open>simp add: pieces.simps\<close>)
qed

definition needles :: "candidates \<Rightarrow> ustr set" where
  "needles cs = (\<lambda>c. mp_reference (cn_mapping c)) ` set (cs_entries cs)"

lemma needles_build:
  "needles (build_candidates ms b incl) = mp_reference ` {m \<in> set ms. incl m \<and> mp_secret m \<noteq> []}"
  by (auto simp: needles_def build_candidates_def image_image)

lemma replacing_Inr:
  assumes "wf_candidates cs" "replacing cs t ctx location used = Inr (used', r)"
  shows "used \<subseteq> used'" "used' \<subseteq> used \<union> needles cs" "r \<noteq> None \<Longrightarrow> used' \<noteq> {}"
proof -
  obtain r1 where r1: "replace t cs used = Some (r1, used \<union> mp_reference ` swapped (pieces cs t 0))"
      "r1 = None \<longleftrightarrow> swapped (pieces cs t 0) = {}"
    using replace_pieces [OF assms(1)] by blast
  with assms(2) have eqs: "r1 = r" "used' = used \<union> mp_reference ` swapped (pieces cs t 0)"
    by (auto simp: replacing_def)
  then show "used \<subseteq> used'" "r \<noteq> None \<Longrightarrow> used' \<noteq> {}" using r1(2) by auto
  show "used' \<subseteq> used \<union> needles cs"
    unfolding eqs needles_def using swapped_entries by fastforce
qed

text \<open>
  The state of a redaction only grows, by references of the candidates; a changed text leaves a
  reference; an origin is recorded only for a fresh text and a used reference.
\<close>

definition reported :: "ustr set \<Rightarrow> ustr set \<times> placements \<Rightarrow> ustr set \<times> placements \<Rightarrow> bool \<Rightarrow> bool" where
  "reported A s s' c \<longleftrightarrow>
     fst s \<subseteq> fst s' \<and> fst s' \<subseteq> fst s \<union> A \<and> (c \<longrightarrow> fst s' \<noteq> {})
     \<and> (\<forall>r loc. loc \<in> snd s' r \<longrightarrow> loc \<in> snd s r \<or> og_fresh loc \<and> r \<in> fst s')"

interpretation redacting: accounting "reported A" for A
  by unfold_locales (unfold reported_def, blast+)

lemma placing_visits:
  assumes "wf_candidates cs"
  shows "visits (reported (needles cs)) (placing cs)"
  unfolding visits_def
proof (intro allI impI)
  fix t ctx location and s s' :: "ustr set \<times> placements" and r
  assume "placing cs t ctx location s = Inr (s', r)"
  then obtain here where here: "replacing cs t ctx location {} = Inr (here, r)"
    and s': "s' = (fst s \<union> here, if og_fresh location
        then (\<lambda>ref. if ref \<in> here then insert location (snd s ref) else snd s ref) else snd s)"
    by (cases s) (auto simp only: placing_def map_sum_Inr prod.case fst_conv snd_conv)
  from replacing_Inr [OF assms here] show "reported (needles cs) s s' (r \<noteq> None)"
    unfolding reported_def s' by (auto split: if_splits)
qed

lemma redact_request_facts:
  assumes "redact_request jl q ms incl = Inr (q', used, placed)"
  shows "(used = {} \<longrightarrow> q' = q)
    \<and> (\<forall>r \<in> used. \<exists>m \<in> set ms. mp_reference m = r \<and> incl m \<and> mp_secret m \<noteq> [] \<and> active m)
    \<and> (\<forall>r. \<forall>loc \<in> placed r. og_fresh loc \<and> r \<in> used)"
proof -
  from assms have run: "request_text jl (write_surface jl (placing (outbound ms incl))) True (origin_of ''other_text'') q ({}, \<lambda>_. {})
      = Inr ((used, placed), q')" and ok: "\<forall>m \<in> set ms. mp_reference m \<in> used \<longrightarrow> active m"
    by (auto simp: redact_request_def res_bind_Inr_iff split: if_splits)
  from redacting.obeys_request_text [OF redacting.write_surface_obeys [OF placing_visits [OF wf_outbound]]] run
  have "reported (needles (outbound ms incl)) ({}, \<lambda>_. {}) (used, placed) (q' \<noteq> q)" by (rule obeysD)
  then have r: "used \<subseteq> needles (outbound ms incl)" "q' \<noteq> q \<longrightarrow> used \<noteq> {}"
      "\<forall>r loc. loc \<in> placed r \<longrightarrow> og_fresh loc \<and> r \<in> used"
    by (simp_all add: reported_def)
  have "\<exists>m \<in> set ms. mp_reference m = x \<and> incl m \<and> mp_secret m \<noteq> []" if "x \<in> used" for x
    using r(1) that by (auto simp: outbound_def needles_build)
  with ok r(2,3) show ?thesis by blast
qed

text \<open>
  C14: A redaction reports what it did: if it reports no reference the request is unchanged, every
  reported reference belongs to an active mapping that the policy included, and origins are
  recorded only for reported references and fresh texts.
\<close>

theorem redact_request_reported:
  assumes "redact_request jl q ms incl = Inr (q', used, placed)"
  shows "(used = {} \<longrightarrow> q' = q)
    \<and> (\<forall>r \<in> used. \<exists>m \<in> set ms. mp_reference m = r \<and> incl m \<and> mp_secret m \<noteq> [] \<and> active m)
    \<and> (\<forall>r. \<forall>loc \<in> placed r. og_fresh loc \<and> r \<in> used)"
  using assms by (rule redact_request_facts)

text \<open>Restoring a response: the references of each call are among all that were restored.\<close>

type_synonym call_notes = "ustr set \<times> (ustr \<times> ustr set) list"

definition noted_within :: "call_notes \<Rightarrow> bool" where
  "noted_within s \<longleftrightarrow> (\<forall>(i, refs) \<in> set (snd s). refs \<subseteq> fst s)"

definition restored :: "ustr set \<Rightarrow> call_notes \<Rightarrow> call_notes \<Rightarrow> bool \<Rightarrow> bool" where
  "restored A s s' c \<longleftrightarrow>
     fst s \<subseteq> fst s' \<and> fst s' \<subseteq> fst s \<union> A \<and> (c \<longrightarrow> fst s' \<noteq> {}) \<and> (noted_within s \<longrightarrow> noted_within s')"

interpretation restoration: accounting "restored A" for A
  by unfold_locales (unfold restored_def, blast+)

lemma extend_entry_within:
  assumes "\<forall>(i, refs) \<in> set entries. refs \<subseteq> A" "here \<subseteq> A"
  shows "\<forall>(i, refs) \<in> set (extend_entry key here entries). refs \<subseteq> A"
proof -
  have "set (AList.update key v entries) \<subseteq> insert (key, v) (set entries)" for v
    by (induction entries) auto
  moreover have "(case map_of entries key of None \<Rightarrow> {} | Some refs \<Rightarrow> refs) \<subseteq> A"
    using assms(1) by (auto split: option.split dest!: map_of_SomeD)
  moreover from this assms(2) have "(case map_of entries key of None \<Rightarrow> {} | Some refs \<Rightarrow> refs) \<union> here \<subseteq> A"
    by (rule Un_least)
  ultimately have "set (extend_entry key here entries)
      \<subseteq> insert (key, (case map_of entries key of None \<Rightarrow> {} | Some refs \<Rightarrow> refs) \<union> here) (set entries)"
    and *: "(case map_of entries key of None \<Rightarrow> {} | Some refs \<Rightarrow> refs) \<union> here \<subseteq> A"
    by (simp_all only: extend_entry_def)
  then show ?thesis using assms(1) by (blast dest: subsetD)
qed

lemma noting_visits:
  assumes "wf_candidates cs"
  shows "visits (restored (needles cs)) (noting_calls cs)"
  unfolding visits_def
proof (intro allI impI)
  fix t ctx location and s s' :: call_notes and r
  assume "noting_calls cs t ctx location s = Inr (s', r)"
  then obtain here where here: "replacing cs t ctx location {} = Inr (here, r)"
    and s': "s' = (fst s \<union> here, case og_tool_id location of
              Some i \<Rightarrow> if og_source location = ''tool_arguments'' then extend_entry i here (snd s) else snd s
            | None \<Rightarrow> snd s)"
    by (cases s) (auto simp only: noting_calls_def map_sum_Inr prod.case fst_conv snd_conv)
  note facts = replacing_Inr [OF assms here]
  have "\<forall>(i, refs) \<in> set (snd s'). refs \<subseteq> fst s'" if "\<forall>(i, refs) \<in> set (snd s). refs \<subseteq> fst s"
  proof -
    from that have "\<forall>(i, refs) \<in> set (snd s). refs \<subseteq> fst s'" unfolding s' by fastforce
    with extend_entry_within [of "snd s" "fst s'" here] show ?thesis
      unfolding s' by (auto split: option.split)
  qed
  with facts show "restored (needles cs) s s' (r \<noteq> None)"
    unfolding restored_def noted_within_def by (auto simp: s')
qed

text \<open>
  C38: Restoring a response reports what it did: without a reported reference no item changed,
  only references of active mappings are reported, and each call's references are among them.
\<close>

theorem restore_response_reported:
  assumes "restore_response jl ms items = Inr ((used, calls), items')"
  shows "(used = {} \<longrightarrow> items' = items)
    \<and> (\<forall>r \<in> used. \<exists>m \<in> set ms. mp_reference m = r \<and> active m)
    \<and> (\<forall>(i, refs) \<in> set calls. refs \<subseteq> used)"
proof -
  let ?step = "item_text jl (write_surface jl (noting_calls (restoring ms))) False (origin_of ''other_text'')"
  have "obeys (restored (needles (restoring ms))) (?step i) i" for i :: "'a item"
    by (rule restoration.obeys_item_text [OF restoration.write_surface_obeys [OF noting_visits [OF wf_restoring]]])
  then have "obeys (restored (needles (restoring ms))) (traverse ?step items) items"
    by (rule restoration.obeys_traverse)
  from obeysD [OF this assms [unfolded restore_response_def]]
  have "used \<subseteq> needles (restoring ms)" "items' \<noteq> items \<longrightarrow> used \<noteq> {}" "\<forall>(i, refs) \<in> set calls. refs \<subseteq> used"
    by (simp_all add: restored_def noted_within_def)
  then show ?thesis by (auto simp: restoring_def needles_build)
qed

section \<open>Witnesses\<close>

text \<open>No operation of the library is needed for this request: a message that holds the secret.\<close>

definition sample_lib :: json_lib where
  "sample_lib = \<lparr>jl_to_string = \<lambda>_. None, jl_from_str = \<lambda>_. None, jl_is_json = \<lambda>_. False, jl_parse = \<lambda>_. None,
     jl_print = \<lambda>_. None, jl_result_kind = \<lambda>_. None\<rparr>"

definition message :: "role \<Rightarrow> ustr \<Rightarrow> unit item" where
  "message r t = \<lparr>it_role = r, it_content = TextContent t, it_tool_calls = None, it_tool_call_id = None,
     it_result_kind = None, it_rest = ()\<rparr>"

definition sample_prompt :: "unit ai_request" where
  "sample_prompt = \<lparr>rq_instructions = None, rq_items = [message User sample_text], rq_embedding = None, rq_tools = None,
     rq_json_schema = None, rq_ingress = [], rq_metadata = None, rq_native_tools = []\<rparr>"

lemma sample_replace:
  "replace sample_text (outbound [sample_mapping] (\<lambda>_. True)) {}
     = Some (Some (ascii ''key=<!--sr:abcdefghijklmnopqrstuvwxyzab-->!''), {mp_reference sample_mapping})"
  by code_simp

definition redacted_sample :: ustr where
  "redacted_sample = ascii ''key=<!--sr:abcdefghijklmnopqrstuvwxyzab-->!''"

lemma sample_redaction:
  "\<exists>placed. redact_request sample_lib sample_prompt [sample_mapping] (\<lambda>_. True)
     = Inr (sample_prompt\<lparr>rq_items := [message User redacted_sample]\<rparr>, {mp_reference sample_mapping}, placed)"
  using sample_active
  by (simp add: redact_request_def request_text_def sample_prompt_def message_def item_text_def item_content_text_def
      encoded_kind_def traverse_opt_def write_surface_def apply_write_def placing_def replacing_def sample_replace
      redacted_sample_def Let_def then_map_def traverse_values_def cow_def)

theorem redact_request_reported_witness:
  "\<exists>q' used placed. redact_request sample_lib sample_prompt [sample_mapping] (\<lambda>_. True) = Inr (q', used, placed)
    \<and> q' \<noteq> sample_prompt \<and> used = {mp_reference sample_mapping} \<and> active sample_mapping
    \<and> (\<forall>r. \<forall>loc \<in> placed r. og_fresh loc \<and> r \<in> used)"
proof -
  from sample_redaction obtain placed where
      run: "redact_request sample_lib sample_prompt [sample_mapping] (\<lambda>_. True)
        = Inr (sample_prompt\<lparr>rq_items := [message User redacted_sample]\<rparr>, {mp_reference sample_mapping}, placed)" ..
  moreover have "sample_prompt\<lparr>rq_items := [message User redacted_sample]\<rparr> \<noteq> sample_prompt"
    by (simp add: sample_prompt_def message_def redacted_sample_def sample_text_def ascii_def)
  ultimately show ?thesis using redact_request_reported [OF run] by auto
qed

lemma sample_restore:
  "replace redacted_sample (restoring [sample_mapping]) {} = Some (Some sample_text, {mp_reference sample_mapping})"
  by code_simp

lemma sample_restoration:
  "restore_response sample_lib [sample_mapping] [message Assistant redacted_sample]
     = Inr (({mp_reference sample_mapping}, []), [message Assistant sample_text])"
  by (simp add: restore_response_def message_def item_text_def item_content_text_def origin_of_def item_location_def
      with_source_def encoded_kind_def traverse_opt_def write_surface_def apply_write_def noting_calls_def replacing_def
      sample_restore Let_def then_map_def cow_def)

theorem restore_response_reported_witness:
  "restore_response sample_lib [sample_mapping] [message Assistant redacted_sample]
     = Inr (({mp_reference sample_mapping}, []), [message Assistant sample_text])
    \<and> active sample_mapping"
  using restore_response_reported [OF sample_restoration] sample_restoration by simp

end
