(* ===== verification/RedactionRead.thy ===== *)
theory RedactionRead
  imports RedactionAccount
begin

text \<open>
  The other expansion of \<open>readable_surface\<close> in \<open>stravia-credential-protection/src/text.rs\<close>:
  what detection and the check for references read of a request. It goes through the request
  with the traversals of \<open>RedactionSurface\<close>, reads a JSON tree as one text, and changes nothing.
\<close>

section \<open>Reading JSON\<close>

fun fold_results :: "('a \<Rightarrow> 's \<Rightarrow> redaction_error + 's) \<Rightarrow> 'a list \<Rightarrow> 's \<Rightarrow> redaction_error + 's" where
  "fold_results f [] s = Inr s"
| "fold_results f (x # xs) s = res_bind (f x s) (fold_results f xs)"

lemma fold_results_cong [fundef_cong]:
  "xs = ys \<Longrightarrow> s = t \<Longrightarrow> (\<And>x u. x \<in> set ys \<Longrightarrow> f x u = g x u) \<Longrightarrow> fold_results f xs s = fold_results g ys t"
proof (induction xs arbitrary: ys s t)
  case (Cons x xs)
  from Cons.prems have "f x s = g x s" by auto
  moreover have "fold_results f xs u = fold_results g xs u" for u using Cons.prems by (intro Cons.IH) auto
  then have "fold_results f xs = fold_results g xs" by (rule ext)
  ultimately show ?case using Cons.prems by auto
qed auto

definition append_context :: "json_lib \<Rightarrow> ustr \<Rightarrow> ustr \<Rightarrow> ustr option \<Rightarrow> redaction_error + ustr" where
  "append_context jl out t context =
     res_bind (case context of
         None \<Rightarrow> Inr out
       | Some key \<Rightarrow> res_bind (json_text jl key) (\<lambda>k. Inr (out @ k @ ascii '' = '')))
       (\<lambda>out'. Inr (out' @ t @ [10]))"

fun decoded_json :: "json_lib \<Rightarrow> ustr option \<Rightarrow> json \<Rightarrow> ustr \<Rightarrow> redaction_error + ustr" where
  "decoded_json jl context (JString t) out = append_context jl out t context"
| "decoded_json jl context (JArray vs) out = fold_results (decoded_json jl context) vs out"
| "decoded_json jl context (JObject kvs) out = fold_results (\<lambda>(k, v). decoded_json jl (Some k) v) kvs out"
| "decoded_json jl context value out = Inr out"

text \<open>A reader ignores the text that a visitor may return.\<close>

definition apply_read :: "'s visitor \<Rightarrow> origin \<Rightarrow> ustr option \<Rightarrow> ('s, ustr) rewriting" where
  "apply_read visit location context t s = then_map (\<lambda>_. t) (visit t context location s)"

definition read_json_values :: "json_lib \<Rightarrow> 's visitor \<Rightarrow> origin \<Rightarrow> ustr option \<Rightarrow> ('s, json) rewriting" where
  "read_json_values jl visit location context value s =
     (case value of
        JString t \<Rightarrow> then_map (\<lambda>_. value) (visit t context location s)
      | _ \<Rightarrow> res_bind (decoded_json jl context value []) (\<lambda>readable.
          if readable = [] then Inr (s, value) else then_map (\<lambda>_. value) (visit readable None location s)))"

text \<open>Malformed arguments: the decoded tokens and the rest, in one text.\<close>

fun read_tokens :: "ustr \<Rightarrow> (nat \<times> nat \<times> ustr option) list \<Rightarrow> nat \<times> ustr \<Rightarrow> redaction_error + (nat \<times> ustr)" where
  "read_tokens arguments [] st = Inr st"
| "read_tokens arguments ((start, stop, decoded) # tokens) (last_end, readable) =
     (case decoded of
        None \<Rightarrow> Inl InvalidText
      | Some t \<Rightarrow> read_tokens arguments tokens
          (stop, readable @ take (start - last_end) (drop last_end arguments) @ t))"

definition read_malformed :: "json_lib \<Rightarrow> ustr \<Rightarrow> redaction_error + ustr" where
  "read_malformed jl arguments =
     (let (tokens, unterminated_from) = closed_string_tokens jl arguments 0
      in res_bind (read_tokens arguments tokens (0, [])) (\<lambda>(last_end, readable).
         case unterminated_from of
           Some open_at \<Rightarrow>
             res_bind (decode_unterminated jl (drop (open_at + 1) arguments)) (\<lambda>decoded.
             Inr (readable @ take (open_at - last_end) (drop last_end arguments) @ decoded))
         | None \<Rightarrow> Inr (readable @ drop last_end arguments)))"

definition read_arguments :: "json_lib \<Rightarrow> 's visitor \<Rightarrow> origin \<Rightarrow> ('s, ustr) rewriting" where
  "read_arguments jl visit location arguments s =
     (if arguments = [] then Inr (s, arguments)
      else case jl_parse jl arguments of
        None \<Rightarrow> res_bind (read_malformed jl arguments) (\<lambda>readable.
          then_map (\<lambda>_. arguments) (visit readable None location s))
      | Some value \<Rightarrow> then_map (\<lambda>_. arguments) (read_json_values jl visit location None value s))"

definition read_wire :: "json_lib \<Rightarrow> 's visitor \<Rightarrow> 's wire_ops" where
  "read_wire jl visit =
     \<lparr>wo_json = read_json_values jl visit,
      wo_arguments = (\<lambda>location. read_arguments jl visit (with_source ''tool_arguments'' location)),
      wo_apply = apply_read visit\<rparr>"

text \<open>A tool result is read as one text, collected by a visitor of its own.\<close>

definition reading :: "json_lib \<Rightarrow> ustr visitor" where
  "reading jl t context location out = map_sum id (\<lambda>out'. (out', None)) (append_context jl out t context)"

definition read_tool_result ::
    "json_lib \<Rightarrow> 's visitor \<Rightarrow> content_kind option \<Rightarrow> bool \<Rightarrow> origin \<Rightarrow> ('s, json) rewriting" where
  "read_tool_result jl visit kind reject_ambiguous location value s =
     res_bind (result_kind jl value kind reject_ambiguous) (\<lambda>k.
     res_bind (case k of
         Some JsonResult \<Rightarrow> read_json_values jl (reading jl) location None value []
       | Some ContentBlocksResult \<Rightarrow> wire_text (read_wire jl (reading jl)) (origin_of ''tool_result'') value []
       | None \<Rightarrow> Inr ([], value))
       (\<lambda>(readable, _).
     if readable = [] then Inr (s, value) else then_map (\<lambda>_. value) (visit readable None location s)))"

definition read_encoded_tool_result ::
    "json_lib \<Rightarrow> 's visitor \<Rightarrow> content_kind \<Rightarrow> origin \<Rightarrow> ('s, ustr) rewriting" where
  "read_encoded_tool_result jl visit kind location t s =
     res_bind (ok_or InvalidText (jl_parse jl t)) (\<lambda>value.
     then_map (\<lambda>_. t) (read_tool_result jl visit (Some kind) True location value s))"

definition read_surface :: "json_lib \<Rightarrow> 's visitor \<Rightarrow> 's surface_ops" where
  "read_surface jl visit =
     \<lparr>wo_json = read_json_values jl visit,
      wo_arguments = (\<lambda>location. read_arguments jl visit (with_source ''tool_arguments'' location)),
      wo_apply = apply_read visit,
      so_tool_result = (\<lambda>kind reject location.
        read_tool_result jl visit kind reject (with_source ''tool_result'' location)),
      so_encoded = (\<lambda>kind location.
        read_encoded_tool_result jl visit kind (with_source ''tool_result'' location))\<rparr>"

section \<open>The texts of a request\<close>

definition collecting :: "json_lib \<Rightarrow> (ustr list \<times> origin list) visitor" where
  "collecting jl t context location st =
     res_bind (case context of None \<Rightarrow> Inr t | Some key \<Rightarrow> append_context jl [] t (Some key))
       (\<lambda>readable. Inr ((fst st @ [readable], snd st @ [location]), None))"

definition collect_texts ::
    "json_lib \<Rightarrow> 'o ai_request \<Rightarrow> bool \<Rightarrow> redaction_error + ((ustr list \<times> origin list) \<times> 'o ai_request)" where
  "collect_texts jl value reject_ambiguous =
     request_text jl (read_surface jl (collecting jl)) reject_ambiguous (origin_of ''other_text'') value ([], [])"

definition request_text_origins ::
    "json_lib \<Rightarrow> 'o ai_request \<Rightarrow> bool \<Rightarrow> redaction_error + (ustr list \<times> origin list)" where
  "request_text_origins jl value reject_ambiguous = map_sum id fst (collect_texts jl value reject_ambiguous)"

definition request_texts :: "json_lib \<Rightarrow> 'o ai_request \<Rightarrow> bool \<Rightarrow> redaction_error + ustr list" where
  "request_texts jl value reject_ambiguous = map_sum id (fst \<circ> fst) (collect_texts jl value reject_ambiguous)"

section \<open>Reading changes nothing\<close>

context accounting
begin

definition looks :: "'s visitor \<Rightarrow> bool" where
  "looks visit \<longleftrightarrow> (\<forall>t context location s s' r. visit t context location s = Inr (s', r) \<longrightarrow> T s s' False)"

lemma looksD: "looks visit \<Longrightarrow> visit t ctx location s = Inr (s', r) \<Longrightarrow> T s s' False"
  unfolding looks_def by blast

lemma looks_obeys: "looks visit \<Longrightarrow> obeys T (\<lambda>s. then_map (\<lambda>_. x) (visit t ctx location s)) x"
  by (auto simp: obeys_def then_map_Inr dest: looksD)

lemma read_json_values_obeys:
  assumes "looks visit"
  shows "obeys T (read_json_values jl visit location ctx v) v"
proof (cases "\<exists>t. v = JString t")
  case True
  then obtain t where v: "v = JString t" by blast
  have "obeys T (\<lambda>s. then_map (\<lambda>_. v) (visit t ctx location s)) v" by (rule looks_obeys [OF assms])
  then show ?thesis by (rule obeys_cong [rotated]) (simp add: read_json_values_def v)
next
  case False
  have "obeys T (\<lambda>s. res_bind (decoded_json jl ctx v []) (\<lambda>readable.
      if readable = [] then Inr (s, v) else then_map (\<lambda>_. v) (visit readable None location s))) v"
    by (cases "decoded_json jl ctx v []") (auto intro!: obeys_if obeys_fail obeys_keep looks_obeys [OF assms])
  then show ?thesis by (rule obeys_cong [rotated]) (use False in \<open>auto simp: read_json_values_def split: json.split\<close>)
qed

lemma read_arguments_obeys:
  assumes "looks visit"
  shows "obeys T (read_arguments jl visit location arguments) arguments"
proof (rule obeys_cong [OF read_arguments_def], rule obeys_if)
  show "obeys T (\<lambda>s. case jl_parse jl arguments of
        None \<Rightarrow> res_bind (read_malformed jl arguments) (\<lambda>readable.
          then_map (\<lambda>_. arguments) (visit readable None location s))
      | Some value \<Rightarrow> then_map (\<lambda>_. arguments) (read_json_values jl visit location None value s)) arguments"
  proof (cases "jl_parse jl arguments")
    case None
    then show ?thesis
      by (cases "read_malformed jl arguments") (auto intro: obeys_fail looks_obeys [OF assms])
  next
    case (Some v)
    with obeys_map [OF read_json_values_obeys [OF assms]] show ?thesis by simp
  qed
qed (rule obeys_keep)

lemma read_tool_result_obeys:
  assumes "looks visit"
  shows "obeys T (read_tool_result jl visit kind reject location v) v"
proof (rule obeys_cong [OF read_tool_result_def])
  have last: "obeys T (\<lambda>s. case x of (readable, _) \<Rightarrow>
      if readable = [] then Inr (s, v) else then_map (\<lambda>_. v) (visit readable None location s)) v"
    for x :: "ustr \<times> json"
    by (cases x) (auto intro!: obeys_if obeys_keep looks_obeys [OF assms])
  have "obeys T (\<lambda>s. res_bind r (\<lambda>(readable, _).
      if readable = [] then Inr (s, v) else then_map (\<lambda>_. v) (visit readable None location s))) v"
    for r :: "redaction_error + ustr \<times> json"
    using last by (cases r) (auto intro: obeys_fail)
  then show "obeys T (\<lambda>s. res_bind (result_kind jl v kind reject) (\<lambda>k.
     res_bind (case k of
         Some JsonResult \<Rightarrow> read_json_values jl (reading jl) location None v []
       | Some ContentBlocksResult \<Rightarrow> wire_text (read_wire jl (reading jl)) (origin_of ''tool_result'') v []
       | None \<Rightarrow> Inr ([], v))
       (\<lambda>(readable, _).
     if readable = [] then Inr (s, v) else then_map (\<lambda>_. v) (visit readable None location s)))) v"
    by (cases "result_kind jl v kind reject") (auto intro: obeys_fail)
qed

lemma read_encoded_obeys:
  assumes "looks visit"
  shows "obeys T (read_encoded_tool_result jl visit kind location t) t"
proof (rule obeys_cong [OF read_encoded_tool_result_def])
  show "obeys T (\<lambda>s. res_bind (ok_or InvalidText (jl_parse jl t)) (\<lambda>value.
     then_map (\<lambda>_. t) (read_tool_result jl visit (Some kind) True location value s))) t"
    by (cases "ok_or InvalidText (jl_parse jl t)")
      (auto intro: obeys_fail obeys_map [OF read_tool_result_obeys [OF assms], where f = "\<lambda>_. t"])
qed

lemma read_surface_obeys: "looks visit \<Longrightarrow> surface_obeys (read_surface jl visit)"
  by (simp add: surface_obeys_def ops_obey_def read_surface_def wire_ops.defs read_json_values_obeys
      read_arguments_obeys read_tool_result_obeys read_encoded_obeys looks_obeys apply_read_def [abs_def])

end

text \<open>Reading a request: nothing changes, and every text comes with its origin.\<close>

definition paired :: "'a list \<times> 'b list \<Rightarrow> 'a list \<times> 'b list \<Rightarrow> bool \<Rightarrow> bool" where
  "paired s s' c \<longleftrightarrow> \<not> c \<and> (length (fst s) = length (snd s) \<longrightarrow> length (fst s') = length (snd s'))"

interpretation pairing: accounting "paired :: ustr list \<times> origin list \<Rightarrow> _"
  by unfold_locales (auto simp: paired_def)

lemma collecting_looks: "pairing.looks (collecting jl)"
  by (auto simp: pairing.looks_def collecting_def paired_def res_bind_Inr_iff)

lemma collect_texts_paired:
  assumes "collect_texts jl q reject = Inr ((texts, origins), q')"
  shows "q' = q" "length texts = length origins"
  using obeysD [OF pairing.obeys_request_text [OF pairing.read_surface_obeys [OF collecting_looks]]
      assms [unfolded collect_texts_def]]
  by (simp_all add: paired_def)

end
