(* ===== verification/RedactionRestorer.thy ===== *)
theory RedactionRestorer
  imports RedactionSurface "HOL-Library.Option_ord"
begin

text \<open>
  \<open>StreamRestorer\<close> of \<open>stravia-credential-protection/src/stream.rs\<close>: the deltas of a response
  belong to fields, each field has a scanner of its own, and what a scanner holds back is
  emitted when the field ends. The specification cuts the text of each field into runs and
  restores every run at once.
\<close>

section \<open>Deltas and fields\<close>

text \<open>
  \<open>StreamDelta\<close> (\<open>stravia-runtime-contract/src/protocol/ir/stream.rs\<close>); the type variable stands
  for payloads that pass through.
\<close>

datatype 'o stream_delta =
    MessageStart ustr ustr
  | ResponseMetadata 'o
  | ProtectedThinkingStart nat
  | TextDelta ustr
  | TextDeltaWithMetadata ustr "'o list" "ustr option" "nat option" "nat option"
  | RefusalDelta ustr
  | RefusalDeltaWithIndex ustr nat nat
  | ThinkingDelta ustr
  | ThinkingDeltaWithMetadata ustr "ustr option" "nat option" "nat option"
  | ReasoningSummaryDelta ustr "ustr option" "nat option" "nat option"
  | ThinkingSignature ustr
  | ToolCallStart nat ustr ustr
  | ToolCallDelta nat ustr
  | ToolCallComplete nat "'o tool_call"
  | ItemDone nat "'o item"
  | UsageDelta 'o
  | ResponseTerminal ustr "'o option"
  | DoneDelta ustr
  | StreamError 'o
  | UnexpectedEof
  | UnknownDelta ustr

text \<open>\<open>Field\<close>: kind, output index and content index, in the derived order.\<close>

type_synonym stream_field = "nat \<times> nat option \<times> nat option"

definition field_output :: "stream_field \<Rightarrow> nat option" where
  "field_output k = fst (snd k)"

definition unindexed_field :: "stream_field \<Rightarrow> bool" where
  "unindexed_field k \<longleftrightarrow> fst k \<noteq> 5 \<and> field_output k = None"

definition tool_field :: "nat \<Rightarrow> stream_field \<Rightarrow> bool" where
  "tool_field index k \<longleftrightarrow> fst k = 5 \<and> field_output k = Some index"

fun delta_field :: "'o stream_delta \<Rightarrow> stream_field option" where
  "delta_field (TextDelta t) = Some (0, None, None)"
| "delta_field (TextDeltaWithMetadata t lp ob out con) = Some (0, out, con)"
| "delta_field (RefusalDelta t) = Some (1, None, None)"
| "delta_field (RefusalDeltaWithIndex t out con) = Some (1, Some out, Some con)"
| "delta_field (ThinkingDelta t) = Some (2, None, None)"
| "delta_field (ThinkingDeltaWithMetadata t ob out con) = Some (3, out, con)"
| "delta_field (ReasoningSummaryDelta t ob out con) = Some (4, out, con)"
| "delta_field (ToolCallDelta index t) = Some (5, Some index, None)"
| "delta_field _ = None"

fun delta_text :: "'o stream_delta \<Rightarrow> ustr option" where
  "delta_text (TextDelta t) = Some t"
| "delta_text (RefusalDelta t) = Some t"
| "delta_text (ThinkingDelta t) = Some t"
| "delta_text (TextDeltaWithMetadata t lp ob out con) = Some t"
| "delta_text (RefusalDeltaWithIndex t out con) = Some t"
| "delta_text (ThinkingDeltaWithMetadata t ob out con) = Some t"
| "delta_text (ReasoningSummaryDelta t ob out con) = Some t"
| "delta_text (ToolCallDelta index t) = Some t"
| "delta_text _ = None"

text \<open>Writing through the borrow that \<open>delta_text\<close> returns.\<close>

fun set_delta_text :: "ustr \<Rightarrow> 'o stream_delta \<Rightarrow> 'o stream_delta" where
  "set_delta_text t (TextDelta _) = TextDelta t"
| "set_delta_text t (RefusalDelta _) = RefusalDelta t"
| "set_delta_text t (ThinkingDelta _) = ThinkingDelta t"
| "set_delta_text t (TextDeltaWithMetadata _ lp ob out con) = TextDeltaWithMetadata t lp ob out con"
| "set_delta_text t (RefusalDeltaWithIndex _ out con) = RefusalDeltaWithIndex t out con"
| "set_delta_text t (ThinkingDeltaWithMetadata _ ob out con) = ThinkingDeltaWithMetadata t ob out con"
| "set_delta_text t (ReasoningSummaryDelta _ ob out con) = ReasoningSummaryDelta t ob out con"
| "set_delta_text t (ToolCallDelta index _) = ToolCallDelta index t"
| "set_delta_text t d = d"

fun empty_template :: "'o stream_delta \<Rightarrow> 'o stream_delta" where
  "empty_template (TextDelta t) = TextDelta []"
| "empty_template (RefusalDelta t) = RefusalDelta []"
| "empty_template (ThinkingDelta t) = ThinkingDelta []"
| "empty_template (TextDeltaWithMetadata t lp ob out con) = TextDeltaWithMetadata [] [] None out con"
| "empty_template (RefusalDeltaWithIndex t out con) = RefusalDeltaWithIndex [] out con"
| "empty_template (ThinkingDeltaWithMetadata t ob out con) = ThinkingDeltaWithMetadata [] None out con"
| "empty_template (ReasoningSummaryDelta t ob out con) = ReasoningSummaryDelta [] None out con"
| "empty_template (ToolCallDelta index t) = ToolCallDelta index []"
| "empty_template d = d"

section \<open>The restorer\<close>

record 'o pending_field =
  pf_plain :: scanner
  pf_json :: json_scanner
  pf_template :: "'o stream_delta"

definition pending_finish :: "'o pending_field \<Rightarrow> 'o stream_delta option" where
  "pending_finish p =
     (let out = (case pf_template p of
                   ToolCallDelta _ _ \<Rightarrow> snd (json_finish (pf_json p))
                 | _ \<Rightarrow> sc_spelling (pf_plain p))
      in if out = [] then None else Some (set_delta_text out (pf_template p)))"

text \<open>\<open>rs_fields\<close> is a \<open>BTreeMap\<close>: its entries in the order of the keys.\<close>

record 'o restorer =
  rs_fields :: "(stream_field \<times> 'o pending_field) list"
  rs_unindexed :: "stream_field option"
  rs_used :: "ustr set"
  rs_tool_ids :: "nat \<Rightarrow> ustr option"

definition restorer_new :: "'o restorer" where
  "restorer_new = \<lparr>rs_fields = [], rs_unindexed = None, rs_used = {}, rs_tool_ids = \<lambda>_. None\<rparr>"

definition take_restored_references :: "'o restorer \<Rightarrow> 'o restorer \<times> ustr set" where
  "take_restored_references st = (st\<lparr>rs_used := {}\<rparr>, rs_used st)"

definition tree_insert :: "stream_field \<Rightarrow> 'v \<Rightarrow> (stream_field \<times> 'v) list \<Rightarrow> (stream_field \<times> 'v) list" where
  "tree_insert k v kvs = insort_key fst (k, v) (filter (\<lambda>kv. fst kv \<noteq> k) kvs)"

definition flush_where :: "(stream_field \<Rightarrow> bool) \<Rightarrow> 'o restorer \<Rightarrow> 'o restorer \<times> 'o stream_delta list" where
  "flush_where P st =
     (let keys = filter P (map fst (rs_fields st))
      in (st\<lparr>rs_fields := filter (\<lambda>kv. \<not> P (fst kv)) (rs_fields st),
             rs_unindexed := (case rs_unindexed st of
                None \<Rightarrow> None | Some k \<Rightarrow> if k \<in> set keys then None else Some k)\<rparr>,
          List.map_filter (\<lambda>kv. pending_finish (snd kv)) (filter (\<lambda>kv. P (fst kv)) (rs_fields st))))"

text \<open>\<open>StreamRestorer::push\<close>, first for the deltas that carry text.\<close>

definition push_readable ::
    "json_lib \<Rightarrow> mapping list \<Rightarrow> stream_field \<Rightarrow> 'o stream_delta \<Rightarrow> 'o restorer
      \<Rightarrow> redaction_error + ('o restorer \<times> 'o stream_delta list)" where
  "push_readable jl mappings key delta st =
     (let (st1, out) = (case rs_unindexed st of
             Some previous \<Rightarrow> if previous \<noteq> key then flush_where (\<lambda>f. f = previous) st else (st, [])
           | None \<Rightarrow> (st, []));
          st2 = (if unindexed_field key then st1\<lparr>rs_unindexed := Some key\<rparr> else st1);
          pending = (case map_of (rs_fields st2) key of
             Some p \<Rightarrow> p
           | None \<Rightarrow> \<lparr>pf_plain = scanner_default, pf_json = json_default, pf_template = empty_template delta\<rparr>);
          input = the (delta_text delta)
      in map_sum id (\<lambda>(pending', used', text').
           (st2\<lparr>rs_fields := tree_insert key pending' (rs_fields st2), rs_used := used'\<rparr>,
            out @ [set_delta_text text' delta]))
         (if fst key = 5
          then map_sum id (\<lambda>(j, u, r). (pending\<lparr>pf_json := j\<rparr>, u, cow input r))
            (json_push (json_strings.truncate jl) mappings input (pf_json pending, rs_used st2))
          else map_sum id (\<lambda>(s, u, t). (pending\<lparr>pf_plain := s\<rparr>, u, t))
            (scanner_text (json_strings.truncate jl) mappings input (pf_plain pending, rs_used st2))))"

definition item_call_ids :: "'o item \<Rightarrow> ustr set" where
  "item_call_ids item = (case it_tool_calls item of None \<Rightarrow> {} | Some calls \<Rightarrow> cl_id ` set calls)"

definition tool_indices :: "(nat \<Rightarrow> ustr option) \<Rightarrow> 'o item \<Rightarrow> nat \<Rightarrow> bool" where
  "tool_indices ids item index = (case ids index of None \<Rightarrow> False | Some i \<Rightarrow> i \<in> item_call_ids item)"

text \<open>Then the others; a flush before the delta, or after an unknown event was restored.\<close>

definition push_structural ::
    "json_lib \<Rightarrow> mapping list \<Rightarrow> 'o stream_delta \<Rightarrow> 'o restorer
      \<Rightarrow> redaction_error + ('o restorer \<times> 'o stream_delta list)" where
  "push_structural jl mappings delta st =
     (case delta of
        ToolCallStart index i name \<Rightarrow>
          (let (st1, out1) = flush_where unindexed_field st;
               (st2, out2) = (if (case rs_tool_ids st1 index of None \<Rightarrow> False | Some previous \<Rightarrow> i \<noteq> [] \<and> previous \<noteq> i)
                  then flush_where (tool_field index) st1 else (st1, []))
           in Inr (if i \<noteq> [] then st2\<lparr>rs_tool_ids := (rs_tool_ids st2)(index \<mapsto> i)\<rparr> else st2, out1 @ out2 @ [delta]))
      | ToolCallComplete index c \<Rightarrow>
          (let (st1, out) = flush_where (tool_field index) st
           in map_sum id (\<lambda>(used, arguments).
                (st1\<lparr>rs_used := used, rs_tool_ids := (rs_tool_ids st1)(index := None)\<rparr>,
                 out @ [ToolCallComplete index (c\<lparr>cl_arguments := arguments\<rparr>)]))
              (restore_arguments jl mappings (cl_arguments c) (rs_used st1)))
      | ItemDone index item \<Rightarrow>
          (let indices = tool_indices (rs_tool_ids st) item;
               (st1, out) = flush_where (\<lambda>k. unindexed_field k \<or> fst k \<noteq> 5 \<and> field_output k = Some index
                  \<or> fst k = 5 \<and> (case field_output k of None \<Rightarrow> False | Some n \<Rightarrow> indices n)) st
           in map_sum id (\<lambda>(used, item').
                (st1\<lparr>rs_used := used, rs_tool_ids := (\<lambda>n. if indices n then None else rs_tool_ids st1 n)\<rparr>,
                 out @ [ItemDone index item']))
              (restore_item jl mappings item (rs_used st1)))
      | UnknownDelta raw \<Rightarrow>
          map_sum id (\<lambda>(used, raw', new_item).
            let (st1, out) = (if new_item then flush_where unindexed_field (st\<lparr>rs_used := used\<rparr>)
                              else (st\<lparr>rs_used := used\<rparr>, []))
            in (st1, out @ [UnknownDelta raw']))
          (restore_unknown jl mappings raw (rs_used st))
      | ThinkingSignature _ \<Rightarrow>
          (let (st1, out) = flush_where unindexed_field st in Inr (st1, out @ [delta]))
      | ProtectedThinkingStart _ \<Rightarrow>
          (let (st1, out) = flush_where unindexed_field st in Inr (st1, out @ [delta]))
      | _ \<Rightarrow>
          if (case delta of DoneDelta _ \<Rightarrow> True | ResponseTerminal _ _ \<Rightarrow> True | StreamError _ \<Rightarrow> True
                | UnexpectedEof \<Rightarrow> True | MessageStart _ _ \<Rightarrow> True | _ \<Rightarrow> False)
          then (let (st1, out) = flush_where (\<lambda>_. True) st
                in Inr (st1\<lparr>rs_tool_ids := \<lambda>_. None\<rparr>, out @ [delta]))
          else Inr (st, [delta]))"

definition restorer_push ::
    "json_lib \<Rightarrow> mapping list \<Rightarrow> 'o stream_delta \<Rightarrow> 'o restorer
      \<Rightarrow> redaction_error + ('o restorer \<times> 'o stream_delta list)" where
  "restorer_push jl mappings delta st =
     (case delta_field delta of
        Some key \<Rightarrow> push_readable jl mappings key delta st
      | None \<Rightarrow> push_structural jl mappings delta st)"

definition restorer_finish :: "'o restorer \<Rightarrow> 'o restorer \<times> 'o stream_delta list" where
  "restorer_finish st =
     (let (st1, out) = flush_where (\<lambda>_. True) st in (st1\<lparr>rs_tool_ids := \<lambda>_. None\<rparr>, out))"

text \<open>The deltas of a response, one after the other, and the end.\<close>

fun restorer_run ::
    "json_lib \<Rightarrow> mapping list \<Rightarrow> 'o stream_delta list \<Rightarrow> 'o restorer
      \<Rightarrow> redaction_error + ('o restorer \<times> 'o stream_delta list)" where
  "restorer_run jl mappings [] st = Inr (restorer_finish st)"
| "restorer_run jl mappings (delta # deltas) st =
     res_bind (restorer_push jl mappings delta st) (\<lambda>(st1, out1).
     res_bind (restorer_run jl mappings deltas st1) (\<lambda>(st2, out2). Inr (st2, out1 @ out2)))"

section \<open>References used do not influence the text\<close>

definition add_used :: "ustr set \<Rightarrow> redaction_error + ('s \<times> ustr set \<times> 'o) \<Rightarrow> redaction_error + ('s \<times> ustr set \<times> 'o)" where
  "add_used u r = map_sum id (\<lambda>(s, used, out). (s, u \<union> used, out)) r"

lemma add_used_simps [simp]:
  "add_used u (Inl e) = Inl e" "add_used u (Inr (s, used, out)) = Inr (s, u \<union> used, out)"
  by (simp_all add: add_used_def)

lemma scanner_push_used:
  "scanner_push jl ms ch raw json (s, used, out) = add_used used (scanner_push jl ms ch raw json (s, {}, out))"
proof (cases "ch < 0x80 \<and> matches_byte (length (sc_pending s)) ch")
  case match: True
  let ?s1 = "s\<lparr>sc_pending := sc_pending s @ [ch], sc_spelling := sc_spelling s @ raw\<rparr>"
  let ?m = "find (\<lambda>m. mp_reference m = sc_pending ?s1 \<and> active m) ms"
  show ?thesis
  proof (cases "length (sc_pending ?s1) = reference_len")
    case False
    with match show ?thesis by (simp add: scanner_push_def Let_def)
  next
    case full: True
    show ?thesis
    proof (cases ?m)
      case None
      with match full show ?thesis by (simp add: scanner_push_def Let_def split: prod.split)
    next
      case (Some m)
      let ?r = "if json then map_err (\<lambda>_. InvalidText) (case jl_to_string jl (mp_secret m) of
          None \<Rightarrow> Inl () | Some escaped \<Rightarrow> Inr (butlast (tl escaped))) else Inr (mp_secret m) :: redaction_error + ustr"
      have "scanner_push jl ms ch raw json (s, u, out)
          = res_bind ?r (\<lambda>shown. Inr (scanner_default, insert (mp_reference m) u, push_str shown out))" for u
        using match full Some by (simp add: scanner_push_def Let_def)
      then show ?thesis by (cases ?r) simp_all
    qed
  qed
next
  case False
  then show ?thesis by (simp add: scanner_push_def Let_def split: prod.split) auto
qed

lemma add_used_bind:
  assumes "m u = add_used u (m {})" "\<And>s v out. k (s, v, out) = add_used v (k (s, {}, out))"
  shows "res_bind (m u) k = add_used u (res_bind (m {}) k)"
proof (cases "m {}")
  case (Inr x)
  obtain s v out where x: "x = (s, v, out)" by (cases x) auto
  have "k (s, u \<union> v, out) = add_used u (k (s, v, out))"
    by (subst (1 2) assms(2)) (cases "k (s, {}, out)", auto simp: Un_assoc)
  with assms(1) Inr x show ?thesis by simp
qed (simp add: assms(1))

lemma json_decoded_used:
  "json_decoded jl ms d raw (j, used, out) = add_used used (json_decoded jl ms d raw (j, {}, out))"
  using scanner_push_used [of jl ms d raw True "js_references j" used out]
  by (cases "scanner_push jl ms d raw True (js_references j, {}, out)") (auto simp: json_decoded_def)

lemma json_char_used:
  "json_char jl ms ch (j, used, out) = add_used used (json_char jl ms ch (j, {}, out))"
proof -
  consider (outside) "\<not> js_inside j" | (escape) "js_inside j" "js_escape j \<noteq> []" "ch < 0x80"
    | (bad) "js_inside j" "js_escape j \<noteq> []" "\<not> ch < 0x80"
    | (inside) "js_inside j" "js_escape j = []" by blast
  then show ?thesis
  proof cases
    case outside
    then show ?thesis by (cases "json_outside ch j") (simp_all add: json_char_def)
  next
    case escape
    let ?e = "js_escape j @ [ch]"
    show ?thesis
    proof (cases "escape_decoded jl ?e")
      case (Inr d)
      show ?thesis
      proof (cases d)
        case None
        with escape Inr show ?thesis by (simp add: json_char_def Let_def)
      next
        case (Some c)
        let ?j = "j\<lparr>js_escape := ?e\<rparr>"
        have "json_char jl ms ch (j, u, out) = res_bind (json_decoded jl ms c ?e (?j, u, out))
            (\<lambda>(j2, used2, out2). Inr (j2\<lparr>js_escape := []\<rparr>, used2, out2))" for u
          using escape Inr Some by (simp add: json_char_def Let_def)
        then show ?thesis using json_decoded_used [of jl ms c ?e ?j used out]
          by (cases "json_decoded jl ms c ?e (?j, {}, out)") auto
      qed
    qed (use escape in \<open>simp add: json_char_def Let_def\<close>)
  next
    case bad
    then show ?thesis by (simp add: json_char_def)
  next
    case inside
    with json_decoded_used [of jl ms ch "[ch]" j used out] show ?thesis
      by (simp add: json_char_def split: prod.split)
  qed
qed

lemma json_chars_used:
  "json_chars jl ms input (j, used, out) = add_used used (json_chars jl ms input (j, {}, out))"
proof (induction input arbitrary: j used out)
  case (Cons ch input)
  show ?case unfolding json_chars.simps
    by (rule add_used_bind [where m = "\<lambda>u. json_char jl ms ch (j, u, out)"]) (rule json_char_used, rule Cons.IH)
qed simp

section \<open>The specification\<close>

text \<open>
  A run is the text of a field between two ends of the field. \<open>ch_open\<close> is the text of the run
  that has begun, \<open>ch_runs\<close> are the runs that have ended.
\<close>

record channels =
  ch_open :: "stream_field \<Rightarrow> ustr option"
  ch_runs :: "stream_field \<Rightarrow> ustr list"
  ch_unindexed :: "stream_field option"
  ch_tool_ids :: "nat \<Rightarrow> ustr option"

definition channels_new :: channels where
  "channels_new = \<lparr>ch_open = \<lambda>_. None, ch_runs = \<lambda>_. [], ch_unindexed = None, ch_tool_ids = \<lambda>_. None\<rparr>"

definition close :: "(stream_field \<Rightarrow> bool) \<Rightarrow> channels \<Rightarrow> channels" where
  "close P ch = ch\<lparr>
     ch_open := (\<lambda>k. if P k then None else ch_open ch k),
     ch_runs := (\<lambda>k. ch_runs ch k @ (if P k then case ch_open ch k of None \<Rightarrow> [] | Some raw \<Rightarrow> [raw] else [])),
     ch_unindexed := (case ch_unindexed ch of None \<Rightarrow> None | Some k \<Rightarrow> if P k then None else Some k)\<rparr>"

text \<open>Whether an unknown event begins a new item.\<close>

definition starts_item :: "json_lib \<Rightarrow> ustr \<Rightarrow> bool" where
  "starts_item jl raw =
     (case jl_parse jl raw of
        None \<Rightarrow> False
      | Some v \<Rightarrow> json_get (ascii ''__open_responses_event'') v = None
          \<and> \<not> (case json_get (ascii ''__google_response_metadata'') v of Some (JObject _) \<Rightarrow> True | _ \<Rightarrow> False))"

text \<open>Which fields end at a delta.\<close>

fun ends :: "json_lib \<Rightarrow> channels \<Rightarrow> 'o stream_delta \<Rightarrow> stream_field \<Rightarrow> bool" where
  "ends jl ch (ToolCallStart index i name) k =
     (unindexed_field k \<or> tool_field index k
        \<and> (case ch_tool_ids ch index of None \<Rightarrow> False | Some previous \<Rightarrow> i \<noteq> [] \<and> previous \<noteq> i))"
| "ends jl ch (ToolCallComplete index c) k = tool_field index k"
| "ends jl ch (ItemDone index item) k =
     (unindexed_field k \<or> fst k \<noteq> 5 \<and> field_output k = Some index
        \<or> fst k = 5 \<and> (case field_output k of None \<Rightarrow> False | Some n \<Rightarrow> tool_indices (ch_tool_ids ch) item n))"
| "ends jl ch (UnknownDelta raw) k = (starts_item jl raw \<and> unindexed_field k)"
| "ends jl ch (ThinkingSignature t) k = unindexed_field k"
| "ends jl ch (ProtectedThinkingStart n) k = unindexed_field k"
| "ends jl ch (DoneDelta r) k = True"
| "ends jl ch (ResponseTerminal a b) k = True"
| "ends jl ch (StreamError e) k = True"
| "ends jl ch UnexpectedEof k = True"
| "ends jl ch (MessageStart a b) k = True"
| "ends jl ch d k = (delta_field d \<noteq> None \<and> delta_field d \<noteq> Some k \<and> ch_unindexed ch = Some k)"

text \<open>The identifiers of the calls that are running.\<close>

fun tool_ids_after :: "'o stream_delta \<Rightarrow> (nat \<Rightarrow> ustr option) \<Rightarrow> nat \<Rightarrow> ustr option" where
  "tool_ids_after (ToolCallStart index i name) ids = (if i = [] then ids else ids(index \<mapsto> i))"
| "tool_ids_after (ToolCallComplete index c) ids = ids(index := None)"
| "tool_ids_after (ItemDone index item) ids = (\<lambda>n. if tool_indices ids item n then None else ids n)"
| "tool_ids_after (DoneDelta r) ids = (\<lambda>_. None)"
| "tool_ids_after (ResponseTerminal a b) ids = (\<lambda>_. None)"
| "tool_ids_after (StreamError e) ids = (\<lambda>_. None)"
| "tool_ids_after UnexpectedEof ids = (\<lambda>_. None)"
| "tool_ids_after (MessageStart a b) ids = (\<lambda>_. None)"
| "tool_ids_after d ids = ids"

definition channels_step :: "json_lib \<Rightarrow> 'o stream_delta \<Rightarrow> channels \<Rightarrow> channels" where
  "channels_step jl d ch =
     (let ch1 = (close (ends jl ch d) ch)\<lparr>ch_tool_ids := tool_ids_after d (ch_tool_ids ch)\<rparr>
      in case delta_field d of
           None \<Rightarrow> ch1
         | Some k \<Rightarrow> ch1\<lparr>
             ch_open := (ch_open ch1)(k \<mapsto> (case ch_open ch1 k of None \<Rightarrow> [] | Some raw \<Rightarrow> raw) @ the (delta_text d)),
             ch_unindexed := (if unindexed_field k then Some k else ch_unindexed ch1)\<rparr>)"

text \<open>All runs of a field in a response.\<close>

definition field_runs :: "json_lib \<Rightarrow> 'o stream_delta list \<Rightarrow> stream_field \<Rightarrow> ustr list" where
  "field_runs jl deltas = ch_runs (close (\<lambda>_. True) (fold (channels_step jl) deltas channels_new))"

text \<open>One run restored at once: a text by \<open>replace\<close>, arguments by one push into the JSON scanner.\<close>

definition restored_run :: "json_strings \<Rightarrow> mapping list \<Rightarrow> stream_field \<Rightarrow> ustr \<Rightarrow> ustr" where
  "restored_run jl ms k raw =
     (if fst k = 5
      then (case json_push jl ms raw (json_default, {}) of
              Inr (j, _, r) \<Rightarrow> cow raw r @ snd (json_finish j) | Inl _ \<Rightarrow> [])
      else (case replace raw (restoring ms) {} of Some (r, _) \<Rightarrow> cow raw r | None \<Rightarrow> []))"

text \<open>What the deltas that were emitted say in a field.\<close>

definition said :: "stream_field \<Rightarrow> 'o stream_delta list \<Rightarrow> ustr" where
  "said k out = concat (map (\<lambda>d. if delta_field d = Some k then the (delta_text d) else []) out)"

lemma said_simps [simp]:
  "said k [] = []" "said k (d # out) = (if delta_field d = Some k then the (delta_text d) else []) @ said k out"
  "said k (out @ out') = said k out @ said k out'"
  by (simp_all add: said_def)

section \<open>The scanner of a field\<close>

definition reads :: "json_strings \<Rightarrow> mapping list \<Rightarrow> stream_field \<Rightarrow> ustr \<Rightarrow> ustr \<Rightarrow> 'o pending_field \<Rightarrow> bool" where
  "reads jl ms k raw shown p \<longleftrightarrow>
     (if fst k = 5
      then \<exists>refs. emits_as (json_chars jl ms raw) json_default {} (Inr (pf_json p, refs, shown))
      else \<exists>q refs. pf_plain p = scanner_of q \<and> emits (\<lambda>x. x) ms [] (plain raw) shown refs q)"

lemma reads_new: "reads jl ms k [] [] \<lparr>pf_plain = scanner_default, pf_json = json_default, pf_template = d\<rparr>"
proof (cases "fst k = 5")
  case True
  have "emits_as (json_chars jl ms []) json_default {} (Inr (json_default, {}, []))"
    by (rule emits_as_id) simp
  with True show ?thesis by (auto simp: reads_def)
next
  case False
  have "emits (\<lambda>x. x) ms [] [] [] {} []" by (rule emits_Nil) simp_all
  then show ?thesis using False scanner_of_Nil [symmetric]
    by (simp add: reads_def) (intro exI [of _ "[]"] exI [of _ "{}"] conjI, simp_all)
qed

lemma reads_text:
  assumes "reads jl ms k raw shown p" "fst k \<noteq> 5" "\<forall>m \<in> set ms. mp_secret m \<noteq> []"
    and run: "scanner_text jl ms input (pf_plain p, used) = Inr (s, used', t)"
  shows "reads jl ms k (raw @ input) (shown @ t) (p\<lparr>pf_plain := s\<rparr>)"
proof -
  from assms(1,2) obtain q refs where q: "pf_plain p = scanner_of q" "emits (\<lambda>x. x) ms [] (plain raw) shown refs q"
    by (auto simp: reads_def)
  then have "shaped q" "length q < 38" by (simp_all add: emits_def)
  moreover have "usable jl False ms" using assms(3) by (simp add: usable_def)
  ultimately obtain q' shown' refs' where
      "scanner_text jl ms input (scanner_of q, used) = Inr (scanner_of q', used \<union> refs', shown')"
      and q': "emits (\<lambda>x. x) ms q (plain input) shown' refs' q'"
    using scanner_text_emits [of jl ms q input used] by blast
  with run q(1) have "s = scanner_of q'" "t = shown'" by simp_all
  with emits_trans [OF q(2) q'] assms(2) show ?thesis by (auto simp: reads_def)
qed

lemma emits_as_result:
  assumes "emits_as f j used x" "f (j, used, output_new input) = Inr (j', used', out')"
  shows "\<exists>shown. x = Inr (j', used', shown) \<and> out_input out' = input \<and> wf_output out' \<and> output_text out' = shown"
proof (cases x)
  case (Inl e)
  with assms show ?thesis by (force simp: emits_as_def)
next
  case (Inr y)
  obtain j1 u1 shown where y: "y = (j1, u1, shown)" by (cases y) auto
  from emits_asD [OF assms(1) [unfolded Inr y] output_new(1), of input] assms(2) show ?thesis
    unfolding Inr y by auto
qed

lemma reads_json:
  assumes "reads jl ms k raw shown p" "fst k = 5"
    and run: "json_push jl ms input (pf_json p, used) = Inr (j, used', r)"
  shows "reads jl ms k (raw @ input) (shown @ cow input r) (p\<lparr>pf_json := j\<rparr>)"
proof -
  from assms(1,2) obtain refs where one: "emits_as (json_chars jl ms raw) json_default {} (Inr (pf_json p, refs, shown))"
    by (auto simp: reads_def)
  obtain x where x: "emits_as (json_chars jl ms input) (pf_json p) refs x" using json_chars_uniform by blast
  from run obtain out' where run': "json_chars jl ms input (pf_json p, used, output_new input) = Inr (j, used', out')"
      "r = output_finish out'" by (auto simp: json_push_def map_sum_def split: sum.splits prod.splits)
  then obtain u where u: "json_chars jl ms input (pf_json p, {}, output_new input) = Inr (j, u, out')"
    using json_chars_used [of jl ms input "pf_json p" used "output_new input"]
    by (cases "json_chars jl ms input (pf_json p, {}, output_new input)") auto
  then have at: "json_chars jl ms input (pf_json p, refs, output_new input) = Inr (j, refs \<union> u, out')"
    using json_chars_used [of jl ms input "pf_json p" refs "output_new input"] by simp
  with x obtain shown' where x': "x = Inr (j, refs \<union> u, shown')" "out_input out' = input" "wf_output out'"
      "output_text out' = shown'"
    using emits_as_result [OF x at] by auto
  then have "cow input r = shown'" using output_finish [of out'] run'(2) by simp
  moreover have "emits_as (json_chars jl ms (raw @ input)) json_default {} (Inr (j, refs \<union> u, shown @ shown'))"
    using emits_as_bind [OF one x [unfolded x'(1)]]
    by (simp add: json_chars_append [abs_def])
  ultimately show ?thesis using assms(2) by (auto simp: reads_def)
qed

lemma reads_finish:
  assumes "reads jl ms k raw shown p" "delta_field (pf_template p) = Some k"
  shows "shown @ (case pending_finish p of None \<Rightarrow> [] | Some d \<Rightarrow> the (delta_text d)) = restored_run jl ms k raw"
proof -
  define out where "out = (case pf_template p of ToolCallDelta _ _ \<Rightarrow> snd (json_finish (pf_json p))
      | _ \<Rightarrow> sc_spelling (pf_plain p))"
  have "out = (if fst k = 5 then snd (json_finish (pf_json p)) else sc_spelling (pf_plain p))"
    using assms(2) unfolding out_def by (cases "pf_template p") auto
  moreover have "(case pending_finish p of None \<Rightarrow> [] | Some d \<Rightarrow> the (delta_text d)) = out"
    using assms(2) unfolding pending_finish_def out_def [symmetric] by (cases "pf_template p") auto
  moreover have "shown @ snd (json_finish (pf_json p)) = restored_run jl ms k raw" if "fst k = 5"
  proof -
    from assms(1) that obtain refs where "emits_as (json_chars jl ms raw) json_default {} (Inr (pf_json p, refs, shown))"
      by (auto simp: reads_def)
    then obtain r where "json_push jl ms raw (json_default, {}) = Inr (pf_json p, refs, r)" "cow raw r = shown"
      by (rule json_push_emits)
    with that show ?thesis by (simp add: restored_run_def)
  qed
  moreover have "shown @ sc_spelling (pf_plain p) = restored_run jl ms k raw" if "fst k \<noteq> 5"
  proof -
    from assms(1) that obtain q refs where q: "pf_plain p = scanner_of q" "emits (\<lambda>x. x) ms [] (plain raw) shown refs q"
      by (auto simp: reads_def)
    obtain r where "replace raw (restoring ms) {} = Some (r, {} \<union> restored_refs ms raw)" "cow raw r = restore_text ms raw"
      by (rule replace_restoring)
    moreover have "restore_text ms raw = shown @ spelled q" using emits_flush(1) [OF q(2)] by (simp add: restore_plain)
    ultimately show ?thesis using that q(1) by (simp add: restored_run_def scanner_of_def)
  qed
  ultimately show ?thesis by simp
qed

section \<open>The restorer refines the specification\<close>

lemma set_delta_text_field [simp]:
  "delta_field (set_delta_text t d) = delta_field d"
  "delta_field d \<noteq> None \<Longrightarrow> delta_text (set_delta_text t d) = Some t"
  by (cases d; simp)+

lemma empty_template_field [simp]: "delta_field (empty_template d) = delta_field d"
  by (cases d) simp_all

lemma pending_finish_field:
  "pending_finish p = Some d \<Longrightarrow> delta_field d = delta_field (pf_template p)"
  by (auto simp: pending_finish_def Let_def split: if_splits)

lemma map_of_filter_keys: "map_of (filter (\<lambda>kv. \<not> P (fst kv)) kvs) k = (if P k then None else map_of kvs k)"
  by (induction kvs) auto

lemma map_of_insort_key: "k \<notin> fst ` set kvs \<Longrightarrow> map_of (insort_key fst (k, v) kvs) = (map_of kvs)(k \<mapsto> v)"
  by (induction kvs) (auto simp: fun_upd_twist)

lemma distinct_insort_fst:
  "distinct (map fst (insort_key fst (k, v) kvs)) \<longleftrightarrow> k \<notin> fst ` set kvs \<and> distinct (map fst kvs)"
  by (induction kvs) (auto simp: set_insort_key)

lemma tree_insert:
  assumes "distinct (map fst kvs)"
  shows "map_of (tree_insert k v kvs) = (map_of kvs)(k \<mapsto> v)" "distinct (map fst (tree_insert k v kvs))"
proof -
  have "k \<notin> fst ` set (filter (\<lambda>kv. fst kv \<noteq> k) kvs)" by auto
  moreover have "distinct (map fst (filter (\<lambda>kv. fst kv \<noteq> k) kvs))" using assms by (simp add: distinct_map_filter)
  moreover have "map_of (filter (\<lambda>kv. fst kv \<noteq> k) kvs) = (map_of kvs)(k := None)"
    using map_of_filter_keys [of "\<lambda>x. x = k" kvs] by (intro ext) simp
  ultimately show "map_of (tree_insert k v kvs) = (map_of kvs)(k \<mapsto> v)" "distinct (map fst (tree_insert k v kvs))"
    by (simp_all add: tree_insert_def map_of_insort_key distinct_insort_fst)
qed

lemma said_flush:
  assumes "distinct (map fst kvs)" "\<And>k p. map_of kvs k = Some p \<Longrightarrow> delta_field (pf_template p) = Some k"
  shows "said k (List.map_filter (\<lambda>kv. pending_finish (snd kv)) (filter (\<lambda>kv. P (fst kv)) kvs))
    = (if P k then case map_of kvs k of None \<Rightarrow> []
         | Some p \<Rightarrow> (case pending_finish p of None \<Rightarrow> [] | Some d \<Rightarrow> the (delta_text d)) else [])"
  using assms
proof (induction kvs)
  case (Cons kv kvs)
  obtain k1 p1 where kv: "kv = (k1, p1)" by (cases kv) auto
  have t1: "delta_field (pf_template p1) = Some k1" using Cons.prems(2) [of k1 p1] kv by simp
  have keys: "map_of kvs k1 = None" using Cons.prems(1) kv by (auto simp: map_of_eq_None_iff)
  have "delta_field (pf_template p) = Some k" if "map_of kvs k = Some p" for k p
    using Cons.prems(2) [of k p] that keys kv by (cases "k = k1") auto
  with Cons have IH: "said k (List.map_filter (\<lambda>kv. pending_finish (snd kv)) (filter (\<lambda>kv. P (fst kv)) kvs))
    = (if P k then case map_of kvs k of None \<Rightarrow> []
         | Some p \<Rightarrow> (case pending_finish p of None \<Rightarrow> [] | Some d \<Rightarrow> the (delta_text d)) else [])" by simp
  show ?case
  proof (cases "pending_finish p1")
    case None
    with IH kv keys show ?thesis by (cases "k = k1") (simp_all add: List.map_filter_def)
  next
    case (Some d)
    with pending_finish_field t1 have "delta_field d = Some k1" by fastforce
    with Some IH kv keys show ?thesis by (cases "k = k1") (simp_all add: List.map_filter_def)
  qed
qed (simp add: List.map_filter_def)

text \<open>What has been emitted in a field: the restored runs that have ended, and a part of the open one.\<close>

definition told :: "json_strings \<Rightarrow> mapping list \<Rightarrow> channels \<Rightarrow> stream_field \<Rightarrow> ustr" where
  "told js ms ch k = concat (map (restored_run js ms k) (ch_runs ch k))"

definition tracks_field ::
    "json_strings \<Rightarrow> mapping list \<Rightarrow> 'o pending_field option \<Rightarrow> channels \<Rightarrow> stream_field \<Rightarrow> ustr \<Rightarrow> bool" where
  "tracks_field js ms entry ch k shown \<longleftrightarrow>
     (case entry of
        None \<Rightarrow> ch_open ch k = None \<and> shown = told js ms ch k
      | Some p \<Rightarrow> \<exists>raw part. ch_open ch k = Some raw \<and> shown = told js ms ch k @ part
          \<and> reads js ms k raw part p \<and> delta_field (pf_template p) = Some k)"

definition tracks ::
    "json_strings \<Rightarrow> mapping list \<Rightarrow> 'o restorer \<Rightarrow> channels \<Rightarrow> (stream_field \<Rightarrow> ustr) \<Rightarrow> bool" where
  "tracks js ms st ch shown \<longleftrightarrow>
     distinct (map fst (rs_fields st))
     \<and> (\<forall>k. tracks_field js ms (map_of (rs_fields st) k) ch k (shown k))
     \<and> rs_unindexed st = ch_unindexed ch \<and> rs_tool_ids st = ch_tool_ids ch
     \<and> (\<forall>k. ch_unindexed ch = Some k \<longrightarrow> ch_open ch k \<noteq> None)"

lemma tracks_used [simp]: "tracks js ms (st\<lparr>rs_used := u\<rparr>) ch shown \<longleftrightarrow> tracks js ms st ch shown"
  by (simp add: tracks_def)

lemma tracks_field_dom: "tracks_field js ms entry ch k shown \<Longrightarrow> ch_open ch k = None \<longleftrightarrow> entry = None"
  by (auto simp: tracks_field_def split: option.splits)

lemma tracks_ids:
  "tracks js ms st ch shown
    \<Longrightarrow> tracks js ms (st\<lparr>rs_tool_ids := ids\<rparr>) (ch\<lparr>ch_tool_ids := ids\<rparr>) shown"
  by (simp add: tracks_def tracks_field_def told_def cong: option.case_cong)

lemma flush_tracks:
  assumes tr: "tracks js ms st ch shown" and fl: "flush_where P st = (st', out)"
  shows "tracks js ms st' (close P ch) (\<lambda>k. shown k @ said k out)"
    and "rs_used st' = rs_used st" "rs_tool_ids st' = rs_tool_ids st"
proof -
  let ?F = "rs_fields st"
  have dist: "distinct (map fst ?F)" and each: "\<And>k. tracks_field js ms (map_of ?F k) ch k (shown k)"
    and un: "rs_unindexed st = ch_unindexed ch" and ids: "rs_tool_ids st = ch_tool_ids ch"
    and has: "\<And>k. ch_unindexed ch = Some k \<Longrightarrow> ch_open ch k \<noteq> None"
    using tr by (auto simp: tracks_def)
  have templates: "delta_field (pf_template p) = Some k" if "map_of ?F k = Some p" for k p
    using each [of k] that by (auto simp: tracks_field_def)
  have st': "st' = st\<lparr>rs_fields := filter (\<lambda>kv. \<not> P (fst kv)) ?F,
      rs_unindexed := (case rs_unindexed st of None \<Rightarrow> None
        | Some k \<Rightarrow> if k \<in> set (filter P (map fst ?F)) then None else Some k)\<rparr>"
    and out: "out = List.map_filter (\<lambda>kv. pending_finish (snd kv)) (filter (\<lambda>kv. P (fst kv)) ?F)"
    using fl by (simp_all add: flush_where_def Let_def)
  then show "rs_used st' = rs_used st" "rs_tool_ids st' = rs_tool_ids st" by simp_all
  note said = said_flush [OF dist templates, of _ P, folded out]
  have field: "tracks_field js ms (map_of (rs_fields st') k) (close P ch) k (shown k @ said k out)" for k
  proof (cases "P k")
    case False
    then show ?thesis using each [of k] said [of k]
      by (simp add: st' map_of_filter_keys tracks_field_def close_def told_def cong: option.case_cong)
  next
    case True
    show ?thesis
    proof (cases "map_of ?F k")
      case None
      then show ?thesis using True each [of k] said [of k]
        by (simp add: st' map_of_filter_keys tracks_field_def close_def told_def)
    next
      case (Some p)
      with each [of k] obtain raw part where p: "ch_open ch k = Some raw" "shown k = told js ms ch k @ part"
          "reads js ms k raw part p" "delta_field (pf_template p) = Some k"
        by (auto simp: tracks_field_def)
      from reads_finish [OF p(3,4)] have "part @ said k out = restored_run js ms k raw"
        using said [of k] True Some by simp
      then show ?thesis using True Some p(1,2)
        by (simp add: st' map_of_filter_keys tracks_field_def close_def told_def)
    qed
  qed
  have unindexed: "rs_unindexed st' = ch_unindexed (close P ch)"
  proof (cases "ch_unindexed ch")
    case None
    then show ?thesis using un by (simp add: st' close_def)
  next
    case (Some k)
    then have "map_of ?F k \<noteq> None" using has [of k] tracks_field_dom [OF each [of k]] by simp
    then have "k \<in> fst ` set ?F" by (simp add: map_of_eq_None_iff)
    with Some un show ?thesis by (simp add: st' close_def)
  qed
  have "distinct (map fst (rs_fields st'))" using dist by (simp add: st' distinct_map_filter)
  moreover have "ch_open (close P ch) k \<noteq> None" if "ch_unindexed (close P ch) = Some k" for k
    using that has [of k] by (auto simp: close_def split: option.splits if_splits)
  ultimately show "tracks js ms st' (close P ch) (\<lambda>k. shown k @ said k out)"
    using field unindexed ids unfolding tracks_def by (simp add: st' close_def)
qed

lemma close_none: "(\<And>k. \<not> P k) \<Longrightarrow> close P ch = ch"
  by (cases ch) (simp add: close_def split: option.split)

lemma close_ids: "(close P ch)\<lparr>ch_tool_ids := ch_tool_ids ch\<rparr> = close P ch"
  by (simp add: close_def)

lemma close_close: "close Q (close P ch) = close (\<lambda>k. P k \<or> Q k) ch"
  by (cases ch) (auto simp: close_def fun_eq_iff split: option.split)

lemma map_sum_Inr_iff: "map_sum id f r = Inr y \<longleftrightarrow> (\<exists>x. r = Inr x \<and> y = f x)"
  by (cases r) auto

lemma ends_readable:
  "delta_field d = Some key \<Longrightarrow> ends jl ch d = (\<lambda>k. k \<noteq> key \<and> ch_unindexed ch = Some k)"
  "delta_field d = Some key \<Longrightarrow> tool_ids_after d ids = ids"
  by (cases d; force)+

lemma readable_text: "delta_field d = Some key \<Longrightarrow> \<exists>t. delta_text d = Some t"
  by (cases d) simp_all

text \<open>Before the text of a delta is read, another field without an index ends.\<close>

lemma readable_flush:
  assumes tr: "tracks js ms st ch shown" and d: "delta_field delta = Some key"
    and fl: "(case rs_unindexed st of
          Some previous \<Rightarrow> if previous \<noteq> key then flush_where (\<lambda>f. f = previous) st else (st, [])
        | None \<Rightarrow> (st, [])) = (st1, out)"
  shows "tracks js ms st1 (close (ends jl ch delta) ch) (\<lambda>k. shown k @ said k out)"
    and "rs_used st1 = rs_used st"
proof -
  have un: "rs_unindexed st = ch_unindexed ch" using tr by (simp add: tracks_def)
  have "tracks js ms st1 (close (ends jl ch delta) ch) (\<lambda>k. shown k @ said k out) \<and> rs_used st1 = rs_used st"
  proof (cases "\<exists>previous. ch_unindexed ch = Some previous \<and> previous \<noteq> key")
    case True
    then obtain previous where p: "ch_unindexed ch = Some previous" "previous \<noteq> key" by blast
    then have "ends jl ch delta = (\<lambda>f. f = previous)" using ends_readable(1) [OF d] by (auto simp: fun_eq_iff)
    with flush_tracks [OF tr, of "\<lambda>f. f = previous" st1 out] fl un p show ?thesis by simp
  next
    case False
    then have "close (ends jl ch delta) ch = ch" by (intro close_none) (auto simp: ends_readable(1) [OF d])
    moreover have "st1 = st" "out = []" using fl un False by (auto split: option.splits if_splits)
    ultimately show ?thesis using tr by simp
  qed
  then show "tracks js ms st1 (close (ends jl ch delta) ch) (\<lambda>k. shown k @ said k out)"
    and "rs_used st1 = rs_used st" by simp_all
qed

text \<open>Reading the text of a delta in its field.\<close>

lemma tracks_put:
  assumes tr: "tracks js ms st ch shown" and p: "delta_field (pf_template p) = Some key"
    and entry: "case map_of (rs_fields st) key of None \<Rightarrow> raw = [] \<and> part = []
      | Some p' \<Rightarrow> ch_open ch key = Some raw \<and> shown key = told js ms ch key @ part"
    and reads: "reads js ms key (raw @ input) (part @ t) p"
    and un: "u = rs_unindexed st \<or> u = Some key"
  shows "tracks js ms (st\<lparr>rs_fields := tree_insert key p (rs_fields st), rs_unindexed := u, rs_used := used\<rparr>)
    (ch\<lparr>ch_open := (ch_open ch)(key \<mapsto> (case ch_open ch key of None \<Rightarrow> [] | Some raw \<Rightarrow> raw) @ input), ch_unindexed := u\<rparr>)
    (\<lambda>k. if k = key then shown k @ t else shown k)"
proof -
  have dist: "distinct (map fst (rs_fields st))" and each: "\<And>k. tracks_field js ms (map_of (rs_fields st) k) ch k (shown k)"
    and rest: "rs_unindexed st = ch_unindexed ch" "rs_tool_ids st = ch_tool_ids ch"
      "\<And>k. ch_unindexed ch = Some k \<Longrightarrow> ch_open ch k \<noteq> None"
    using tr by (auto simp: tracks_def)
  let ?ch = "ch\<lparr>ch_open := (ch_open ch)(key \<mapsto> (case ch_open ch key of None \<Rightarrow> [] | Some raw \<Rightarrow> raw) @ input), ch_unindexed := u\<rparr>"
  have told: "told js ms ?ch = told js ms ch" by (simp add: told_def fun_eq_iff)
  have mine: "(case ch_open ch key of None \<Rightarrow> [] | Some raw \<Rightarrow> raw) = raw" "shown key = told js ms ch key @ part"
    using entry each [of key] by (auto simp: tracks_field_def split: option.splits)
  have "tracks_field js ms (((map_of (rs_fields st))(key \<mapsto> p)) k) ?ch k (if k = key then shown k @ t else shown k)" for k
  proof (cases "k = key")
    case True
    then show ?thesis using mine reads p by (auto simp: tracks_field_def told)
  next
    case False
    then show ?thesis using each [of k] by (simp add: tracks_field_def told cong: option.case_cong)
  qed
  then show ?thesis using tree_insert [OF dist, of key p] rest un
    by (auto simp: tracks_def)
qed

lemma push_readable_tracks:
  assumes tr: "tracks (json_strings.truncate jl) ms st ch shown" and d: "delta_field delta = Some key"
    and sec: "\<forall>m \<in> set ms. mp_secret m \<noteq> []"
    and run: "push_readable jl ms key delta st = Inr (st', out)"
  shows "tracks (json_strings.truncate jl) ms st' (channels_step jl delta ch) (\<lambda>k. shown k @ said k out)"
proof -
  let ?js = "json_strings.truncate jl"
  obtain input where input: "delta_text delta = Some input" using readable_text [OF d] by blast
  obtain st1 out1 where fl: "(case rs_unindexed st of
          Some previous \<Rightarrow> if previous \<noteq> key then flush_where (\<lambda>f. f = previous) st else (st, [])
        | None \<Rightarrow> (st, [])) = (st1, out1)" by (rule prod.exhaust)
  define ch1 where "ch1 = close (ends jl ch delta) ch"
  have tr1: "tracks ?js ms st1 ch1 (\<lambda>k. shown k @ said k out1)"
    unfolding ch1_def by (rule readable_flush(1) [OF tr d fl])
  define u where "u = (if unindexed_field key then Some key else rs_unindexed st1)"
  define p where "p = (case map_of (rs_fields st1) key of Some p \<Rightarrow> p
      | None \<Rightarrow> \<lparr>pf_plain = scanner_default, pf_json = json_default, pf_template = empty_template delta\<rparr>)"
  have st2: "(if unindexed_field key then st1\<lparr>rs_unindexed := Some key\<rparr> else st1) = st1\<lparr>rs_unindexed := u\<rparr>"
    by (simp add: u_def)
  have sel: "rs_fields (st1\<lparr>rs_unindexed := u\<rparr>) = rs_fields st1" "rs_used (st1\<lparr>rs_unindexed := u\<rparr>) = rs_used st1"
    by simp_all
  from run obtain p' used' t where
      step: "(if fst key = 5
          then map_sum id (\<lambda>(j, u, r). (p\<lparr>pf_json := j\<rparr>, u, cow input r))
            (json_push ?js ms input (pf_json p, rs_used st1))
          else map_sum id (\<lambda>(s, u, t). (p\<lparr>pf_plain := s\<rparr>, u, t))
            (scanner_text ?js ms input (pf_plain p, rs_used st1))) = Inr (p', used', t)"
    and st': "st' = st1\<lparr>rs_unindexed := u, rs_fields := tree_insert key p' (rs_fields st1), rs_used := used'\<rparr>"
    and out: "out = out1 @ [set_delta_text t delta]"
    unfolding push_readable_def fl Let_def prod.case st2 input option.sel map_sum_Inr_iff sel p_def [symmetric]
    by auto
  obtain raw part where rp: "case map_of (rs_fields st1) key of None \<Rightarrow> raw = [] \<and> part = []
      | Some p' \<Rightarrow> ch_open ch1 key = Some raw \<and> shown key @ said key out1 = told ?js ms ch1 key @ part"
      "reads ?js ms key raw part p" "delta_field (pf_template p) = Some key"
  proof (cases "map_of (rs_fields st1) key")
    case None
    then have "reads ?js ms key [] [] p" "delta_field (pf_template p) = Some key" using d by (simp_all add: p_def reads_new)
    with None that [of "[]" "[]"] show ?thesis by simp
  next
    case (Some q)
    have "tracks_field ?js ms (map_of (rs_fields st1) key) ch1 key (shown key @ said key out1)"
      using tr1 unfolding tracks_def by blast
    with Some that show ?thesis by (auto simp: p_def tracks_field_def)
  qed
  have "reads ?js ms key (raw @ input) (part @ t) p' \<and> delta_field (pf_template p') = Some key"
  proof (cases "fst key = 5")
    case True
    with step obtain j r where "json_push ?js ms input (pf_json p, rs_used st1) = Inr (j, used', r)"
        "p' = p\<lparr>pf_json := j\<rparr>" "t = cow input r" by (auto simp: map_sum_Inr_iff)
    with reads_json [OF rp(2) True] rp(3) show ?thesis by simp
  next
    case False
    with step have "scanner_text ?js ms input (pf_plain p, rs_used st1) = Inr (pf_plain p', used', t)"
        "p' = p\<lparr>pf_plain := pf_plain p'\<rparr>" by (auto simp: map_sum_Inr_iff)
    with reads_text [OF rp(2) False sec] rp(3) show ?thesis by (metis pending_field.select_convs(3) pending_field.surjective pending_field.update_convs(1))
  qed
  then have p': "reads ?js ms key (raw @ input) (part @ t) p'" "delta_field (pf_template p') = Some key" by simp_all
  have st'': "st' = st1\<lparr>rs_fields := tree_insert key p' (rs_fields st1), rs_unindexed := u, rs_used := used'\<rparr>"
    by (simp add: st')
  have "tracks ?js ms st' (ch1\<lparr>ch_open := (ch_open ch1)(key \<mapsto> (case ch_open ch1 key of None \<Rightarrow> [] | Some raw \<Rightarrow> raw) @ input), ch_unindexed := u\<rparr>)
      (\<lambda>k. if k = key then (shown k @ said k out1) @ t else shown k @ said k out1)"
    unfolding st'' by (rule tracks_put [OF tr1 p'(2) rp(1) p'(1)]) (simp add: u_def)
  moreover have "channels_step jl delta ch = ch1\<lparr>ch_open := (ch_open ch1)(key \<mapsto> (case ch_open ch1 key of None \<Rightarrow> [] | Some raw \<Rightarrow> raw) @ input), ch_unindexed := u\<rparr>"
  proof -
    have "rs_unindexed st1 = ch_unindexed ch1" using tr1 by (simp add: tracks_def)
    moreover have "ch1\<lparr>ch_tool_ids := ch_tool_ids ch\<rparr> = ch1" by (simp add: ch1_def close_def)
    ultimately show ?thesis
      using d input ends_readable(2) [OF d] by (simp add: channels_step_def ch1_def [symmetric] u_def Let_def)
  qed
  moreover have "(\<lambda>k. if k = key then (shown k @ said k out1) @ t else shown k @ said k out1) = (\<lambda>k. shown k @ said k out)"
    using d by (auto simp: out fun_eq_iff)
  ultimately show ?thesis by simp
qed

lemma restore_unknown_item: "restore_unknown jl ms raw used = Inr (used', raw', new_item) \<Longrightarrow> new_item = starts_item jl raw"
  by (auto simp: restore_unknown_def starts_item_def Let_def res_bind_Inr_iff split: option.splits if_splits)

lemma structural_step:
  "delta_field delta = None \<Longrightarrow>
    channels_step jl delta ch = (close (ends jl ch delta) ch)\<lparr>ch_tool_ids := tool_ids_after delta (ch_tool_ids ch)\<rparr>"
  by (simp add: channels_step_def Let_def)

text \<open>A flush before a delta without text.\<close>

lemma structural_flush:
  assumes tr: "tracks js ms st ch shown" and d: "delta_field delta = None"
    and fl: "flush_where (ends jl ch delta) st = (st1, out)"
    and st': "st' = st1\<lparr>rs_used := used, rs_tool_ids := tool_ids_after delta (ch_tool_ids ch)\<rparr>"
    and d': "delta_field delta' = None"
  shows "tracks js ms st' (channels_step jl delta ch) (\<lambda>k. shown k @ said k (out @ [delta']))"
proof -
  have "st' = (st1\<lparr>rs_tool_ids := tool_ids_after delta (ch_tool_ids ch)\<rparr>)\<lparr>rs_used := used\<rparr>" by (simp add: st')
  then have "tracks js ms st' (channels_step jl delta ch) (\<lambda>k. shown k @ said k out)"
    unfolding structural_step [OF d]
    using tracks_ids [OF flush_tracks(1) [OF tr fl], of "tool_ids_after delta (ch_tool_ids ch)"] tracks_used by metis
  with d' show ?thesis by simp
qed

lemma tracks_tool_ids: "tracks js ms st ch shown \<Longrightarrow> rs_tool_ids st = ch_tool_ids ch"
  by (simp add: tracks_def)

lemma restorer_cong: "(st :: 'o restorer)\<lparr>rs_used := rs_used st, rs_tool_ids := rs_tool_ids st\<rparr> = st"
  by simp

lemma push_start_tracks:
  fixes st :: "'o restorer"
  assumes tr: "tracks js ms st ch shown"
    and run: "push_structural jl ms (ToolCallStart index i name) st = Inr (st', out)"
  shows "tracks js ms st' (channels_step jl (ToolCallStart index i name :: 'o stream_delta) ch) (\<lambda>k. shown k @ said k out)"
proof -
  let ?d = "ToolCallStart index i name :: 'o stream_delta" let ?ids = "ch_tool_ids ch"
  let ?again = "case ?ids index of None \<Rightarrow> False | Some previous \<Rightarrow> i \<noteq> [] \<and> previous \<noteq> i"
  obtain st1 out1 where f1: "flush_where unindexed_field st = (st1, out1)" by (cases "flush_where unindexed_field st")
  note t1 = flush_tracks [OF tr f1]
  have ids: "rs_tool_ids st1 = ?ids" using t1(3) tracks_tool_ids [OF tr] by simp
  obtain st2 out2 where f2: "(if ?again then flush_where (tool_field index) st1 else (st1, [])) = (st2, out2)" by (rule prod.exhaust)
  from run have eqs: "st' = (if i \<noteq> [] then st2\<lparr>rs_tool_ids := (rs_tool_ids st2)(index \<mapsto> i)\<rparr> else st2)"
      "out = out1 @ out2 @ [?d]"
    unfolding push_structural_def stream_delta.case f1 Let_def prod.case ids f2 by auto
  have t2: "tracks js ms st2 (close (ends jl ch ?d) ch) (\<lambda>k. (shown k @ said k out1) @ said k out2)
      \<and> rs_tool_ids st2 = ?ids"
  proof (cases ?again)
    case True
    from f2 True have "flush_where (tool_field index) st1 = (st2, out2)" by simp
    note t = flush_tracks [OF t1(1) this]
    have E: "ends jl ch ?d = (\<lambda>k. unindexed_field k \<or> tool_field index k)" using True by (simp add: fun_eq_iff)
    show ?thesis unfolding E using t t1(3) ids unfolding close_close by simp
  next
    case False
    from f2 False have "st2 = st1" "out2 = []" by simp_all
    moreover have E: "ends jl ch ?d = unindexed_field" using False by (simp add: fun_eq_iff)
    ultimately show ?thesis unfolding E using t1 ids by simp
  qed
  have "tracks js ms st' ((close (ends jl ch ?d) ch)\<lparr>ch_tool_ids := tool_ids_after ?d ?ids\<rparr>) (\<lambda>k. shown k @ said k out)"
  proof (cases "i = []")
    case True
    have "(close (ends jl ch ?d) ch)\<lparr>ch_tool_ids := tool_ids_after ?d ?ids\<rparr> = close (ends jl ch ?d) ch"
      using True close_ids [where P = "ends jl ch ?d" and ch = ch] by simp
    with t2 True eqs show ?thesis by simp
  next
    case False
    with tracks_ids [OF conjunct1 [OF t2], of "?ids(index \<mapsto> i)"] t2 eqs show ?thesis by simp
  qed
  then show ?thesis by (simp add: structural_step)
qed

lemma flush_where_cong: "P = Q \<Longrightarrow> flush_where P st = flush_where Q st"
  by simp

lemma push_structural_tracks:
  assumes tr: "tracks js ms st ch shown" and d: "delta_field delta = None"
    and run: "push_structural jl ms delta st = Inr (st', out)"
  shows "tracks js ms st' (channels_step jl delta ch) (\<lambda>k. shown k @ said k out)"
proof -
  have ids: "rs_tool_ids st = ch_tool_ids ch" by (rule tracks_tool_ids [OF tr])
  note same = structural_flush [OF tr d]
  note kept = flush_tracks(2,3) [OF tr]
  have before: ?thesis
    if P: "ends jl ch delta = P" and fl: "flush_where P st = (st1, o1)" and out: "out = o1 @ [delta']"
      and st': "st' = st1\<lparr>rs_used := used, rs_tool_ids := tool_ids_after delta (ch_tool_ids ch)\<rparr>"
      and d': "delta_field delta' = None" for P st1 o1 delta' used
    unfolding out by (rule same [OF fl [folded P] st' d'])
  have quiet: ?thesis
    if "ends jl ch delta = (\<lambda>_. False)" "tool_ids_after delta (ch_tool_ids ch) = ch_tool_ids ch"
      and "st' = st\<lparr>rs_used := used\<rparr>" "out = [delta']" "delta_field delta' = None" for delta' used
  proof -
    have "channels_step jl delta ch = ch"
      using that(1,2) close_none [of "\<lambda>_. False" ch] by (simp add: structural_step [OF d])
    with tr that show ?thesis by simp
  qed
  have all: ?thesis
    if E: "ends jl ch delta = (\<lambda>_. True)" and ids': "tool_ids_after delta (ch_tool_ids ch) = (\<lambda>_. None)"
      and run': "push_structural jl ms delta st = (let (st1, out) = flush_where (\<lambda>_. True) st
          in Inr (st1\<lparr>rs_tool_ids := \<lambda>_. None\<rparr>, out @ [delta]))"
  proof -
    obtain st1 o1 where fl: "flush_where (\<lambda>_. True) st = (st1, o1)" by (cases "flush_where (\<lambda>_. True) st")
    with run run' have r: "st' = st1\<lparr>rs_tool_ids := \<lambda>_. None\<rparr>" "out = o1 @ [delta]" by simp_all
    have S: "st' = st1\<lparr>rs_used := rs_used st1, rs_tool_ids := tool_ids_after delta (ch_tool_ids ch)\<rparr>"
      unfolding r(1) ids' by simp
    show ?thesis by (rule before [OF E fl r(2) S d])
  qed
  show ?thesis
  proof (cases delta)
    case (ToolCallStart index i name)
    with push_start_tracks [OF tr] run show ?thesis by simp
  next
    case (ToolCallComplete index c)
    obtain st1 o1 where fl: "flush_where (tool_field index) st = (st1, o1)" by (cases "flush_where (tool_field index) st")
    with run ToolCallComplete obtain used arguments where r:
        "st' = st1\<lparr>rs_used := used, rs_tool_ids := (rs_tool_ids st1)(index := None)\<rparr>"
        "out = o1 @ [ToolCallComplete index (c\<lparr>cl_arguments := arguments\<rparr>)]"
      by (auto simp: push_structural_def map_sum_Inr_iff)
    have "ends jl ch delta = tool_field index" by (simp add: ToolCallComplete fun_eq_iff)
    from before [OF this fl r(2)] r(1) kept(2) [OF fl] ids ToolCallComplete show ?thesis by simp
  next
    case (ItemDone index item)
    let ?indices = "tool_indices (ch_tool_ids ch) item"
    let ?P = "\<lambda>k. unindexed_field k \<or> fst k \<noteq> 5 \<and> field_output k = Some index
        \<or> fst k = 5 \<and> (case field_output k of None \<Rightarrow> False | Some n \<Rightarrow> ?indices n)"
    obtain st1 o1 where fl: "flush_where ?P st = (st1, o1)" by (cases "flush_where ?P st")
    with run ItemDone ids obtain used item' where r:
        "st' = st1\<lparr>rs_used := used, rs_tool_ids := (\<lambda>n. if ?indices n then None else rs_tool_ids st1 n)\<rparr>"
        "out = o1 @ [ItemDone index item']"
      by (auto simp: push_structural_def map_sum_Inr_iff Let_def)
    have "ends jl ch delta = ?P" by (simp add: ItemDone fun_eq_iff)
    moreover have "st' = st1\<lparr>rs_used := used, rs_tool_ids := tool_ids_after delta (ch_tool_ids ch)\<rparr>"
      unfolding r(1) kept(2) [OF fl] ids ItemDone tool_ids_after.simps ..
    ultimately show ?thesis using before [OF _ fl r(2)] ItemDone by simp
  next
    case (UnknownDelta raw)
    from run UnknownDelta obtain used raw' new_item where
        r: "restore_unknown jl ms raw (rs_used st) = Inr (used, raw', new_item)"
      and k: "(st', out) = (let (st1, out) = (if new_item then flush_where unindexed_field (st\<lparr>rs_used := used\<rparr>)
                              else (st\<lparr>rs_used := used\<rparr>, [])) in (st1, out @ [UnknownDelta raw']))"
      by (auto simp: push_structural_def map_sum_Inr_iff)
    note item = restore_unknown_item [OF r]
    show ?thesis
    proof (cases new_item)
      case False
      then have "ends jl ch delta = (\<lambda>_. False)" using item by (simp add: UnknownDelta fun_eq_iff)
      from quiet [OF this] k False UnknownDelta show ?thesis by simp
    next
      case True
      obtain st1 o1 where fl: "flush_where unindexed_field st = (st1, o1)" by (cases "flush_where unindexed_field st")
      have "flush_where unindexed_field (st\<lparr>rs_used := used\<rparr>) = (st1\<lparr>rs_used := used\<rparr>, o1)"
        using fl by (auto simp: flush_where_def Let_def)
      with k True have r: "st' = st1\<lparr>rs_used := used\<rparr>" "out = o1 @ [UnknownDelta raw']" by simp_all
      have "ends jl ch delta = unindexed_field" using item True by (simp add: UnknownDelta fun_eq_iff)
      moreover have "st' = st1\<lparr>rs_used := used, rs_tool_ids := tool_ids_after delta (ch_tool_ids ch)\<rparr>"
        unfolding r(1) by (simp add: UnknownDelta ids [symmetric] kept(2) [OF fl, symmetric])
      ultimately show ?thesis using before [OF _ fl r(2)] UnknownDelta by simp
    qed
  next
    case (ThinkingSignature t)
    obtain st1 o1 where fl: "flush_where unindexed_field st = (st1, o1)" by (cases "flush_where unindexed_field st")
    have E: "ends jl ch delta = unindexed_field" by (simp add: ThinkingSignature fun_eq_iff)
    from run fl have r: "st' = st1" "out = o1 @ [delta]" by (simp_all add: push_structural_def ThinkingSignature)
    have S: "st' = st1\<lparr>rs_used := rs_used st1, rs_tool_ids := tool_ids_after delta (ch_tool_ids ch)\<rparr>"
      unfolding r(1) by (simp add: ThinkingSignature ids [symmetric] kept(2) [OF fl, symmetric])
    show ?thesis by (rule before [OF E fl r(2) S d])
  next
    case (ProtectedThinkingStart n)
    obtain st1 o1 where fl: "flush_where unindexed_field st = (st1, o1)" by (cases "flush_where unindexed_field st")
    have E: "ends jl ch delta = unindexed_field" by (simp add: ProtectedThinkingStart fun_eq_iff)
    from run fl have r: "st' = st1" "out = o1 @ [delta]" by (simp_all add: push_structural_def ProtectedThinkingStart)
    have S: "st' = st1\<lparr>rs_used := rs_used st1, rs_tool_ids := tool_ids_after delta (ch_tool_ids ch)\<rparr>"
      unfolding r(1) by (simp add: ProtectedThinkingStart ids [symmetric] kept(2) [OF fl, symmetric])
    show ?thesis by (rule before [OF E fl r(2) S d])
  next
    case (MessageStart a b)
    then show ?thesis using run by (intro all) (simp_all add: push_structural_def fun_eq_iff)
  next
    case (ResponseTerminal a b)
    then show ?thesis using run by (intro all) (simp_all add: push_structural_def fun_eq_iff)
  next
    case (DoneDelta a)
    then show ?thesis using run by (intro all) (simp_all add: push_structural_def fun_eq_iff)
  next
    case (StreamError a)
    then show ?thesis using run by (intro all) (simp_all add: push_structural_def fun_eq_iff)
  next
    case UnexpectedEof
    then show ?thesis using run by (intro all) (simp_all add: push_structural_def fun_eq_iff)
  next
    case (ResponseMetadata a)
    then show ?thesis using run by (intro quiet [of "rs_used st" delta]) (simp_all add: push_structural_def fun_eq_iff)
  next
    case (UsageDelta a)
    then show ?thesis using run by (intro quiet [of "rs_used st" delta]) (simp_all add: push_structural_def fun_eq_iff)
  qed (use d in simp_all)
qed

lemma restorer_run_tracks:
  assumes "\<forall>m \<in> set ms. mp_secret m \<noteq> []"
  shows "tracks (json_strings.truncate jl) ms st ch shown \<Longrightarrow> restorer_run jl ms deltas st = Inr (st', out) \<Longrightarrow>
    shown k @ said k out
      = concat (map (restored_run (json_strings.truncate jl) ms k) (ch_runs (close (\<lambda>_. True) (fold (channels_step jl) deltas ch)) k))"
proof (induction deltas arbitrary: st ch shown out)
  case Nil
  obtain st1 o1 where fl: "flush_where (\<lambda>_. True) st = (st1, o1)" by (cases "flush_where (\<lambda>_. True) st")
  with Nil(2) have out: "out = o1" by (simp add: restorer_finish_def)
  let ?ch = "close (\<lambda>_. True) ch"
  have "tracks (json_strings.truncate jl) ms st1 ?ch (\<lambda>k. shown k @ said k out)"
    unfolding out by (rule flush_tracks(1) [OF Nil(1) fl])
  then have field: "tracks_field (json_strings.truncate jl) ms (map_of (rs_fields st1) k) ?ch k (shown k @ said k out)"
    unfolding tracks_def by blast
  moreover have "map_of (rs_fields st1) k = None"
    using tracks_field_dom [OF field] by (simp add: close_def)
  ultimately show ?case by (simp add: tracks_field_def told_def)
next
  case (Cons delta deltas)
  from Cons.prems(2) obtain st1 out1 out2 where
      step: "restorer_push jl ms delta st = Inr (st1, out1)" and rest: "restorer_run jl ms deltas st1 = Inr (st', out2)"
      "out = out1 @ out2"
    by (auto simp: res_bind_Inr_iff)
  have "tracks (json_strings.truncate jl) ms st1 (channels_step jl delta ch) (\<lambda>k. shown k @ said k out1)"
  proof (cases "delta_field delta")
    case None
    with step push_structural_tracks [OF Cons.prems(1) None] show ?thesis by (simp add: restorer_push_def)
  next
    case (Some key)
    with step push_readable_tracks [OF Cons.prems(1) Some assms] show ?thesis by (simp add: restorer_push_def)
  qed
  from Cons.IH [OF this rest(1)] rest(2) show ?case by simp
qed

text \<open>
  However the deltas of a response interleave its fields and cut their texts, a client reads
  in every field the runs of that field, each restored at once: text as \<open>replace\<close> restores
  it, tool arguments as one pass over their JSON does. Nothing is lost, reordered or carried from one
  field or run to another, and everything held back has been emitted at the end.
\<close>

theorem stream_fields_restored:
  assumes "\<forall>m \<in> set ms. mp_secret m \<noteq> []"
    and "restorer_run jl ms deltas restorer_new = Inr (st, out)"
  shows "said k out = concat (map (restored_run (json_strings.truncate jl) ms k) (field_runs jl deltas k))"
proof -
  have "tracks (json_strings.truncate jl) ms restorer_new channels_new (\<lambda>_. [])"
    by (simp add: tracks_def tracks_field_def told_def restorer_new_def channels_new_def)
  from restorer_run_tracks [OF assms(1) this assms(2), of k] show ?thesis by (simp add: field_runs_def)
qed

section \<open>A witness\<close>

text \<open>
  A message and the arguments of a tool call, an object with the key \<open>k\<close>, interleaved, with the
  reference of the sample cut in each.
\<close>

definition stream_lib :: json_lib where
  "stream_lib = \<lparr>jl_to_string = jl_to_string sample_json, jl_from_str = jl_from_str sample_json,
     jl_is_json = \<lambda>_. False, jl_parse = \<lambda>_. None, jl_print = \<lambda>_. None, jl_result_kind = \<lambda>_. None\<rparr>"

definition json_member :: "ustr \<Rightarrow> ustr" where
  "json_member v = [123, 34, 107, 34, 58, 34] @ v @ [34, 125]"

definition sample_deltas :: "unit stream_delta list" where
  "sample_deltas =
     [TextDeltaWithMetadata (ascii ''key=<!--sr:abcdef'') [] None (Some 0) (Some 0),
      ToolCallDelta 2 (take 20 (json_member (mp_reference sample_mapping))),
      TextDeltaWithMetadata (ascii ''ghijklmnopqrstuvwxyzab-->!'') [] None (Some 0) (Some 0),
      ToolCallDelta 2 (drop 20 (json_member (mp_reference sample_mapping))),
      DoneDelta []]"

lemma sample_stream_runs: "\<not> isl (restorer_run stream_lib [sample_mapping] sample_deltas restorer_new)"
  by code_simp

lemma sample_field_runs:
  "field_runs stream_lib sample_deltas (0, Some 0, Some 0) = [ascii ''key=<!--sr:abcdefghijklmnopqrstuvwxyzab-->!'']"
  "field_runs stream_lib sample_deltas (5, Some 2, None) = [json_member (mp_reference sample_mapping)]"
  by code_simp+

lemma sample_restored_runs:
  "restored_run (json_strings.truncate stream_lib) [sample_mapping] (0, Some 0, Some 0)
     (ascii ''key=<!--sr:abcdefghijklmnopqrstuvwxyzab-->!'') = ascii ''key=sk-proj-Qz8Xv2Lm!''"
  "restored_run (json_strings.truncate stream_lib) [sample_mapping] (5, Some 2, None)
     (json_member (mp_reference sample_mapping)) = json_member (mp_secret sample_mapping)"
  by code_simp+

theorem stream_fields_restored_witness:
  "\<exists>st out. restorer_run stream_lib [sample_mapping] sample_deltas restorer_new = Inr (st, out)
    \<and> said (0, Some 0, Some 0) out = ascii ''key=sk-proj-Qz8Xv2Lm!''
    \<and> said (5, Some 2, None) out = json_member (mp_secret sample_mapping)"
proof -
  from sample_stream_runs obtain st out where
      run: "restorer_run stream_lib [sample_mapping] sample_deltas restorer_new = Inr (st, out)"
    by (cases "restorer_run stream_lib [sample_mapping] sample_deltas restorer_new") auto
  have "\<forall>m \<in> set [sample_mapping]. mp_secret m \<noteq> []" using sample_strong by simp
  note restored = stream_fields_restored [OF this run]
  from run restored [of "(0, Some 0, Some 0)"] restored [of "(5, Some 2, None)"] show ?thesis
    by (simp add: sample_field_runs sample_restored_runs)
qed

end
