(* ===== verification/MappingStore.thy ===== *)
theory MappingStore
  imports RedactionText "HOL-Library.Char_ord"
begin

text \<open>
  The store of mappings (\<open>stravia-credential-protection/src/store.rs\<close>): the table of references
  and secrets, the references that stored turns hold, and the retention scan with its queue and
  watermarks. An SQL statement is the operation on the table that it denotes and a transaction is
  one step; a failed statement rolls its transaction back and changes nothing.
\<close>

section \<open>Tables\<close>

record mapping_row =
  mr_reference :: ustr
  mr_principal :: string
  mr_secret :: ustr
  mr_rule_ids :: "string list"
  mr_created_at :: int
  mr_last_used_at :: int
  mr_pending_until :: "int option"
  mr_published_at :: "int option"

text \<open>
  \<open>md_pins\<close> is \<open>turn_node_redaction_mappings\<close>, \<open>md_queue\<close> is \<open>redaction_mapping_gc\<close>, and the
  marks are the rows of \<open>history_retention_watermarks\<close>.
\<close>

record mapping_db =
  md_rows :: "mapping_row list"
  md_pins :: "(nat \<times> ustr) set"
  md_queue :: "ustr set"
  md_pending_mark :: int
  md_used_mark :: int

definition empty_db :: mapping_db where
  "empty_db = \<lparr>md_rows = [], md_pins = {}, md_queue = {}, md_pending_mark = - 9223372036854775807,
     md_used_mark = - 9223372036854775807\<rparr>"

text \<open>Saturating \<open>i64\<close> arithmetic, in milliseconds.\<close>

definition sat_i64 :: "int \<Rightarrow> int" where
  "sat_i64 v = max (- (2 ^ 63)) (min (2 ^ 63 - 1) v)"

definition pending_retention :: int where "pending_retention = 60 * 60 * 1000"
definition renewal_granularity :: int where "renewal_granularity = 60 * 60 * 1000"

definition row_mapping :: "mapping_row \<Rightarrow> mapping" where
  "row_mapping r = \<lparr>mp_reference = mr_reference r, mp_secret = mr_secret r, mp_rule_ids = mr_rule_ids r\<rparr>"

definition references_of :: "mapping_db \<Rightarrow> ustr set" where
  "references_of db = mr_reference ` set (md_rows db)"

definition pinned :: "mapping_db \<Rightarrow> ustr \<Rightarrow> bool" where
  "pinned db reference \<longleftrightarrow> reference \<in> snd ` md_pins db"

section \<open>Reading and interning\<close>

definition active_mappings :: "string \<Rightarrow> mapping_db \<Rightarrow> mapping list" where
  "active_mappings owner db =
     map row_mapping (sort_key mr_reference (filter (\<lambda>r. mr_principal r = owner) (md_rows db)))"

definition any_active :: "mapping_db \<Rightarrow> bool" where
  "any_active db \<longleftrightarrow> md_rows db \<noteq> []"

definition plaintext :: "ustr \<Rightarrow> mapping_db \<Rightarrow> ustr option" where
  "plaintext reference db = map_option mr_secret (find (\<lambda>r. mr_reference r = reference) (md_rows db))"

text \<open>\<open>DetectedSecret\<close> and \<open>InternedMappings\<close>.\<close>

record detected_secret =
  ds_secret :: ustr
  ds_rule_ids :: "string list"

record interned =
  in_mappings :: "mapping list"
  in_created :: "nat list"

text \<open>
  The loop of \<open>intern\<close>; \<open>fresh n\<close> is what \<open>new_reference\<close> returns for the \<open>n\<close>-th secret. The
  primary key of the table is the reference.
\<close>

fun intern_loop ::
    "int \<Rightarrow> (nat \<Rightarrow> ustr) \<Rightarrow> string \<Rightarrow> detected_secret list \<Rightarrow> interned \<times> mapping_row list
      \<Rightarrow> (interned \<times> mapping_row list) option" where
  "intern_loop now fresh owner [] st = Some st"
| "intern_loop now fresh owner (d # ds) (got, rows) =
     (case find (\<lambda>r. mr_principal r = owner \<and> mr_secret r = ds_secret d) rows of
        Some r \<Rightarrow> intern_loop now fresh owner ds (got\<lparr>in_mappings := in_mappings got @ [row_mapping r]\<rparr>, rows)
      | None \<Rightarrow>
          let index = length (in_mappings got);
              row = \<lparr>mr_reference = fresh index, mr_principal = owner, mr_secret = ds_secret d,
                     mr_rule_ids = ds_rule_ids d, mr_created_at = now, mr_last_used_at = now,
                     mr_pending_until = Some (sat_i64 (now + pending_retention)), mr_published_at = None\<rparr>
          in if fresh index \<in> mr_reference ` set rows then None
             else intern_loop now fresh owner ds
               (\<lparr>in_mappings = in_mappings got @ [row_mapping row], in_created = in_created got @ [index]\<rparr>,
                rows @ [row]))"

definition intern ::
    "int \<Rightarrow> (nat \<Rightarrow> ustr) \<Rightarrow> string \<Rightarrow> detected_secret list \<Rightarrow> mapping_db \<Rightarrow> (interned \<times> mapping_db) option" where
  "intern now fresh owner secrets db =
     (if secrets = [] then Some (\<lparr>in_mappings = [], in_created = []\<rparr>, db)
      else map_option (\<lambda>(got, rows). (got, db\<lparr>md_rows := rows\<rparr>))
        (intern_loop now fresh owner secrets (\<lparr>in_mappings = [], in_created = []\<rparr>, md_rows db)))"

section \<open>Publishing\<close>

text \<open>The condition of both statements of \<open>publish\<close>.\<close>

definition renewal_due :: "int \<Rightarrow> string \<Rightarrow> mapping_row \<Rightarrow> bool" where
  "renewal_due now owner r \<longleftrightarrow>
     mr_principal r = owner
     \<and> (mr_published_at r = None \<or> mr_last_used_at r < sat_i64 (now - renewal_granularity))"

definition published_row :: "int \<Rightarrow> mapping_row \<Rightarrow> mapping_row" where
  "published_row now r =
     r\<lparr>mr_published_at := Some (case mr_published_at r of None \<Rightarrow> now | Some t \<Rightarrow> t),
       mr_pending_until := None, mr_last_used_at := now\<rparr>"

definition publish :: "int \<Rightarrow> string \<Rightarrow> ustr set \<Rightarrow> mapping_db \<Rightarrow> mapping_db" where
  "publish now owner references db =
     (let due = {mr_reference r | r. r \<in> set (md_rows db) \<and> renewal_due now owner r \<and> mr_reference r \<in> references}
      in db\<lparr>md_rows := map (\<lambda>r. if renewal_due now owner r \<and> mr_reference r \<in> due then published_row now r else r)
           (md_rows db)\<rparr>)"

section \<open>Turns that hold a reference\<close>

text \<open>
  A stored turn refers to existing mappings (a foreign key that restricts deletion). The trigger
  \<open>turn_node_redaction_mappings_release\<close> queues what lost its last turn.
\<close>

definition pin :: "nat \<Rightarrow> ustr \<Rightarrow> mapping_db \<Rightarrow> mapping_db" where
  "pin node reference db = db\<lparr>md_pins := insert (node, reference) (md_pins db)\<rparr>"

definition release_node :: "nat \<Rightarrow> mapping_db \<Rightarrow> mapping_db" where
  "release_node node db =
     (let left = {(n, reference) \<in> md_pins db. n \<noteq> node};
          released = {reference. (node, reference) \<in> md_pins db \<and> reference \<in> references_of db \<and> reference \<notin> snd ` left}
      in db\<lparr>md_pins := left, md_queue := md_queue db \<union> released\<rparr>)"

section \<open>The retention scan\<close>

text \<open>One column: what passed its horizon since the watermark is queued.\<close>

definition scan_column ::
    "(mapping_row \<Rightarrow> int option) \<Rightarrow> (mapping_row \<Rightarrow> bool) \<Rightarrow> int \<Rightarrow> int \<Rightarrow> mapping_db \<Rightarrow> ustr set" where
  "scan_column column keep_row watermark horizon db =
     (if horizon < watermark then {}
      else mr_reference ` set (filter (\<lambda>r.
        (case column r of None \<Rightarrow> False | Some t \<Rightarrow> watermark < t \<and> t \<le> horizon)
        \<and> keep_row r \<and> \<not> pinned db (mr_reference r)) (md_rows db)))"

definition used_threshold :: "int \<Rightarrow> int \<Rightarrow> int" where
  "used_threshold now retention = sat_i64 (sat_i64 (now - retention) - renewal_granularity)"

definition scan_expired :: "int \<Rightarrow> int \<Rightarrow> mapping_db \<Rightarrow> mapping_db" where
  "scan_expired now threshold db =
     db\<lparr>md_queue := md_queue db
          \<union> scan_column mr_pending_until (\<lambda>_. True) (md_pending_mark db) now db
          \<union> scan_column (\<lambda>r. Some (mr_last_used_at r)) (\<lambda>r. mr_published_at r \<noteq> None) (md_used_mark db) threshold db,
        md_pending_mark := now, md_used_mark := threshold\<rparr>"

text \<open>A batch of the queue: what is still expired and not held is deleted, the rest leaves the queue.\<close>

definition expired :: "int \<Rightarrow> int \<Rightarrow> mapping_row \<Rightarrow> bool" where
  "expired now threshold r \<longleftrightarrow>
     (case mr_published_at r of
        None \<Rightarrow> (case mr_pending_until r of None \<Rightarrow> False | Some p \<Rightarrow> p \<le> now)
      | Some _ \<Rightarrow> mr_last_used_at r \<le> threshold)"

definition sweep_batch :: nat where "sweep_batch = 512"

definition claimed :: "mapping_db \<Rightarrow> ustr list" where
  "claimed db = take sweep_batch (sort (remdups (filter (\<lambda>reference. reference \<in> md_queue db) (map mr_reference (md_rows db)))))"

definition reclaim_one :: "int \<Rightarrow> int \<Rightarrow> ustr \<Rightarrow> mapping_db \<times> nat \<Rightarrow> mapping_db \<times> nat" where
  "reclaim_one now threshold reference st =
     (case st of (db, removed) \<Rightarrow>
        let gone = (\<lambda>r. mr_reference r = reference \<and> expired now threshold r \<and> \<not> pinned db reference)
        in (db\<lparr>md_rows := filter (\<lambda>r. \<not> gone r) (md_rows db), md_queue := md_queue db - {reference}\<rparr>,
            sat_add64 removed (length (filter gone (md_rows db)))))"

definition reclaim :: "int \<Rightarrow> int \<Rightarrow> ustr list \<Rightarrow> mapping_db \<times> nat \<Rightarrow> mapping_db \<times> nat" where
  "reclaim now threshold references st = fold (reclaim_one now threshold) references st"

lemma reclaim_queue: "md_queue (fst (reclaim now th refs st)) = md_queue (fst st) - set refs"
  unfolding reclaim_def
  by (induction refs arbitrary: st) (auto simp: reclaim_one_def split: prod.split)

lemma reclaim_rows_subset: "set (md_rows (fst (reclaim now th refs st))) \<subseteq> set (md_rows (fst st))"
  unfolding reclaim_def
proof (induction refs arbitrary: st)
  case (Cons x refs)
  have "set (md_rows (fst (reclaim_one now th x st))) \<subseteq> set (md_rows (fst st))"
    by (cases st) (auto simp: reclaim_one_def Let_def)
  with Cons [of "reclaim_one now th x st"] show ?case by simp
qed simp

lemma claimed_set: "set (claimed db) \<subseteq> md_queue db \<inter> references_of db"
  unfolding claimed_def references_of_def by (auto dest: in_set_takeD)

function sweep_loop :: "int \<Rightarrow> int \<Rightarrow> mapping_db \<times> nat \<Rightarrow> mapping_db \<times> nat" where
  "sweep_loop now threshold st =
     (if claimed (fst st) = [] then st
      else sweep_loop now threshold (reclaim now threshold (claimed (fst st)) st))"
  by pat_completeness auto
termination
proof (relation "measure (\<lambda>(_, _, st). card (md_queue (fst st) \<inter> references_of (fst st)))", goal_cases)
  case (2 now threshold st)
  let ?db = "fst st" let ?db' = "fst (reclaim now threshold (claimed ?db) st)"
  have "md_queue ?db' \<inter> references_of ?db' \<subseteq> (md_queue ?db \<inter> references_of ?db) - set (claimed ?db)"
    using reclaim_rows_subset [of now threshold "claimed ?db" st] by (auto simp: reclaim_queue references_of_def)
  moreover have "(md_queue ?db \<inter> references_of ?db) - set (claimed ?db) \<subset> md_queue ?db \<inter> references_of ?db"
    using claimed_set [of ?db] 2 by (cases "claimed ?db") auto
  ultimately have "md_queue ?db' \<inter> references_of ?db' \<subset> md_queue ?db \<inter> references_of ?db" by (rule subset_psubset_trans)
  then show ?case by (auto intro!: psubset_card_mono simp: references_of_def)
qed simp

declare sweep_loop.simps [simp del]

definition sweep :: "int \<Rightarrow> int \<Rightarrow> mapping_db \<Rightarrow> mapping_db \<times> nat" where
  "sweep now retention db =
     (let threshold = used_threshold now retention
      in sweep_loop now threshold (scan_expired now threshold db, 0))"

section \<open>Interning\<close>

definition keyed :: "mapping_row list \<Rightarrow> bool" where
  "keyed rows \<longleftrightarrow> distinct (map mr_reference rows) \<and> distinct (map (\<lambda>r. (mr_principal r, mr_secret r)) rows)"

text \<open>What \<open>intern\<close> adds: unpublished rows; what it returns: a mapping for each secret.\<close>

definition fresh_row :: "int \<Rightarrow> string \<Rightarrow> mapping_row \<Rightarrow> bool" where
  "fresh_row now owner r \<longleftrightarrow> mr_principal r = owner \<and> mr_published_at r = None \<and> mr_created_at r = now
     \<and> mr_last_used_at r = now \<and> mr_pending_until r = Some (sat_i64 (now + pending_retention))"

definition interns ::
    "int \<Rightarrow> string \<Rightarrow> detected_secret list \<Rightarrow> interned \<times> mapping_row list \<Rightarrow> interned \<times> mapping_row list \<Rightarrow> bool" where
  "interns now owner ds st st' \<longleftrightarrow>
     (\<exists>new ms. snd st' = snd st @ new \<and> (\<forall>r \<in> set new. fresh_row now owner r)
        \<and> in_mappings (fst st') = in_mappings (fst st) @ ms \<and> map mp_secret ms = map ds_secret ds
        \<and> set ms \<subseteq> row_mapping ` {r \<in> set (snd st'). mr_principal r = owner}
        \<and> (\<forall>i \<in> set (in_created (fst st')) - set (in_created (fst st)).
              i < length (in_mappings (fst st')) \<and> in_mappings (fst st') ! i \<in> row_mapping ` set new))"

lemma interns_step:
  assumes "interns now owner ds (got1, rows1) st'"
    and rows: "rows1 = rows @ new1" "\<forall>r \<in> set new1. fresh_row now owner r"
    and got: "in_mappings got1 = in_mappings got @ [row_mapping r]" "mp_secret (row_mapping r) = ds_secret d"
    and r: "r \<in> set rows1" "mr_principal r = owner"
    and created: "in_created got1 = in_created got @ (if new1 = [] then [] else [length (in_mappings got)])" "set new1 \<subseteq> {r}"
  shows "interns now owner (d # ds) (got, rows) st'"
proof -
  obtain new ms where n: "snd st' = rows1 @ new" "\<forall>r \<in> set new. fresh_row now owner r"
      "in_mappings (fst st') = in_mappings got1 @ ms" "map mp_secret ms = map ds_secret ds"
      "set ms \<subseteq> row_mapping ` {r \<in> set (snd st'). mr_principal r = owner}"
      "\<forall>i \<in> set (in_created (fst st')) - set (in_created got1).
          i < length (in_mappings (fst st')) \<and> in_mappings (fst st') ! i \<in> row_mapping ` set new"
    using assms(1) by (auto simp: interns_def)
  have "in_mappings (fst st') ! i \<in> row_mapping ` set (new1 @ new) \<and> i < length (in_mappings (fst st'))"
    if "i \<in> set (in_created (fst st')) - set (in_created got)" for i
  proof (cases "i \<in> set (in_created got1)")
    case True
    with that created(1) have i: "new1 \<noteq> []" "i = length (in_mappings got)" by (auto split: if_splits)
    then have "r \<in> set new1" using created(2) by (cases new1) auto
    then show ?thesis using n(3) got(1) i by (simp add: nth_append)
  next
    case False
    with n(6) that show ?thesis by auto
  qed
  then show ?thesis
    unfolding interns_def using n rows got r
    by (intro exI [of _ "new1 @ new"] exI [of _ "row_mapping r # ms"]) auto
qed

lemma intern_loop_Some:
  assumes "intern_loop now fresh owner ds (got, rows) = Some st'" "keyed rows"
  shows "keyed (snd st') \<and> interns now owner ds (got, rows) st'"
  using assms
proof (induction ds arbitrary: got rows)
  case Nil
  then show ?case by (auto simp: interns_def)
next
  case (Cons d ds)
  show ?case
  proof (cases "find (\<lambda>r. mr_principal r = owner \<and> mr_secret r = ds_secret d) rows")
    case None
    let ?n = "length (in_mappings got)"
    define row where "row = \<lparr>mr_reference = fresh ?n, mr_principal = owner, mr_secret = ds_secret d,
                     mr_rule_ids = ds_rule_ids d, mr_created_at = now, mr_last_used_at = now,
                     mr_pending_until = Some (sat_i64 (now + pending_retention)), mr_published_at = None\<rparr>"
    from Cons.prems(1) None have fresh: "fresh ?n \<notin> mr_reference ` set rows"
      and run: "intern_loop now fresh owner ds
        (\<lparr>in_mappings = in_mappings got @ [row_mapping row], in_created = in_created got @ [?n]\<rparr>, rows @ [row]) = Some st'"
      by (auto simp: Let_def row_def split: if_splits)
    from None have "\<forall>r \<in> set rows. (mr_principal r, mr_secret r) \<noteq> (owner, ds_secret d)" by (auto simp: find_None_iff)
    with Cons.prems(2) fresh have "keyed (rows @ [row])" by (auto simp: keyed_def row_def)
    note ih = Cons.IH [OF run this]
    have "interns now owner (d # ds) (got, rows) st'"
      by (rule interns_step [OF conjunct2 [OF ih], where ?new1.0 = "[row]" and r = row])
        (simp_all add: row_def fresh_row_def row_mapping_def)
    with ih show ?thesis by blast
  next
    case (Some r)
    then have r: "r \<in> set rows" "mr_principal r = owner" "mr_secret r = ds_secret d" by (auto simp: find_Some_iff)
    from Cons.prems(1) Some have
      "intern_loop now fresh owner ds (got\<lparr>in_mappings := in_mappings got @ [row_mapping r]\<rparr>, rows) = Some st'" by simp
    note ih = Cons.IH [OF this Cons.prems(2)]
    have "interns now owner (d # ds) (got, rows) st'"
      by (rule interns_step [OF conjunct2 [OF ih], where ?new1.0 = "[]" and r = r]) (simp_all add: r, simp add: row_mapping_def r)
    with ih show ?thesis by blast
  qed
qed

lemma intern_Some:
  assumes "intern now fresh owner ds db = Some (got, db')" "keyed (md_rows db)"
  obtains new where "db' = db\<lparr>md_rows := md_rows db @ new\<rparr>" "\<forall>r \<in> set new. fresh_row now owner r"
    "keyed (md_rows db')" "map mp_secret (in_mappings got) = map ds_secret ds"
    "set (in_mappings got) \<subseteq> row_mapping ` {r \<in> set (md_rows db'). mr_principal r = owner}"
    "\<forall>i \<in> set (in_created got). i < length (in_mappings got) \<and> in_mappings got ! i \<in> row_mapping ` set new"
proof (cases "ds = []")
  case True
  with assms(1) have "got = \<lparr>in_mappings = [], in_created = []\<rparr>" "db' = db" by (simp_all add: intern_def)
  with assms(2) True show ?thesis by (intro that [of "[]"]) simp_all
next
  case False
  with assms(1) obtain rows where run: "intern_loop now fresh owner ds (\<lparr>in_mappings = [], in_created = []\<rparr>, md_rows db)
      = Some (got, rows)" and db': "db' = db\<lparr>md_rows := rows\<rparr>"
    by (auto simp: intern_def)
  from intern_loop_Some [OF run assms(2)] db' that show ?thesis by (auto simp: interns_def)
qed

section \<open>The store over time\<close>

text \<open>
  \<open>w_used\<close> is when a turn last used a reference, \<open>w_sweeps\<close> holds time and retention of the
  scans that are running: a scan queues once and then takes batches until none is left, and other
  transactions come in between. \<open>overlap\<close> says whether a scan may start while another runs.
\<close>

record world =
  w_db :: mapping_db
  w_now :: int
  w_used :: "ustr \<Rightarrow> int option"
  w_sweeps :: "(int \<times> int) set"

inductive store_step :: "bool \<Rightarrow> world \<Rightarrow> world \<Rightarrow> bool" for overlap :: bool where
  tick: "w_now s \<le> t \<Longrightarrow> t < 2 ^ 62 \<Longrightarrow> store_step overlap s (s\<lparr>w_now := t\<rparr>)"
| intern_step: "intern (w_now s) fresh owner ds (w_db s) = Some (got, db) \<Longrightarrow> store_step overlap s (s\<lparr>w_db := db\<rparr>)"
| publish_step: "store_step overlap s
    (s\<lparr>w_db := publish (w_now s) owner references (w_db s),
       w_used := (\<lambda>reference. if reference \<in> references
           \<and> (\<exists>r \<in> set (md_rows (w_db s)). mr_reference r = reference \<and> mr_principal r = owner)
         then Some (w_now s) else w_used s reference)\<rparr>)"
| pin_step: "reference \<in> references_of (w_db s) \<Longrightarrow> store_step overlap s (s\<lparr>w_db := pin node reference (w_db s)\<rparr>)"
| release_step: "store_step overlap s (s\<lparr>w_db := release_node node (w_db s)\<rparr>)"
| scan_step: "overlap \<or> w_sweeps s = {} \<Longrightarrow> 0 \<le> t \<Longrightarrow> t \<le> w_now s \<Longrightarrow> 0 \<le> retention \<Longrightarrow>
    store_step overlap s (s\<lparr>w_db := scan_expired t (used_threshold t retention) (w_db s),
      w_sweeps := insert (t, retention) (w_sweeps s)\<rparr>)"
| batch_step: "(t, retention) \<in> w_sweeps s \<Longrightarrow>
    store_step overlap s (s\<lparr>w_db := fst (reclaim t (used_threshold t retention) (claimed (w_db s)) (w_db s, 0))\<rparr>)"
| end_step: "(t, retention) \<in> w_sweeps s \<Longrightarrow> claimed (w_db s) = [] \<Longrightarrow>
    store_step overlap s (s\<lparr>w_sweeps := w_sweeps s - {(t, retention)}\<rparr>)"

definition initial_world :: "world \<Rightarrow> bool" where
  "initial_world s \<longleftrightarrow> w_db s = empty_db \<and> 0 \<le> w_now s \<and> w_now s < 2 ^ 62 \<and> w_used s = (\<lambda>_. None) \<and> w_sweeps s = {}"

inductive store_reachable :: "bool \<Rightarrow> world \<Rightarrow> bool" for overlap :: bool where
  start: "initial_world s \<Longrightarrow> store_reachable overlap s"
| step: "store_reachable overlap s \<Longrightarrow> store_step overlap s s' \<Longrightarrow> store_reachable overlap s'"

text \<open>The rows: unpublished ones wait for their deadline, published ones know about their last use.\<close>

definition row_ok :: "int \<Rightarrow> int option \<Rightarrow> mapping_row \<Rightarrow> bool" where
  "row_ok now used r \<longleftrightarrow> 0 \<le> mr_created_at r \<and> 0 \<le> mr_last_used_at r \<and>
     (case mr_published_at r of
        None \<Rightarrow> mr_created_at r \<le> now \<and> mr_pending_until r = Some (sat_i64 (mr_created_at r + pending_retention))
      | Some _ \<Rightarrow> mr_pending_until r = None \<and> (\<exists>u. used = Some u \<and> u \<le> mr_last_used_at r + renewal_granularity))"

definition store_inv :: "world \<Rightarrow> bool" where
  "store_inv s \<longleftrightarrow> keyed (md_rows (w_db s)) \<and> (\<forall>r \<in> set (md_rows (w_db s)). row_ok (w_now s) (w_used s (mr_reference r)) r)
     \<and> snd ` md_pins (w_db s) \<subseteq> references_of (w_db s) \<and> 0 \<le> w_now s \<and> w_now s < 2 ^ 62
     \<and> (\<forall>(t, retention) \<in> w_sweeps s. 0 \<le> t \<and> t \<le> w_now s \<and> 0 \<le> retention)"

lemma keyed_filter: "keyed rows \<Longrightarrow> keyed (filter P rows)"
  unfolding keyed_def by (simp add: distinct_map_filter)

lemma reclaim_filter:
  "md_rows (fst (reclaim now th refs st))
      = filter (\<lambda>r. \<not> (mr_reference r \<in> set refs \<and> expired now th r \<and> \<not> pinned (fst st) (mr_reference r))) (md_rows (fst st))"
  "md_pins (fst (reclaim now th refs st)) = md_pins (fst st)"
  "md_pending_mark (fst (reclaim now th refs st)) = md_pending_mark (fst st)"
  "md_used_mark (fst (reclaim now th refs st)) = md_used_mark (fst st)"
proof -
  have "md_rows (fst (reclaim now th refs st))
      = filter (\<lambda>r. \<not> (mr_reference r \<in> set refs \<and> expired now th r \<and> \<not> pinned (fst st) (mr_reference r))) (md_rows (fst st))
    \<and> md_pins (fst (reclaim now th refs st)) = md_pins (fst st)
    \<and> md_pending_mark (fst (reclaim now th refs st)) = md_pending_mark (fst st)
    \<and> md_used_mark (fst (reclaim now th refs st)) = md_used_mark (fst st)"
    unfolding reclaim_def
  proof (induction refs arbitrary: st)
    case (Cons x refs)
    have "md_pins (fst (reclaim_one now th x st)) = md_pins (fst st)"
      "md_pending_mark (fst (reclaim_one now th x st)) = md_pending_mark (fst st)"
      "md_used_mark (fst (reclaim_one now th x st)) = md_used_mark (fst st)"
      "md_rows (fst (reclaim_one now th x st))
        = filter (\<lambda>r. \<not> (mr_reference r = x \<and> expired now th r \<and> \<not> pinned (fst st) (mr_reference r))) (md_rows (fst st))"
      by (cases st; auto simp: reclaim_one_def Let_def intro!: filter_cong)+
    with Cons [of "reclaim_one now th x st"] show ?case
      by (auto simp: pinned_def intro!: filter_cong)
  qed simp
  then show "md_rows (fst (reclaim now th refs st))
      = filter (\<lambda>r. \<not> (mr_reference r \<in> set refs \<and> expired now th r \<and> \<not> pinned (fst st) (mr_reference r))) (md_rows (fst st))"
    "md_pins (fst (reclaim now th refs st)) = md_pins (fst st)"
    "md_pending_mark (fst (reclaim now th refs st)) = md_pending_mark (fst st)"
    "md_used_mark (fst (reclaim now th refs st)) = md_used_mark (fst st)"
    by blast+
qed

lemma publish_rows:
  "md_rows (publish now owner refs db)
    = map (\<lambda>r. if renewal_due now owner r \<and> mr_reference r \<in> refs then published_row now r else r) (md_rows db)"
  unfolding publish_def by (auto simp: Let_def)

lemma publish_keys:
  "map mr_reference (md_rows (publish now owner refs db)) = map mr_reference (md_rows db)"
  "map (\<lambda>r. (mr_principal r, mr_secret r)) (md_rows (publish now owner refs db)) = map (\<lambda>r. (mr_principal r, mr_secret r)) (md_rows db)"
  by (auto simp: publish_rows published_row_def)

lemma publish_same [simp]:
  "md_pins (publish now owner refs db) = md_pins db" "md_queue (publish now owner refs db) = md_queue db"
  "md_pending_mark (publish now owner refs db) = md_pending_mark db"
  "md_used_mark (publish now owner refs db) = md_used_mark db"
  by (simp_all add: publish_def Let_def)

lemma references_of_map: "references_of db = set (map mr_reference (md_rows db))"
  by (simp add: references_of_def)

lemma publish_references [simp]: "references_of (publish now owner refs db) = references_of db"
  unfolding references_of_map publish_keys ..

lemma sat_i64_small: "\<bar>v\<bar> < 2 ^ 62 + 2 ^ 61 \<Longrightarrow> sat_i64 v = v"
  by (simp add: sat_i64_def)

lemma row_ok_later: "row_ok now used r \<Longrightarrow> now \<le> t \<Longrightarrow> row_ok t used r"
  by (auto simp: row_ok_def split: option.splits)

lemma published_row_ok:
  assumes ok: "row_ok now used r" and now: "0 \<le> now" "now < 2 ^ 62" and owner: "mr_principal r = owner"
  shows "row_ok now (Some now) (if renewal_due now owner r then published_row now r else r)"
proof (cases "renewal_due now owner r")
  case True
  with ok now show ?thesis by (auto simp: row_ok_def published_row_def renewal_granularity_def)
next
  case False
  then obtain p where p: "mr_published_at r = Some p" "sat_i64 (now - renewal_granularity) \<le> mr_last_used_at r"
    using owner by (auto simp: renewal_due_def)
  moreover have "sat_i64 (now - renewal_granularity) = now - renewal_granularity"
    using now by (intro sat_i64_small) (simp add: renewal_granularity_def)
  ultimately show ?thesis using ok False by (simp add: row_ok_def)
qed

lemma fresh_row_ok:
  assumes "fresh_row now owner r" "0 \<le> now"
  shows "row_ok now used r"
  using assms by (simp add: fresh_row_def row_ok_def)

lemma keyed_unique: "keyed rows \<Longrightarrow> r \<in> set rows \<Longrightarrow> r' \<in> set rows \<Longrightarrow> mr_reference r = mr_reference r' \<Longrightarrow> r = r'"
  unfolding keyed_def by (auto simp: distinct_map dest: inj_onD)

lemma publish_ok:
  assumes key: "keyed (md_rows db)" and ok: "\<forall>r \<in> set (md_rows db). row_ok now (used (mr_reference r)) r"
    and now: "0 \<le> now" "now < 2 ^ 62" and r: "r \<in> set (md_rows (publish now owner refs db))"
  shows "row_ok now (if mr_reference r \<in> refs \<and> (\<exists>r' \<in> set (md_rows db). mr_reference r' = mr_reference r \<and> mr_principal r' = owner)
    then Some now else used (mr_reference r)) r"
proof -
  from r obtain r0 where r0: "r0 \<in> set (md_rows db)"
      "r = (if renewal_due now owner r0 \<and> mr_reference r0 \<in> refs then published_row now r0 else r0)"
    unfolding publish_rows by auto
  then have ref: "mr_reference r = mr_reference r0" by (simp add: published_row_def)
  have owner: "(\<exists>r' \<in> set (md_rows db). mr_reference r' = mr_reference r \<and> mr_principal r' = owner) \<longleftrightarrow> mr_principal r0 = owner"
    using keyed_unique [OF key _ r0(1)] r0(1) ref by auto
  show ?thesis
  proof (cases "mr_reference r0 \<in> refs \<and> mr_principal r0 = owner")
    case True
    then show ?thesis using published_row_ok [of now "used (mr_reference r0)" r0 owner] ok r0 now ref owner by simp
  next
    case False
    then have "r = r0" using r0(2) by (auto simp: renewal_due_def)
    then show ?thesis using ok r0(1) False owner ref by auto
  qed
qed

lemma release_same [simp]: "md_rows (release_node node db) = md_rows db" "md_pins (release_node node db) = {(n, r) \<in> md_pins db. n \<noteq> node}"
  by (simp_all add: release_node_def Let_def)

lemma scan_same [simp]: "md_rows (scan_expired now th db) = md_rows db" "md_pins (scan_expired now th db) = md_pins db"
  "md_pending_mark (scan_expired now th db) = now" "md_used_mark (scan_expired now th db) = th"
  by (simp_all add: scan_expired_def)

lemma pin_same [simp]: "md_rows (pin node reference db) = md_rows db" "md_pins (pin node reference db) = insert (node, reference) (md_pins db)"
  by (simp_all add: pin_def)

lemma store_step_inv:
  assumes "store_step overlap s s'" "store_inv s"
  shows "store_inv s'"
  using assms
proof (induction rule: store_step.induct)
  case (tick s t)
  then show ?case by (auto simp: store_inv_def intro: row_ok_later)
next
  case (intern_step s fresh owner ds got db)
  then have key: "keyed (md_rows (w_db s))" and now: "0 \<le> w_now s" by (simp_all add: store_inv_def)
  from intern_Some [OF intern_step(1) key] obtain new where
    "db = w_db s\<lparr>md_rows := md_rows (w_db s) @ new\<rparr>" "\<forall>r \<in> set new. fresh_row (w_now s) owner r" "keyed (md_rows db)"
    by metis
  with intern_step(2) fresh_row_ok [OF _ now] show ?case by (auto simp: store_inv_def references_of_def)
next
  case (publish_step s references owner)
  then have key: "keyed (md_rows (w_db s))" and ok: "\<forall>r \<in> set (md_rows (w_db s)). row_ok (w_now s) (w_used s (mr_reference r)) r"
    and now: "0 \<le> w_now s" "w_now s < 2 ^ 62"
    by (simp_all add: store_inv_def)
  have "keyed (md_rows (publish (w_now s) owner references (w_db s)))"
    using key unfolding keyed_def publish_keys .
  with publish_step show ?case using publish_ok [OF key ok now, of _ owner references] by (simp add: store_inv_def)
next
  case (pin_step reference s node)
  then show ?case by (auto simp: store_inv_def references_of_def)
next
  case (release_step s node)
  then show ?case by (auto simp: store_inv_def references_of_def)
next
  case (scan_step s t retention)
  then show ?case by (auto simp: store_inv_def references_of_def)
next
  case (batch_step t retention s)
  let ?db = "fst (reclaim t (used_threshold t retention) (claimed (w_db s)) (w_db s, 0))"
  have "snd ` md_pins ?db \<subseteq> references_of ?db"
  proof
    fix x assume "x \<in> snd ` md_pins ?db"
    then have x: "pinned (w_db s) x" by (simp add: reclaim_filter pinned_def)
    then have "x \<in> references_of (w_db s)" using batch_step(2) by (auto simp: store_inv_def pinned_def)
    with x show "x \<in> references_of ?db" by (auto simp: references_of_def reclaim_filter)
  qed
  with batch_step(2) keyed_filter show ?case by (simp add: store_inv_def reclaim_filter)
next
  case (end_step t retention s)
  then show ?case by (auto simp: store_inv_def)
qed

lemma store_reachable_inv: "store_reachable overlap s \<Longrightarrow> store_inv s"
proof (induction rule: store_reachable.induct)
  case (start s)
  then show ?case by (simp add: initial_world_def store_inv_def empty_db_def keyed_def)
qed (rule store_step_inv)

text \<open>Which rows a step may delete.\<close>

lemma used_threshold_exact:
  assumes "v \<le> used_threshold t retention" "0 \<le> v" "0 \<le> t" "0 \<le> retention" "t < 2 ^ 62"
  shows "v \<le> t - retention - renewal_granularity"
  using assms by (auto simp: used_threshold_def sat_i64_def renewal_granularity_def max_def min_def split: if_splits)

lemma deleted_row:
  assumes "store_step overlap s s'" "store_inv s" "r \<in> set (md_rows (w_db s))" "mr_reference r \<notin> references_of (w_db s')"
  obtains t retention where "(t, retention) \<in> w_sweeps s" "\<not> pinned (w_db s) (mr_reference r)"
    "expired t (used_threshold t retention) r"
  using assms
proof (induction rule: store_step.induct)
  case (intern_step s fresh owner ds got db)
  then have "keyed (md_rows (w_db s))" by (simp add: store_inv_def)
  from intern_Some [OF intern_step(1) this] obtain new where "db = w_db s\<lparr>md_rows := md_rows (w_db s) @ new\<rparr>" by metis
  with intern_step show ?case by (auto simp: references_of_def)
next
  case (publish_step s references owner)
  then show ?case by (simp add: references_of_def [symmetric]) (simp add: references_of_def)
next
  case (batch_step t retention s)
  have "mr_reference r \<in> set (claimed (w_db s)) \<and> expired t (used_threshold t retention) r \<and> \<not> pinned (w_db s) (mr_reference r)"
  proof (rule ccontr)
    assume "\<not> ?thesis"
    with batch_step have "r \<in> set (md_rows (fst (reclaim t (used_threshold t retention) (claimed (w_db s)) (w_db s, 0))))"
      by (auto simp: reclaim_filter)
    with batch_step show False by (auto simp: references_of_def)
  qed
  with batch_step show ?case by blast
qed (auto simp: references_of_def)

text \<open>
  C12: However requests, releases and scans interleave, a mapping is deleted only when no stored
  turn holds its reference, and then only after its first hour if it was never published, or
  after the retention of the deleting scan has passed since a turn last used it, although the
  recorded time of use may lag behind.
\<close>

theorem mapping_kept_while_needed:
  assumes "store_reachable overlap s" "store_step overlap s s'"
    and "r \<in> set (md_rows (w_db s))" "mr_reference r \<notin> references_of (w_db s')"
  shows "\<not> pinned (w_db s) (mr_reference r)
    \<and> (\<exists>(t, retention) \<in> w_sweeps s. t \<le> w_now s
        \<and> (case mr_published_at r of
             None \<Rightarrow> mr_created_at r + 60 * 60 * 1000 \<le> t
           | Some _ \<Rightarrow> \<exists>u. w_used s (mr_reference r) = Some u \<and> u + retention \<le> t))"
proof -
  note inv = store_reachable_inv [OF assms(1)]
  from deleted_row [OF assms(2) inv assms(3,4)] obtain t retention where
    sw: "(t, retention) \<in> w_sweeps s" and p: "\<not> pinned (w_db s) (mr_reference r)" and e: "expired t (used_threshold t retention) r" .
  have ok: "row_ok (w_now s) (w_used s (mr_reference r)) r" and now: "w_now s < 2 ^ 62"
    and t: "0 \<le> t" "t \<le> w_now s" "0 \<le> retention"
    using inv sw assms(3) by (auto simp: store_inv_def)
  have "case mr_published_at r of
             None \<Rightarrow> mr_created_at r + 60 * 60 * 1000 \<le> t
           | Some _ \<Rightarrow> \<exists>u. w_used s (mr_reference r) = Some u \<and> u + retention \<le> t"
  proof (cases "mr_published_at r")
    case None
    have "sat_i64 (mr_created_at r + pending_retention) = mr_created_at r + pending_retention"
      using ok None now by (intro sat_i64_small) (simp add: row_ok_def pending_retention_def)
    with e ok None show ?thesis by (simp add: expired_def row_ok_def pending_retention_def)
  next
    case (Some q)
    with ok obtain u where u: "w_used s (mr_reference r) = Some u" "u \<le> mr_last_used_at r + renewal_granularity"
      by (auto simp: row_ok_def)
    have "mr_last_used_at r \<le> t - retention - renewal_granularity"
      using e Some ok t now by (intro used_threshold_exact) (auto simp: expired_def row_ok_def)
    with u Some show ?thesis by simp
  qed
  with p sw t(2) show ?thesis by blast
qed

section \<open>Nothing expired is left behind\<close>

text \<open>
  While scans do not overlap, every expired mapping below the watermarks that no turn holds is in
  the queue.
\<close>

definition queued_below :: "mapping_db \<Rightarrow> bool" where
  "queued_below db \<longleftrightarrow> (\<forall>r \<in> set (md_rows db).
     \<not> pinned db (mr_reference r) \<and> expired (md_pending_mark db) (md_used_mark db) r \<longrightarrow> mr_reference r \<in> md_queue db)"

definition scan_inv :: "world \<Rightarrow> bool" where
  "scan_inv s \<longleftrightarrow> queued_below (w_db s) \<and> md_pending_mark (w_db s) \<le> w_now s \<and> md_used_mark (w_db s) < w_now s
     \<and> (w_sweeps s = {} \<or> (\<exists>retention. w_sweeps s = {(md_pending_mark (w_db s), retention)}
         \<and> md_used_mark (w_db s) = used_threshold (md_pending_mark (w_db s)) retention))"

lemma used_threshold_less: "0 \<le> t \<Longrightarrow> t < 2 ^ 62 \<Longrightarrow> 0 \<le> retention \<Longrightarrow> used_threshold t retention < t"
  by (auto simp: used_threshold_def sat_i64_def renewal_granularity_def max_def min_def)

lemma scan_queues:
  assumes q: "queued_below db" and ok: "\<forall>r \<in> set (md_rows db). mr_published_at r = None \<or> mr_pending_until r = None"
  shows "queued_below (scan_expired t th db)"
  unfolding queued_below_def
proof (intro ballI impI)
  fix r assume r: "r \<in> set (md_rows (scan_expired t th db))"
    and e: "\<not> pinned (scan_expired t th db) (mr_reference r)
      \<and> expired (md_pending_mark (scan_expired t th db)) (md_used_mark (scan_expired t th db)) r"
  then have r': "r \<in> set (md_rows db)" "\<not> pinned db (mr_reference r)" "expired t th r"
    by (simp_all add: pinned_def)
  show "mr_reference r \<in> md_queue (scan_expired t th db)"
  proof (cases "expired (md_pending_mark db) (md_used_mark db) r")
    case True
    with q r' show ?thesis by (auto simp: queued_below_def scan_expired_def)
  next
    case False
    with r' show ?thesis
      by (auto simp: scan_expired_def scan_column_def expired_def split: option.splits)
  qed
qed

lemma store_step_scan:
  assumes "store_step False s s'" "store_inv s" "scan_inv s"
  shows "scan_inv s'"
  using assms
proof (induction rule: store_step.induct)
  case (tick s t)
  then show ?case by (auto simp: scan_inv_def)
next
  case (intern_step s fresh owner ds got db)
  then have key: "keyed (md_rows (w_db s))" by (simp add: store_inv_def)
  have now: "0 \<le> w_now s" "w_now s < 2 ^ 62" using intern_step by (simp_all add: store_inv_def)
  from intern_Some [OF intern_step(1) key] obtain new where
    new: "db = w_db s\<lparr>md_rows := md_rows (w_db s) @ new\<rparr>" "\<forall>r \<in> set new. fresh_row (w_now s) owner r"
    by metis
  have "sat_i64 (w_now s + pending_retention) = w_now s + pending_retention"
    using now by (intro sat_i64_small) (simp add: pending_retention_def)
  then have "\<not> expired (md_pending_mark (w_db s)) th r" if "r \<in> set new" for r th
    using that new(2) intern_step(3) by (auto simp: fresh_row_def expired_def scan_inv_def pending_retention_def)
  with intern_step(3) show ?case by (auto simp: new(1) scan_inv_def queued_below_def pinned_def)
next
  case (publish_step s references owner)
  have "\<not> expired th (md_used_mark (w_db s)) (published_row (w_now s) r)" for th r
    using publish_step(2) by (simp add: expired_def published_row_def scan_inv_def)
  with publish_step(2) show ?case
    by (auto simp: scan_inv_def queued_below_def pinned_def publish_rows)
next
  case (pin_step reference s node)
  then show ?case by (auto simp: scan_inv_def queued_below_def pinned_def pin_def)
next
  case (release_step s node)
  then show ?case
    by (auto simp: scan_inv_def queued_below_def pinned_def release_node_def Let_def references_of_def image_iff)
next
  case (scan_step s t retention)
  have "\<forall>r \<in> set (md_rows (w_db s)). mr_published_at r = None \<or> mr_pending_until r = None"
    using scan_step(5) by (auto simp: store_inv_def row_ok_def split: option.splits)
  then have "queued_below (scan_expired t (used_threshold t retention) (w_db s))"
    using scan_step(6) by (intro scan_queues) (simp add: scan_inv_def)
  moreover have "used_threshold t retention < w_now s"
    using used_threshold_less [of t retention] scan_step by (simp add: store_inv_def)
  ultimately show ?case using scan_step by (auto simp: scan_inv_def)
next
  case (batch_step t retention s)
  then have t: "t = md_pending_mark (w_db s)" "used_threshold t retention = md_used_mark (w_db s)"
    by (auto simp: scan_inv_def)
  let ?db = "fst (reclaim t (used_threshold t retention) (claimed (w_db s)) (w_db s, 0))"
  have "queued_below (w_db s)" using batch_step(3) by (simp add: scan_inv_def)
  then have "queued_below ?db"
    unfolding queued_below_def t(2) by (auto simp: reclaim_filter reclaim_queue pinned_def t(1))
  with batch_step(3) show ?case by (simp add: scan_inv_def reclaim_filter)
next
  case (end_step t retention s)
  then show ?case by (auto simp: scan_inv_def)
qed

lemma store_reachable_scan: "store_reachable False s \<Longrightarrow> scan_inv s"
proof (induction rule: store_reachable.induct)
  case (start s)
  then show ?case by (simp add: initial_world_def scan_inv_def empty_db_def queued_below_def)
next
  case (step s s')
  with store_step_scan store_reachable_inv show ?case by blast
qed

lemma claimed_empty: "claimed db = [] \<Longrightarrow> r \<in> set (md_rows db) \<Longrightarrow> mr_reference r \<notin> md_queue db"
proof
  assume empty: "claimed db = []" and r: "r \<in> set (md_rows db)" "mr_reference r \<in> md_queue db"
  let ?queued = "filter (\<lambda>reference. reference \<in> md_queue db) (map mr_reference (md_rows db))"
  have "sort (remdups ?queued) = []" using empty by (simp add: claimed_def sweep_batch_def)
  then have "set (sort (remdups ?queued)) = {}" by (simp only: list.set)
  with r show False by auto
qed

lemma reclaim_removed:
  "snd st \<le> u64_max \<Longrightarrow> snd (reclaim now th refs st)
    = min u64_max (snd st + (length (md_rows (fst st)) - length (md_rows (fst (reclaim now th refs st)))))"
  unfolding reclaim_def
proof (induction refs arbitrary: st)
  case (Cons x refs)
  let ?st = "reclaim_one now th x st"
  obtain db n where st: "st = (db, n)" by (cases st)
  let ?gone = "\<lambda>r. mr_reference r = x \<and> expired now th r \<and> \<not> pinned db x"
  have one: "snd ?st = min u64_max (n + length (filter ?gone (md_rows db)))"
      "length (md_rows (fst ?st)) = length (filter (\<lambda>r. \<not> ?gone r) (md_rows db))"
    by (simp_all add: st reclaim_one_def Let_def sat_add64_def)
  have "length (md_rows (fst (fold (reclaim_one now th) refs ?st))) \<le> length (md_rows (fst ?st))"
    using reclaim_filter(1) [of now th refs ?st] by (simp add: reclaim_def)
  with Cons.IH [of ?st] one sum_length_filter_compl [of ?gone "md_rows db"] Cons.prems st show ?case by (simp add: st)
qed simp

lemma sweep_loop_exact:
  "snd st \<le> u64_max \<Longrightarrow>
    md_rows (fst (sweep_loop now th st))
      = filter (\<lambda>r. \<not> (mr_reference r \<in> md_queue (fst st) \<and> expired now th r \<and> \<not> pinned (fst st) (mr_reference r))) (md_rows (fst st))
    \<and> snd (sweep_loop now th st)
      = min u64_max (snd st + (length (md_rows (fst st)) - length (md_rows (fst (sweep_loop now th st)))))"
proof (induction now th st rule: sweep_loop.induct)
  case (1 now th st)
  show ?case
  proof (cases "claimed (fst st) = []")
    case True
    then have "sweep_loop now th st = st" by (subst sweep_loop.simps) simp
    with claimed_empty [OF True] 1(2) show ?thesis by (auto simp: filter_id_conv)
  next
    case False
    let ?st = "reclaim now th (claimed (fst st)) st"
    from False have loop: "sweep_loop now th st = sweep_loop now th ?st" by (subst sweep_loop.simps) simp
    have "snd ?st \<le> u64_max" using reclaim_removed [OF 1(2)] by simp
    note ih = 1(1) [OF False this]
    have "md_rows (fst (sweep_loop now th ?st))
      = filter (\<lambda>r. \<not> (mr_reference r \<in> md_queue (fst st) \<and> expired now th r \<and> \<not> pinned (fst st) (mr_reference r))) (md_rows (fst st))"
    proof -
      have "md_rows (fst (sweep_loop now th ?st)) = filter (\<lambda>r. \<not> (mr_reference r \<in> set (claimed (fst st)) \<and> expired now th r \<and> \<not> pinned (fst st) (mr_reference r))
          \<and> \<not> (mr_reference r \<in> md_queue (fst st) - set (claimed (fst st)) \<and> expired now th r \<and> \<not> pinned (fst st) (mr_reference r))) (md_rows (fst st))"
        unfolding conjunct1 [OF ih] reclaim_queue by (simp add: reclaim_filter pinned_def)
      also have "\<dots> = filter (\<lambda>r. \<not> (mr_reference r \<in> md_queue (fst st) \<and> expired now th r \<and> \<not> pinned (fst st) (mr_reference r))) (md_rows (fst st))"
        using claimed_set [of "fst st"] by (intro filter_cong refl) blast
      finally show ?thesis .
    qed
    moreover have "length (md_rows (fst (sweep_loop now th ?st))) \<le> length (md_rows (fst ?st))"
      using ih by simp
    moreover have "length (md_rows (fst ?st)) \<le> length (md_rows (fst st))" by (simp add: reclaim_filter)
    ultimately show ?thesis using ih reclaim_removed [OF 1(2), of now th "claimed (fst st)"] by (simp add: loop)
  qed
qed


section \<open>The contract of the store\<close>

text \<open>
  What a client relies on: \<open>known\<close> are the mappings of an owner, and interning answers every secret
  with a mapping that the owner has from then on. References and secrets name one mapping.
\<close>

locale mapping_store =
  fixes ok :: "'s \<Rightarrow> bool"
    and known :: "string \<Rightarrow> 's \<Rightarrow> mapping list"
    and store :: "string \<Rightarrow> detected_secret list \<Rightarrow> 's \<Rightarrow> (interned \<times> 's) option"
  assumes stored_ok: "ok s \<Longrightarrow> store owner ds s = Some (got, s') \<Longrightarrow> ok s'"
    and known_kept: "ok s \<Longrightarrow> store owner ds s = Some (got, s') \<Longrightarrow> set (known owner s) \<subseteq> set (known owner s')"
    and stored_known: "ok s \<Longrightarrow> store owner ds s = Some (got, s') \<Longrightarrow> set (in_mappings got) \<subseteq> set (known owner s')"
    and stored_secrets: "ok s \<Longrightarrow> store owner ds s = Some (got, s') \<Longrightarrow> map mp_secret (in_mappings got) = map ds_secret ds"
    and created_range: "ok s \<Longrightarrow> store owner ds s = Some (got, s') \<Longrightarrow> i \<in> set (in_created got) \<Longrightarrow> i < length (in_mappings got)"
    and known_unique: "ok s \<Longrightarrow> m \<in> set (known owner s) \<Longrightarrow> m' \<in> set (known owner s) \<Longrightarrow>
      mp_reference m = mp_reference m' \<or> mp_secret m = mp_secret m' \<Longrightarrow> m = m'"
begin

text \<open>A secret that is interned again keeps its mapping.\<close>

lemma interned_again:
  assumes "ok s" "store owner ds s = Some (got, s')" "store owner ds s' = Some (got', s'')"
  shows "in_mappings got' = in_mappings got"
proof -
  have ok': "ok s'" and ok'': "ok s''" using stored_ok assms by blast+
  have secrets: "map mp_secret (in_mappings got') = map mp_secret (in_mappings got)"
    using stored_secrets [OF assms(1,2)] stored_secrets [OF ok' assms(3)] by simp
  then have len: "length (in_mappings got') = length (in_mappings got)" by (metis length_map)
  have "in_mappings got' ! i = in_mappings got ! i" if i: "i < length (in_mappings got')" for i
  proof (rule known_unique [OF ok''])
    show "in_mappings got' ! i \<in> set (known owner s'')" using stored_known [OF ok' assms(3)] i by auto
    show "in_mappings got ! i \<in> set (known owner s'')"
      using known_kept [OF ok' assms(3)] stored_known [OF assms(1,2)] i len by (metis nth_mem subsetD)
    show "mp_reference (in_mappings got' ! i) = mp_reference (in_mappings got ! i)
        \<or> mp_secret (in_mappings got' ! i) = mp_secret (in_mappings got ! i)"
      using arg_cong [OF secrets, of "\<lambda>xs. xs ! i"] i len by simp
  qed
  with len show ?thesis by (rule nth_equalityI)
qed

end

lemma active_mappings_set: "set (active_mappings owner db) = row_mapping ` {r \<in> set (md_rows db). mr_principal r = owner}"
  by (auto simp: active_mappings_def)

lemma keyed_mappings:
  assumes "keyed rows" "r \<in> set rows" "r' \<in> set rows" "mr_principal r = mr_principal r'"
    and "mr_reference r = mr_reference r' \<or> mr_secret r = mr_secret r'"
  shows "r = r'"
  using assms unfolding keyed_def by (auto simp: distinct_map dest: inj_onD)

interpretation mapping_table: mapping_store "\<lambda>db. keyed (md_rows db)" active_mappings "intern now fresh" for now fresh
proof (unfold_locales, goal_cases)
  case (1 s owner ds got s')
  then show ?case using intern_Some [OF 1(2,1)] by metis
next
  case (2 s owner ds got s')
  from intern_Some [OF 2(2,1)] obtain new where "s' = s\<lparr>md_rows := md_rows s @ new\<rparr>" by metis
  then show ?case by (auto simp: active_mappings_set)
next
  case (3 s owner ds got s')
  show ?case using intern_Some [OF 3(2,1)] unfolding active_mappings_set by metis
next
  case (4 s owner ds got s')
  show ?case using intern_Some [OF 4(2,1)] by metis
next
  case (5 s owner ds got s' i)
  show ?case using intern_Some [OF 5(2,1)] 5(3) by metis
next
  case (6 s m owner m')
  then show ?case using keyed_mappings [OF 6(1)] by (fastforce simp: active_mappings_set row_mapping_def)
qed

section \<open>Scans that overlap\<close>

text \<open>
  A mapping is interned at time 0, published, and read by nobody for ten days. A scan with a
  retention of thirty days is running when the retention is set to one day, which starts a second
  scan. The second scan queues the mapping; the first takes it out again, since by its own
  threshold it is not expired. The watermark has passed the mapping, so no later scan finds it.
\<close>

definition stored_row :: mapping_row where
  "stored_row = \<lparr>mr_reference = [7], mr_principal = ''p'', mr_secret = [8], mr_rule_ids = [], mr_created_at = 0,
     mr_last_used_at = 0, mr_pending_until = Some 3600000, mr_published_at = None\<rparr>"

definition world_of :: "mapping_row list \<Rightarrow> ustr set \<Rightarrow> int \<Rightarrow> int \<Rightarrow> int \<Rightarrow> (ustr \<Rightarrow> int option) \<Rightarrow> (int \<times> int) set \<Rightarrow> world" where
  "world_of rows queue p u now used sweeps =
     \<lparr>w_db = \<lparr>md_rows = rows, md_pins = {}, md_queue = queue, md_pending_mark = p, md_used_mark = u\<rparr>,
      w_now = now, w_used = used, w_sweeps = sweeps\<rparr>"

abbreviation bottom :: int where "bottom \<equiv> - 9223372036854775807"
abbreviation ten_days :: int where "ten_days \<equiv> 864000000"
abbreviation one_day :: int where "one_day \<equiv> 86400000"
abbreviation thirty_days :: int where "thirty_days \<equiv> 2592000000"

lemma thresholds:
  "used_threshold ten_days one_day = 774000000" "used_threshold ten_days thirty_days = - 1731600000"
  "used_threshold 3600000 one_day = - 86400000"
  by (simp_all add: used_threshold_def sat_i64_def renewal_granularity_def)

lemma store_reachable_trans: "store_reachable overlap s \<Longrightarrow> store_step overlap s s' \<Longrightarrow> s' = t \<Longrightarrow> store_reachable overlap t"
  using store_reachable.step by blast

lemma stored_reachable: "store_reachable overlap (world_of [stored_row] {} bottom bottom 0 (\<lambda>_. None) {})"
proof -
  let ?s = "world_of [] {} bottom bottom 0 (\<lambda>_. None) {}"
  have start: "store_reachable overlap ?s"
    by (rule store_reachable.start) (simp add: initial_world_def world_of_def empty_db_def)
  have run: "intern (w_now ?s) (\<lambda>_. [7]) ''p'' [\<lparr>ds_secret = [8], ds_rule_ids = []\<rparr>] (w_db ?s)
      = Some (\<lparr>in_mappings = [row_mapping stored_row], in_created = [0]\<rparr>, (w_db ?s)\<lparr>md_rows := [stored_row]\<rparr>)"
    by (simp add: world_of_def intern_def stored_row_def sat_i64_def pending_retention_def Let_def)
  show ?thesis
    by (rule store_reachable_trans [OF start store_step.intern_step [OF run]]) (simp add: world_of_def)
qed

text \<open>The same mapping after it was published, ten days later.\<close>

definition used_row :: mapping_row where
  "used_row = published_row 0 stored_row"

definition used_once :: "ustr \<Rightarrow> int option" where
  "used_once = (\<lambda>_. None)([7] \<mapsto> 0)"

lemma used_row_facts [simp]:
  "mr_reference used_row = [7]" "mr_published_at used_row = Some 0" "mr_pending_until used_row = None" "mr_last_used_at used_row = 0"
  by (simp_all add: used_row_def published_row_def stored_row_def)

lemma published_reachable: "store_reachable overlap (world_of [used_row] {} bottom bottom ten_days used_once {})"
proof -
  let ?s = "world_of [stored_row] {} bottom bottom 0 (\<lambda>_. None) {}"
  have pub: "publish (w_now ?s) ''p'' {[7]} (w_db ?s) = (w_db ?s)\<lparr>md_rows := [used_row]\<rparr>"
    by (simp add: world_of_def publish_def renewal_due_def stored_row_def used_row_def Let_def)
  have "store_reachable overlap (world_of [used_row] {} bottom bottom 0 used_once {})"
    by (rule store_reachable_trans [OF stored_reachable store_step.publish_step [where owner = "''p''" and references = "{[7]}"]],
      unfold pub) (simp add: world_of_def stored_row_def used_once_def fun_eq_iff)
  from store_reachable_trans [OF this store_step.tick [of _ ten_days]] show ?thesis by (simp add: world_of_def)
qed

text \<open>One scan starts under thirty days, the second under one day; the first takes a batch.\<close>

definition first_scan :: "int \<times> int" where "first_scan = (ten_days, thirty_days)"
definition second_scan :: "int \<times> int" where "second_scan = (ten_days, one_day)"

lemma scans_started:
  "store_reachable True (world_of [used_row] {[7]} ten_days 774000000 ten_days used_once {first_scan, second_scan})"
proof -
  have "store_reachable True (world_of [used_row] {} ten_days (- 1731600000) ten_days used_once {first_scan})"
    by (rule store_reachable_trans [OF published_reachable store_step.scan_step [where t = ten_days and retention = thirty_days]])
      (simp_all add: world_of_def scan_expired_def scan_column_def thresholds first_scan_def)
  then show ?thesis
    by (rule store_reachable_trans [OF _ store_step.scan_step [where t = ten_days and retention = one_day]])
      (simp_all add: world_of_def scan_expired_def scan_column_def thresholds first_scan_def second_scan_def pinned_def insert_commute)
qed

lemma scans_ended: "store_reachable True (world_of [used_row] {} ten_days 774000000 ten_days used_once {})"
proof -
  let ?w = "\<lambda>queue sweeps. world_of [used_row] queue ten_days 774000000 ten_days used_once sweeps"
  have "claimed (w_db (?w {[7]} sweeps)) = [[7]]" for sweeps by (simp add: claimed_def world_of_def sweep_batch_def)
  then have "store_reachable True (?w {} {first_scan, second_scan})"
    by (intro store_reachable_trans [OF scans_started store_step.batch_step [where t = ten_days and retention = thirty_days]])
      (simp_all add: world_of_def reclaim_def reclaim_one_def thresholds first_scan_def expired_def Let_def)
  then have "store_reachable True (?w {} {second_scan})"
    by (rule store_reachable_trans [OF _ store_step.end_step [where t = ten_days and retention = thirty_days]])
      (auto simp: world_of_def first_scan_def second_scan_def claimed_def)
  then show ?thesis
    by (rule store_reachable_trans [OF _ store_step.end_step [where t = ten_days and retention = one_day]])
      (auto simp: world_of_def second_scan_def claimed_def)
qed

text \<open>
  So a mapping that no turn holds and that expired days ago is passed over by every later scan of
  a retention that does not exceed the last one.
\<close>

lemma overlapping_scans_strand:
  "\<exists>s r. store_reachable True s \<and> w_sweeps s = {} \<and> r \<in> set (md_rows (w_db s)) \<and> \<not> pinned (w_db s) (mr_reference r)
    \<and> expired (w_now s) (used_threshold (w_now s) one_day) r
    \<and> (\<forall>t retention. 774000000 \<le> used_threshold t retention \<longrightarrow> r \<in> set (md_rows (fst (sweep t retention (w_db s)))))"
proof (intro exI conjI allI impI)
  let ?s = "world_of [used_row] {} ten_days 774000000 ten_days used_once {}"
  show "store_reachable True ?s" by (rule scans_ended)
  show "w_sweeps ?s = {}" "used_row \<in> set (md_rows (w_db ?s))" "\<not> pinned (w_db ?s) (mr_reference used_row)"
    "expired (w_now ?s) (used_threshold (w_now ?s) one_day) used_row"
    by (simp_all add: world_of_def pinned_def thresholds expired_def)
  fix t retention assume "774000000 \<le> used_threshold t retention"
  then have "md_queue (scan_expired t (used_threshold t retention) (w_db ?s)) = {}"
    by (simp add: world_of_def scan_expired_def scan_column_def)
  then show "used_row \<in> set (md_rows (fst (sweep t retention (w_db ?s))))"
    using sweep_loop_exact [of "(scan_expired t (used_threshold t retention) (w_db ?s), 0)" t "used_threshold t retention"]
    by (simp add: sweep_def Let_def world_of_def)
qed

section \<open>Witnesses\<close>

text \<open>An unpublished mapping an hour later, with a scan that has queued it.\<close>

lemma hour_later: "store_reachable overlap (world_of [stored_row] {} bottom bottom 3600000 (\<lambda>_. None) {})"
  using store_reachable_trans [OF stored_reachable store_step.tick [of _ 3600000]] by (simp add: world_of_def)

lemma hour_scanned:
  "store_reachable True (world_of [stored_row] {[7]} 3600000 (- 86400000) 3600000 (\<lambda>_. None) {(3600000, one_day)})"
  by (rule store_reachable_trans [OF hour_later store_step.scan_step [where t = 3600000 and retention = one_day]])
    (simp_all add: world_of_def scan_expired_def scan_column_def thresholds stored_row_def pinned_def)

theorem mapping_kept_while_needed_witness:
  "\<exists>s s'. store_step True s s' \<and> references_of (w_db s') = {} \<and> stored_row \<in> set (md_rows (w_db s))
    \<and> \<not> pinned (w_db s) [7] \<and> mr_created_at stored_row + 60 * 60 * 1000 \<le> w_now s"
proof -
  let ?s = "world_of [stored_row] {[7]} 3600000 (- 86400000) 3600000 (\<lambda>_. None) {(3600000, one_day)}"
  let ?db = "fst (reclaim 3600000 (used_threshold 3600000 one_day) (claimed (w_db ?s)) (w_db ?s, 0))"
  have step: "store_step True ?s (?s\<lparr>w_db := ?db\<rparr>)" by (rule store_step.batch_step) (simp add: world_of_def)
  have row: "stored_row \<in> set (md_rows (w_db ?s))" by (simp add: world_of_def)
  have gone: "references_of ?db = {}"
    by (simp add: world_of_def references_of_def reclaim_filter claimed_def sweep_batch_def stored_row_def expired_def pinned_def)
  from mapping_kept_while_needed [OF hour_scanned step row] gone have
    "\<not> pinned (w_db ?s) (mr_reference stored_row) \<and> mr_created_at stored_row + 60 * 60 * 1000 \<le> w_now ?s"
    by (auto simp: world_of_def stored_row_def)
  moreover have "mr_reference stored_row = [7]" by (simp add: stored_row_def)
  moreover have "references_of (w_db (?s\<lparr>w_db := ?db\<rparr>)) = {}" using gone by simp
  ultimately have "store_step True ?s (?s\<lparr>w_db := ?db\<rparr>) \<and> references_of (w_db (?s\<lparr>w_db := ?db\<rparr>)) = {} \<and> stored_row \<in> set (md_rows (w_db ?s))
    \<and> \<not> pinned (w_db ?s) [7] \<and> mr_created_at stored_row + 60 * 60 * 1000 \<le> w_now ?s"
    using step row by simp
  then show ?thesis by blast
qed


end
