(* ===== verification/RedactionProtect.thy ===== *)
theory RedactionProtect
  imports RedactionRead RedactionRestorer MappingStore
begin

text \<open>
  \<open>stravia-credential-protection/src/lib.rs\<close>: \<open>protect\<close>, which a request passes before it is
  sent, and \<open>restore_stream\<close>, which the events of its response pass. The settings, the mapping
  store and the detection of secrets are arguments. The calls of the observer are a log; the
  trace of a run (\<open>stravia-runtime-contract/src/redaction.rs\<close>) is without the proof of the
  provider's context, which neither operation reads.
\<close>

section \<open>Discoveries\<close>

datatype credential_locator =
  CredentialLocator (lc_rule_id: string) (lc_source_type: string) (lc_tool_id: "ustr option")
    (lc_latest_input: "bool option")

text \<open>The derived order: by the fields, one after the other.\<close>

definition locator_key :: "credential_locator \<Rightarrow> string \<times> string \<times> ustr option \<times> bool option" where
  "locator_key l = (lc_rule_id l, lc_source_type l, lc_tool_id l, lc_latest_input l)"

lemma locator_key_inject: "locator_key l = locator_key l' \<longleftrightarrow> l = l'"
  by (cases l; cases l') (simp add: locator_key_def)

instantiation credential_locator :: linorder
begin

definition less_eq_credential_locator :: "credential_locator \<Rightarrow> credential_locator \<Rightarrow> bool" where
  "less_eq_credential_locator l l' = (locator_key l \<le> locator_key l')"

definition less_credential_locator :: "credential_locator \<Rightarrow> credential_locator \<Rightarrow> bool" where
  "less_credential_locator l l' = (locator_key l < locator_key l')"

instance
  by standard (auto simp: less_eq_credential_locator_def less_credential_locator_def less_le locator_key_inject)

end

record discovery =
  dc_rule_ids :: "string list"
  dc_source_types :: "string list"
  dc_locators :: "credential_locator list"
  dc_marker :: ustr

definition locator :: "string \<Rightarrow> origin \<Rightarrow> credential_locator" where
  "locator rule_id location =
     CredentialLocator rule_id (og_source location)
       (if og_source location \<in> {''tool_arguments'', ''tool_result''} then og_tool_id location else None)
       (if og_source location = ''user_message'' then og_latest_input location else None)"

definition refined_locator :: "credential_locator \<Rightarrow> bool" where
  "refined_locator l \<longleftrightarrow> lc_tool_id l \<noteq> None \<or> lc_latest_input l \<noteq> None"

text \<open>\<open>discovery\<close>; a \<open>BTreeSet\<close> is a set, its iteration the sorted list.\<close>

definition discovery_of :: "credential_locator set \<Rightarrow> discovery option" where
  "discovery_of locators =
     (let refined = (\<lambda>l. (lc_rule_id l, lc_source_type l)) ` {l \<in> locators. refined_locator l};
          kept = {l \<in> locators. refined_locator l \<or> (lc_rule_id l, lc_source_type l) \<notin> refined}
      in if kept = {} then None
         else Some \<lparr>dc_rule_ids = sorted_list_of_set (lc_rule_id ` kept),
                    dc_source_types = sorted_list_of_set (lc_source_type ` kept),
                    dc_locators = sorted_list_of_set kept, dc_marker = []\<rparr>)"

text \<open>A finding of the detector, without its span; an index out of range panics.\<close>

record finding =
  fd_rule_id :: string
  fd_source_index :: nat

definition detected :: "finding list \<Rightarrow> origin list \<Rightarrow> discovery option option" where
  "detected findings origins =
     (if \<exists>f \<in> set findings. length origins \<le> fd_source_index f then None
      else Some (discovery_of (set (map (\<lambda>f. locator (fd_rule_id f) (origins ! fd_source_index f)) findings))))"

definition reused :: "mapping \<Rightarrow> origin set \<Rightarrow> discovery option" where
  "reused m origins =
     map_option (\<lambda>d. d\<lparr>dc_marker := mp_reference m\<rparr>)
       (discovery_of (\<Union>location \<in> origins. (\<lambda>rule_id. locator rule_id location) ` set (mp_rule_ids m)))"

definition call_origins :: "(ustr \<times> ustr set) list \<Rightarrow> ustr \<Rightarrow> origin set" where
  "call_origins tool_calls reference =
     (\<lambda>(i, refs). \<lparr>og_source = ''tool_arguments'', og_tool_id = Some i, og_latest_input = None, og_fresh = True\<rparr>)
       ` {(i, refs) \<in> set tool_calls. reference \<in> refs}"

definition restored_in_tool_calls :: "mapping list \<Rightarrow> (ustr \<times> ustr set) list \<Rightarrow> discovery list" where
  "restored_in_tool_calls mappings tool_calls =
     List.map_filter (\<lambda>m.
       let origins = call_origins tool_calls (mp_reference m)
       in if origins = {} then None else reused m origins) mappings"

section \<open>The marker instruction\<close>

definition marker_instruction :: ustr where
  "marker_instruction =
     ascii ''Preserve Stravia redaction markers verbatim when used; Stravia restores their values.''"

text \<open>\<open>str::lines\<close>: a line ends with a newline, or a carriage return and a newline.\<close>

fun split_inclusive :: "ustr \<Rightarrow> ustr list" where
  "split_inclusive [] = []"
| "split_inclusive (c # s) =
     (if c = 10 then [c] # split_inclusive s
      else case split_inclusive s of [] \<Rightarrow> [[c]] | l # ls \<Rightarrow> (c # l) # ls)"

definition strip_line :: "ustr \<Rightarrow> ustr" where
  "strip_line l =
     (if l \<noteq> [] \<and> last l = 10
      then if butlast l \<noteq> [] \<and> last (butlast l) = 13 then butlast (butlast l) else butlast l
      else l)"

definition lines :: "ustr \<Rightarrow> ustr list" where
  "lines t = map strip_line (split_inclusive t)"

definition instructed :: "ustr option \<Rightarrow> ustr" where
  "instructed instructions =
     (let t = (case instructions of None \<Rightarrow> [] | Some t \<Rightarrow> t)
      in if marker_instruction \<in> set (lines t) then t
         else (if t = [] then t else t @ [10, 10]) @ marker_instruction)"

section \<open>Protecting a request\<close>

record policy =
  po_enabled :: bool
  po_disabled :: "string set"

record trace =
  tr_references :: "ustr set"
  tr_tracking :: bool

definition trace_record :: "ustr set \<Rightarrow> trace \<Rightarrow> trace" where
  "trace_record references t = t\<lparr>tr_references := tr_references t \<union> references\<rparr>"

definition set_tracking :: "bool \<Rightarrow> trace \<Rightarrow> trace" where
  "set_tracking b t = t\<lparr>tr_tracking := b\<rparr>"

record credential =
  cd_secret :: ustr
  cd_findings :: "finding list"

text \<open>
  What the host, the store of custom rules (with compiled rules of type \<open>'c\<close>), the detector and
  the store of mappings answer during one call.
\<close>

record 'c services =
  sv_policy :: "redaction_error + policy"
  sv_active :: "redaction_error + mapping list"
  sv_custom :: "redaction_error + 'c"
  sv_ids :: "'c \<Rightarrow> string set"
  sv_detect :: "ustr list \<Rightarrow> 'c \<Rightarrow> string set \<Rightarrow> redaction_error + credential list"
  sv_intern :: "detected_secret list \<Rightarrow> redaction_error + interned"

datatype observation =
    ProtectSecrets "mapping list"
  | MappingsCreated "discovery list"
  | MappingsReused "discovery list"

definition detected_secret_of :: "credential \<Rightarrow> detected_secret" where
  "detected_secret_of c =
     \<lparr>ds_secret = cd_secret c, ds_rule_ids = sorted_list_of_set (set (map fd_rule_id (cd_findings c)))\<rparr>"

text \<open>What the task that interns the secrets tells the observer.\<close>

definition created_discoveries :: "discovery option list \<Rightarrow> interned \<Rightarrow> discovery list" where
  "created_discoveries discoveries discovered =
     List.map_filter (\<lambda>(index, found, m).
       if index \<in> set (in_created discovered) then map_option (\<lambda>d. d\<lparr>dc_marker := mp_reference m\<rparr>) found else None)
     (enumerate 0 (zip discoveries (in_mappings discovered)))"

definition intern_log :: "discovery option list \<Rightarrow> interned \<Rightarrow> observation list" where
  "intern_log discoveries discovered =
     (let created = created_discoveries discoveries discovered
      in ProtectSecrets (in_mappings discovered) # (if created = [] then [] else [MappingsCreated created]))"

definition push_mapping :: "mapping \<Rightarrow> mapping list \<Rightarrow> mapping list" where
  "push_mapping m mappings =
     (if \<exists>existing \<in> set mappings. mp_reference existing = mp_reference m then mappings else mappings @ [m])"

text \<open>\<open>detected_references\<close> and \<open>created_references\<close>; the indices of the store are not checked.\<close>

definition detected_references :: "interned \<Rightarrow> ustr set" where
  "detected_references discovered = mp_reference ` set (in_mappings discovered)"

definition created_references :: "interned \<Rightarrow> ustr set option" where
  "created_references discovered =
     (if \<exists>index \<in> set (in_created discovered). length (in_mappings discovered) \<le> index then None
      else Some ((\<lambda>index. mp_reference (in_mappings discovered ! index)) ` set (in_created discovered)))"

definition reuses :: "mapping list \<Rightarrow> ustr set \<Rightarrow> placements \<Rightarrow> discovery list" where
  "reuses mappings created placed =
     List.map_filter (\<lambda>m.
       if placed (mp_reference m) = {} then None else reused m (placed (mp_reference m)))
     (filter (\<lambda>m. mp_reference m \<notin> created) mappings)"

text \<open>
  From the texts to the interned mappings. The first component is what the observer is told; no
  value is a panic, in \<open>detected\<close> or at an index that the store returned.
\<close>

definition intern_found ::
    "'c services \<Rightarrow> bool \<Rightarrow> credential list \<Rightarrow> origin list \<Rightarrow> (observation list \<times> (redaction_error + interned)) option" where
  "intern_found sv observed found origins =
     (if found = [] then Some ([], Inr \<lparr>in_mappings = [], in_created = []\<rparr>)
      else case those (map (\<lambda>c. detected (cd_findings c) origins) found) of
        None \<Rightarrow> None
      | Some discoveries \<Rightarrow>
          (case sv_intern sv (map detected_secret_of found) of
             Inl e \<Rightarrow> Some ([], Inl e)
           | Inr discovered \<Rightarrow> Some (if observed then intern_log discoveries discovered else [], Inr discovered)))"

text \<open>
  The part of \<open>protect\<close> that runs when protection is on. After an error the request is not used;
  the trace and what was told remain.
\<close>

definition redact_detected ::
    "json_lib \<Rightarrow> 'c services \<Rightarrow> bool \<Rightarrow> policy \<Rightarrow> mapping list \<Rightarrow> 'o ai_request \<Rightarrow> trace
      \<Rightarrow> (trace \<times> observation list \<times> (redaction_error + 'o ai_request \<times> mapping list)) option" where
  "redact_detected jl sv observed pol known q tr =
     (case res_bind (request_text_origins jl q True) (\<lambda>(texts, origins).
           res_bind (sv_custom sv) (\<lambda>custom.
           res_bind (sv_detect sv texts custom (po_disabled pol)) (\<lambda>found. Inr (origins, custom, found)))) of
        Inl e \<Rightarrow> Some (tr, [], Inl e)
      | Inr (origins, custom, found) \<Rightarrow>
          (case intern_found sv observed found origins of
             None \<Rightarrow> None
           | Some (log, Inl e) \<Rightarrow> Some (tr, log, Inl e)
           | Some (log, Inr discovered) \<Rightarrow>
               (case created_references discovered of
                  None \<Rightarrow> None
                | Some created \<Rightarrow>
                    let scope = \<lparr>rs_disabled = po_disabled pol, rs_custom_enabled = sv_ids sv custom\<rparr>;
                        mappings = fold push_mapping (in_mappings discovered) known
                    in (case redact_request jl q mappings
                          (\<lambda>m. mp_reference m \<in> detected_references discovered \<or> scope_allows scope m) of
                          Inl e \<Rightarrow> Some (tr, log, Inl e)
                        | Inr (q', used, placed) \<Rightarrow>
                            let again = reuses mappings created placed
                            in Some (trace_record used tr,
                                 log @ (if observed \<and> again \<noteq> [] then [MappingsReused again] else []),
                                 Inr (q', mappings))))))"

text \<open>Then the references that the request mentions, whoever wrote them.\<close>

definition mentioned :: "mapping list \<Rightarrow> ustr list \<Rightarrow> ustr set" where
  "mentioned mappings texts =
     mp_reference ` set (filter (\<lambda>m. active m \<and> (\<exists>t \<in> set texts. sublist (mp_reference m) t)) mappings)"

definition announce ::
    "json_lib \<Rightarrow> bool \<Rightarrow> mapping list \<Rightarrow> 'o ai_request \<Rightarrow> trace \<Rightarrow> trace \<times> (redaction_error + 'o ai_request)" where
  "announce jl reject mappings q tr =
     (if mappings = [] then (tr, Inr q)
      else case request_texts jl q reject of
        Inl e \<Rightarrow> (tr, Inl e)
      | Inr texts \<Rightarrow>
          if mentioned mappings texts = {} then (tr, Inr q)
          else (trace_record (mentioned mappings texts) tr,
                Inr (q\<lparr>rq_instructions := Some (instructed (rq_instructions q))\<rparr>)))"

definition protect ::
    "json_lib \<Rightarrow> 'c services \<Rightarrow> bool \<Rightarrow> 'o ai_request \<Rightarrow> trace
      \<Rightarrow> (trace \<times> observation list \<times> (redaction_error + 'o ai_request \<times> mapping list)) option" where
  "protect jl sv observed q tr =
     (case res_bind (sv_policy sv) (\<lambda>pol. map_sum id (Pair pol) (sv_active sv)) of
        Inl e \<Rightarrow> Some (tr, [], Inl e)
      | Inr (pol, known) \<Rightarrow>
          (case (if po_enabled pol then redact_detected jl sv observed pol known q tr else Some (tr, [], Inr (q, known))) of
             None \<Rightarrow> None
           | Some (tr1, log, Inl e) \<Rightarrow> Some (tr1, log, Inl e)
           | Some (tr1, log, Inr (q1, mappings)) \<Rightarrow>
               (case announce jl (po_enabled pol) mappings q1 tr1 of
                  (tr2, Inl e) \<Rightarrow> Some (tr2, log, Inl e)
                | (tr2, Inr q2) \<Rightarrow> Some (set_tracking (mappings \<noteq> []) tr2, log, Inr (q2, mappings)))))"

section \<open>The marker line\<close>

lemma split_inclusive_Nil: "split_inclusive t = [] \<longleftrightarrow> t = []"
  by (cases t) (auto split: list.splits)

lemma split_inclusive_line: "split_inclusive (t @ 10 # s) = split_inclusive (t @ [10]) @ split_inclusive s"
proof (induction t)
  case (Cons c t)
  then show ?case using split_inclusive_Nil [of "t @ [10]"] by (cases "split_inclusive (t @ [10])") auto
qed simp

lemma split_inclusive_last: "10 \<notin> set t \<Longrightarrow> t \<noteq> [] \<Longrightarrow> split_inclusive t = [t]"
proof (induction t)
  case (Cons c t)
  then show ?case by (cases t) auto
qed simp

lemma marker_instruction_facts: "marker_instruction \<noteq> []" "10 \<notin> set marker_instruction"
  by (simp_all add: marker_instruction_def ascii_def)

lemma lines_last:
  assumes "10 \<notin> set l" "l \<noteq> []"
  shows "l \<in> set (lines l)" "l \<in> set (lines (t @ [10, 10] @ l))"
proof -
  have "strip_line l = l" using assms by (auto simp: strip_line_def dest: last_in_set)
  moreover have "split_inclusive (t @ [10, 10] @ l) = split_inclusive (t @ [10]) @ [[10], l]"
    using split_inclusive_line [of t "10 # l"] split_inclusive_last [OF assms] by simp
  ultimately show "l \<in> set (lines l)" "l \<in> set (lines (t @ [10, 10] @ l))"
    using split_inclusive_last [OF assms] by (simp_all add: lines_def)
qed

lemma instructed_marker: "marker_instruction \<in> set (lines (instructed i))"
  using lines_last [OF marker_instruction_facts(2,1)] by (simp add: instructed_def Let_def)

section \<open>What protection promises\<close>

text \<open>
  The store answers both questions from one table, or fails; the detector reports places in the
  texts it was given.
\<close>

definition answers_from :: "int \<Rightarrow> (nat \<Rightarrow> ustr) \<Rightarrow> string \<Rightarrow> mapping_db \<Rightarrow> 'c services \<Rightarrow> bool" where
  "answers_from now fresh owner db sv \<longleftrightarrow>
     (\<forall>known. sv_active sv = Inr known \<longrightarrow> known = active_mappings owner db)
     \<and> (\<forall>ds got. sv_intern sv ds = Inr got \<longrightarrow> (\<exists>db'. intern now fresh owner ds db = Some (got, db')))"

definition detector_in_range :: "'c services \<Rightarrow> bool" where
  "detector_in_range sv \<longleftrightarrow> (\<forall>texts custom disabled found. sv_detect sv texts custom disabled = Inr found \<longrightarrow>
     (\<forall>c \<in> set found. \<forall>f \<in> set (cd_findings c). fd_source_index f < length texts))"

lemma push_mapping_set: "set known \<subseteq> set (push_mapping m known)" "set (push_mapping m known) \<subseteq> insert m (set known)"
  by (auto simp: push_mapping_def)

lemma push_mappings_old: "set known \<subseteq> set (fold push_mapping new known)"
proof (induction new arbitrary: known)
  case (Cons m new)
  from push_mapping_set(1) Cons.IH [of "push_mapping m known"] show ?case by simp (rule order_trans)
qed simp

lemma push_mappings_new: "set (fold push_mapping new known) \<subseteq> set known \<union> set new"
proof (induction new arbitrary: known)
  case (Cons m new)
  have "set (fold push_mapping (m # new) known) \<subseteq> set (push_mapping m known) \<union> set new"
    using Cons.IH by simp
  also have "\<dots> \<subseteq> insert m (set known) \<union> set new"
    by (intro Un_mono push_mapping_set(2) order_refl)
  finally show ?case by simp
qed simp

lemma push_mappings_reference:
  "m \<in> set new \<Longrightarrow> \<exists>m' \<in> set (fold push_mapping new known). mp_reference m' = mp_reference m"
proof (induction new arbitrary: known)
  case (Cons n new)
  show ?case
  proof (cases "m = n")
    case True
    have "\<exists>m' \<in> set (push_mapping n known). mp_reference m' = mp_reference n" by (auto simp: push_mapping_def)
    then obtain m' where "m' \<in> set (push_mapping n known)" "mp_reference m' = mp_reference n" by blast
    moreover have "m' \<in> set (fold push_mapping new (push_mapping n known))"
      using calculation(1) push_mappings_old by blast
    ultimately show ?thesis using True by auto
  next
    case False
    with Cons show ?thesis by simp
  qed
qed simp

context mapping_store
begin

text \<open>Joined to the mappings known before, the interned ones are all there.\<close>

lemma interned_joined:
  assumes "ok s" "store owner ds s = Some (got, s')"
  shows "set (fold push_mapping (in_mappings got) (known owner s)) = set (known owner s) \<union> set (in_mappings got)"
proof
  show "set (fold push_mapping (in_mappings got) (known owner s)) \<subseteq> set (known owner s) \<union> set (in_mappings got)"
    by (rule push_mappings_new)
  show "set (known owner s) \<union> set (in_mappings got) \<subseteq> set (fold push_mapping (in_mappings got) (known owner s))"
  proof (intro Un_least push_mappings_old subsetI)
    fix m assume m: "m \<in> set (in_mappings got)"
    then obtain m' where m': "m' \<in> set (fold push_mapping (in_mappings got) (known owner s))" "mp_reference m' = mp_reference m"
      using push_mappings_reference by blast
    then have "m' \<in> set (known owner s) \<union> set (in_mappings got)" using push_mappings_new by blast
    then have "m' \<in> set (known owner s')" "m \<in> set (known owner s')"
      using known_kept [OF assms] stored_known [OF assms] m by blast+
    then have "m' = m" using known_unique [OF stored_ok [OF assms]] m'(2) by blast
    with m'(1) show "m \<in> set (fold push_mapping (in_mappings got) (known owner s))" by simp
  qed
qed

lemma interned_secret_joined:
  assumes "ok s" "store owner ds s = Some (got, s')" "d \<in> set ds"
  shows "\<exists>m \<in> set (fold push_mapping (in_mappings got) (known owner s)). mp_secret m = ds_secret d"
proof -
  from assms(3) stored_secrets [OF assms(1,2)] have "ds_secret d \<in> mp_secret ` set (in_mappings got)"
    by (metis image_eqI set_map)
  then show ?thesis unfolding interned_joined [OF assms(1,2)] by auto
qed

end

lemma those_all: "\<forall>x \<in> set xs. \<exists>y. f x = Some y \<Longrightarrow> \<exists>ys. those (map f xs) = Some ys"
  by (induction xs) auto

lemma answers_intern: "answers_from now fresh owner db sv \<Longrightarrow> sv_intern sv ds = Inr got \<Longrightarrow> \<exists>db'. intern now fresh owner ds db = Some (got, db')"
  unfolding answers_from_def by blast

lemma intern_found_returns:
  assumes key: "keyed (md_rows db)" and ans: "answers_from now fresh owner db sv"
    and range: "\<forall>c \<in> set found. \<forall>f \<in> set (cd_findings c). fd_source_index f < length origins"
  obtains log r where "intern_found sv observed found origins = Some (log, r)"
    "\<forall>discovered. r = Inr discovered \<longrightarrow> created_references discovered \<noteq> None
      \<and> (\<exists>db'. intern now fresh owner (map detected_secret_of found) db = Some (discovered, db'))"
proof (cases "found = []")
  case True
  then show ?thesis by (intro that [of "[]"]) (auto simp: intern_found_def created_references_def intern_def)
next
  case False
  have "\<forall>c \<in> set found. \<exists>d. detected (cd_findings c) origins = Some d"
    using range by (auto simp: detected_def not_le)
  then obtain discoveries where d: "those (map (\<lambda>c. detected (cd_findings c) origins) found) = Some discoveries"
    using those_all [of found "\<lambda>c. detected (cd_findings c) origins"] by blast
  show ?thesis
  proof (cases "sv_intern sv (map detected_secret_of found)")
    case (Inl e)
    with False d show ?thesis by (intro that [of "[]" "Inl e"]) (simp_all add: intern_found_def)
  next
    case (Inr discovered)
    with ans obtain db' where run: "intern now fresh owner (map detected_secret_of found) db = Some (discovered, db')"
      using answers_intern [OF ans] by blast
    with mapping_table.created_range [OF key] have "created_references discovered \<noteq> None"
      by (fastforce simp: created_references_def)
    with False d Inr run show ?thesis
      by (intro that [of "if observed then intern_log discoveries discovered else []" "Inr discovered"]) (simp_all add: intern_found_def)
  qed
qed

text \<open>The outcome of the first part, when the store knows \<open>known\<close>.\<close>

definition redacted_soundly :: "mapping list \<Rightarrow> ustr set \<Rightarrow> trace \<Rightarrow> trace \<Rightarrow> mapping list \<Rightarrow> bool" where
  "redacted_soundly known secrets tr tr' ms \<longleftrightarrow>
     set known \<subseteq> set ms \<and> secrets \<subseteq> mp_secret ` set ms \<and> tr_references tr \<subseteq> tr_references tr'
     \<and> tr_references tr' \<subseteq> tr_references tr \<union> mp_reference ` {m \<in> set ms. active m}"

definition secrets_found :: "json_lib \<Rightarrow> 'c services \<Rightarrow> policy \<Rightarrow> 'o ai_request \<Rightarrow> ustr set" where
  "secrets_found jl sv pol q =
     (case res_bind (request_text_origins jl q True) (\<lambda>(texts, origins).
           res_bind (sv_custom sv) (\<lambda>custom. sv_detect sv texts custom (po_disabled pol))) of
        Inl e \<Rightarrow> {}
      | Inr found \<Rightarrow> cd_secret ` set found)"

lemma redact_detected_returns:
  assumes key: "keyed (md_rows db)" and ans: "answers_from now fresh owner db sv" and range: "detector_in_range sv"
  obtains tr' log r where "redact_detected jl sv observed pol (active_mappings owner db) q tr = Some (tr', log, r)"
    "tr_references tr \<subseteq> tr_references tr'"
    "\<And>q' ms. r = Inr (q', ms) \<Longrightarrow> redacted_soundly (active_mappings owner db) (secrets_found jl sv pol q) tr tr' ms"
proof -
  let ?known = "active_mappings owner db"
  let ?first = "res_bind (request_text_origins jl q True) (\<lambda>(texts, origins).
           res_bind (sv_custom sv) (\<lambda>custom.
           res_bind (sv_detect sv texts custom (po_disabled pol)) (\<lambda>found. Inr (origins, custom, found))))"
  show ?thesis
  proof (cases ?first)
    case (Inl e)
    then show ?thesis by (intro that [of tr "[]" "Inl e"]) (simp_all add: redact_detected_def)
  next
    case (Inr v)
    then obtain texts origins custom found where
      t: "request_text_origins jl q True = Inr (texts, origins)" and c: "sv_custom sv = Inr custom"
      and d: "sv_detect sv texts custom (po_disabled pol) = Inr found" and v: "v = (origins, custom, found)"
      by (auto simp: res_bind_Inr_iff)
    from t obtain q0 where "collect_texts jl q True = Inr ((texts, origins), q0)"
      by (cases "collect_texts jl q True") (auto simp: request_text_origins_def)
    then have "length texts = length origins" by (rule collect_texts_paired(2))
    with range d have in_range: "\<forall>c \<in> set found. \<forall>f \<in> set (cd_findings c). fd_source_index f < length origins"
      unfolding detector_in_range_def by metis
    obtain log r where f: "intern_found sv observed found origins = Some (log, r)"
      and f': "\<forall>discovered. r = Inr discovered \<longrightarrow> created_references discovered \<noteq> None
        \<and> (\<exists>db'. intern now fresh owner (map detected_secret_of found) db = Some (discovered, db'))"
      by (rule intern_found_returns [where observed = observed, OF key ans in_range])
    show ?thesis
    proof (cases r)
      case (Inl e)
      with Inr v f show ?thesis by (intro that [of tr log "Inl e"]) (simp_all add: redact_detected_def)
    next
      case (Inr discovered)
      with f' obtain created db' where created: "created_references discovered = Some created"
        and run: "intern now fresh owner (map detected_secret_of found) db = Some (discovered, db')" by blast
      define ms where "ms = fold push_mapping (in_mappings discovered) ?known"
      let ?incl = "\<lambda>m. mp_reference m \<in> detected_references discovered
        \<or> scope_allows \<lparr>rs_disabled = po_disabled pol, rs_custom_enabled = sv_ids sv custom\<rparr> m"
      have known: "set ?known \<subseteq> set ms" unfolding ms_def by (rule push_mappings_old)
      have "secrets_found jl sv pol q = cd_secret ` set found" by (simp add: secrets_found_def t c d)
      moreover have "\<exists>m \<in> set ms. mp_secret m = cd_secret c" if "c \<in> set found" for c
        using mapping_table.interned_secret_joined [OF key run, of "detected_secret_of c"] that
        by (simp add: ms_def detected_secret_of_def)
      ultimately have secrets: "secrets_found jl sv pol q \<subseteq> mp_secret ` set ms" by (auto simp: image_iff) metis
      show ?thesis
      proof (cases "redact_request jl q ms ?incl")
        case (Inl e)
        with \<open>?first = Inr v\<close> v f Inr created show ?thesis
          by (intro that [of tr log "Inl e"]) (simp_all add: redact_detected_def Let_def ms_def)
      next
        case (Inr w)
        obtain q' used placed where w: "w = (q', used, placed)" by (cases w)
        from redact_request_facts [OF Inr [unfolded w]] have used: "used \<subseteq> mp_reference ` {m \<in> set ms. active m}" by auto
        have "redact_detected jl sv observed pol ?known q tr = Some (trace_record used tr,
            log @ (if observed \<and> reuses ms created placed \<noteq> [] then [MappingsReused (reuses ms created placed)] else []), Inr (q', ms))"
          using \<open>?first = Inr v\<close> v f \<open>r = Inr discovered\<close> created Inr w by (simp add: redact_detected_def Let_def ms_def)
        then show ?thesis by (rule that) (use known secrets used in \<open>auto simp: redacted_soundly_def trace_record_def\<close>)
      qed
    qed
  qed
qed

text \<open>
  What the provider and the restoration of the response rely on: the references that \<open>q1\<close>, the
  request before a line was added to its instructions, mentions are recorded and explained.
\<close>

definition announced :: "json_lib \<Rightarrow> bool \<Rightarrow> mapping list \<Rightarrow> 'o ai_request \<Rightarrow> 'o ai_request \<Rightarrow> trace \<Rightarrow> bool" where
  "announced jl reject ms q1 q' tr \<longleftrightarrow>
     (\<exists>texts. request_texts jl q1 reject = Inr texts \<and> mentioned ms texts \<subseteq> tr_references tr
        \<and> (if mentioned ms texts = {} then q' = q1
           else \<exists>t. rq_instructions q' = Some t \<and> marker_instruction \<in> set (lines t)))"

lemma announce_Inr:
  assumes "announce jl reject ms q1 tr = (tr', Inr q')"
  shows "\<exists>i. q1 = q'\<lparr>rq_instructions := i\<rparr>" "ms \<noteq> [] \<Longrightarrow> announced jl reject ms q1 q' tr'"
    "tr_references tr \<subseteq> tr_references tr'" "tr_references tr' \<subseteq> tr_references tr \<union> mp_reference ` {m \<in> set ms. active m}"
proof -
  have "(q' = q1 \<and> tr' = tr \<and> (ms \<noteq> [] \<longrightarrow> (\<exists>texts. request_texts jl q1 reject = Inr texts \<and> mentioned ms texts = {})))
    \<or> (\<exists>texts. request_texts jl q1 reject = Inr texts \<and> mentioned ms texts \<noteq> {} \<and> tr' = trace_record (mentioned ms texts) tr
        \<and> q' = q1\<lparr>rq_instructions := Some (instructed (rq_instructions q1))\<rparr>)"
    using assms by (auto simp: announce_def split: if_splits sum.splits)
  then consider "q' = q1" "tr' = tr" "ms \<noteq> [] \<longrightarrow> (\<exists>texts. request_texts jl q1 reject = Inr texts \<and> mentioned ms texts = {})"
    | texts where "request_texts jl q1 reject = Inr texts" "mentioned ms texts \<noteq> {}" "tr' = trace_record (mentioned ms texts) tr"
        "q' = q1\<lparr>rq_instructions := Some (instructed (rq_instructions q1))\<rparr>"
    by blast
  then have "(\<exists>i. q1 = q'\<lparr>rq_instructions := i\<rparr>) \<and> (ms \<noteq> [] \<longrightarrow> announced jl reject ms q1 q' tr')
    \<and> tr_references tr \<subseteq> tr_references tr' \<and> tr_references tr' \<subseteq> tr_references tr \<union> mp_reference ` {m \<in> set ms. active m}"
  proof cases
    case 1
    have "q1 = q'\<lparr>rq_instructions := rq_instructions q1\<rparr>" unfolding 1(1) by simp
    then have "\<exists>i. q1 = q'\<lparr>rq_instructions := i\<rparr>" by (rule exI)
    with 1 show ?thesis by (auto simp: announced_def)
  next
    case 2
    have "q1 = q'\<lparr>rq_instructions := rq_instructions q1\<rparr>" unfolding 2(4) by simp
    moreover have "mentioned ms texts \<subseteq> mp_reference ` {m \<in> set ms. active m}" by (auto simp: mentioned_def)
    moreover have "announced jl reject ms q1 q' tr'"
      unfolding announced_def using 2 instructed_marker by (intro exI [of _ texts]) (simp add: trace_record_def)
    ultimately show ?thesis unfolding 2(3) by (intro conjI exI [of _ "rq_instructions q1"]) (auto simp: trace_record_def)
  qed
  then show "\<exists>i. q1 = q'\<lparr>rq_instructions := i\<rparr>" "ms \<noteq> [] \<Longrightarrow> announced jl reject ms q1 q' tr'"
    "tr_references tr \<subseteq> tr_references tr'" "tr_references tr' \<subseteq> tr_references tr \<union> mp_reference ` {m \<in> set ms. active m}"
    by blast+
qed


section \<open>A witness of protection\<close>

text \<open>A detector that finds the secret of the sample, and an empty store.\<close>

definition sample_services :: "unit services" where
  "sample_services =
     \<lparr>sv_policy = Inr \<lparr>po_enabled = True, po_disabled = {}\<rparr>,
      sv_active = Inr (active_mappings ''p'' empty_db),
      sv_custom = Inr (),
      sv_ids = (\<lambda>_. {}),
      sv_detect = (\<lambda>texts _ _.
        if texts = [sample_text]
        then Inr [\<lparr>cd_secret = mp_secret sample_mapping, cd_findings = [\<lparr>fd_rule_id = ''rule'', fd_source_index = 0\<rparr>]\<rparr>]
        else Inr []),
      sv_intern = (\<lambda>ds. case intern 0 (\<lambda>_. mp_reference sample_mapping) ''p'' ds empty_db of
        None \<Rightarrow> Inl Storage | Some (got, _) \<Rightarrow> Inr got)\<rparr>"

definition no_trace :: trace where
  "no_trace = \<lparr>tr_references = {}, tr_tracking = False\<rparr>"

lemma sample_services_ok: "answers_from 0 (\<lambda>_. mp_reference sample_mapping) ''p'' empty_db sample_services" "detector_in_range sample_services"
  by (auto simp: answers_from_def detector_in_range_def sample_services_def split: option.splits if_splits)

lemma sample_protected:
  "case protect sample_lib sample_services True sample_prompt no_trace of
     Some (tr, log, Inr (q', ms)) \<Rightarrow> rq_items q' = [message User redacted_sample] \<and> rq_instructions q' = Some marker_instruction
   | _ \<Rightarrow> False"
  by code_simp

lemma sample_secrets_found: "secrets_found sample_lib sample_services \<lparr>po_enabled = True, po_disabled = {}\<rparr> sample_prompt = {mp_secret sample_mapping}"
  by code_simp


section \<open>Restoring a stream\<close>

text \<open>
  \<open>CanonicalEvent\<close> with the parts of a response and of a compaction that are restored, and
  \<open>ModelTurnError\<close> (\<open>stravia-runtime-contract/src/model_turn.rs\<close>) with what an upstream error adds
  as one payload.
\<close>

datatype 'o canonical_event =
    Delta "'o stream_delta"
  | Completed "'o item list"
  | Compacted "'o item list" json

record 'b turn_failure =
  mt_code :: string
  mt_message :: string
  mt_upstream :: "'b option"

fun redaction_message :: "redaction_error \<Rightarrow> string" where
  "redaction_message Detection = ''Reversible redaction detection failed''"
| "redaction_message Storage = ''Reversible redaction storage failed''"
| "redaction_message InvalidText = ''Reversible redaction text processing failed''"
| "redaction_message AmbiguousToolResult =
     ''Cannot protect legacy tool-result history with unknown payload semantics''"

definition turn_error :: "redaction_error \<Rightarrow> 'b turn_failure" where
  "turn_error e = \<lparr>mt_code = ''reversible_redaction_failed'', mt_message = redaction_message e, mt_upstream = None\<rparr>"

text \<open>\<open>State\<close> of \<open>restore_stream\<close>; the input is what the provider will still send.\<close>

record ('o, 'b) stream_state =
  ss_input :: "('b turn_failure + 'o canonical_event) list"
  ss_trace :: trace
  ss_log :: "observation list"
  ss_restorer :: "'o restorer"
  ss_pending :: "('b turn_failure + 'o canonical_event) list"
  ss_ended :: bool

definition on_delta ::
    "json_lib \<Rightarrow> mapping list \<Rightarrow> 'o stream_delta \<Rightarrow> ('o, 'b) stream_state \<Rightarrow> ('o, 'b) stream_state \<times> redaction_error option" where
  "on_delta jl mappings delta st =
     (case restorer_push jl mappings delta (ss_restorer st) of
        Inl e \<Rightarrow> (st, Some e)
      | Inr (restorer1, deltas) \<Rightarrow>
          let (restorer2, references) = take_restored_references restorer1
          in (st\<lparr>ss_restorer := restorer2, ss_pending := ss_pending st @ map (Inr \<circ> Delta) deltas,
                 ss_trace := trace_record references (ss_trace st)\<rparr>, None))"

definition on_compacted ::
    "json_lib \<Rightarrow> mapping list \<Rightarrow> 'o item list \<Rightarrow> json \<Rightarrow> ('o, 'b) stream_state
      \<Rightarrow> ('o, 'b) stream_state \<times> redaction_error option" where
  "on_compacted jl mappings items wire st =
     (case restore_compaction jl mappings items wire of
        Inl e \<Rightarrow> (st, Some e)
      | Inr (references, items', wire') \<Rightarrow>
          (st\<lparr>ss_trace := trace_record references (ss_trace st),
              ss_pending := ss_pending st @ [Inr (Compacted items' wire')]\<rparr>, None))"

definition on_completed ::
    "json_lib \<Rightarrow> mapping list \<Rightarrow> bool \<Rightarrow> 'o item list \<Rightarrow> ('o, 'b) stream_state
      \<Rightarrow> ('o, 'b) stream_state \<times> redaction_error option" where
  "on_completed jl mappings observed items st =
     (let (restorer1, deltas) = restorer_finish (ss_restorer st);
          (restorer2, references) = take_restored_references restorer1;
          st1 = st\<lparr>ss_restorer := restorer2, ss_trace := trace_record references (ss_trace st)\<rparr>
      in case restore_response jl mappings items of
           Inl e \<Rightarrow> (st1, Some e)
         | Inr ((used, tool_calls), items') \<Rightarrow>
             let again = restored_in_tool_calls mappings tool_calls
             in (st1\<lparr>ss_trace := trace_record used (ss_trace st1),
                     ss_log := ss_log st1 @ (if observed \<and> again \<noteq> [] then [MappingsReused again] else []),
                     ss_pending := ss_pending st1 @ map (Inr \<circ> Delta) deltas @ [Inr (Completed items')]\<rparr>, None))"

text \<open>One turn of the loop with nothing pending.\<close>

definition consume_event :: "json_lib \<Rightarrow> mapping list \<Rightarrow> bool \<Rightarrow> ('o, 'b) stream_state \<Rightarrow> ('o, 'b) stream_state" where
  "consume_event jl mappings observed st =
     (case ss_input st of
        [] \<Rightarrow> st\<lparr>ss_ended := True\<rparr>
      | event # rest \<Rightarrow>
          let st1 = st\<lparr>ss_input := rest\<rparr>;
              (st2, failed) = (case event of
                  Inl e \<Rightarrow> (st1, Some e)
                | Inr (Delta delta) \<Rightarrow> map_prod id (map_option turn_error) (on_delta jl mappings delta st1)
                | Inr (Compacted items wire) \<Rightarrow> map_prod id (map_option turn_error) (on_compacted jl mappings items wire st1)
                | Inr (Completed items) \<Rightarrow> map_prod id (map_option turn_error) (on_completed jl mappings observed items st1))
          in case failed of
               None \<Rightarrow> st2
             | Some e \<Rightarrow> st2\<lparr>ss_pending := [Inl e], ss_ended := True\<rparr>)"

definition stream_weight :: "('o, 'b) stream_state \<Rightarrow> nat" where
  "stream_weight st = length (ss_input st) + (if ss_ended st then 0 else 1)"

lemma consume_input: "ss_input st = e # rest \<Longrightarrow> ss_input (consume_event jl ms observed st) = rest"
  by (auto simp: consume_event_def on_delta_def on_compacted_def on_completed_def Let_def split: option.split sum.split
      canonical_event.split prod.split)

lemma consume_weight: "\<not> ss_ended st \<Longrightarrow> stream_weight (consume_event jl ms observed st) < stream_weight st"
proof (cases "ss_input st")
  case Nil
  assume "\<not> ss_ended st"
  with Nil show ?thesis by (simp add: stream_weight_def consume_event_def)
next
  case (Cons e rest)
  assume "\<not> ss_ended st"
  with consume_input [OF Cons, of jl ms observed] Cons show ?thesis by (simp add: stream_weight_def)
qed

text \<open>What the consumer sees when it asks for the next event, and all it sees.\<close>

function stream_next ::
    "json_lib \<Rightarrow> mapping list \<Rightarrow> bool \<Rightarrow> ('o, 'b) stream_state
      \<Rightarrow> ('b turn_failure + 'o canonical_event) option \<times> ('o, 'b) stream_state" where
  "stream_next jl mappings observed st =
     (case ss_pending st of
        event # pending \<Rightarrow> (Some event, st\<lparr>ss_pending := pending\<rparr>)
      | [] \<Rightarrow> if ss_ended st then (None, st) else stream_next jl mappings observed (consume_event jl mappings observed st))"
  by pat_completeness auto
termination
  by (relation "measure (\<lambda>(_, _, _, st). stream_weight st)") (simp_all add: consume_weight)

declare stream_next.simps [simp del]

lemma stream_next_less:
  "stream_next jl ms observed st = (Some event, st') \<Longrightarrow>
    stream_weight st' < stream_weight st \<or> stream_weight st' = stream_weight st \<and> length (ss_pending st') < length (ss_pending st)"
proof (induction jl ms observed st rule: stream_next.induct)
  case (1 jl ms observed st)
  show ?case
  proof (cases "ss_pending st")
    case Nil
    with 1(2) have "\<not> ss_ended st" "stream_next jl ms observed (consume_event jl ms observed st) = (Some event, st')"
      by (subst (asm) stream_next.simps, simp split: if_splits)+
    with 1(1) [OF Nil] consume_weight [of st jl ms observed] show ?thesis by fastforce
  next
    case (Cons e pending)
    with 1(2) have "st' = st\<lparr>ss_pending := pending\<rparr>" by (subst (asm) stream_next.simps) simp
    with Cons show ?thesis by (simp add: stream_weight_def)
  qed
qed

function deliver ::
    "json_lib \<Rightarrow> mapping list \<Rightarrow> bool \<Rightarrow> ('o, 'b) stream_state
      \<Rightarrow> ('b turn_failure + 'o canonical_event) list \<times> ('o, 'b) stream_state" where
  "deliver jl mappings observed st =
     (case stream_next jl mappings observed st of
        (None, st') \<Rightarrow> ([], st')
      | (Some event, st') \<Rightarrow> map_prod ((#) event) id (deliver jl mappings observed st'))"
  by pat_completeness auto
termination
  by (relation "measures [\<lambda>(_, _, _, st). stream_weight st, \<lambda>(_, _, _, st). length (ss_pending st)]")
    (auto dest!: stream_next_less [OF sym])

declare deliver.simps [simp del]

definition restore_stream ::
    "json_lib \<Rightarrow> mapping list \<Rightarrow> bool \<Rightarrow> ('b turn_failure + 'o canonical_event) list \<Rightarrow> trace
      \<Rightarrow> ('b turn_failure + 'o canonical_event) list \<times> trace \<times> observation list" where
  "restore_stream jl mappings observed input tr =
     (if mappings = [] then (input, tr, [])
      else let (out, st) = deliver jl mappings observed
             \<lparr>ss_input = input, ss_trace = tr, ss_log = [], ss_restorer = restorer_new, ss_pending = [], ss_ended = False\<rparr>
           in (out, ss_trace st, ss_log st))"

text \<open>Pending events come first, then the stream goes on.\<close>

lemma deliver_pending:
  "deliver jl ms observed st = map_prod ((@) (ss_pending st)) id (deliver jl ms observed (st\<lparr>ss_pending := []\<rparr>))"
proof (induction "ss_pending st" arbitrary: st)
  case Nil
  then have same: "st\<lparr>ss_pending := []\<rparr> = st" by (cases st) simp
  show ?case unfolding same Nil [symmetric] by (simp add: map_prod_def)
next
  case (Cons e pending)
  have "stream_next jl ms observed st = (Some e, st\<lparr>ss_pending := pending\<rparr>)"
    by (subst stream_next.simps) (simp add: Cons(2) [symmetric])
  then have "deliver jl ms observed st = map_prod ((#) e) id (deliver jl ms observed (st\<lparr>ss_pending := pending\<rparr>))"
    by (subst deliver.simps) simp
  also have "deliver jl ms observed (st\<lparr>ss_pending := pending\<rparr>)
      = map_prod ((@) pending) id (deliver jl ms observed (st\<lparr>ss_pending := []\<rparr>))"
    using Cons(1) [of "st\<lparr>ss_pending := pending\<rparr>"] by simp
  finally show ?case by (simp add: Cons(2) [symmetric] map_prod_def split_beta)
qed

lemma deliver_consume:
  assumes "ss_pending st = []" "\<not> ss_ended st"
  shows "deliver jl ms observed st = deliver jl ms observed (consume_event jl ms observed st)"
  by (subst (1 2) deliver.simps, subst stream_next.simps) (simp add: assms)

lemma deliver_ended: "ss_pending st = [] \<Longrightarrow> ss_ended st \<Longrightarrow> deliver jl ms observed st = ([], st)"
  by (subst deliver.simps, subst stream_next.simps) simp

lemma deliver_failed:
  assumes "ss_pending st = [Inl e]" "ss_ended st"
  shows "deliver jl ms observed st = ([Inl e], st\<lparr>ss_pending := []\<rparr>)"
  by (subst deliver_pending) (simp add: assms deliver_ended)

section \<open>What a client receives\<close>

definition stream_open :: "json_lib \<Rightarrow> mapping list \<Rightarrow> channels \<Rightarrow> (stream_field \<Rightarrow> ustr) \<Rightarrow> ('o, 'b) stream_state \<Rightarrow> bool" where
  "stream_open jl ms ch shown st \<longleftrightarrow>
     ss_pending st = [] \<and> \<not> ss_ended st \<and> tracks (json_strings.truncate jl) ms (ss_restorer st) ch shown"

text \<open>A response whose deltas were \<open>deltas\<close> and whose items are \<open>items\<close>, restored.\<close>

definition response_restored ::
    "json_lib \<Rightarrow> mapping list \<Rightarrow> channels \<Rightarrow> (stream_field \<Rightarrow> ustr) \<Rightarrow> 'o stream_delta list \<Rightarrow> 'o item list
      \<Rightarrow> ('b turn_failure + 'o canonical_event) list \<Rightarrow> trace \<Rightarrow> bool" where
  "response_restored jl ms ch shown deltas items out tr \<longleftrightarrow>
     (\<exists>shown_deltas items' used tool_calls.
        out = map (Inr \<circ> Delta) shown_deltas @ [Inr (Completed items')]
        \<and> (\<forall>k. shown k @ said k shown_deltas = concat (map (restored_run (json_strings.truncate jl) ms k)
              (ch_runs (close (\<lambda>_. True) (fold (channels_step jl) deltas ch)) k)))
        \<and> restore_response jl ms items = Inr ((used, tool_calls), items') \<and> used \<subseteq> tr_references tr)"

definition stream_failed :: "('b turn_failure + 'o canonical_event) list \<Rightarrow> bool" where
  "stream_failed out \<longleftrightarrow> (\<exists>shown_deltas e. out = map (Inr \<circ> Delta) shown_deltas @ [Inl e])"

lemma response_restored_Cons:
  assumes "response_restored jl ms (channels_step jl d ch) (\<lambda>k. shown k @ said k ds) deltas items out tr"
  shows "response_restored jl ms ch shown (d # deltas) items (map (Inr \<circ> Delta) ds @ out) tr"
proof -
  from assms obtain ds' items' used calls where r: "out = map (Inr \<circ> Delta) ds' @ [Inr (Completed items')]"
      "\<forall>k. (shown k @ said k ds) @ said k ds' = concat (map (restored_run (json_strings.truncate jl) ms k)
              (ch_runs (close (\<lambda>_. True) (fold (channels_step jl) (d # deltas) ch)) k))"
      "restore_response jl ms items = Inr ((used, calls), items')" "used \<subseteq> tr_references tr"
    unfolding response_restored_def by (auto simp del: append_assoc)
  have "map (Inr \<circ> Delta) ds @ out = map (Inr \<circ> Delta) (ds @ ds') @ [Inr (Completed items')]" by (simp add: r(1))
  moreover have "\<forall>k. shown k @ said k (ds @ ds') = concat (map (restored_run (json_strings.truncate jl) ms k)
              (ch_runs (close (\<lambda>_. True) (fold (channels_step jl) (d # deltas) ch)) k))"
    using r(2) by simp
  ultimately show ?thesis unfolding response_restored_def using r(3,4) by blast
qed

lemma stream_failed_Cons: "stream_failed out \<Longrightarrow> stream_failed (map (Inr \<circ> Delta) ds @ out)"
  unfolding stream_failed_def by (metis append_assoc map_append)

lemma restorer_push_tracks:
  assumes "tracks (json_strings.truncate jl) ms rst ch shown" "\<forall>m \<in> set ms. mp_secret m \<noteq> []"
    and "restorer_push jl ms d rst = Inr (rst', ds)"
  shows "tracks (json_strings.truncate jl) ms rst' (channels_step jl d ch) (\<lambda>k. shown k @ said k ds)"
proof (cases "delta_field d")
  case None
  with assms push_structural_tracks [OF assms(1) None] show ?thesis by (simp add: restorer_push_def)
next
  case (Some key)
  with assms push_readable_tracks [OF assms(1) Some assms(2)] show ?thesis by (simp add: restorer_push_def)
qed

lemma restorer_finish_said:
  assumes "tracks js ms rst ch shown" "restorer_finish rst = (rst', ds)"
  shows "shown k @ said k ds = concat (map (restored_run js ms k) (ch_runs (close (\<lambda>_. True) ch) k))"
proof -
  obtain rst1 where fl: "flush_where (\<lambda>_. True) rst = (rst1, ds)"
    using assms(2) by (cases "flush_where (\<lambda>_. True) rst") (simp add: restorer_finish_def)
  let ?ch = "close (\<lambda>_. True) ch"
  have "tracks js ms rst1 ?ch (\<lambda>k. shown k @ said k ds)" by (rule flush_tracks(1) [OF assms(1) fl])
  then have field: "tracks_field js ms (map_of (rs_fields rst1) k) ?ch k (shown k @ said k ds)"
    unfolding tracks_def by blast
  moreover have "map_of (rs_fields rst1) k = None"
    using tracks_field_dom [OF field] by (simp add: close_def)
  ultimately show ?thesis by (simp add: tracks_field_def told_def)
qed

lemma consume_delta:
  assumes "stream_open jl ms ch shown st" "\<forall>m \<in> set ms. mp_secret m \<noteq> []" "ss_input st = Inr (Delta d) # rest"
  obtains ds st' where "stream_open jl ms (channels_step jl d ch) (\<lambda>k. shown k @ said k ds) st'" "ss_input st' = rest"
      "deliver jl ms observed st = map_prod ((@) (map (Inr \<circ> Delta) ds)) id (deliver jl ms observed st')"
    | e st' where "deliver jl ms observed st = ([Inl e], st')"
proof (cases "restorer_push jl ms d (ss_restorer st)")
  case (Inl e)
  let ?st = "st\<lparr>ss_input := rest, ss_pending := [Inl (turn_error e)], ss_ended := True\<rparr>"
  have "consume_event jl ms observed st = ?st" by (simp add: consume_event_def assms(3) on_delta_def Inl)
  then have "deliver jl ms observed st = deliver jl ms observed ?st"
    using assms(1) by (simp add: deliver_consume stream_open_def)
  then show ?thesis by (intro that(2)) (simp add: deliver_failed)
next
  case (Inr x)
  obtain rst ds where x: "x = (rst, ds)" by (cases x)
  let ?st = "st\<lparr>ss_input := rest, ss_restorer := rst\<lparr>rs_used := {}\<rparr>, ss_trace := trace_record (rs_used rst) (ss_trace st)\<rparr>"
  have pend: "ss_pending st = []" "\<not> ss_ended st" using assms(1) by (simp_all add: stream_open_def)
  have "consume_event jl ms observed st = ?st\<lparr>ss_pending := map (Inr \<circ> Delta) ds\<rparr>"
    by (simp add: consume_event_def assms(3) on_delta_def Inr x take_restored_references_def pend)
  then have "deliver jl ms observed st = map_prod ((@) (map (Inr \<circ> Delta) ds)) id (deliver jl ms observed (?st\<lparr>ss_pending := []\<rparr>))"
    using pend deliver_pending [of jl ms observed "?st\<lparr>ss_pending := map (Inr \<circ> Delta) ds\<rparr>"] by (simp add: deliver_consume)
  moreover have "stream_open jl ms (channels_step jl d ch) (\<lambda>k. shown k @ said k ds) (?st\<lparr>ss_pending := []\<rparr>)"
    using assms(1,2) Inr x restorer_push_tracks [of jl ms "ss_restorer st" ch shown d rst ds] pend by (simp add: stream_open_def)
  ultimately show ?thesis by (intro that(1)) simp_all
qed

lemma deliver_exhausted:
  assumes "ss_pending st = []" "ss_input st = []"
  shows "fst (deliver jl ms observed st) = []" "ss_trace (snd (deliver jl ms observed st)) = ss_trace st"
proof -
  have "fst (deliver jl ms observed st) = [] \<and> ss_trace (snd (deliver jl ms observed st)) = ss_trace st"
  proof (cases "ss_ended st")
    case False
    then have "deliver jl ms observed st = deliver jl ms observed (st\<lparr>ss_ended := True\<rparr>)"
      using assms by (simp add: deliver_consume consume_event_def)
    then show ?thesis using assms by (simp add: deliver_ended)
  qed (simp add: deliver_ended assms)
  then show "fst (deliver jl ms observed st) = []" "ss_trace (snd (deliver jl ms observed st)) = ss_trace st" by blast+
qed

lemma consume_response:
  assumes "stream_open jl ms ch shown st" "ss_input st = [Inr (Completed items)]" "deliver jl ms observed st = (out, st')"
  shows "response_restored jl ms ch shown [] items out (ss_trace st') \<or> stream_failed out"
proof -
  have pend: "ss_pending st = []" "\<not> ss_ended st" and tr: "tracks (json_strings.truncate jl) ms (ss_restorer st) ch shown"
    using assms(1) by (simp_all add: stream_open_def)
  obtain rst ds where fin: "restorer_finish (ss_restorer st) = (rst, ds)" by (cases "restorer_finish (ss_restorer st)")
  let ?st1 = "st\<lparr>ss_input := [], ss_restorer := rst\<lparr>rs_used := {}\<rparr>, ss_trace := trace_record (rs_used rst) (ss_trace st)\<rparr>"
  show ?thesis
  proof (cases "restore_response jl ms items")
    case (Inl e)
    let ?st = "?st1\<lparr>ss_pending := [Inl (turn_error e)], ss_ended := True\<rparr>"
    have "consume_event jl ms observed st = ?st"
      by (simp add: consume_event_def assms(2) on_completed_def fin take_restored_references_def Inl)
    with pend assms(3) have "out = [Inl (turn_error e)]" by (simp add: deliver_consume deliver_failed)
    then show ?thesis by (auto simp: stream_failed_def)
  next
    case (Inr x)
    obtain used calls items' where x: "x = ((used, calls), items')" by (cases x) auto
    let ?log = "ss_log st @ (if observed \<and> restored_in_tool_calls ms calls \<noteq> [] then [MappingsReused (restored_in_tool_calls ms calls)] else [])"
    let ?st = "?st1\<lparr>ss_trace := trace_record used (ss_trace ?st1), ss_log := ?log\<rparr>"
    let ?pending = "map (Inr \<circ> Delta) ds @ [Inr (Completed items')]"
    have "consume_event jl ms observed st = ?st\<lparr>ss_pending := ?pending\<rparr>"
      by (simp add: consume_event_def assms(2) on_completed_def fin take_restored_references_def Inr x pend Let_def)
    then have run: "deliver jl ms observed st = map_prod ((@) ?pending) id (deliver jl ms observed (?st\<lparr>ss_pending := []\<rparr>))"
      using pend deliver_pending [of jl ms observed "?st\<lparr>ss_pending := ?pending\<rparr>"] by (simp add: deliver_consume)
    with assms(3) deliver_exhausted [of "?st\<lparr>ss_pending := []\<rparr>" jl ms observed]
    have "out = ?pending" "ss_trace st' = trace_record used (trace_record (rs_used rst) (ss_trace st))"
      by (auto simp: map_prod_def split_beta)
    with restorer_finish_said [OF tr fin] Inr x have "response_restored jl ms ch shown [] items out (ss_trace st')"
      unfolding response_restored_def by (intro exI [of _ ds] exI [of _ items'] exI [of _ used] exI [of _ calls]) (simp add: trace_record_def)
    then show ?thesis ..
  qed
qed

lemma deliver_response:
  assumes "\<forall>m \<in> set ms. mp_secret m \<noteq> []"
  shows "stream_open jl ms ch shown st \<Longrightarrow> ss_input st = map (Inr \<circ> Delta) deltas @ [Inr (Completed items)] \<Longrightarrow>
    deliver jl ms observed st = (out, st') \<Longrightarrow>
    response_restored jl ms ch shown deltas items out (ss_trace st') \<or> stream_failed out"
proof (induction deltas arbitrary: ch shown st out)
  case Nil
  then show ?case by (intro consume_response) simp_all
next
  case (Cons d deltas)
  from Cons.prems(2) have input: "ss_input st = Inr (Delta d) # map (Inr \<circ> Delta) deltas @ [Inr (Completed items)]" by simp
  from Cons.prems(1) assms input show ?case
  proof (cases rule: consume_delta [where observed = observed])
    case (1 ds st1)
    obtain out1 where run: "deliver jl ms observed st1 = (out1, st')" and out: "out = map (Inr \<circ> Delta) ds @ out1"
      using 1(3) Cons.prems(3) by (cases "deliver jl ms observed st1") auto
    from Cons.IH [OF 1(1,2) run] show ?thesis
      unfolding out using response_restored_Cons stream_failed_Cons by blast
  next
    case (2 e st1)
    with Cons.prems(3) have "out = [Inl e]" by simp
    then show ?thesis by (auto simp: stream_failed_def)
  qed
qed

text \<open>
  C7: The stream of a response ends, and the client gets one of two things: in every field the
  runs that the provider sent, each restored at once, followed by the restored response, with every
  restored reference recorded; or events that end in an error, its only one.
\<close>

theorem delivered_stream:
  fixes out :: "('b turn_failure + 'o canonical_event) list"
  assumes "ms \<noteq> []" "\<forall>m \<in> set ms. mp_secret m \<noteq> []"
    and "restore_stream jl ms observed (map (Inr \<circ> Delta) deltas @ [Inr (Completed items)]) tr = (out, tr', log)"
  shows "(\<exists>shown items' used tool_calls.
        out = map (Inr \<circ> Delta) shown @ [Inr (Completed items')]
        \<and> (\<forall>k. said k shown = concat (map (restored_run (json_strings.truncate jl) ms k) (field_runs jl deltas k)))
        \<and> restore_response jl ms items = Inr ((used, tool_calls), items') \<and> used \<subseteq> tr_references tr')
    \<or> (\<exists>shown e. out = map (Inr \<circ> Delta) shown @ [Inl e])"
proof -
  let ?st = "\<lparr>ss_input = map (Inr \<circ> Delta) deltas @ [Inr (Completed items)], ss_trace = tr, ss_log = [],
    ss_restorer = restorer_new, ss_pending = [], ss_ended = False\<rparr> :: ('o, 'b) stream_state"
  obtain st' where run: "deliver jl ms observed ?st = (out, st')" and tr': "ss_trace st' = tr'"
    using assms(1,3) by (auto simp: restore_stream_def split: prod.splits)
  have "tracks (json_strings.truncate jl) ms restorer_new channels_new (\<lambda>_. [])"
    by (simp add: tracks_def tracks_field_def told_def restorer_new_def channels_new_def)
  then have "stream_open jl ms channels_new (\<lambda>_. []) ?st" by (simp add: stream_open_def)
  from deliver_response [OF assms(2) this _ run] show ?thesis
    by (simp add: response_restored_def stream_failed_def field_runs_def tr')
qed

text \<open>The deltas of the sample, and the response that they make up.\<close>

definition sample_events :: "(unit turn_failure + unit canonical_event) list" where
  "sample_events = map (Inr \<circ> Delta) sample_deltas @ [Inr (Completed [message Assistant redacted_sample])]"

lemma sample_stream_delivered: "list_all (\<lambda>x. \<not> isl x) (fst (restore_stream stream_lib [sample_mapping] True sample_events no_trace))"
  by code_simp

lemma sample_response_restored:
  "restore_response stream_lib [sample_mapping] [message Assistant redacted_sample]
     = Inr (({mp_reference sample_mapping}, []), [message Assistant sample_text])"
  by (simp add: restore_response_def message_def item_text_def item_content_text_def origin_of_def item_location_def
      with_source_def encoded_kind_def traverse_opt_def write_surface_def apply_write_def noting_calls_def replacing_def
      sample_restore Let_def then_map_def cow_def)

theorem delivered_stream_witness:
  "\<exists>shown tr log. restore_stream stream_lib [sample_mapping] True sample_events no_trace
      = (map (Inr \<circ> Delta) shown @ [Inr (Completed [message Assistant sample_text])], tr, log)
    \<and> said (0, Some 0, Some 0) shown = ascii ''key=sk-proj-Qz8Xv2Lm!''
    \<and> said (5, Some 2, None) shown = json_member (mp_secret sample_mapping)
    \<and> mp_reference sample_mapping \<in> tr_references tr"
proof -
  obtain out tr log where run: "restore_stream stream_lib [sample_mapping] True sample_events no_trace = (out, tr, log)"
    by (cases "restore_stream stream_lib [sample_mapping] True sample_events no_trace") auto
  have "\<forall>m \<in> set [sample_mapping]. mp_secret m \<noteq> []" using sample_strong by simp
  from delivered_stream [OF _ this run [unfolded sample_events_def]] sample_stream_delivered run obtain shown items' used calls where
    r: "out = map (Inr \<circ> Delta) shown @ [Inr (Completed items')]"
      "\<forall>k. said k shown = concat (map (restored_run (json_strings.truncate stream_lib) [sample_mapping] k) (field_runs stream_lib sample_deltas k))"
      "restore_response stream_lib [sample_mapping] [message Assistant redacted_sample] = Inr ((used, calls), items')"
      "used \<subseteq> tr_references tr"
    by (auto simp: list_all_append)
  from r(2) have "said (0, Some 0, Some 0) shown = ascii ''key=sk-proj-Qz8Xv2Lm!''"
    "said (5, Some 2, None) shown = json_member (mp_secret sample_mapping)"
    by (simp_all add: sample_field_runs sample_restored_runs)
  with run r(1,3,4) sample_response_restored show ?thesis by auto
qed

end
