(* ===== verification/Spec2Isabelle.thy ===== *)
theory Spec2Isabelle
  imports ProtocolIds RouteDispositions RouteMachine RouteProgress RouteSelection RpmWaiting
    PricingCache CacheAffinity RetryIdentity AddressPolicy Cch Proto
    SendEligibility PrincipalAdmission Identifier CancellationToken RedactionProtect
begin

text \<open>
  Verification development of the Stravia platform's backend, the Rust workspace under
  \<open>src/backend/crates\<close>. Stravia is a gateway for language models: a request names a route,
  a route has targets (a model at a provider), and the gateway chooses a target, sends the
  request in the target's protocol, and on failure retries or goes on to the next target.
  Modelled are the decision parts: authenticating a client and limiting its requests, choosing
  and retrying targets under concurrent requests, admission under a rate limit and the last
  check before a send, cancellation, the protection of credentials in requests and their
  restoration in responses, the caches consulted on the way, the identity of a
  retried request, the errors a client sees, and self-contained routines of the vendor adapters and of web access that parse,
  hash or classify bytes.

  \<^bold>\<open>How a request goes through the model.\<close> \<open>Security\<close> authenticates the secret of its
  headers and \<open>PrincipalAdmission\<close> admits it under the limit of its key. \<open>RouteSelection\<close> turns a route and the evidence
  about it (provider models, usage, prices from \<open>PricingCache\<close>, the preferred target of
  \<open>CacheAffinity\<close>, parent evidence) into an attempt policy or an error. \<open>RouteSelector\<close>
  drives the policy: \<open>next_healthy\<close> offers a target and writes a reservation into the state
  of \<open>RoutePolicy\<close>, which all requests share; \<open>SendEligibility\<close> rereads the
  configuration and \<open>RpmAdmission\<close> admits or delays the send;
  \<open>policy_record_failure\<close> and \<open>record_success\<close> report the result. \<open>RouteMachine\<close> interleaves
  the operations of any number of requests. With credential protection on, \<open>protect\<close>
  replaces the secrets it detects or knows (\<open>MappingStore\<close>) by references before the request leaves, and
  \<open>restore_stream\<close> puts them back in the response.

  \<^bold>\<open>Theories.\<close> Paths are relative to \<open>src/backend/crates\<close>.
  \<^item> \<open>Prelude\<close>, \<open>F64\<close>: Rust's integers, durations, results, iterators, strings and doubles
    as far as the modelled code uses them. \<open>F64\<close> rounds exactly; it has no signed zero.
  \<^item> \<open>Thinking\<close>, \<open>ProtocolIds\<close>: thinking levels and controls
    (\<open>stravia-runtime-contract/src/thinking.rs\<close>, \<open>stravia-core/src/thinking.rs\<close>) and the
    protocol suites and endpoints (\<open>protocol/ids.rs\<close>).
  \<^item> \<open>RouteTypes\<close>, \<open>RoutePolicy\<close>, \<open>RouteSelector\<close>: the data, the shared state and the attempt
    policy of \<open>stravia-core/src/router/selector.rs\<close>. \<open>RoutePolicyLaws\<close> shows the circuit
    breaker (epochs, when it opens, late results), \<open>RouteSelectorLaws\<close> the order and
    completeness of a selection and that a dropped one leaves no trace,
    \<open>RouteDispositions\<close> the candidates of a new policy and what a failure leads to,
    \<open>RouteMachine\<close> the invariants of all interleavings, \<open>RouteProgress\<close> that a policy ends
    and that an open circuit recovers.
  \<^item> \<open>RouteSelection\<close>: \<open>router/selection.rs\<close>, with the route record (\<open>db/models.rs\<close>), route
    lookup (\<open>router/mod.rs\<close>, \<open>router/matcher.rs\<close>), parent evidence
    (\<open>generation_chain/continuation.rs\<close>) and dollar prices (\<open>provider_models.rs\<close>,
    \<open>pricing.rs\<close>).
  \<^item> \<open>RpmConfig\<close>, \<open>RpmAdmission\<close>: the settings and the admission of \<open>stravia-core/src/rpm\<close>;
    a panic is \<open>None\<close>. \<open>SendWindow\<close> is a locale, what a sliding window of sends promises;
    \<open>RpmLaws\<close> interprets it with the model's operations and derives the limit, the exact
    retry instant and the candidate filter. \<open>RpmWaiting\<close> follows the waits of all roots.
  \<^item> \<open>SendEligibility\<close>: one pass of the admission loop of \<open>rpm/runtime.rs\<close> with the check of
    route, key, provider and provider model before it (\<open>provider_models.rs\<close>,
    \<open>model_turn/mod.rs\<close>, \<open>stravia-vendor-sdk/src/descriptor.rs\<close>): a request that is let go
    passed every guard.
  \<^item> \<open>GatewayErrors\<close>, \<open>Security\<close>: the error taxonomy of \<open>stravia-core/src/error.rs\<close> with its
    rendering, and the credentials of \<open>proxy/security.rs\<close>: a principal is handed out exactly
    for an enabled, unexpired key.
  \<^item> \<open>PrincipalAdmission\<close>: the limit of an API key (\<open>stravia-core/src/admission.rs\<close>), the second
    interpretation of \<open>SendWindow\<close>; the advertised Retry-After is exact.
  \<^item> \<open>CancellationToken\<close>: the cancellation tree of
    \<open>stravia-runtime-contract/src/cancellation.rs\<close>. Every atomic access is a step and threads
    interleave freely. The invariants give which tokens are cancelled when the calls are over
    (the registered descendants of cancelled ones; a child whose last strong reference is
    gone drops out with what is below it); the measure \<open>work\<close> bounds every run.
  \<^item> \<open>Identifier\<close>: \<open>stravia-runtime-contract/src/identifier.rs\<close>; the encoding of a digest is
    its base 26 notation.
  \<^item> \<open>RuntimeCache\<close>: the local backend of \<open>runtime_cache.rs\<close> and the locale of a cache that
    may forget but does not invent, interpreted for every domain. Its clients \<open>PricingCache\<close>
    (lookups interleaved with invalidations) and \<open>CacheAffinity\<close> (\<open>router/cache_affinity.rs\<close>)
    rest on the interpretation.
  \<^item> \<open>RetryIdentity\<close>: the serializer of
    \<open>stravia-runtime-contract/src/protocol/ir/canonical/retry.rs\<close>. The specification is a
    canonical form with multisets; equal digests are equal forms unless SHA-256 collides on
    the inputs hashed.
  \<^item> \<open>RedactionText\<close>: \<open>stravia-credential-protection/src\<close>, the syntax of references
    (\<open>marker.rs\<close>), the strength of secrets (\<open>strength.rs\<close>), the rules in scope (\<open>policy.rs\<close>) and
    \<open>replace\<close> (\<open>text.rs\<close>). A text is cut into pieces, kept or swapped; redaction is
    reversible and leaves no strong secret.
  \<^item> \<open>RedactionStream\<close>: the reference and JSON scanners of \<open>stream.rs\<close>. Restoring fragments is
    restoring the whole, for texts and for the string values of a JSON document.
  \<^item> \<open>RedactionSurface\<close>, \<open>RedactionAccount\<close>: the traversals of \<open>text.rs\<close> over requests, items,
    blocks, tool arguments and wire values, with redaction and restoration as visitors. The
    locale \<open>accounting\<close> carries what holds of one visit over to a traversal; its
    interpretations show that redaction and restoration report everything they change.
    \<open>RedactionRead\<close> is the same surface read for detection; a third interpretation shows that
    reading changes nothing and gives every text an origin.
  \<^item> \<open>RedactionRestorer\<close>: \<open>StreamRestorer\<close> of \<open>stream.rs\<close>, a scanner per field of a streamed
    response. Its specification cuts the text of a field into runs and restores each at once.
  \<^item> \<open>MappingStore\<close>: the table of mappings (\<open>store.rs\<close>) with interning, publishing and the
    retention scan, as transactions that interleave. Deletion is safe in every interleaving and
    complete when scans do not overlap; \<open>overlapping_scans_strand\<close> shows what happens when they
    do. The locale \<open>mapping_store\<close> is what a client relies on.
  \<^item> \<open>RedactionProtect\<close>: \<open>lib.rs\<close>, the protection of a request with what it tells the observer and
    records in the trace, and the stream of events that a client receives. It rests on the
    interpretation of \<open>mapping_store\<close>, on \<open>RedactionRead\<close> (no place the detector reports is out of
    range) and on the invariant of \<open>RedactionRestorer\<close>.
  \<^item> \<open>IpAddr\<close>, \<open>AddressPolicy\<close>: \<open>stravia-web-access/src/address_policy.rs\<close>, the parts of
    \<open>std::net\<close> it uses, and the table of CIDR blocks it decides.
  \<^item> \<open>Xxhash\<close>, \<open>Cch\<close>: XXH64 and the request digest of \<open>stravia-vendor-claudecode\<close>
    (\<open>xxhash.rs\<close>, \<open>request.rs\<close>). The streaming hasher refines the hash of the whole input;
    the digest slices in range and hashes exactly the bytes outside the excluded spans.
  \<^item> \<open>Proto\<close>: the protobuf primitives of
    \<open>stravia-vendor-devin/src/codec/devin_connect/proto.rs\<close>: round trip, bounds, termination.

  \<^bold>\<open>Conventions.\<close> Words where bits matter (\<open>u8\<close> to \<open>u64\<close>); counters and clocks are natural
  numbers with the saturation or wrap-around of the source written out; \<open>usize\<close> is 64 bits
  wide and arithmetic wraps as in a release build. A \<open>Result\<close> is a sum, \<open>Inl\<close> the error; a
  slice or index that could panic yields \<open>None\<close>. A string is the list of its bytes; in the
  \<open>Redaction\<close> theories a text is the list of its Unicode scalar values, and positions count
  those (the code's slices lie on character boundaries). \<open>Cow::Borrowed\<close> is \<open>None\<close>.
  \<open>HashMap\<close>s are maps. A mutex makes the operation that holds it one step. Where an
  operation reads the clock several times in one critical section the model reads it once.

  \<^bold>\<open>Bounds and fuel.\<close> No definition needs fuel except \<open>strip_fuel\<close> in \<open>Prelude\<close>, which is
  given the length of the string it shortens; loops are recursion with a measure (bytes
  left, candidates left, the value of a varint). \<open>replace_loop\<close> is a partial function, since an
  empty needle would not advance it; \<open>replace_pieces\<close> shows that it returns on the candidates
  the code builds. The invariants of \<open>RouteMachine\<close> hold while
  the epoch counter stays below \<open>2^64 - 1\<close>, one increment per opened circuit or probe. Hash
  and parser theorems bound a payload by \<open>2^64\<close> bytes, as its type does.

  \<^bold>\<open>Arguments of the model.\<close> TinyUFO (which entries survive), \<open>DefaultHasher\<close>, SHA-256,
  \<open>serde_json\<close> (the text of a string and back, values and back, the length of a serialised
  request), \<open>rust_decimal\<close>,
  the \<open>url\<close> parser, the date parsers of \<open>chrono\<close>, the status type and header texts of the
  \<open>http\<close> crate, the redaction of texts, the key store, the storage, the plugin's descriptor,
  and the random jitter sample. Tokio's \<open>Notify\<close> is modelled by its documentation:
  \<open>notify_waiters\<close> wakes the waiters that exist when it is called. None is assumed more than
  its documentation says; hypotheses on them stand in the theorems that need them.

  \<^bold>\<open>Not modelled.\<close> Storage and migrations (SQL) but for the table of mappings, the protocol codecs, the generation chain
  with its replay lookup, agents, tools, MCP, media and search, the proxy with its stream
  projection, the detection of new credentials (a rule set run by a regular expression
  library), interaction observation, the admin API, the plugin runtime and the
  applications: input and output, generated code, or orchestration of such. The Redis
  backend of the runtime cache is a Lua script run by the server; only the weight and the
  field sent to it are modelled. The vendor adapters beyond the routines above are
  not modelled, the assembly of the Claude Code body among them: \<open>Cch\<close> starts from its bytes.
  Of a model's cost only the base prices are; tiers, peak hours and billing are left out.
\<close>

end
